(* ===== verification/Prelude.thy ===== *)
theory Prelude
  imports Main "HOL-Library.Word" "HOL-Library.Signed_Division" "HOL-Library.Monad_Syntax"
begin

text \<open>
  Shared vocabulary of the development: the C machine integers that the sources use, C's
  truncating remainder, range-checked arithmetic (a signed overflow is undefined behaviour in C
  and is the value \<open>None\<close> here), byte buffers with checked reads and writes (an access outside
  the buffer is \<open>None\<close> as well), and the few functions of the C library that several components
  call (\<open>memcpy\<close>, \<open>memcmp\<close>, \<open>strtok\<close>, \<open>strchr\<close>, \<open>atoi\<close> and the \<open>%d\<close> conversion of \<open>printf\<close>).
  The generic lemmas are collected in \<open>buf_simps\<close> and \<open>cstr_simps\<close>.
\<close>

unbundle bit_operations_syntax

named_theorems buf_simps \<open>reads, writes and comparisons of byte buffers\<close>
named_theorems cstr_simps \<open>C strings: tokens, separators, decimal conversions\<close>

type_synonym byte = "8 word"

text \<open>The error number of an interrupted call.\<close>

definition EINTR :: int where "EINTR = 4"

text \<open>The signals and the error numbers that several parts use, as on Linux.\<close>

abbreviation (input) SIGHUP :: int where "SIGHUP \<equiv> 1"
abbreviation (input) SIGINT :: int where "SIGINT \<equiv> 2"
abbreviation (input) SIGKILL :: int where "SIGKILL \<equiv> 9"
abbreviation (input) SIGUSR1 :: int where "SIGUSR1 \<equiv> 10"
abbreviation (input) SIGUSR2 :: int where "SIGUSR2 \<equiv> 12"
abbreviation (input) SIGALRM :: int where "SIGALRM \<equiv> 14"
abbreviation (input) SIGTERM :: int where "SIGTERM \<equiv> 15"
abbreviation (input) SIGCLD :: int where "SIGCLD \<equiv> 17"
abbreviation (input) SIGCONT :: int where "SIGCONT \<equiv> 18"
abbreviation (input) SIGSTOP :: int where "SIGSTOP \<equiv> 19"
abbreviation (input) EPERM :: int where "EPERM \<equiv> 1"
abbreviation (input) ESRCH :: int where "ESRCH \<equiv> 3"
abbreviation (input) EEXIST :: int where "EEXIST \<equiv> 17"

section \<open>Integers\<close>

definition int_fits :: "nat \<Rightarrow> int \<Rightarrow> bool" where
  "int_fits w x \<longleftrightarrow> - (2 ^ (w - 1)) \<le> x \<and> x < 2 ^ (w - 1)"

definition checked :: "nat \<Rightarrow> int \<Rightarrow> int option" where
  "checked w x = (if int_fits w x then Some x else None)"

lemma checked_Some [simp]: "int_fits w x \<Longrightarrow> checked w x = Some x"
  by (simp add: checked_def)

lemma checked_eq_Some: "checked w x = Some y \<longleftrightarrow> y = x \<and> int_fits w x"
  by (auto simp: checked_def)

lemma int_fits_between: "int_fits w a \<Longrightarrow> int_fits w b \<Longrightarrow> a \<le> x \<Longrightarrow> x \<le> b \<Longrightarrow> int_fits w x"
  by (simp add: int_fits_def)

lemma smod_nonneg [simp]: "0 \<le> (a::int) \<Longrightarrow> 0 < b \<Longrightarrow> a smod b = a mod b"
  by (cases "a = 0") (simp_all add: signed_modulo_int_def signed_divide_int_def minus_mult_div_eq_mod)

lemma sdiv_nonneg [simp]: "0 \<le> (a::int) \<Longrightarrow> 0 < b \<Longrightarrow> a sdiv b = a div b"
  by (cases "a = 0") (simp_all add: signed_divide_int_def)

section \<open>Buffers\<close>

text \<open>\<open>memcpy (buf + i, src, n)\<close> and \<open>memcmp (buf + i, src, n) == 0\<close>, with the C library's
  requirement that both regions lie inside their objects.\<close>

definition mem_cpy :: "'a list \<Rightarrow> nat \<Rightarrow> 'a list \<Rightarrow> nat \<Rightarrow> nat \<Rightarrow> 'a list option" where
  "mem_cpy buf i src j n =
     (if i + n \<le> length buf \<and> j + n \<le> length src
      then Some (take i buf @ take n (drop j src) @ drop (i + n) buf) else None)"

definition mem_eq :: "'a list \<Rightarrow> nat \<Rightarrow> 'a list \<Rightarrow> nat \<Rightarrow> nat \<Rightarrow> bool option" where
  "mem_eq buf i src j n =
     (if i + n \<le> length buf \<and> j + n \<le> length src
      then Some (take n (drop i buf) = take n (drop j src)) else None)"

definition buf_get :: "'a list \<Rightarrow> nat \<Rightarrow> 'a option" where
  "buf_get buf i = (if i < length buf then Some (buf ! i) else None)"

definition buf_set :: "'a list \<Rightarrow> nat \<Rightarrow> 'a \<Rightarrow> 'a list option" where
  "buf_set buf i x = (if i < length buf then Some (buf[i := x]) else None)"

lemma buf_get_Some [buf_simps]: "i < length buf \<Longrightarrow> buf_get buf i = Some (buf ! i)"
  by (simp add: buf_get_def)

lemma buf_set_Some [buf_simps]: "i < length buf \<Longrightarrow> buf_set buf i x = Some (buf[i := x])"
  by (simp add: buf_set_def)

lemma mem_cpy_Some [buf_simps]:
  "i + n \<le> length buf \<Longrightarrow> j + n \<le> length src \<Longrightarrow>
   mem_cpy buf i src j n = Some (take i buf @ take n (drop j src) @ drop (i + n) buf)"
  by (simp add: mem_cpy_def)

lemma mem_cpy_length: "mem_cpy buf i src j n = Some b \<Longrightarrow> length b = length buf"
  by (auto simp: mem_cpy_def split: if_splits)

lemma mem_cpy_nth:
  assumes "mem_cpy buf i src j n = Some b" "k < length buf"
  shows "b ! k = (if i \<le> k \<and> k < i + n then src ! (j + (k - i)) else buf ! k)"
proof -
  from assms(1) have n: "i + n \<le> length buf" "j + n \<le> length src"
    and b: "b = take i buf @ take n (drop j src) @ drop (i + n) buf"
    by (auto simp: mem_cpy_def split: if_splits)
  have l: "length (take n (drop j src)) = n" using n by simp
  show ?thesis using assms(2) n l unfolding b by (auto simp: nth_append)
qed

lemma take_drop_eq_iff_nth:
  assumes "i + n \<le> length xs" "j + n \<le> length ys"
  shows "take n (drop i xs) = take n (drop j ys) \<longleftrightarrow> (\<forall>k < n. xs ! (i + k) = ys ! (j + k))"
  using assms by (auto simp: list_eq_iff_nth_eq)

lemma mem_eq_iff [buf_simps]:
  "i + n \<le> length buf \<Longrightarrow> j + n \<le> length src \<Longrightarrow>
   mem_eq buf i src j n = Some (\<forall>k < n. buf ! (i + k) = src ! (j + k))"
  by (simp add: mem_eq_def take_drop_eq_iff_nth)

section \<open>Counting loops\<close>

text \<open>\<open>for (; i < n; i++) if (bad (i)) return i;\<close> : \<open>None\<close> is undefined behaviour in the body,
  \<open>Some None\<close> that the loop ran to its end.\<close>

function for_find :: "(nat \<Rightarrow> bool option) \<Rightarrow> nat \<Rightarrow> nat \<Rightarrow> nat option option" where
  "for_find bad i n =
     (if i < n
      then (case bad i of
              None \<Rightarrow> None
            | Some b \<Rightarrow> if b then Some (Some i) else for_find bad (Suc i) n)
      else Some None)"
  by pat_completeness auto
termination
  by (relation "measure (\<lambda>(bad, i, n). n - i)") auto

declare for_find.simps [simp del]

text \<open>\<open>for (; i < n; i++) buf[i] = val (i);\<close>\<close>

function for_set :: "(nat \<Rightarrow> 'a option) \<Rightarrow> nat \<Rightarrow> nat \<Rightarrow> 'a list \<Rightarrow> 'a list option" where
  "for_set val i n buf =
     (if i < n then do { x \<leftarrow> val i; buf' \<leftarrow> buf_set buf i x; for_set val (Suc i) n buf' }
      else Some buf)"
  by pat_completeness auto
termination
  by (relation "measure (\<lambda>(val, i, n, buf). n - i)") auto

declare for_set.simps [simp del]

lemma for_find_end: "n \<le> i \<Longrightarrow> for_find bad i n = Some None"
  by (subst for_find.simps) simp

lemma for_find_hit: "i < n \<Longrightarrow> bad i = Some True \<Longrightarrow> for_find bad i n = Some (Some i)"
  by (subst for_find.simps) simp

lemma for_find_step: "i < n \<Longrightarrow> bad i = Some False \<Longrightarrow> for_find bad i n = for_find bad (Suc i) n"
  by (subst for_find.simps) simp

lemma for_set_end: "n \<le> i \<Longrightarrow> for_set val i n buf = Some buf"
  by (subst for_set.simps) simp

lemma for_set_step:
  "i < n \<Longrightarrow> val i = Some x \<Longrightarrow> i < length buf \<Longrightarrow>
   for_set val i n buf = for_set val (Suc i) n (buf[i := x])"
  by (subst for_set.simps) (simp add: buf_simps)

lemma for_find_None:
  "(\<And>k. i \<le> k \<Longrightarrow> k < n \<Longrightarrow> bad k = Some False) \<Longrightarrow> for_find bad i n = Some None"
proof (induction "n - i" arbitrary: i)
  case 0
  then show ?case by (simp add: for_find_end)
next
  case (Suc d)
  then have "for_find bad (Suc i) n = Some None" by simp
  with Suc show ?case by (simp add: for_find_step)
qed

lemma for_find_Some:
  assumes "\<And>k. i \<le> k \<Longrightarrow> k < m \<Longrightarrow> bad k = Some False" "i \<le> m" "m < n" "bad m = Some True"
  shows "for_find bad i n = Some (Some m)"
  using assms
proof (induction "m - i" arbitrary: i)
  case 0
  then show ?case by (simp add: for_find_hit)
next
  case (Suc d)
  then have "for_find bad (Suc i) n = Some (Some m)" by simp
  with Suc show ?case by (simp add: for_find_step)
qed

text \<open>With a defined body the loop returns, and its result is the least bad index.\<close>

lemma for_find_total:
  assumes "\<And>k. k < n \<Longrightarrow> bad k = Some (b k)"
  shows "for_find bad 0 n = Some (if \<exists>k < n. b k then Some (LEAST k. k < n \<and> b k) else None)"
proof (cases "\<exists>k < n. b k")
  case True
  define m where "m = (LEAST k. k < n \<and> b k)"
  have m: "m < n \<and> b m" unfolding m_def using True by (rule LeastI_ex)
  have less: "\<not> b k" if "k < m" for k
    using not_less_Least [of k "\<lambda>k. k < n \<and> b k"] that m by (auto simp: m_def)
  have "for_find bad 0 n = Some (Some m)"
    using m less assms by (intro for_find_Some) auto
  with True show ?thesis by (simp add: m_def)
next
  case False
  with assms have "for_find bad 0 n = Some None" by (intro for_find_None) auto
  with False show ?thesis by simp
qed

lemma for_set_total_from:
  assumes "\<And>k. i \<le> k \<Longrightarrow> k < n \<Longrightarrow> val k = Some (v k)" "i \<le> n" "n \<le> length buf"
  shows "for_set val i n buf = Some (take i buf @ map v [i..<n] @ drop n buf)"
  using assms
proof (induction "n - i" arbitrary: i buf)
  case 0
  then show ?case by (simp add: for_set_end)
next
  case (Suc d)
  then have i: "i < n" "i < length buf" by auto
  have "for_set val (Suc i) n (buf[i := v i])
      = Some (take (Suc i) (buf[i := v i]) @ map v [Suc i..<n] @ drop n (buf[i := v i]))"
    using Suc.prems Suc.hyps(2) i by (intro Suc.hyps(1)) auto
  moreover have "take (Suc i) (buf[i := v i]) = take i buf @ [v i]"
    using i by (simp add: take_Suc_conv_app_nth)
  moreover have "[i..<n] = i # [Suc i..<n]" using i by (simp add: upt_conv_Cons)
  ultimately show ?case using i Suc.prems by (simp add: for_set_step)
qed

lemma for_set_total:
  assumes "\<And>k. k < n \<Longrightarrow> val k = Some (v k)" "n \<le> length buf"
  shows "for_set val 0 n buf = Some (map v [0..<n] @ drop n buf)"
  using for_set_total_from [of 0 n val v buf] assms by simp

section \<open>C strings\<close>

text \<open>\<open>strtok\<close>: the saved position is the rest of the string. A call skips leading separators,
  returns \<open>None\<close> when nothing is left, and otherwise returns the token and the text after the one
  separator that it overwrites with a NUL.\<close>

definition strtok :: "string \<Rightarrow> string \<Rightarrow> (string \<times> string) option" where
  "strtok sep s =
     (let s1 = dropWhile (\<lambda>c. c \<in> set sep) s
      in if s1 = [] then None
         else Some (takeWhile (\<lambda>c. c \<notin> set sep) s1, tl (dropWhile (\<lambda>c. c \<notin> set sep) s1)))"

lemma strtok_shrinks: "strtok sep s = Some (t, r) \<Longrightarrow> length r < length s"
proof -
  assume st: "strtok sep s = Some (t, r)"
  define s1 where "s1 = dropWhile (\<lambda>c. c \<in> set sep) s"
  from st have ne: "s1 \<noteq> []" and r: "r = tl (dropWhile (\<lambda>c. c \<notin> set sep) s1)"
    by (auto simp: strtok_def s1_def Let_def split: if_splits)
  have "length s1 \<le> length s" by (simp add: s1_def length_dropWhile_le)
  moreover have "length (dropWhile (\<lambda>c. c \<notin> set sep) s1) \<le> length s1"
    by (rule length_dropWhile_le)
  ultimately show ?thesis using ne r by (cases s1) auto
qed

function strtok_all :: "string \<Rightarrow> string \<Rightarrow> string list" where
  "strtok_all sep s =
     (case strtok sep s of None \<Rightarrow> [] | Some (t, r) \<Rightarrow> t # strtok_all sep r)"
  by pat_completeness auto
termination
  by (relation "measure (\<lambda>(sep, s). length s)") (auto dest: strtok_shrinks)

declare strtok_all.simps [simp del]

lemma strtok_token:
  "strtok sep s = Some (t, r) \<Longrightarrow> t \<noteq> [] \<and> set t \<inter> set sep = {}"
proof -
  assume st: "strtok sep s = Some (t, r)"
  define s1 where "s1 = dropWhile (\<lambda>c. c \<in> set sep) s"
  from st have ne: "s1 \<noteq> []" and t: "t = takeWhile (\<lambda>c. c \<notin> set sep) s1"
    by (auto simp: strtok_def s1_def Let_def split: if_splits)
  have "hd s1 \<notin> set sep" using ne hd_dropWhile s1_def by blast
  then have "t \<noteq> []" using ne t by (cases s1) auto
  moreover have "\<forall>c \<in> set t. c \<notin> set sep" using t by (auto dest: set_takeWhileD)
  ultimately show ?thesis by auto
qed

lemma strtok_all_tokens [cstr_simps]:
  "t \<in> set (strtok_all sep s) \<Longrightarrow> t \<noteq> [] \<and> set t \<inter> set sep = {}"
proof (induction sep s rule: strtok_all.induct)
  case (1 sep s)
  show ?case
  proof (cases "strtok sep s")
    case None
    with "1.prems" show ?thesis by (simp add: strtok_all.simps [of sep s])
  next
    case (Some p)
    obtain u r where p: "p = (u, r)" by (cases p)
    with Some "1.prems" have "t = u \<or> t \<in> set (strtok_all sep r)"
      by (simp add: strtok_all.simps [of sep s])
    then show ?thesis
    proof
      assume "t = u"
      with strtok_token Some p show ?thesis by simp
    next
      assume "t \<in> set (strtok_all sep r)"
      with "1.IH" [OF _ p [symmetric]] Some show ?thesis by simp
    qed
  qed
qed

lemma strtok_append:
  assumes "t \<noteq> []" "set t \<inter> set sep = {}" "c \<in> set sep"
  shows "strtok sep (t @ c # r) = Some (t, r)"
proof -
  have "dropWhile (\<lambda>x. x \<in> set sep) (t @ c # r) = t @ c # r"
    using assms by (cases t) auto
  moreover have "takeWhile (\<lambda>x. x \<notin> set sep) (t @ c # r) = t"
    using assms by (subst takeWhile_append2) auto
  moreover have "dropWhile (\<lambda>x. x \<notin> set sep) (t @ c # r) = c # r"
    using assms by (subst dropWhile_append2) auto
  ultimately show ?thesis using assms(1) by (simp add: strtok_def)
qed

lemma strtok_last:
  assumes "t \<noteq> []" "set t \<inter> set sep = {}"
  shows "strtok sep t = Some (t, [])"
proof -
  have "dropWhile (\<lambda>x. x \<in> set sep) t = t" using assms by (cases t) auto
  moreover have "takeWhile (\<lambda>x. x \<notin> set sep) t = t" using assms by (auto simp: takeWhile_eq_all_conv)
  moreover have "tl (dropWhile (\<lambda>x. x \<notin> set sep) t) = []"
    using assms by (simp add: dropWhile_eq_Nil_conv[THEN iffD2] disjoint_iff)
  ultimately show ?thesis using assms(1) by (simp add: strtok_def)
qed

text \<open>\<open>strchr (s, c)\<close>, overwritten with a NUL: the text before the first \<open>c\<close> and the text after it.\<close>

definition cut_at :: "char \<Rightarrow> string \<Rightarrow> string \<times> string option" where
  "cut_at c s = (takeWhile (\<lambda>x. x \<noteq> c) s, if c \<in> set s then Some (tl (dropWhile (\<lambda>x. x \<noteq> c) s)) else None)"

lemma cut_at_append: "c \<notin> set a \<Longrightarrow> cut_at c (a @ c # b) = (a, Some b)"
  by (simp add: cut_at_def takeWhile_append2 [where xs = a] dropWhile_append2 [where xs = a])
    (auto simp: takeWhile_append dropWhile_append)

lemma cut_at_none: "c \<notin> set a \<Longrightarrow> cut_at c a = (a, None)"
  by (auto simp: cut_at_def takeWhile_eq_all_conv)

lemma cut_at_shrinks: "cut_at c s = (a, Some b) \<Longrightarrow> length b < length s"
proof -
  assume "cut_at c s = (a, Some b)"
  then have "c \<in> set s" "b = tl (dropWhile (\<lambda>x. x \<noteq> c) s)" by (auto simp: cut_at_def split: if_splits)
  then show ?thesis using length_dropWhile_le [of "\<lambda>x. x \<noteq> c" s] by (cases s) auto
qed

text \<open>Joining tokens with one separator character and tokenising again gives the tokens back.\<close>

fun join_with :: "char \<Rightarrow> string list \<Rightarrow> string" where
  "join_with c [] = []"
| "join_with c [t] = t"
| "join_with c (t # u # ts) = t @ c # join_with c (u # ts)"

lemma strtok_all_Nil [cstr_simps]: "strtok_all sep [] = []"
  by (simp add: strtok_all.simps [of sep "[]"] strtok_def)

lemma strtok_all_join [cstr_simps]:
  assumes "\<forall>t \<in> set ts. t \<noteq> [] \<and> set t \<inter> set sep = {}" "c \<in> set sep"
  shows "strtok_all sep (join_with c ts) = ts"
  using assms
proof (induction c ts rule: join_with.induct)
  case (1 c)
  then show ?case by (simp add: cstr_simps)
next
  case (2 c t)
  then show ?case by (simp add: strtok_all.simps [of sep t] strtok_last cstr_simps)
next
  case (3 c t u ts)
  then show ?case
    by (simp add: strtok_all.simps [of sep "t @ c # _"] strtok_append)
qed

text \<open>The loop of the parsers of comma-separated names: every token has to be known, its bits are added to the
  mask. \<open>Inl\<close> is the rest of the string from the first unknown token on.\<close>

function comma_loop :: "(string \<Rightarrow> 32 word option) \<Rightarrow> string \<Rightarrow> 32 word \<Rightarrow> string + 32 word" where
  "comma_loop known s m =
     (let (token, rest) = cut_at (CHR '','') s
      in case known token of
           None \<Rightarrow> Inl s
         | Some bits \<Rightarrow> (case rest of None \<Rightarrow> Inr (m OR bits) | Some r \<Rightarrow> comma_loop known r (m OR bits)))"
  by pat_completeness auto
termination
  by (relation "measure (\<lambda>(known, s, m). length s)") (auto dest: cut_at_shrinks [OF sym])

declare comma_loop.simps [simp del]

definition bits_of :: "(string \<Rightarrow> 32 word option) \<Rightarrow> string list \<Rightarrow> 32 word" where
  "bits_of known ts = foldr (\<lambda>tok m. the (known tok) OR m) ts 0"

lemma comma_loop_join [cstr_simps]:
  assumes "ts \<noteq> []" "\<forall>tok \<in> set ts. CHR '','' \<notin> set tok"
  shows "comma_loop known (join_with (CHR '','') ts) m =
    (if \<forall>tok \<in> set ts. known tok \<noteq> None then Inr (m OR bits_of known ts)
     else Inl (join_with (CHR '','') (dropWhile (\<lambda>tok. known tok \<noteq> None) ts)))"
  using assms
proof (induction "CHR '',''" ts arbitrary: m rule: join_with.induct)
  case (2 tok)
  then show ?case
    by (subst comma_loop.simps) (auto simp: cut_at_none bits_of_def)
next
  case (3 tok u ts)
  then show ?case
    by (subst comma_loop.simps) (auto simp: cut_at_append bits_of_def or.assoc)
qed simp

subsection \<open>Numbers in strings\<close>

text \<open>\<open>%d\<close> of \<open>printf\<close>, and what \<open>atoi\<close> and the \<open>%i\<close> conversion of \<open>sscanf\<close> read. The numbers read are
  mathematical integers; values outside of \<open>int\<close> are not wrapped.\<close>

definition digit_char :: "nat \<Rightarrow> char" where
  "digit_char d = char_of (48 + d)"

fun show_nat :: "nat \<Rightarrow> string" where
  "show_nat n = (if n < 10 then [digit_char n] else show_nat (n div 10) @ [digit_char (n mod 10)])"

declare show_nat.simps [simp del]

definition show_int :: "int \<Rightarrow> string" where
  "show_int i = (if i < 0 then CHR ''-'' # show_nat (nat (- i)) else show_nat (nat i))"

definition digit_val :: "nat \<Rightarrow> char \<Rightarrow> nat option" where
  "digit_val base c =
     (let k = of_char c :: nat;
          v = (if 48 \<le> k \<and> k \<le> 57 then k - 48
               else if 97 \<le> k \<and> k \<le> 102 then k - 87
               else if 65 \<le> k \<and> k \<le> 70 then k - 55 else base)
      in if v < base then Some v else None)"

fun scan_digits :: "nat \<Rightarrow> nat \<Rightarrow> string \<Rightarrow> nat \<times> string" where
  "scan_digits base acc [] = (acc, [])"
| "scan_digits base acc (c # cs) =
     (case digit_val base c of
        Some d \<Rightarrow> scan_digits base (acc * base + d) cs
      | None \<Rightarrow> (acc, c # cs))"

definition is_space :: "char \<Rightarrow> bool" where
  "is_space c \<longleftrightarrow> c = CHR '' '' \<or> (9 \<le> (of_char c :: nat) \<and> (of_char c :: nat) \<le> 13)"

definition scan_sign :: "string \<Rightarrow> bool \<times> string" where
  "scan_sign s = (case s of
      CHR ''-'' # r \<Rightarrow> (True, r) | CHR ''+'' # r \<Rightarrow> (False, r) | _ \<Rightarrow> (False, s))"

definition atoi :: "string \<Rightarrow> int" where
  "atoi s = (let (neg, r) = scan_sign (dropWhile is_space s); n = fst (scan_digits 10 0 r)
             in if neg then - int n else int n)"

definition starts_digit :: "nat \<Rightarrow> string \<Rightarrow> bool" where
  "starts_digit base s = (case s of [] \<Rightarrow> False | c # _ \<Rightarrow> digit_val base c \<noteq> None)"

text \<open>\<open>%i\<close>: base 16 after \<open>0x\<close>, base 8 after \<open>0\<close>, base 10 otherwise. The result is the value and the
  unread rest, or \<open>None\<close> for a matching failure.\<close>

definition scan_unsigned :: "string \<Rightarrow> (nat \<times> string) option" where
  "scan_unsigned r =
     (if r \<noteq> [] \<and> hd r = CHR ''0''
      then if tl r \<noteq> [] \<and> (hd (tl r) = CHR ''x'' \<or> hd (tl r) = CHR ''X'')
           then (if starts_digit 16 (tl (tl r)) then Some (scan_digits 16 0 (tl (tl r))) else None)
           else Some (scan_digits 8 0 r)
      else if starts_digit 10 r then Some (scan_digits 10 0 r) else None)"

definition scan_int :: "string \<Rightarrow> (int \<times> string) option" where
  "scan_int s =
     (let (neg, r) = scan_sign (dropWhile is_space s)
      in map_option (\<lambda>(n, rest). (if neg then - int n else int n, rest)) (scan_unsigned r))"

lemma digit_val_digit_char [simp]: "d < 10 \<Longrightarrow> digit_val 10 (digit_char d) = Some d"
  by (simp add: digit_val_def digit_char_def Let_def)

lemma scan_digits_show [cstr_simps]:
  "scan_digits 10 acc (show_nat n @ rest) = scan_digits 10 (acc * 10 ^ length (show_nat n) + n) rest"
proof (induction n arbitrary: acc rest rule: show_nat.induct)
  case (1 n)
  show ?case
  proof (cases "n < 10")
    case True
    then show ?thesis by (simp add: show_nat.simps [of n])
  next
    case False
    have "scan_digits 10 acc (show_nat n @ rest) =
        scan_digits 10 acc (show_nat (n div 10) @ digit_char (n mod 10) # rest)"
      using False by (simp add: show_nat.simps [of n])
    also have "\<dots> = scan_digits 10 ((acc * 10 ^ length (show_nat (n div 10)) + n div 10) * 10 + n mod 10) rest"
      using "1.IH" [OF False] by simp
    also have "(acc * 10 ^ length (show_nat (n div 10)) + n div 10) * 10 + n mod 10 =
        acc * 10 ^ length (show_nat n) + n"
      using False by (simp add: show_nat.simps [of n] algebra_simps)
    finally show ?thesis .
  qed
qed

lemma scan_digits_stop [cstr_simps]: "\<not> starts_digit b s \<Longrightarrow> scan_digits b acc s = (acc, s)"
  by (cases s) (auto simp: starts_digit_def split: option.splits)

lemma show_nat_hd: "\<exists>d r. show_nat n = digit_char d # r \<and> d < 10 \<and> (0 < n \<longrightarrow> 0 < d)"
proof (induction n rule: show_nat.induct)
  case (1 n)
  show ?case
  proof (cases "n < 10")
    case True
    then have "show_nat n = digit_char n # []" by (simp add: show_nat.simps [of n])
    with True show ?thesis by blast
  next
    case False
    from "1.IH" [OF this] obtain d r where "show_nat (n div 10) = digit_char d # r" "d < 10"
      "0 < n div 10 \<longrightarrow> 0 < d" by (elim exE conjE)
    with False show ?thesis by (auto simp: show_nat.simps [of n])
  qed
qed

lemma digit_char_props [simp]:
  "d < 10 \<Longrightarrow> \<not> is_space (digit_char d)" "d < 10 \<Longrightarrow> digit_char d \<noteq> CHR ''-''"
  "d < 10 \<Longrightarrow> digit_char d \<noteq> CHR ''+''" "d < 10 \<Longrightarrow> digit_char d \<noteq> CHR '',''"
  "d < 10 \<Longrightarrow> digit_char d \<noteq> CHR '':''" "d < 10 \<Longrightarrow> digit_char d \<noteq> CHR ''#''"
  "d < 10 \<Longrightarrow> digit_char d \<noteq> CHR 0x0A" "d < 10 \<Longrightarrow> digit_char d \<noteq> CHR 0x00"
  by (simp_all add: digit_char_def is_space_def of_char_eq_iff [symmetric, where 'a = nat] del: of_char_eq_iff)

lemma digit_char_zero [simp]: "d < 10 \<Longrightarrow> digit_char d = CHR ''0'' \<longleftrightarrow> d = 0"
  by (simp add: digit_char_def of_char_eq_iff [symmetric, where 'a = nat] del: of_char_eq_iff)

lemma show_nat_digits: "c \<in> set (show_nat n) \<Longrightarrow> \<exists>d < 10. c = digit_char d"
proof (induction n rule: show_nat.induct)
  case (1 n)
  then show ?case
    by (cases "n < 10") (auto simp: show_nat.simps [of n] intro: exI [of _ "n mod 10"])
qed

lemma show_int_chars: "c \<in> set (show_int i) \<Longrightarrow> c = CHR ''-'' \<or> (\<exists>d < 10. c = digit_char d)"
  by (auto simp: show_int_def dest: show_nat_digits split: if_splits)

lemma show_int_avoids:
  "CHR '','' \<notin> set (show_int i)" "CHR '':'' \<notin> set (show_int i)" "CHR ''#'' \<notin> set (show_int i)"
  "CHR 0x0A \<notin> set (show_int i)" "CHR 0x00 \<notin> set (show_int i)"
  by (auto dest!: show_int_chars) (metis digit_char_props)+

lemma show_nat_not_Nil [simp]: "show_nat n \<noteq> []"
  using show_nat_hd [of n] by auto

lemma show_int_not_Nil [simp]: "show_int i \<noteq> []"
  by (simp add: show_int_def)

lemma show_nat_first:
  "dropWhile is_space (show_nat n @ r) = show_nat n @ r" "scan_sign (show_nat n @ r) = (False, show_nat n @ r)"
  using show_nat_hd [of n] by (auto simp: scan_sign_def split: list.splits char.splits bool.splits)

lemma scan_digits_show0:
  "\<not> starts_digit 10 r \<Longrightarrow> scan_digits 10 0 (show_nat n @ r) = (n, r)"
  by (simp add: cstr_simps)

lemma atoi_show_int [cstr_simps]:
  assumes "\<not> starts_digit 10 r" shows "atoi (show_int i @ r) = i"
proof (cases "i < 0")
  case True
  have "scan_sign (CHR ''-'' # show_nat n @ r) = (True, show_nat n @ r)" for n by (simp add: scan_sign_def)
  with True assms show ?thesis
    by (simp add: atoi_def show_int_def Let_def scan_digits_show0 is_space_def)
next
  case False
  with assms show ?thesis by (simp add: atoi_def show_int_def Let_def scan_digits_show0 show_nat_first)
qed

lemma scan_unsigned_show:
  assumes "\<not> starts_digit 10 r" "r = [] \<or> hd r \<noteq> CHR ''x'' \<and> hd r \<noteq> CHR ''X''"
  shows "scan_unsigned (show_nat n @ r) = Some (n, r)"
proof (cases "n = 0")
  case True
  have z: "show_nat 0 = ''0''" by (simp add: show_nat.simps [of 0])
  have "\<not> starts_digit 8 r"
    using assms(1) by (auto simp: starts_digit_def digit_val_def Let_def split: list.splits if_splits)
  moreover have "digit_val 8 (CHR ''0'') = Some 0" by (simp add: digit_val_def)
  ultimately show ?thesis using True z assms by (auto simp: scan_unsigned_def scan_digits_stop)
next
  case False
  then obtain d q where d: "show_nat n = digit_char d # q" "d < 10" "0 < d"
    using show_nat_hd [of n] by auto
  then have "digit_char d \<noteq> CHR ''0''" by simp
  with d show ?thesis using scan_digits_show0 [OF assms(1), of n]
    by (simp add: scan_unsigned_def starts_digit_def)
qed

lemma scan_int_show_int [cstr_simps]:
  assumes "\<not> starts_digit 10 r" "r = [] \<or> hd r \<noteq> CHR ''x'' \<and> hd r \<noteq> CHR ''X''"
  shows "scan_int (show_int i @ r) = Some (i, r)"
proof (cases "i < 0")
  case True
  have "scan_sign (CHR ''-'' # show_nat n @ r) = (True, show_nat n @ r)" for n by (simp add: scan_sign_def)
  with True assms show ?thesis
    by (simp add: scan_int_def show_int_def is_space_def scan_unsigned_show)
next
  case False
  with assms show ?thesis by (simp add: scan_int_def show_int_def show_nat_first scan_unsigned_show)
qed

lemma show_nat_length: "n < 10 ^ Suc k \<Longrightarrow> length (show_nat n) \<le> Suc k"
proof (induction k arbitrary: n)
  case 0
  then show ?case by (simp add: show_nat.simps [of n])
next
  case (Suc k)
  then have "n div 10 < 10 ^ Suc k" by (simp add: less_mult_imp_div_less)
  with Suc.IH show ?case by (cases "n < 10") (simp_all add: show_nat.simps [of n])
qed

lemma show_pid_length: "int_fits 32 p \<Longrightarrow> length (show_int p) \<le> 11"
proof -
  assume "int_fits 32 p"
  then have "nat p < 10 ^ Suc 9" "nat (- p) < 10 ^ Suc 9" by (auto simp: int_fits_def)
  then have "length (show_nat (nat p)) \<le> 10" "length (show_nat (nat (- p))) \<le> 10"
    using show_nat_length [of _ 9] by fastforce+
  then show ?thesis by (simp add: show_int_def)
qed

end
