(* ===== verification/Data_Gen.thy ===== *)
theory Data_Gen
  imports Prelude
begin

text \<open>
  The data generators and checkers of \<^verbatim>\<open>lib/\<close>: \<^verbatim>\<open>pattern.c\<close> (a buffer of repeated copies of a
  rotated pattern), \<^verbatim>\<open>dataascii.c\<close> (characters chosen by the file offset), \<^verbatim>\<open>databin.c\<close> (fixed
  bytes and a counting pattern). A buffer is the list of its bytes; a read or a write outside
  of it, a negative \<open>memcpy\<close> length, a remainder by zero and a loop that never ends are the value
  \<open>None\<close>. The contract that the three share, "the generator writes the byte that belongs to each
  file offset, the checker accepts exactly those bytes", is the locale \<open>fill_check\<close>; checkers that
  report the first bad offset satisfy \<open>offset_check\<close>.
\<close>

section \<open>The contract of a generator and its checker\<close>

locale fill_check =
  fixes valid :: "'c \<Rightarrow> bool"
    and pat :: "'c \<Rightarrow> int \<Rightarrow> 'a"
    and fill :: "'c \<Rightarrow> nat \<Rightarrow> int \<Rightarrow> 'a list \<Rightarrow> 'a list option"
    and accepts :: "'c \<Rightarrow> nat \<Rightarrow> int \<Rightarrow> 'a list \<Rightarrow> bool option"
  assumes fill_spec: "valid c \<Longrightarrow> 0 \<le> off \<Longrightarrow> n \<le> length buf \<Longrightarrow>
      fill c n off buf = Some (map (\<lambda>k. pat c (off + int k)) [0..<n] @ drop n buf)"
    and accepts_spec: "valid c \<Longrightarrow> 0 \<le> off \<Longrightarrow> n \<le> length buf \<Longrightarrow>
      accepts c n off buf = Some (\<forall>k < n. buf ! k = pat c (off + int k))"
begin

lemma fill_nth:
  "valid c \<Longrightarrow> 0 \<le> off \<Longrightarrow> n \<le> length buf \<Longrightarrow> fill c n off buf = Some b \<Longrightarrow> k < n \<Longrightarrow>
   b ! k = pat c (off + int k)"
  by (auto simp: fill_spec nth_append)

lemma fill_length:
  "valid c \<Longrightarrow> 0 \<le> off \<Longrightarrow> n \<le> length buf \<Longrightarrow> fill c n off buf = Some b \<Longrightarrow> length b = length buf"
  by (auto simp: fill_spec)

text \<open>Any window of a generated buffer is accepted at the window's own file offset.\<close>

lemma fill_accepts_window:
  assumes "valid c" "0 \<le> off" "n \<le> length buf" "fill c n off buf = Some b" "j + m \<le> n"
  shows "accepts c m (off + int j) (drop j b) = Some True"
proof -
  have len: "length b = length buf" using assms fill_length by blast
  have "drop j b ! k = pat c (off + int j + int k)" if "k < m" for k
    using fill_nth [OF assms(1-4), of "j + k"] that assms(3,5) len by (simp add: add.assoc)
  with len show ?thesis using assms by (simp add: accepts_spec)
qed

lemma fill_accepts:
  "valid c \<Longrightarrow> 0 \<le> off \<Longrightarrow> n \<le> length buf \<Longrightarrow> fill c n off buf = Some b \<Longrightarrow>
   accepts c n off b = Some True"
  using fill_accepts_window [of c off n buf b 0 n] by simp

text \<open>One changed byte is rejected.\<close>

lemma corrupted_rejected:
  assumes "valid c" "0 \<le> off" "n \<le> length buf" "fill c n off buf = Some b" "k < n"
    and "x \<noteq> pat c (off + int k)"
  shows "accepts c n off (b[k := x]) = Some False"
proof -
  have "length b = length buf" using assms fill_length by blast
  with assms show ?thesis by (auto simp: accepts_spec)
qed

text \<open>Two overlapping writes agree where they overlap: several writers of one file do not
  disturb each other.\<close>

lemma overlap_agrees:
  assumes "valid c" "0 \<le> off" "n \<le> length buf" "fill c n off buf = Some b"
    and "0 \<le> off'" "n' \<le> length buf'" "fill c n' off' buf' = Some b'"
    and "off + int k = off' + int k'" "k < n" "k' < n'"
  shows "b ! k = b' ! k'"
  using fill_nth [OF assms(1-4,9)] fill_nth [OF assms(1,5-7,10)] assms(8) by simp

end

text \<open>Checkers that return the file offset of the first mismatch, and \<open>-1\<close> for none.\<close>

locale offset_check =
  fixes valid :: "'c \<Rightarrow> bool"
    and pat :: "'c \<Rightarrow> int \<Rightarrow> 'a"
    and fill :: "'c \<Rightarrow> nat \<Rightarrow> int \<Rightarrow> 'a list \<Rightarrow> 'a list option"
    and chk :: "'c \<Rightarrow> nat \<Rightarrow> int \<Rightarrow> 'a list \<Rightarrow> int option"
  assumes fill_off: "valid c \<Longrightarrow> 0 \<le> off \<Longrightarrow> n \<le> length buf \<Longrightarrow>
      fill c n off buf = Some (map (\<lambda>k. pat c (off + int k)) [0..<n] @ drop n buf)"
    and chk_off: "valid c \<Longrightarrow> 0 \<le> off \<Longrightarrow> n \<le> length buf \<Longrightarrow>
      chk c n off buf = Some (if \<exists>k < n. buf ! k \<noteq> pat c (off + int k)
        then off + int (LEAST k. k < n \<and> buf ! k \<noteq> pat c (off + int k)) else -1)"

sublocale offset_check \<subseteq> fill_check valid pat fill "\<lambda>c n off buf. map_option (\<lambda>r. r = -1) (chk c n off buf)"
proof unfold_locales
  fix c and off :: int and n and buf :: "'a list"
  assume "valid c" "0 \<le> off" "n \<le> length buf"
  then show "map_option (\<lambda>r. r = -1) (chk c n off buf) = Some (\<forall>k<n. buf ! k = pat c (off + int k))"
    by (simp add: chk_off)
qed (rule fill_off)

context offset_check begin

lemma chk_first:
  assumes "valid c" "0 \<le> off" "n \<le> length buf" "m < n" "buf ! m \<noteq> pat c (off + int m)"
    and "\<And>k. k < m \<Longrightarrow> buf ! k = pat c (off + int k)"
  shows "chk c n off buf = Some (off + int m)"
proof -
  have "(LEAST k. k < n \<and> buf ! k \<noteq> pat c (off + int k)) = m"
    by (rule Least_equality) (use assms in \<open>auto simp: not_less[symmetric]\<close>)
  with assms show ?thesis by (auto simp: chk_off)
qed

lemma chk_after_fill:
  "valid c \<Longrightarrow> 0 \<le> off \<Longrightarrow> n \<le> length buf \<Longrightarrow> fill c n off buf = Some b \<Longrightarrow> chk c n off b = Some (-1)"
  using fill_accepts [of c off n buf b] by (auto split: option.splits)

lemma chk_after_corruption:
  assumes "valid c" "0 \<le> off" "n \<le> length buf" "fill c n off buf = Some b" "m < n"
    and "x \<noteq> pat c (off + int m)"
  shows "chk c n off (b[m := x]) = Some (off + int m)"
proof (rule chk_first)
  have "length b = length buf" using assms fill_length by blast
  with assms show "n \<le> length (b[m := x])" "b[m := x] ! m \<noteq> pat c (off + int m)" by auto
  show "b[m := x] ! k = pat c (off + int k)" if "k < m" for k
    using fill_nth [OF assms(1-4), of k] that assms(5) by simp
qed (use assms in auto)

end

section \<open>pattern.c\<close>

text \<open>The last loop of \<open>pattern_fill\<close>: copy the part that is already filled behind itself, twice
  as much each time. With an empty first block \<open>ncopied\<close> stays 0 and the loop never ends.\<close>

partial_function (option) pattern_fill_loop :: "nat \<Rightarrow> nat \<Rightarrow> nat \<Rightarrow> 'a list \<Rightarrow> 'a list option" where
  "pattern_fill_loop buflen ncopied nleft buf =
     (if ncopied < buflen
      then (let trans = (if ncopied < nleft then ncopied else nleft)
            in Option.bind (mem_cpy buf ncopied buf 0 trans)
                 (pattern_fill_loop buflen (ncopied + trans) (nleft - trans)))
      else Some buf)"

definition pattern_fill :: "'a list \<Rightarrow> nat \<Rightarrow> 'a list \<Rightarrow> nat \<Rightarrow> int \<Rightarrow> 'a list option" where
  "pattern_fill buf buflen pat patlen patshift0 =
     (let patshift = (if patlen \<noteq> 0 then patshift0 smod int patlen else patshift0);
          trans = int patlen - patshift
      in if patshift < 0 \<or> trans < 0 then None
         else if buflen < nat trans then mem_cpy buf 0 pat (nat patshift) buflen
         else do {
           buf1 \<leftarrow> mem_cpy buf 0 pat (nat patshift) (nat trans);
           let cp = nat trans;
           let nleft = buflen - cp;
           if 0 < patshift
           then if nleft < nat patshift then mem_cpy buf1 cp pat 0 nleft
                else do {
                  buf2 \<leftarrow> mem_cpy buf1 cp pat 0 (nat patshift);
                  pattern_fill_loop buflen (cp + nat patshift) (nleft - nat patshift) buf2 }
           else pattern_fill_loop buflen cp nleft buf1 })"

partial_function (option) pattern_check_loop :: "nat \<Rightarrow> nat \<Rightarrow> nat \<Rightarrow> 'a list \<Rightarrow> int option" where
  "pattern_check_loop buflen ncmp nleft buf =
     (if ncmp < buflen
      then (let nb = (if ncmp < nleft then ncmp else nleft)
            in Option.bind (mem_eq buf 0 buf ncmp nb)
                 (\<lambda>eq. if \<not> eq then Some (-1)
                       else pattern_check_loop buflen (ncmp + nb) (nleft - nb) buf))
      else Some 0)"

definition pattern_check :: "'a list \<Rightarrow> nat \<Rightarrow> 'a list \<Rightarrow> nat \<Rightarrow> int \<Rightarrow> int option" where
  "pattern_check buf buflen pat patlen patshift0 =
     (let patshift = (if patlen \<noteq> 0 then patshift0 smod int patlen else patshift0);
          nb = int patlen - patshift
      in if patshift < 0 \<or> nb < 0 then None
         else if buflen < nat nb
         then do { eq \<leftarrow> mem_eq buf 0 pat (nat patshift) buflen; Some (if eq then 0 else -1) }
         else do {
           eq1 \<leftarrow> mem_eq buf 0 pat (nat patshift) (nat nb);
           if \<not> eq1 then Some (-1)
           else (let cp = nat nb; nleft = buflen - cp
                 in if 0 < patshift
                    then if nleft < nat patshift
                         then do { eq \<leftarrow> mem_eq buf cp pat 0 nleft; Some (if eq then 0 else -1) }
                         else do {
                           eq2 \<leftarrow> mem_eq buf cp pat 0 (nat patshift);
                           if \<not> eq2 then Some (-1)
                           else pattern_check_loop buflen (cp + nat patshift) (nleft - nat patshift) buf }
                    else pattern_check_loop buflen cp nleft buf) })"

text \<open>The reference: byte \<open>k\<close> of the buffer is byte \<open>k + patshift\<close> of the endlessly repeated pattern.\<close>

definition pattern_at :: "'a list \<Rightarrow> nat \<Rightarrow> int \<Rightarrow> 'a" where
  "pattern_at pat patlen k = pat ! nat (k mod int patlen)"

lemma pattern_at_add_mult: "int patlen dvd c \<Longrightarrow> pattern_at pat patlen (k + c) = pattern_at pat patlen k"
  by (auto simp: pattern_at_def elim!: dvdE)

lemma pattern_fill_loop_eq:
  assumes "int patlen dvd int ncopied" "0 < ncopied" "ncopied \<le> buflen" "buflen \<le> length buf"
    and "nleft = buflen - ncopied"
    and "\<And>k. k < ncopied \<Longrightarrow> buf ! k = pattern_at pat patlen (s + int k)"
  shows "pattern_fill_loop buflen ncopied nleft buf =
    Some (map (\<lambda>k. pattern_at pat patlen (s + int k)) [0..<buflen] @ drop buflen buf)"
  using assms
proof (induction "buflen - ncopied" arbitrary: ncopied nleft buf rule: less_induct)
  case less
  show ?case
  proof (cases "ncopied < buflen")
    case False
    with less.prems have "ncopied = buflen" by simp
    with less.prems have "take buflen buf = map (\<lambda>k. pattern_at pat patlen (s + int k)) [0..<buflen]"
      by (auto simp: list_eq_iff_nth_eq)
    then have "buf = map (\<lambda>k. pattern_at pat patlen (s + int k)) [0..<buflen] @ drop buflen buf"
      by (metis append_take_drop_id)
    with False show ?thesis by (subst pattern_fill_loop.simps) simp
  next
    case True
    define trans where "trans = min ncopied nleft"
    have tr: "0 < trans" "trans \<le> ncopied" "ncopied + trans \<le> buflen"
      using True less.prems by (auto simp: trans_def)
    obtain b where b: "mem_cpy buf ncopied buf 0 trans = Some b"
      using tr less.prems by (simp add: buf_simps)
    have lb: "length b = length buf" using mem_cpy_length [OF b] .
    have nth: "b ! k = pattern_at pat patlen (s + int k)" if "k < ncopied + trans" for k
    proof (cases "k < ncopied")
      case True
      then show ?thesis using mem_cpy_nth [OF b, of k] less.prems tr that by simp
    next
      case False
      then have "b ! k = buf ! (k - ncopied)"
        using mem_cpy_nth [OF b, of k] less.prems tr that by simp
      also have "\<dots> = pattern_at pat patlen (s + int (k - ncopied))"
        using less.prems(6) [of "k - ncopied"] that tr False by simp
      also have "\<dots> = pattern_at pat patlen (s + int (k - ncopied) + int ncopied)"
        using pattern_at_add_mult [OF less.prems(1)] by metis
      finally show ?thesis using False by (simp add: of_nat_diff)
    qed
    have dropb: "drop buflen b = drop buflen buf"
      using b less.prems tr by (auto simp: mem_cpy_def split: if_splits)
    have "pattern_fill_loop buflen (ncopied + trans) (nleft - trans) b =
      Some (map (\<lambda>k. pattern_at pat patlen (s + int k)) [0..<buflen] @ drop buflen b)"
    proof (cases "trans = ncopied")
      case True
      show ?thesis
        by (rule less.hyps) (use tr less.prems nth lb True in auto)
    next
      case False
      then have full: "ncopied + trans = buflen" using less.prems by (simp add: trans_def split: if_splits)
      with nth lb less.prems have "take buflen b = map (\<lambda>k. pattern_at pat patlen (s + int k)) [0..<buflen]"
        by (auto simp: list_eq_iff_nth_eq)
      then have "b = map (\<lambda>k. pattern_at pat patlen (s + int k)) [0..<buflen] @ drop buflen b"
        by (metis append_take_drop_id)
      with full show ?thesis by (subst pattern_fill_loop.simps) simp
    qed
    moreover have "(if ncopied < nleft then ncopied else nleft) = trans" by (simp add: trans_def)
    ultimately show ?thesis using True b dropb by (subst pattern_fill_loop.simps) (simp add: Let_def)
  qed
qed

lemma pattern_at_shifted:
  assumes "0 < patlen" "sh < patlen" "k < patlen"
  shows "pattern_at pat patlen (int sh + int k) =
    (if k < patlen - sh then pat ! (sh + k) else pat ! (k - (patlen - sh)))"
proof (cases "k < patlen - sh")
  case True
  with assms show ?thesis by (simp add: pattern_at_def flip: of_nat_add)
next
  case False
  have "\<not> sh + k < patlen" "sh + k - patlen < patlen" using assms False by auto
  then have "(sh + k) mod patlen = k - (patlen - sh)" using False assms by (simp add: mod_if)
  then have "(int sh + int k) mod int patlen = int (k - (patlen - sh))" by (metis of_nat_add zmod_int)
  with False show ?thesis by (simp add: pattern_at_def del: of_nat_diff)
qed

lemma pattern_at_reduce: "0 < patlen \<Longrightarrow> pattern_at pat patlen (s mod int patlen + k) = pattern_at pat patlen (s + k)"
  by (simp add: pattern_at_def mod_add_left_eq)

text \<open>The shift after its reduction, \<open>0 \<le> patshift < patlen\<close>.\<close>

lemma pattern_fill_reduced:
  assumes "0 < patlen" "patlen \<le> length pat" "buflen \<le> length buf" "sh < patlen"
    and "patshift smod int patlen = int sh"
  shows "pattern_fill buf buflen pat patlen patshift =
    Some (map (\<lambda>k. pattern_at pat patlen (int sh + int k)) [0..<buflen] @ drop buflen buf)"
proof -
  define cp where "cp = patlen - sh"
  have cp: "int patlen - int sh = int cp" "nat (int patlen - int sh) = cp" using assms by (auto simp: cp_def)
  show ?thesis
  proof (cases "buflen < cp")
  case True
  have "take buflen (drop sh pat) = map (\<lambda>k. pattern_at pat patlen (int sh + int k)) [0..<buflen]"
    using assms True by (auto simp: list_eq_iff_nth_eq pattern_at_shifted cp_def)
  moreover have "sh + buflen \<le> length pat" using True assms by (simp add: cp_def)
  ultimately show ?thesis using assms True cp by (simp add: pattern_fill_def Let_def buf_simps)
next
  case False
  obtain b1 where b1: "mem_cpy buf 0 pat sh cp = Some b1"
    using assms False by (simp add: buf_simps cp_def)
  have l1: "length b1 = length buf" using mem_cpy_length [OF b1] .
  have n1: "b1 ! k = (if k < cp then pat ! (sh + k) else buf ! k)" if "k < length buf" for k
    using mem_cpy_nth [OF b1 that] by simp
  have d1: "drop buflen b1 = drop buflen buf"
    using b1 False assms by (auto simp: mem_cpy_def cp_def split: if_splits)
  show ?thesis
  proof (cases "sh = 0")
    case True
    have "pattern_fill_loop buflen cp (buflen - cp) b1 =
        Some (map (\<lambda>k. pattern_at pat patlen (int sh + int k)) [0..<buflen] @ drop buflen b1)"
      by (rule pattern_fill_loop_eq)
        (use assms False True l1 n1 in \<open>auto simp: cp_def pattern_at_def nat_mod_as_int [symmetric]\<close>)
    with True b1 d1 assms False cp show ?thesis by (simp add: pattern_fill_def Let_def)
  next
    case ne: False
    define nleft where "nleft = buflen - cp"
    obtain b2 where b2: "mem_cpy b1 cp pat 0 (min sh nleft) = Some b2"
    proof -
      have "cp + min sh nleft \<le> length b1" "0 + min sh nleft \<le> length pat"
        using assms False l1 by (auto simp: nleft_def)
      from mem_cpy_Some [OF this] that show ?thesis by blast
    qed
    have l2: "length b2 = length buf" using mem_cpy_length [OF b2] l1 by simp
    have n2: "b2 ! k = pattern_at pat patlen (int sh + int k)" if "k < min patlen buflen" for k
      using that mem_cpy_nth [OF b2, of k] n1 [of k] l1 assms
      by (auto simp: pattern_at_shifted cp_def nleft_def)
    have d2: "drop buflen b2 = drop buflen buf"
      using b2 d1 False assms by (auto simp: mem_cpy_def cp_def nleft_def split: if_splits)
    show ?thesis
    proof (cases "nleft < sh")
      case True
      then have "buflen \<le> patlen" "buflen < patlen" using assms by (auto simp: nleft_def cp_def)
      then have "take buflen b2 = map (\<lambda>k. pattern_at pat patlen (int sh + int k)) [0..<buflen]"
        using n2 l2 assms by (auto simp: list_eq_iff_nth_eq)
      with d2 have "b2 = map (\<lambda>k. pattern_at pat patlen (int sh + int k)) [0..<buflen] @ drop buflen buf"
        by (metis append_take_drop_id)
      with True b1 b2 assms False cp ne show ?thesis
        by (simp add: pattern_fill_def Let_def nleft_def min_def)
    next
      case full: False
      have "pattern_fill_loop buflen (cp + sh) (nleft - sh) b2 =
        Some (map (\<lambda>k. pattern_at pat patlen (int sh + int k)) [0..<buflen] @ drop buflen b2)"
        by (rule pattern_fill_loop_eq)
          (use assms False full l2 n2 in \<open>auto simp: cp_def nleft_def\<close>)
      with full b1 b2 d2 assms False cp ne show ?thesis
        by (simp add: pattern_fill_def Let_def nleft_def min_def)
    qed
  qed
  qed
qed

lemma pattern_shift_reduced:
  assumes "0 < patlen" "0 \<le> patshift"
  shows "patshift smod int patlen = int (nat (patshift mod int patlen))"
    "nat (patshift mod int patlen) < patlen"
  using assms by (auto simp: nat_less_iff)

text \<open>
  Filling writes byte \<open>k + patshift\<close> of the endless pattern to position \<open>k\<close>.
\<close>

lemma pattern_fill_spec:
  assumes "0 < patlen" "patlen \<le> length pat" "buflen \<le> length buf" "0 \<le> patshift"
  shows "pattern_fill buf buflen pat patlen patshift =
    Some (map (\<lambda>k. pattern_at pat patlen (patshift + int k)) [0..<buflen] @ drop buflen buf)"
proof -
  have "pattern_at pat patlen (int (nat (patshift mod int patlen)) + k) = pattern_at pat patlen (patshift + k)" for k
    using assms pattern_at_reduce by simp
  then show ?thesis
    using pattern_fill_reduced [OF assms(1-3) pattern_shift_reduced(2) pattern_shift_reduced(1)] assms by simp
qed

lemma pattern_check_loop_eq:
  assumes "int patlen dvd int ncmp" "0 < ncmp" "ncmp \<le> buflen" "buflen \<le> length buf"
    and "nleft = buflen - ncmp"
    and "\<And>k. k < ncmp \<Longrightarrow> buf ! k = pattern_at pat patlen (s + int k)"
  shows "pattern_check_loop buflen ncmp nleft buf =
    Some (if \<forall>k < buflen. buf ! k = pattern_at pat patlen (s + int k) then 0 else -1)"
  using assms
proof (induction "buflen - ncmp" arbitrary: ncmp nleft rule: less_induct)
  case less
  show ?case
  proof (cases "ncmp < buflen")
    case False
    with less.prems show ?thesis by (subst pattern_check_loop.simps) auto
  next
    case True
    define nb where "nb = min ncmp nleft"
    have nb: "(if ncmp < nleft then ncmp else nleft) = nb" "0 < nb" "nb \<le> ncmp" "ncmp + nb \<le> buflen"
      using True less.prems by (auto simp: nb_def)
    have eq: "mem_eq buf 0 buf ncmp nb = Some (\<forall>k < nb. buf ! k = buf ! (ncmp + k))"
      using nb less.prems by (simp add: buf_simps)
    have next_eq: "pattern_at pat patlen (s + int (ncmp + k)) = pattern_at pat patlen (s + int k)" for k
      using pattern_at_add_mult [OF less.prems(1), of pat "s + int k"] by (simp add: algebra_simps)
    have good: "(\<forall>k < nb. buf ! k = buf ! (ncmp + k)) \<longleftrightarrow>
        (\<forall>k < ncmp + nb. buf ! k = pattern_at pat patlen (s + int k))" (is "?L \<longleftrightarrow> ?R")
    proof
      assume ?L
      show ?R
      proof (intro allI impI)
        fix k assume "k < ncmp + nb"
        then consider "k < ncmp" | j where "k = ncmp + j" "j < nb" "j < ncmp"
          using nb by (metis add_diff_inverse_nat nat_add_left_cancel_less order_less_le_trans)
        then show "buf ! k = pattern_at pat patlen (s + int k)"
        proof cases
          case 2
          with \<open>?L\<close> less.prems(6) [of j] next_eq [of j] show ?thesis by simp
        qed (rule less.prems(6))
      qed
    next
      assume ?R
      then show ?L using less.prems(6) next_eq nb by auto
    qed
    show ?thesis
    proof (cases "\<forall>k < nb. buf ! k = buf ! (ncmp + k)")
      case False
      then have "\<not> (\<forall>k < buflen. buf ! k = pattern_at pat patlen (s + int k))"
        using good nb by (meson order_less_le_trans)
      with False True eq nb(1) show ?thesis by (subst pattern_check_loop.simps) (simp add: Let_def)
    next
      case all: True
      have "pattern_check_loop buflen (ncmp + nb) (nleft - nb) buf =
        Some (if \<forall>k < buflen. buf ! k = pattern_at pat patlen (s + int k) then 0 else -1)"
      proof (cases "nb = ncmp")
        case True
        show ?thesis by (rule less.hyps) (use nb less.prems True all good in auto)
      next
        case False
        then have "ncmp + nb = buflen" using less.prems by (simp add: nb_def split: if_splits)
        with all good show ?thesis by (subst pattern_check_loop.simps) simp
      qed
      with all True eq nb(1) show ?thesis by (subst pattern_check_loop.simps) (simp add: Let_def)
    qed
  qed
qed

lemma all_less_split:
  assumes "a \<le> (n::nat)"
  shows "(\<forall>k < n. P k) \<longleftrightarrow> (\<forall>k < a. P k) \<and> (\<forall>k < n - a. P (a + k))"
proof safe
  fix k
  assume "\<forall>k < a. P k" "\<forall>k < n - a. P (a + k)" "k < n"
  then show "P k" by (cases "k < a") (auto dest: spec [of _ "k - a"])
qed (use assms in auto)

lemma pattern_check_reduced:
  assumes "0 < patlen" "patlen \<le> length pat" "buflen \<le> length buf" "sh < patlen"
    and "patshift smod int patlen = int sh"
  shows "pattern_check buf buflen pat patlen patshift =
    Some (if \<forall>k < buflen. buf ! k = pattern_at pat patlen (int sh + int k) then 0 else -1)"
proof -
  define P where "P k \<longleftrightarrow> buf ! k = pattern_at pat patlen (int sh + int k)" for k
  define cp where "cp = patlen - sh"
  have cp: "int patlen - int sh = int cp" "nat (int patlen - int sh) = cp" using assms by (auto simp: cp_def)
  have low: "(\<forall>k < n. buf ! k = pat ! (sh + k)) \<longleftrightarrow> (\<forall>k < n. P k)" if "n \<le> cp" for n
    using that assms by (auto simp: P_def pattern_at_shifted cp_def)
  have high: "(\<forall>k < n. buf ! (cp + k) = pat ! k) \<longleftrightarrow> (\<forall>k < n. P (cp + k))" if "n \<le> sh" for n
  proof -
    have "pattern_at pat patlen (int sh + int (cp + k)) = pat ! k" if "k < n" for k
    proof -
      have "cp + k < patlen" "\<not> cp + k < patlen - sh" "cp + k - (patlen - sh) = k"
        using that \<open>n \<le> sh\<close> assms by (auto simp: cp_def)
      with pattern_at_shifted [of patlen sh "cp + k" pat] assms show ?thesis by (simp del: of_nat_add)
    qed
    then show ?thesis by (auto simp: P_def)
  qed
  have "pattern_check buf buflen pat patlen patshift = Some (if \<forall>k < buflen. P k then 0 else -1)"
  proof (cases "buflen < cp")
    case True
    moreover have "mem_eq buf 0 pat sh buflen = Some (\<forall>k < buflen. P k)"
      using True assms low [of buflen] mem_eq_iff [of 0 buflen buf sh pat] by (simp add: cp_def)
    ultimately show ?thesis using assms cp by (simp add: pattern_check_def Let_def)
  next
    case False
    then have le: "cp \<le> buflen" by simp
    have eq1: "mem_eq buf 0 pat sh cp = Some (\<forall>k < cp. P k)"
      using le assms low [of cp] mem_eq_iff [of 0 cp buf sh pat] by (simp add: cp_def)
    note split = all_less_split [OF le, of P]
    show ?thesis
    proof (cases "\<forall>k < cp. P k")
      case False
      then have "\<not> (\<forall>k < buflen. P k)" using split by blast
      with False assms cp eq1 le show ?thesis by (simp add: pattern_check_def Let_def)
    next
      case first: True
      show ?thesis
      proof (cases "sh = 0")
        case True
        have "pattern_check_loop buflen cp (buflen - cp) buf = Some (if \<forall>k < buflen. P k then 0 else -1)"
          unfolding P_def by (rule pattern_check_loop_eq)
            (use assms le first True in \<open>auto simp: cp_def P_def\<close>)
        with True first assms cp eq1 le show ?thesis by (simp add: pattern_check_def Let_def)
      next
        case ne: False
        define nleft where "nleft = buflen - cp"
        have eq2: "mem_eq buf cp pat 0 n = Some (\<forall>k < n. P (cp + k))" if "n \<le> nleft" "n \<le> sh" for n
          using that assms le high [of n] mem_eq_iff [of cp n buf 0 pat] by (simp add: nleft_def)
        show ?thesis
        proof (cases "nleft < sh")
          case True
          with ne first assms cp eq1 le eq2 [of nleft] split show ?thesis
            by (simp add: pattern_check_def Let_def nleft_def)
        next
          case full: False
          show ?thesis
          proof (cases "\<forall>k < sh. P (cp + k)")
            case False
            then have "\<not> (\<forall>k < buflen. P k)" using split full by (auto simp: nleft_def)
            with False full ne first assms cp eq1 le eq2 [of sh] show ?thesis
              by (simp add: pattern_check_def Let_def nleft_def)
          next
            case True
            have "cp + sh = patlen" using assms by (simp add: cp_def)
            then have "\<forall>k < patlen. P k" using all_less_split [of cp patlen P] first True by simp
            then have "pattern_check_loop buflen (cp + sh) (nleft - sh) buf =
                Some (if \<forall>k < buflen. P k then 0 else -1)"
              unfolding P_def by (intro pattern_check_loop_eq)
                (use assms le full in \<open>auto simp: cp_def P_def nleft_def\<close>)
            with True full ne first assms cp eq1 le eq2 [of sh] show ?thesis
              by (simp add: pattern_check_def Let_def nleft_def)
          qed
        qed
      qed
    qed
  qed
  then show ?thesis by (simp add: P_def)
qed

lemma pattern_check_spec:
  assumes "0 < patlen" "patlen \<le> length pat" "buflen \<le> length buf" "0 \<le> patshift"
  shows "pattern_check buf buflen pat patlen patshift =
    Some (if \<forall>k < buflen. buf ! k = pattern_at pat patlen (patshift + int k) then 0 else -1)"
proof -
  have "pattern_at pat patlen (int (nat (patshift mod int patlen)) + k) = pattern_at pat patlen (patshift + k)" for k
    using assms pattern_at_reduce by simp
  then show ?thesis
    using pattern_check_reduced [OF assms(1-3) pattern_shift_reduced(2) pattern_shift_reduced(1)] assms by simp
qed

text \<open>With \<open>patlen = 0\<close> a non-empty buffer is never finished.\<close>

lemma pattern_fill_loop_diverges:
  assumes "0 < buflen" shows "pattern_fill_loop buflen 0 nleft buf = None"
proof -
  have False if "pattern_fill_loop buflen 0 nleft buf = Some b" for b
    by (rule pattern_fill_loop.raw_induct [where P = "\<lambda>bl nc nl bf r. \<not> (0 < bl \<and> nc = 0)", OF _ that, THEN notE])
      (use assms in \<open>fastforce simp: Let_def bind_eq_Some_conv split: if_splits\<close>)+
  then show ?thesis by (cases "pattern_fill_loop buflen 0 nleft buf") auto
qed

interpretation pattern: fill_check
  "\<lambda>(pat, patlen). 0 < patlen \<and> patlen \<le> length pat"
  "\<lambda>(pat, patlen). pattern_at pat patlen"
  "\<lambda>(pat, patlen) n off buf. pattern_fill buf n pat patlen off"
  "\<lambda>(pat, patlen) n off buf. map_option (\<lambda>r. r = 0) (pattern_check buf n pat patlen off)"
  by unfold_locales (auto simp: pattern_fill_spec pattern_check_spec)

section \<open>dataascii.c\<close>

definition CHARS :: string where
  "CHARS = ''ABCDEFGHIJKLMNOPQRSTUVWXYZabcdefghjklmnopqrstuvwxyz'' @ [CHR 0x0A]"

text \<open>\<open>CHARS_SIZE\<close> is \<open>sizeof (CHARS)\<close>, which counts the terminating NUL; \<open>strlen\<close> of the caller's
  list does not.\<close>

definition charlist_of :: "string option \<Rightarrow> char list" where
  "charlist_of listofchars = (case listofchars of None \<Rightarrow> CHARS @ [CHR 0x00] | Some s \<Rightarrow> s)"

text \<open>\<open>charlist[cnt % chars_size]\<close>.\<close>

definition ascii_char :: "char list \<Rightarrow> int \<Rightarrow> char option" where
  "ascii_char charlist cnt =
     (if charlist = [] then None
      else (let ind = cnt smod int (length charlist)
            in if 0 \<le> ind then Some (charlist ! nat ind) else None))"

definition dataasciigen :: "string option \<Rightarrow> nat \<Rightarrow> int \<Rightarrow> char list \<Rightarrow> char list option" where
  "dataasciigen listofchars bsize offset buffer =
     for_set (\<lambda>i. ascii_char (charlist_of listofchars) (offset + int i)) 0 bsize buffer"

definition dataasciichk :: "string option \<Rightarrow> nat \<Rightarrow> int \<Rightarrow> char list \<Rightarrow> int option" where
  "dataasciichk listofchars bsize offset buffer =
     do { r \<leftarrow> for_find (\<lambda>i. do { e \<leftarrow> ascii_char (charlist_of listofchars) (offset + int i);
                              c \<leftarrow> buf_get buffer i;
                              Some (c \<noteq> e) }) 0 bsize;
          Some (case r of Some i \<Rightarrow> offset + int i | None \<Rightarrow> -1) }"

definition ascii_at :: "string option \<Rightarrow> int \<Rightarrow> char" where
  "ascii_at l cnt = charlist_of l ! nat (cnt mod int (length (charlist_of l)))"

lemma charlist_of_default [simp]: "charlist_of None \<noteq> []"
  by (simp add: charlist_of_def)

lemma ascii_char_at: "charlist_of l \<noteq> [] \<Longrightarrow> 0 \<le> cnt \<Longrightarrow> ascii_char (charlist_of l) cnt = Some (ascii_at l cnt)"
  by (simp add: ascii_char_def ascii_at_def Let_def)

interpretation ascii: offset_check "\<lambda>l. l \<noteq> Some []" ascii_at dataasciigen dataasciichk
proof unfold_locales
  fix c :: "string option" and off :: int and n and buf :: "char list"
  assume c: "c \<noteq> Some []" and off: "0 \<le> off" and n: "n \<le> length buf"
  have ne: "charlist_of c \<noteq> []" using c by (cases c) (auto simp: charlist_of_def)
  show "dataasciigen c n off buf = Some (map (\<lambda>k. ascii_at c (off + int k)) [0..<n] @ drop n buf)"
    unfolding dataasciigen_def by (rule for_set_total) (use ne off n in \<open>auto simp: ascii_char_at\<close>)
  have "for_find (\<lambda>i. do { e \<leftarrow> ascii_char (charlist_of c) (off + int i); x \<leftarrow> buf_get buf i; Some (x \<noteq> e) }) 0 n =
    Some (if \<exists>k<n. buf ! k \<noteq> ascii_at c (off + int k)
      then Some (LEAST k. k < n \<and> buf ! k \<noteq> ascii_at c (off + int k)) else None)"
    by (rule for_find_total) (use ne off n in \<open>auto simp: ascii_char_at buf_simps\<close>)
  then show "dataasciichk c n off buf = Some (if \<exists>k<n. buf ! k \<noteq> ascii_at c (off + int k)
      then off + int (LEAST k. k < n \<and> buf ! k \<noteq> ascii_at c (off + int k)) else -1)"
    unfolding dataasciichk_def by auto
qed

section \<open>databin.c\<close>

definition mem_set :: "'a list \<Rightarrow> 'a \<Rightarrow> nat \<Rightarrow> 'a list option" where
  "mem_set buf x n = (if n \<le> length buf then Some (replicate n x @ drop n buf) else None)"

text \<open>\<open>(offset + ind) % 8 & 0177\<close>, the value of the counting pattern; \<open>rnd k\<close> is the \<open>k\<close>th value of
  \<open>rand ()\<close>.\<close>

definition count_value :: "int \<Rightarrow> int" where
  "count_value x = (x smod 8) AND 127"

definition databingen :: "(nat \<Rightarrow> int) \<Rightarrow> char \<Rightarrow> nat \<Rightarrow> int \<Rightarrow> byte list \<Rightarrow> byte list option" where
  "databingen rnd mode bsize offset buffer =
     (if mode = CHR ''c'' then mem_set buffer 0xf0 bsize
      else if mode = CHR ''C''
      then for_set (\<lambda>ind. Some (word_of_int (count_value (offset + int ind)))) 0 bsize buffer
      else if mode = CHR ''o'' then mem_set buffer 0xff bsize
      else if mode = CHR ''z'' then mem_set buffer 0 bsize
      else if mode = CHR ''r''
      then for_set (\<lambda>ind. Some (word_of_int ((rnd ind AND 127) OR 64))) 0 bsize buffer
      else mem_set buffer 0x55 bsize)"

text \<open>In mode \<open>'C'\<close> the buffer is read as plain \<open>char\<close>, in the others as \<open>unsigned char\<close>; the expected
  value of mode \<open>'C'\<close> is below 128, so reading the byte unsigned decides the comparison alike.\<close>

definition databinchk :: "char \<Rightarrow> nat \<Rightarrow> int \<Rightarrow> byte list \<Rightarrow> int option" where
  "databinchk mode bsize offset buffer =
     (if mode = CHR ''r'' then Some (-1)
      else (let expbits = (\<lambda>cnt. if mode = CHR ''c'' then 0xf0
                          else if mode = CHR ''C'' then count_value (offset + int cnt)
                          else if mode = CHR ''o'' then 0xff
                          else if mode = CHR ''z'' then 0
                          else 0x55)
            in do { r \<leftarrow> for_find (\<lambda>cnt. do { b \<leftarrow> buf_get buffer cnt; Some (uint b \<noteq> expbits cnt) }) 0 bsize;
                    Some (case r of Some cnt \<Rightarrow> offset + int cnt | None \<Rightarrow> -1) }))"

definition bin_at :: "char \<Rightarrow> int \<Rightarrow> byte" where
  "bin_at mode off =
     (if mode = CHR ''c'' then 0xf0 else if mode = CHR ''C'' then word_of_int (count_value off)
      else if mode = CHR ''o'' then 0xff else if mode = CHR ''z'' then 0 else 0x55)"

lemma count_value_range: "0 \<le> count_value x \<and> count_value x \<le> 127"
  by (simp add: count_value_def AND_upper2)

lemma uint_count_value: "uint (word_of_int (count_value x) :: byte) = count_value x"
  using count_value_range [of x] by (simp add: uint_word_of_int)

lemma map_const_upt [simp]: "map (\<lambda>k. x) [0..<n] = replicate n x"
  by (simp add: map_replicate_const)

lemma databingen_spec:
  assumes "mode \<noteq> CHR ''r''" "n \<le> length buf"
  shows "databingen rnd mode n off buf = Some (map (\<lambda>k. bin_at mode (off + int k)) [0..<n] @ drop n buf)"
proof (cases "mode = CHR ''C''")
  case True
  have "for_set (\<lambda>k. Some (word_of_int (count_value (off + int k)))) 0 n buf =
      Some (map (\<lambda>k. word_of_int (count_value (off + int k))) [0..<n] @ drop n buf)"
    by (rule for_set_total) (use assms in auto)
  with True show ?thesis by (simp add: databingen_def bin_at_def)
next
  case False
  with assms show ?thesis by (auto simp: databingen_def bin_at_def mem_set_def)
qed

lemma databinchk_spec:
  assumes "mode \<noteq> CHR ''r''" "n \<le> length buf"
  shows "databinchk mode n off buf = Some (if \<exists>k<n. buf ! k \<noteq> bin_at mode (off + int k)
      then off + int (LEAST k. k < n \<and> buf ! k \<noteq> bin_at mode (off + int k)) else -1)"
proof -
  define e where "e cnt = (if mode = CHR ''c'' then 0xf0
      else if mode = CHR ''C'' then count_value (off + int cnt)
      else if mode = CHR ''o'' then 0xff else if mode = CHR ''z'' then 0 else 0x55)" for cnt
  have e: "uint (b :: byte) = e cnt \<longleftrightarrow> b = bin_at mode (off + int cnt)" for b cnt
    by (auto simp: e_def bin_at_def uint_count_value simp flip: word_uint_eq_iff [where 'a = 8]
        intro: word_uint_eqI)
  have "for_find (\<lambda>k. do { b \<leftarrow> buf_get buf k; Some (uint b \<noteq> e k) }) 0 n =
    Some (if \<exists>k<n. buf ! k \<noteq> bin_at mode (off + int k)
      then Some (LEAST k. k < n \<and> buf ! k \<noteq> bin_at mode (off + int k)) else None)"
    by (rule for_find_total) (use assms in \<open>auto simp: buf_simps e\<close>)
  with assms(1) show ?thesis unfolding databinchk_def e_def by (auto simp: Let_def)
qed

interpretation bin: offset_check "\<lambda>mode. mode \<noteq> CHR ''r''" bin_at "databingen rnd" databinchk for rnd
  by unfold_locales (auto simp: databingen_spec databinchk_spec)

section \<open>datapid.c\<close>

text \<open>The generator is only compiled in on Cray machines (\<open>cray\<close>): 64-bit words of 8 bytes, the most
  significant first, that hold the low 16 bits of the pid, the low 32 bits of the word's file
  offset and the pid again. Elsewhere both functions return at once.\<close>

definition pid_word :: "int \<Rightarrow> int \<Rightarrow> 64 word" where
  "pid_word pid woff =
     push_bit 48 (word_of_int pid AND 0xFFFF) OR push_bit 16 (word_of_int woff AND 0xFFFFFFFF)
       OR (word_of_int pid AND 0xFFFF)"

definition word_byte :: "64 word \<Rightarrow> nat \<Rightarrow> byte" where
  "word_byte w i = ucast (drop_bit (8 * (7 - i)) w)"

fun pid_words :: "int \<Rightarrow> nat \<Rightarrow> int \<Rightarrow> nat \<Rightarrow> byte list \<Rightarrow> byte list option" where
  "pid_words pid 0 woff boff buffer = Some buffer"
| "pid_words pid (Suc n) woff boff buffer =
     do { b \<leftarrow> for_set (\<lambda>i. Some (word_byte (pid_word pid woff) (i - boff))) boff (boff + 8) buffer;
          pid_words pid n (woff + 8) (boff + 8) b }"

definition datapidgen :: "bool \<Rightarrow> int \<Rightarrow> nat \<Rightarrow> int \<Rightarrow> byte list \<Rightarrow> (int \<times> byte list) option" where
  "datapidgen cray pid bsize offset buffer =
     (if \<not> cray then Some (-1, buffer)
      else (let cnt = nat (offset smod 8);
                boff = (if cnt \<noteq> 0 then min (8 - cnt) bsize else 0);
                nwords = (bsize - boff) div 8;
                woff = offset + int boff;
                boff2 = boff + 8 * nwords;
                woff2 = woff + 8 * int nwords
            in do {
              b1 \<leftarrow> (if cnt \<noteq> 0
                    then for_set (\<lambda>i. Some (word_byte (pid_word pid (offset - int cnt)) (cnt + i))) 0 boff buffer
                    else Some buffer);
              b2 \<leftarrow> pid_words pid nwords woff boff b1;
              b3 \<leftarrow> for_set (\<lambda>i. Some (word_byte (pid_word pid woff2) (i - boff2))) boff2
                     (boff2 + (bsize - boff2) mod 8) b2;
              Some (int bsize, b3) }))"

text \<open>The byte for a file offset.\<close>

definition pid_at :: "int \<Rightarrow> int \<Rightarrow> byte" where
  "pid_at pid off = word_byte (pid_word pid (off - off mod 8)) (nat (off mod 8))"

lemma pid_at_in_word: "8 dvd woff \<Longrightarrow> i < 8 \<Longrightarrow> pid_at pid (woff + int i) = word_byte (pid_word pid woff) i"
  by (auto simp: pid_at_def elim!: dvdE)

text \<open>Writing consecutive stretches of the same function of the index.\<close>

lemma for_set_stretch:
  assumes "\<And>k. i \<le> k \<Longrightarrow> k < n \<Longrightarrow> val k = Some (v k)" "i \<le> n" "n \<le> length buf"
  shows "for_set val i n (map v [0..<i] @ drop i buf) = Some (map v [0..<n] @ drop n buf)"
proof -
  have "[0..<i] @ [i..<n] = [0..<n]" using assms(2) upt_add_eq_append [of 0 i "n - i"] by simp
  then have "map v [0..<n] = map v [0..<i] @ map v [i..<n]" by (metis map_append)
  with for_set_total_from [of i n val v "map v [0..<i] @ drop i buf"] assms show ?thesis by simp
qed

lemma pid_words_stretch:
  assumes "8 dvd off + int boff" "boff + 8 * n \<le> length buf"
  shows "pid_words pid n (off + int boff) boff (map (\<lambda>k. pid_at pid (off + int k)) [0..<boff] @ drop boff buf)
    = Some (map (\<lambda>k. pid_at pid (off + int k)) [0..<boff + 8 * n] @ drop (boff + 8 * n) buf)"
  using assms
proof (induction n arbitrary: boff)
  case 0
  then show ?case by simp
next
  case (Suc n)
  have "word_byte (pid_word pid (off + int boff)) (k - boff) = pid_at pid (off + int k)"
    if "boff \<le> k" "k < boff + 8" for k
    using pid_at_in_word [OF Suc.prems(1), of "k - boff" pid] that by (simp add: of_nat_diff)
  then have "for_set (\<lambda>i. Some (word_byte (pid_word pid (off + int boff)) (i - boff))) boff (boff + 8)
      (map (\<lambda>k. pid_at pid (off + int k)) [0..<boff] @ drop boff buf)
    = Some (map (\<lambda>k. pid_at pid (off + int k)) [0..<boff + 8] @ drop (boff + 8) buf)"
    by (intro for_set_stretch) (use Suc.prems in auto)
  moreover have "8 dvd off + int (boff + 8)" "boff + 8 + 8 * n \<le> length buf"
    using Suc.prems by (auto simp: algebra_simps dvd_add_right_iff)
      (metis add.assoc dvd_add dvd_refl)
  note Suc.IH [OF this]
  ultimately show ?case by (simp add: algebra_simps)
qed

lemma datapidgen_spec:
  assumes "0 \<le> off" "n \<le> length buf"
  shows "datapidgen True pid n off buf =
    Some (int n, map (\<lambda>k. pid_at pid (off + int k)) [0..<n] @ drop n buf)"
proof -
  define cnt where "cnt = nat (off smod 8)"
  define boff where "boff = (if cnt \<noteq> 0 then min (8 - cnt) n else 0)"
  define nw where "nw = (n - boff) div 8"
  define v where "v k = pid_at pid (off + int k)" for k
  have cnt: "cnt < 8" "off mod 8 = int cnt" using assms by (auto simp: cnt_def nat_less_iff)
  have boff: "boff \<le> n" "cnt \<noteq> 0 \<Longrightarrow> boff \<le> 8 - cnt" by (auto simp: boff_def)
  have al: "8 dvd off + int boff" if "boff < n \<or> cnt = 0"
    using that cnt by (auto simp: boff_def min_def split: if_splits) presburger+
  have v1: "word_byte (pid_word pid (off - int cnt)) (cnt + k) = v k" if "cnt \<noteq> 0" "k < boff" for k
  proof -
    have "8 dvd off - int cnt" using cnt(2) dvd_minus_mod [of 8 off] by simp
    moreover have "cnt + k < 8" using boff(2) that by simp
    ultimately show ?thesis using pid_at_in_word [of "off - int cnt" "cnt + k" pid] by (simp add: v_def)
  qed
  have p1: "(if cnt \<noteq> 0 then for_set (\<lambda>i. Some (word_byte (pid_word pid (off - int cnt)) (cnt + i))) 0 boff buf
      else Some buf) = Some (map v [0..<boff] @ drop boff buf)"
    using for_set_total [of boff _ v buf] v1 boff assms by (auto simp: boff_def)
  have p2: "pid_words pid nw (off + int boff) boff (map v [0..<boff] @ drop boff buf)
      = Some (map v [0..<boff + 8 * nw] @ drop (boff + 8 * nw) buf)"
  proof (cases "boff < n \<or> cnt = 0")
    case True
    have "boff + 8 * nw \<le> n" using boff by (simp add: nw_def)
    with pid_words_stretch [OF al [OF True], of nw buf pid] assms show ?thesis by (simp add: v_def [abs_def])
  next
    case False
    then show ?thesis using boff by (simp add: nw_def)
  qed
  define boff2 where "boff2 = boff + 8 * nw"
  have b2: "boff2 \<le> n" "n = boff2 + (n - boff2) mod 8" using boff by (auto simp: boff2_def nw_def)
  have p3: "for_set (\<lambda>i. Some (word_byte (pid_word pid (off + int boff + 8 * int nw)) (i - boff2))) boff2
      (boff2 + (n - boff2) mod 8) (map v [0..<boff2] @ drop boff2 buf) = Some (map v [0..<n] @ drop n buf)"
  proof (cases "boff2 < n")
    case True
    then have "boff < n \<or> cnt = 0" using boff2_def by auto
    then have al2: "8 dvd off + int boff + 8 * int nw" using al by simp
    have "word_byte (pid_word pid (off + int boff + 8 * int nw)) (k - boff2) = v k"
      if "boff2 \<le> k" "k < boff2 + (n - boff2) mod 8" for k
      using pid_at_in_word [OF al2, of "k - boff2" pid] that by (simp add: v_def boff2_def of_nat_diff)
    then show ?thesis
      using for_set_stretch [of boff2 "boff2 + (n - boff2) mod 8" _ v buf] b2 assms by simp
  next
    case False
    then show ?thesis using b2 for_set_end [of n boff2] by simp
  qed
  have "datapidgen True pid n off buf = Some (int n, map v [0..<n] @ drop n buf)"
    unfolding datapidgen_def Let_def cnt_def [symmetric] boff_def [symmetric] nw_def [symmetric]
      boff2_def [symmetric]
    by (simp only: p1 p2 [folded boff2_def] p3 Option.bind.simps not_True_eq_False if_False)
  then show ?thesis by (simp add: v_def [abs_def])
qed

fun pid_words_bad :: "int \<Rightarrow> nat \<Rightarrow> int \<Rightarrow> nat \<Rightarrow> byte list \<Rightarrow> int option option" where
  "pid_words_bad pid 0 woff boff buffer = Some None"
| "pid_words_bad pid (Suc n) woff boff buffer =
     do { r \<leftarrow> for_find (\<lambda>i. do { b \<leftarrow> buf_get buffer i;
                               Some (b \<noteq> word_byte (pid_word pid woff) (i - boff)) }) boff (boff + 8);
          case r of Some i \<Rightarrow> Some (Some woff)
          | None \<Rightarrow> pid_words_bad pid n (woff + 8) (boff + 8) buffer }"

definition datapidchk :: "bool \<Rightarrow> int \<Rightarrow> nat \<Rightarrow> int \<Rightarrow> byte list \<Rightarrow> int option" where
  "datapidchk cray pid bsize offset buffer =
     (if \<not> cray then Some 0
      else (let cnt = nat (offset smod 8);
                boff = (if cnt \<noteq> 0 then min (8 - cnt) bsize else 0);
                nwords = (bsize - boff) div 8;
                woff = offset + int boff;
                boff2 = boff + 8 * nwords;
                woff2 = woff + 8 * int nwords
            in do {
              r1 \<leftarrow> (if cnt \<noteq> 0
                    then for_find (\<lambda>i. do { b \<leftarrow> buf_get buffer i;
                           Some (b \<noteq> word_byte (pid_word pid (offset - int cnt)) (cnt + i)) }) 0 boff
                    else Some None);
              case r1 of Some i \<Rightarrow> Some (offset + int i)
              | None \<Rightarrow> do {
                r2 \<leftarrow> pid_words_bad pid nwords woff boff buffer;
                case r2 of Some w \<Rightarrow> Some w
                | None \<Rightarrow> do {
                  r3 \<leftarrow> for_find (\<lambda>i. do { b \<leftarrow> buf_get buffer i;
                         Some (b \<noteq> word_byte (pid_word pid woff2) (i - boff2)) }) boff2
                         (boff2 + (bsize - boff2) mod 8);
                  Some (case r3 of Some i \<Rightarrow> offset + int i | None \<Rightarrow> -1) } } }))"

text \<open>A comparing loop over \<open>[i, n)\<close> returns; it finds something exactly when some byte differs.\<close>

lemma for_find_differs:
  assumes "n \<le> length buf"
  shows "\<exists>r. for_find (\<lambda>k. do { b \<leftarrow> buf_get buf k; Some (b \<noteq> e k) }) i n = Some r \<and>
    (r = None \<longleftrightarrow> (\<forall>k. i \<le> k \<and> k < n \<longrightarrow> buf ! k = e k))"
proof (cases "\<exists>k. i \<le> k \<and> k < n \<and> buf ! k \<noteq> e k")
  case True
  define m where "m = (LEAST k. i \<le> k \<and> k < n \<and> buf ! k \<noteq> e k)"
  have m: "i \<le> m \<and> m < n \<and> buf ! m \<noteq> e m" unfolding m_def using True by (rule LeastI_ex)
  have "buf ! k = e k" if "i \<le> k" "k < m" for k
    using not_less_Least [of k "\<lambda>k. i \<le> k \<and> k < n \<and> buf ! k \<noteq> e k"] that m by (auto simp: m_def)
  then have "for_find (\<lambda>k. do { b \<leftarrow> buf_get buf k; Some (b \<noteq> e k) }) i n = Some (Some m)"
    using m assms by (intro for_find_Some) (auto simp: buf_simps)
  with m show ?thesis by auto
next
  case False
  then have "for_find (\<lambda>k. do { b \<leftarrow> buf_get buf k; Some (b \<noteq> e k) }) i n = Some None"
    using assms by (intro for_find_None) (auto simp: buf_simps)
  with False show ?thesis by auto
qed

lemma pid_words_bad_iff:
  assumes "8 dvd off + int boff" "boff + 8 * n \<le> length buf" "0 \<le> off"
  shows "\<exists>r. pid_words_bad pid n (off + int boff) boff buf = Some r \<and>
    (r = None \<longleftrightarrow> (\<forall>k. boff \<le> k \<and> k < boff + 8 * n \<longrightarrow> buf ! k = pid_at pid (off + int k))) \<and>
    (\<forall>w. r = Some w \<longrightarrow> 0 \<le> w)"
  using assms
proof (induction n arbitrary: boff)
  case 0
  then show ?case by auto
next
  case (Suc n)
  have e: "word_byte (pid_word pid (off + int boff)) (k - boff) = pid_at pid (off + int k)"
    if "boff \<le> k" "k < boff + 8" for k
    using pid_at_in_word [OF Suc.prems(1), of "k - boff" pid] that by (simp add: of_nat_diff)
  obtain r where r: "for_find (\<lambda>i. do { b \<leftarrow> buf_get buf i;
      Some (b \<noteq> word_byte (pid_word pid (off + int boff)) (i - boff)) }) boff (boff + 8) = Some r"
    "r = None \<longleftrightarrow> (\<forall>k. boff \<le> k \<and> k < boff + 8 \<longrightarrow> buf ! k = pid_at pid (off + int k))"
    using for_find_differs [of "boff + 8" buf _ boff] e Suc.prems(2) by fastforce
  show ?case
  proof (cases r)
    case (Some i)
    with r have "\<exists>k. boff \<le> k \<and> k < boff + 8 * Suc n \<and> buf ! k \<noteq> pid_at pid (off + int k)" by auto
    with Some r Suc.prems show ?thesis by auto
  next
    case None
    have "8 dvd off + int (boff + 8)"
      using Suc.prems(1) by simp (metis add.assoc dvd_add dvd_refl)
    from Suc.IH [OF this] Suc.prems obtain r' where r':
      "pid_words_bad pid n (off + int boff + 8) (boff + 8) buf = Some r'"
      "r' = None \<longleftrightarrow> (\<forall>k. boff + 8 \<le> k \<and> k < boff + 8 + 8 * n \<longrightarrow> buf ! k = pid_at pid (off + int k))"
      "\<forall>w. r' = Some w \<longrightarrow> 0 \<le> w"
      by (auto simp: add.assoc)
    have "(\<forall>k. boff \<le> k \<and> k < boff + 8 * Suc n \<longrightarrow> buf ! k = pid_at pid (off + int k)) \<longleftrightarrow>
      (\<forall>k. boff \<le> k \<and> k < boff + 8 \<longrightarrow> buf ! k = pid_at pid (off + int k)) \<and>
      (\<forall>k. boff + 8 \<le> k \<and> k < boff + 8 + 8 * n \<longrightarrow> buf ! k = pid_at pid (off + int k))"
      by (auto simp: not_less [symmetric])
    with None r r' show ?thesis by simp
  qed
qed

lemma datapidchk_spec:
  assumes "0 \<le> off" "n \<le> length buf"
  shows "map_option (\<lambda>r. r = -1) (datapidchk True pid n off buf) =
    Some (\<forall>k < n. buf ! k = pid_at pid (off + int k))"
proof -
  define cnt where "cnt = nat (off smod 8)"
  define boff where "boff = (if cnt \<noteq> 0 then min (8 - cnt) n else 0)"
  define nw where "nw = (n - boff) div 8"
  define boff2 where "boff2 = boff + 8 * nw"
  define good where "good k \<longleftrightarrow> buf ! k = pid_at pid (off + int k)" for k
  have cnt: "cnt < 8" "off mod 8 = int cnt" using assms by (auto simp: cnt_def nat_less_iff)
  have boff: "boff \<le> n" "cnt \<noteq> 0 \<Longrightarrow> boff \<le> 8 - cnt" by (auto simp: boff_def)
  have b2: "boff \<le> boff2" "boff2 \<le> n" "boff2 + (n - boff2) mod 8 = n"
    using boff by (auto simp: boff2_def nw_def)
  have al: "8 dvd off + int boff" if "boff < n \<or> cnt = 0"
    using that cnt by (auto simp: boff_def min_def split: if_splits) presburger+
  have e1: "word_byte (pid_word pid (off - int cnt)) (cnt + k) = pid_at pid (off + int k)"
    if "cnt \<noteq> 0" "k < boff" for k
    using pid_at_in_word [of "off - int cnt" "cnt + k" pid] dvd_minus_mod [of 8 off] cnt boff that by simp
  obtain r1 where r1: "(if cnt \<noteq> 0 then for_find (\<lambda>i. do { b \<leftarrow> buf_get buf i;
      Some (b \<noteq> word_byte (pid_word pid (off - int cnt)) (cnt + i)) }) 0 boff else Some None) = Some r1"
    "r1 = None \<longleftrightarrow> (\<forall>k < boff. good k)"
    using for_find_differs [of boff buf "\<lambda>i. word_byte (pid_word pid (off - int cnt)) (cnt + i)" 0]
      e1 boff assms by (cases "cnt = 0") (force simp: good_def boff_def)+
  obtain r2 where r2: "pid_words_bad pid nw (off + int boff) boff buf = Some r2"
    "r2 = None \<longleftrightarrow> (\<forall>k. boff \<le> k \<and> k < boff2 \<longrightarrow> good k)" "\<forall>w. r2 = Some w \<longrightarrow> 0 \<le> w"
  proof (cases "boff < n \<or> cnt = 0")
    case True
    with pid_words_bad_iff [OF al [OF True], of nw buf pid] b2 assms that show ?thesis
      by (auto simp: boff2_def good_def)
  next
    case False
    then have "nw = 0" "boff2 = boff" using boff by (auto simp: nw_def boff2_def)
    then show ?thesis by (intro that [of None]) auto
  qed
  obtain r3 where r3: "for_find (\<lambda>i. do { b \<leftarrow> buf_get buf i;
      Some (b \<noteq> word_byte (pid_word pid (off + int boff + 8 * int nw)) (i - boff2)) }) boff2
      (boff2 + (n - boff2) mod 8) = Some r3"
    "r3 = None \<longleftrightarrow> (\<forall>k. boff2 \<le> k \<and> k < n \<longrightarrow> good k)"
  proof -
    have "word_byte (pid_word pid (off + int boff + 8 * int nw)) (k - boff2) = pid_at pid (off + int k)"
      if "boff2 \<le> k" "k < n" for k
    proof -
      have "boff < n \<or> cnt = 0" using that b2 by auto
      then have "8 dvd off + int boff + 8 * int nw" using al by simp
      moreover have "k - boff2 < 8" using b2 that by (metis add_diff_cancel_left' diff_less_mono mod_less_divisor
            order_less_trans zero_less_numeral)
      ultimately have "pid_at pid (off + int boff + 8 * int nw + int (k - boff2)) =
          word_byte (pid_word pid (off + int boff + 8 * int nw)) (k - boff2)"
        by (rule pid_at_in_word)
      with that show ?thesis by (simp add: boff2_def of_nat_diff)
    qed
    with for_find_differs [of n buf _ boff2] b2 assms that show ?thesis by (fastforce simp: good_def)
  qed
  have split: "(\<forall>k < n. good k) \<longleftrightarrow> (\<forall>k < boff. good k) \<and> (\<forall>k. boff \<le> k \<and> k < boff2 \<longrightarrow> good k) \<and>
      (\<forall>k. boff2 \<le> k \<and> k < n \<longrightarrow> good k)"
    using b2 boff by (meson leI order_less_le_trans)
  have "datapidchk True pid n off buf = Some (case r1 of Some i \<Rightarrow> off + int i
      | None \<Rightarrow> case r2 of Some w \<Rightarrow> w | None \<Rightarrow> case r3 of Some i \<Rightarrow> off + int i | None \<Rightarrow> -1)"
    unfolding datapidchk_def Let_def cnt_def [symmetric] boff_def [symmetric] nw_def [symmetric]
      boff2_def [symmetric]
    by (simp only: r1(1) r2(1) r3(1) Option.bind.simps not_True_eq_False if_False)
      (simp split: option.splits)
  then show ?thesis using r1(2) r2(2,3) r3(2) split assms
    by (auto simp: good_def [symmetric] split: option.splits)
qed

interpretation pid: fill_check "\<lambda>_. True" pid_at
  "\<lambda>pid n off buf. map_option snd (datapidgen True pid n off buf)"
  "\<lambda>pid n off buf. map_option (\<lambda>r. r = -1) (datapidchk True pid n off buf)"
  by unfold_locales (simp_all only: datapidgen_spec datapidchk_spec option.map snd_conv)

section \<open>Properties\<close>

text \<open>C38: \<open>pattern_fill\<close> terminates, writes exactly the rotated repeated pattern into the first
  \<open>buflen\<close> bytes and nothing behind them, and \<open>pattern_check\<close> accepts every window of the result
  under the window's own rotation.\<close>

theorem pattern_fill_correct:
  assumes "0 < patlen" "patlen \<le> length pat" "buflen \<le> length buf" "0 \<le> patshift"
  shows "\<exists>b. pattern_fill buf buflen pat patlen patshift = Some b \<and> length b = length buf \<and>
    (\<forall>k < buflen. b ! k = pat ! ((nat patshift + k) mod patlen)) \<and> drop buflen b = drop buflen buf \<and>
    (\<forall>j m. j + m \<le> buflen \<longrightarrow> pattern_check (drop j b) m pat patlen (patshift + int j) = Some 0)"
proof -
  obtain b where b: "pattern_fill buf buflen pat patlen patshift = Some b"
    and def: "b = map (\<lambda>k. pattern_at pat patlen (patshift + int k)) [0..<buflen] @ drop buflen buf"
    using assms by (simp add: pattern_fill_spec)
  have win: "pattern_check (drop j b) m pat patlen (patshift + int j) = Some 0" if "j + m \<le> buflen" for j m
    using pattern.fill_accepts_window [of "(pat, patlen)" patshift buflen buf b j m] assms b that by simp
  have "pattern_at pat patlen (patshift + int k) = pat ! ((nat patshift + k) mod patlen)" for k
    using assms by (simp add: pattern_at_def nat_mod_distrib nat_add_distrib)
  with def assms win b show ?thesis by (auto simp: nth_append)
qed

theorem pattern_fill_correct_witness:
  "\<exists>b. pattern_fill (replicate 8 0) 7 [1, 2, 3 :: byte] 3 4 = Some b \<and> b ! 0 = 2 \<and> b ! 6 = 2 \<and> b ! 7 = 0"
proof -
  obtain b where b: "pattern_fill (replicate 8 0) 7 [1, 2, 3 :: byte] 3 4 = Some b"
    "\<forall>k < 7. b ! k = [1, 2, 3] ! ((nat 4 + k) mod 3)" "drop 7 b = drop 7 (replicate 8 0)" "length b = 8"
    using pattern_fill_correct [of 3 "[1, 2, 3 :: byte]" 7 "replicate 8 0" 4] by auto
  have "hd (drop 7 b) = b ! 7" by (rule hd_drop_conv_nth) (simp add: b)
  with b have "b ! 7 = 0" by simp
  moreover have "b ! 0 = 2" "b ! 6 = 2" using b(2) [rule_format, of 0] b(2) [rule_format, of 6] by simp_all
  ultimately show ?thesis using b(1) by blast
qed

text \<open>C39: the doubling comparison of \<open>pattern_check\<close> is equivalent to comparing byte by byte with the
  endlessly repeated, rotated pattern: it returns 0 exactly when all bytes match and -1 otherwise.\<close>

theorem pattern_check_exact:
  assumes "0 < patlen" "patlen \<le> length pat" "buflen \<le> length buf" "0 \<le> patshift"
  shows "pattern_check buf buflen pat patlen patshift =
    Some (if list_all2 (=) (take buflen buf) (map (\<lambda>k. pat ! ((nat patshift + k) mod patlen)) [0..<buflen])
      then 0 else -1)"
proof -
  have "pattern_at pat patlen (patshift + int k) = pat ! ((nat patshift + k) mod patlen)" for k
    using assms by (simp add: pattern_at_def nat_mod_distrib nat_add_distrib)
  with assms show ?thesis by (simp add: pattern_check_spec list_all2_conv_all_nth)
qed

theorem pattern_check_exact_witness:
  "pattern_check [2, 3, 1, 2, 9 :: byte] 5 [1, 2, 3] 3 1 = Some (-1)
   \<and> pattern_check [2, 3, 1, 2, 9 :: byte] 4 [1, 2, 3] 3 1 = Some 0"
proof -
  have "\<not> list_all2 (=) (take 5 [2, 3, 1, 2, 9 :: byte]) (map (\<lambda>k. [1, 2, 3] ! ((nat 1 + k) mod 3)) [0..<5])"
    "list_all2 (=) (take 4 [2, 3, 1, 2, 9 :: byte]) (map (\<lambda>k. [1, 2, 3] ! ((nat 1 + k) mod 3)) [0..<4])"
    by code_simp+
  with pattern_check_exact [of 3 "[1, 2, 3 :: byte]" 5 "[2, 3, 1, 2, 9]" 1]
    pattern_check_exact [of 3 "[1, 2, 3 :: byte]" 4 "[2, 3, 1, 2, 9]" 1]
  show ?thesis by simp
qed

text \<open>After \<open>dataasciigen\<close> wrote a buffer, \<open>dataasciichk\<close> finds no error; after one character of it
  is changed to another it returns exactly the file offset of that character.\<close>

lemma dataascii_detects:
  assumes "listofchars \<noteq> Some []" "0 \<le> offset" "bsize \<le> length buffer" "m < bsize"
    and "x \<noteq> ascii_at listofchars (offset + int m)"
  shows "\<exists>b. dataasciigen listofchars bsize offset buffer = Some b \<and>
    dataasciichk listofchars bsize offset b = Some (-1) \<and>
    dataasciichk listofchars bsize offset (b[m := x]) = Some (offset + int m)"
proof -
  obtain b where b: "dataasciigen listofchars bsize offset buffer = Some b"
    using assms by (simp add: ascii.fill_spec)
  with ascii.chk_after_fill [OF assms(1-3) b] ascii.chk_after_corruption [OF assms(1-3) b assms(4,5)]
  show ?thesis by blast
qed

lemma dataascii_detects_witness:
  "\<exists>b. dataasciigen (Some ''abc'') 4 5 (replicate 4 (CHR 0x00)) = Some b \<and>
    dataasciichk (Some ''abc'') 4 5 b = Some (-1) \<and>
    dataasciichk (Some ''abc'') 4 5 (b[2 := CHR ''z'']) = Some 7"
  using dataascii_detects [of "Some ''abc''" 5 4 "replicate 4 (CHR 0x00)" 2 "CHR ''z''"]
  by (simp add: ascii_at_def charlist_of_def)

text \<open>Two processes that write overlapping parts of one file with \<open>databingen\<close> (any mode but
  \<open>'r'\<close>) put the same bytes into the overlap, whatever their buffers held before, and each of them
  still passes its own check.\<close>

lemma data_writers_agree:
  assumes "mode \<noteq> CHR ''r''" "0 \<le> off" "0 \<le> off'" "n \<le> length buf" "n' \<le> length buf'"
    and "databingen rnd mode n off buf = Some b" "databingen rnd' mode n' off' buf' = Some b'"
    and "off + int k = off' + int k'" "k < n" "k' < n'"
  shows "b ! k = b' ! k' \<and> databinchk mode n off b = Some (-1)"
proof -
  have "b ! k = bin_at mode (off + int k)" "b' ! k' = bin_at mode (off' + int k')"
    using bin.fill_nth [of mode off n buf rnd b k] bin.fill_nth [of mode off' n' buf' rnd' b' k'] assms by auto
  with assms bin.chk_after_fill [of mode off n buf rnd b] show ?thesis by simp
qed

lemma data_writers_agree_witness:
  "\<exists>b b'. databingen (\<lambda>_. 0) (CHR ''C'') 4 0 [0, 0, 0, 0] = Some b
    \<and> databingen (\<lambda>_. 1) (CHR ''C'') 3 2 [9, 9, 9] = Some b' \<and> b ! 3 = b' ! 1"
proof -
  obtain b b' where b: "databingen (\<lambda>_. 0) (CHR ''C'') 4 0 [0, 0, 0, 0] = Some b"
    "databingen (\<lambda>_. 1) (CHR ''C'') 3 2 [9, 9, 9] = Some b'"
    by (simp add: bin.fill_spec)
  from data_writers_agree [OF _ _ _ _ _ b, of 3 1] b show ?thesis by simp
qed

text \<open>On Cray machines \<open>datapidgen\<close> writes, for any start offset and length, the bytes of the
  pid words of the file, and \<open>datapidchk\<close> accepts exactly that content; any other byte is reported.\<close>

lemma datapid_correct:
  assumes "0 \<le> offset" "bsize \<le> length buffer"
  shows "\<exists>b. datapidgen True pid bsize offset buffer = Some (int bsize, b) \<and>
    (\<forall>k < bsize. b ! k = pid_at pid (offset + int k)) \<and> drop bsize b = drop bsize buffer \<and>
    datapidchk True pid bsize offset b = Some (-1) \<and>
    (\<forall>k < bsize. \<forall>x. x \<noteq> b ! k \<longrightarrow> datapidchk True pid bsize offset (b[k := x]) \<noteq> Some (-1))"
proof -
  define b where "b = map (\<lambda>k. pid_at pid (offset + int k)) [0..<bsize] @ drop bsize buffer"
  have gen: "datapidgen True pid bsize offset buffer = Some (int bsize, b)"
    using datapidgen_spec [OF assms] by (simp add: b_def)
  have nth: "\<forall>k < bsize. b ! k = pid_at pid (offset + int k)" by (simp add: b_def nth_append)
  have len: "length b = length buffer" "bsize \<le> length b" using assms by (auto simp: b_def)
  have bad: "datapidchk True pid bsize offset (b[k := x]) \<noteq> Some (-1)" if "k < bsize" "x \<noteq> b ! k" for k x
    using pid.corrupted_rejected [of offset bsize buffer pid b k x] gen nth that assms by auto
  show ?thesis
    using gen nth bad pid.fill_accepts [of offset bsize buffer pid b] assms by (auto simp: b_def)
qed

lemma datapid_correct_witness:
  "\<exists>b. datapidgen True 258 9 3 (replicate 9 0) = Some (9, b) \<and> b ! 4 = pid_at 258 7"
  using datapid_correct [of 3 9 "replicate 9 0" 258] by auto

end
