(* ===== verification/Pan_Collection.thy ===== *)
theory Pan_Collection
  imports Prelude
begin

text \<open>
  The command collection of the test driver (\<^verbatim>\<open>pan/ltp-pan.c\<close>): \<open>get_collection\<close> reads the command
  file, one entry \<open>name cmdline\<close> a line, and the rest of the driver's own command line; a first \<open>%f\<close>
  of a line marks where \<open>subst_pcnt_f\<close> puts a unique number. The conventions on the end of a test's
  name are here as well: the letters that lengthen the timeout of a test, and their removal before
  the name is logged. A read or write outside a buffer is \<open>None\<close>.
\<close>

record coll_entry =
  ce_name :: string
  ce_cmdline :: string
  ce_pcnt_f :: bool

section \<open>Reading the collection\<close>

text \<open>\<open>strstr (s, "%f")\<close>, and the \<open>f\<close> overwritten by an \<open>s\<close>; whether there was one.\<close>

fun mark_pcnt_f :: "string \<Rightarrow> string \<times> bool" where
  "mark_pcnt_f [] = ([], False)"
| "mark_pcnt_f (c # s) =
     (if c = CHR ''%'' \<and> s \<noteq> [] \<and> hd s = CHR ''f'' then (c # CHR ''s'' # tl s, True)
      else (let (s', found) = mark_pcnt_f s in (c # s', found)))"

definition is_blank :: "char \<Rightarrow> bool" where
  "is_blank c \<longleftrightarrow> c = CHR '' '' \<or> c = CHR 0x09"

text \<open>One line that is not a comment: \<open>strsep\<close> leaves \<open>a\<close> null when the line has no blank, and
  \<open>strdup (NULL)\<close> is undefined.\<close>

definition parse_entry :: "string \<Rightarrow> coll_entry option" where
  "parse_entry line =
     (let (a, found) = mark_pcnt_f line;
          name = takeWhile (\<lambda>c. \<not> is_blank c) a;
          rest = dropWhile (\<lambda>c. \<not> is_blank c) a
      in if rest = [] then None
         else Some \<lparr>ce_name = name, ce_cmdline = tl rest, ce_pcnt_f = found\<rparr>)"

function coll_lines :: "string \<Rightarrow> coll_entry list option" where
  "coll_lines a =
     (let (line, b) = cut_at (CHR 0x0A) a
      in do {
        e \<leftarrow> (if line \<noteq> [] \<and> hd line \<noteq> CHR ''#'' \<and> hd line \<noteq> CHR '' ''
              then map_option (\<lambda>e. [e]) (parse_entry line) else Some []);
        es \<leftarrow> (case b of None \<Rightarrow> Some [] | Some r \<Rightarrow> coll_lines r);
        Some (e @ es) })"
  by pat_completeness auto
termination
  by (relation "measure length") (auto dest: cut_at_shrinks [OF sym])

declare coll_lines.simps [simp del]

text \<open>The driver's remaining arguments, joined in \<open>workstr[1024]\<close>: \<open>strncat\<close> with a negative count
  takes it as a huge unsigned number.\<close>

definition strncat_buf :: "nat \<Rightarrow> string \<Rightarrow> string \<Rightarrow> int \<Rightarrow> string option" where
  "strncat_buf cap w s n =
     (let k = (if n < 0 then length s else min (nat n) (length s))
      in if length w + k < cap then Some (w @ take k s) else None)"

fun work_loop :: "string list \<Rightarrow> string \<Rightarrow> int \<Rightarrow> string option" where
  "work_loop [] workstr left = Some workstr"
| "work_loop (a # as) workstr left = do {
     w1 \<leftarrow> strncat_buf 1024 workstr a left;
     w2 \<leftarrow> strncat_buf 1024 w1 '' '' (left - int (length a));
     work_loop as w2 (left - int (length a) - 1) }"

text \<open>\<open>slurp\<close>: what the file system answers, an \<open>errno\<close> or the contents of the file; what is used of them
  ends at the first NUL.\<close>

definition slurp :: "(string \<Rightarrow> int + string) \<Rightarrow> string \<Rightarrow> string option" where
  "slurp fs file = (case fs file of Inl e \<Rightarrow> None | Inr s \<Rightarrow> Some (takeWhile (\<lambda>c. c \<noteq> CHR 0x00) s))"

text \<open>The result is \<open>None\<close> for undefined behaviour, \<open>Some None\<close> when the file cannot be read.\<close>

definition get_collection ::
  "(string \<Rightarrow> int + string) \<Rightarrow> string \<Rightarrow> string list \<Rightarrow> coll_entry list option option" where
  "get_collection fs file args =
     (case slurp fs file of
        None \<Rightarrow> Some None
      | Some buf \<Rightarrow> do {
          es \<leftarrow> coll_lines buf;
          cmdln \<leftarrow> (if args = [] then Some []
                    else do {
                      w \<leftarrow> work_loop args '''' 1023;
                      let (s, found) = mark_pcnt_f w;
                      Some [\<lparr>ce_name = ''cmdln'', ce_cmdline = s, ce_pcnt_f = found\<rparr>] });
          Some (Some (es @ cmdln)) })"

section \<open>The command that is run\<close>

text \<open>\<open>snprintf (new_cmdline, 1024, cmdline, arg)\<close>: the command line is the format. It has one argument;
  a second \<open>%s\<close>, or another conversion than \<open>%s\<close> and \<open>%%\<close>, is undefined.\<close>

fun format_one :: "string \<Rightarrow> string option \<Rightarrow> string option" where
  "format_one [] arg = Some []"
| "format_one (c # s) arg =
     (if c \<noteq> CHR ''%'' then map_option ((#) c) (format_one s arg)
      else (case s of
          [] \<Rightarrow> None
        | d # s' \<Rightarrow>
            if d = CHR ''%'' then map_option ((#) d) (format_one s' arg)
            else if d = CHR ''s''
            then (case arg of None \<Rightarrow> None | Some x \<Rightarrow> map_option ((@) x) (format_one s' None))
            else None))"

definition subst_pcnt_f :: "int \<Rightarrow> nat \<Rightarrow> coll_entry \<Rightarrow> (string \<times> nat) option" where
  "subst_pcnt_f pid counter e =
     (if \<not> ce_pcnt_f e then Some (ce_cmdline e, counter)
      else do {
        s \<leftarrow> format_one (ce_cmdline e) (Some (take 19 (show_int pid @ ''_'' @ show_nat counter)));
        Some (take 1023 s, counter + 1) })"

text \<open>A command line with one of these characters is run by a shell, any other is split at blanks.\<close>

definition wants_shell :: "string \<Rightarrow> bool" where
  "wants_shell cmdline \<longleftrightarrow> (\<exists>c \<in> set cmdline. c \<in> set [CHR 0x22, CHR 0x27, CHR '';'', CHR ''|'', CHR ''<'', CHR ''>'', CHR ''$'', CHR ''&'', CHR 0x5C])"

section \<open>Suffixes of the name\<close>

text \<open>The timeout of a test: an hour, practically none for a name that ends in \<open>U\<close>, half an hour
  more for each \<open>L\<close> and an hour more for each \<open>H\<close> at its end. The name is read from its end; reading
  before its start is \<open>None\<close>.\<close>

fun timeout_loop :: "string \<Rightarrow> nat \<Rightarrow> nat option" where
  "timeout_loop [] timeout = None"
| "timeout_loop (c # cs) timeout =
     (if c = CHR ''L'' \<or> c = CHR ''H''
      then timeout_loop cs (timeout + (if c = CHR ''L'' then 1800 else 3600))
      else Some timeout)"

definition case_timeout :: "string \<Rightarrow> nat option" where
  "case_timeout name =
     (case rev name of
        [] \<Rightarrow> None
      | c # cs \<Rightarrow> timeout_loop (c # cs) (if c = CHR ''U'' then 0xffffffff else 3600))"

text \<open>The name as it is logged, in \<open>oricom[255]\<close>. The count stops at the length of the name.\<close>

fun count_suffix :: "string \<Rightarrow> nat option" where
  "count_suffix [] = None"
| "count_suffix (c # cs) =
     (if c = CHR ''L'' \<or> c = CHR ''H'' \<or> c = CHR ''U''
      then (if cs = [] then Some 1 else map_option Suc (count_suffix cs)) else Some 0)"

definition log_name :: "string \<Rightarrow> string option" where
  "log_name name = do {
     c \<leftarrow> count_suffix (rev name);
     let n = (if c < length name \<and> 0 < c then length name - c - 1 else length name);
     if n \<le> 255 then Some (take n name) else None }"

section \<open>Properties\<close>

text \<open>A command file as its author writes it.\<close>

datatype coll_line = Comment string | Blank string | Entry string string

fun show_line :: "coll_line \<Rightarrow> string" where
  "show_line (Comment s) = CHR ''#'' # s"
| "show_line (Blank s) = (if s = [] then [] else CHR '' '' # s)"
| "show_line (Entry name cmd) = name @ CHR '' '' # cmd"

fun entries :: "coll_line list \<Rightarrow> coll_entry list" where
  "entries [] = []"
| "entries (Entry name cmd # ls) =
     \<lparr>ce_name = name, ce_cmdline = fst (mark_pcnt_f cmd), ce_pcnt_f = snd (mark_pcnt_f cmd)\<rparr> # entries ls"
| "entries (_ # ls) = entries ls"

fun line_ok :: "coll_line \<Rightarrow> bool" where
  "line_ok (Comment s) \<longleftrightarrow> {CHR 0x0A, CHR 0x00} \<inter> set s = {}"
| "line_ok (Blank s) \<longleftrightarrow> {CHR 0x0A, CHR 0x00} \<inter> set s = {}"
| "line_ok (Entry name cmd) \<longleftrightarrow> name \<noteq> [] \<and> hd name \<noteq> CHR ''#'' \<and>
     {CHR 0x0A, CHR 0x00, CHR '' '', CHR 0x09, CHR ''%''} \<inter> set name = {} \<and> {CHR 0x0A, CHR 0x00} \<inter> set cmd = {}"

lemma mark_pcnt_f_prefix:
  "CHR ''%'' \<notin> set a \<Longrightarrow> mark_pcnt_f (a @ b) = (a @ fst (mark_pcnt_f b), snd (mark_pcnt_f b))"
  by (induction a) (auto simp: case_prod_beta Let_def)

lemma parse_entry_show:
  assumes "line_ok (Entry name cmd)"
  shows "parse_entry (show_line (Entry name cmd)) =
    Some \<lparr>ce_name = name, ce_cmdline = fst (mark_pcnt_f cmd), ce_pcnt_f = snd (mark_pcnt_f cmd)\<rparr>"
proof -
  have "mark_pcnt_f (name @ CHR '' '' # cmd) = (name @ CHR '' '' # fst (mark_pcnt_f cmd), snd (mark_pcnt_f cmd))"
    using mark_pcnt_f_prefix [of "name @ '' ''" cmd] assms by simp
  moreover have "\<And>x. x \<in> set name \<Longrightarrow> \<not> is_blank x" using assms by (auto simp: is_blank_def)
  then have "takeWhile (\<lambda>c. \<not> is_blank c) (name @ CHR '' '' # r) = name"
    "dropWhile (\<lambda>c. \<not> is_blank c) (name @ CHR '' '' # r) = CHR '' '' # r" for r
    by (simp_all add: takeWhile_append2 dropWhile_append2 is_blank_def)
  ultimately show ?thesis by (simp add: parse_entry_def del: dropWhile_eq_Nil_conv)
qed

lemma coll_lines_show:
  assumes "\<forall>l \<in> set ls. line_ok l" "ls \<noteq> []"
  shows "coll_lines (join_with (CHR 0x0A) (map show_line ls)) = Some (entries ls)"
proof -
  have lf: "CHR 0x0A \<notin> set (show_line l)" if "line_ok l" for l using that by (cases l) auto
  have one: "(if show_line l \<noteq> [] \<and> hd (show_line l) \<noteq> CHR ''#'' \<and> hd (show_line l) \<noteq> CHR '' ''
      then map_option (\<lambda>e. [e]) (parse_entry (show_line l)) else Some []) = Some (entries [l])" if "line_ok l" for l
  proof (cases l)
    case (Entry name cmd)
    have "show_line l \<noteq> [] \<and> hd (show_line l) \<noteq> CHR ''#'' \<and> hd (show_line l) \<noteq> CHR '' ''"
      using that by (cases name) (auto simp: Entry)
    then show ?thesis using that parse_entry_show [of name cmd] by (simp only: Entry if_True) simp
  qed simp_all
  from assms show ?thesis
  proof (induction "CHR 0x0A" "map show_line ls" arbitrary: ls rule: join_with.induct)
    case (2 t)
    then obtain l where "ls = [l]" by auto
    with 2 lf one show ?case by (simp add: coll_lines.simps [of "show_line l"] cut_at_none)
  next
    case (3 t u ts)
    then obtain l ls' where ls: "ls = l # ls'" "ls' \<noteq> []" "t = show_line l" "u # ts = map show_line ls'" by auto
    have "coll_lines (join_with (CHR 0x0A) (map show_line ls')) = Some (entries ls')"
      using 3(1) [OF ls(4)] ls 3(3) by auto
    moreover have "entries (l # ls') = entries [l] @ entries ls'" by (cases l) auto
    moreover have "join_with (CHR 0x0A) (map show_line ls) = show_line l @ CHR 0x0A # join_with (CHR 0x0A) (map show_line ls')"
      using ls by (cases ls') auto
    ultimately show ?case using ls 3(3) one [of l] lf [of l]
      by (simp add: coll_lines.simps [of "show_line l @ _"] cut_at_append)
  qed auto
qed



text \<open>The driver's own arguments are joined in \<open>workstr\<close> within its bounds exactly when the arguments,
  each with a blank, are at most 1024 characters; with more of them \<open>strncat\<close> is called with a
  negative count and writes past the end of the array.\<close>

lemma workstr_bounds:
  "work_loop as [] 1023 =
     (if length (concat (map (\<lambda>a. a @ '' '') as)) \<le> 1024
      then Some (take 1023 (concat (map (\<lambda>a. a @ '' '') as))) else None)"
proof -
  have over: "work_loop as w left = None" if "left < 0" "length w = 1023" "as \<noteq> []" for as w left
    using that by (cases as) (auto simp: strncat_buf_def)
  have "work_loop as w (int left) =
      (if length (concat (map (\<lambda>a. a @ '' '') as)) \<le> Suc left
       then Some (w @ take left (concat (map (\<lambda>a. a @ '' '') as))) else None)"
    if "length w + left = 1023" for left w
    using that
  proof (induction as arbitrary: w left)
    case (Cons a as)
    consider (fits) "length a < left" | (edge) "length a = left" | (out) "left < length a" by linarith
    then show ?case
    proof cases
      case fits
      then obtain k where k: "left = length a + Suc k" by (metis less_iff_Suc_add add_Suc_right)
      then show ?thesis using Cons.prems Cons.IH [of "w @ a @ '' ''" k]
        by (simp add: strncat_buf_def)
    next
      case edge
      then show ?thesis using Cons.prems over [of "-1" "w @ a" as]
        by (cases as) (auto simp: strncat_buf_def)
    next
      case out
      then show ?thesis using Cons.prems by (auto simp: strncat_buf_def min_def)
    qed
  qed simp
  from this [of "[]" 1023] show ?thesis by simp
qed

text \<open>The letters \<open>L\<close> and \<open>H\<close> at the end of a test's name add half an hour and an hour each to its
  timeout; the name that is logged has lost the letters and the character before them, whether that
  is the underscore that the convention wants or not.\<close>

lemma name_suffix:
  assumes "set suf \<subseteq> {CHR ''L'', CHR ''H''}" "suf \<noteq> []" "d \<notin> {CHR ''L'', CHR ''H'', CHR ''U''}" "length base \<le> 255"
  shows "log_name (base @ d # suf) = Some base \<and>
    case_timeout (base @ d # suf) =
      Some (3600 + 1800 * count_list suf (CHR ''L'') + 3600 * count_list suf (CHR ''H''))"
proof -
  have "count_suffix (rev (base @ d # suf)) = Some (length suf)"
  proof -
    have "count_suffix (xs @ d # ys) = Some (length xs)" if "set xs \<subseteq> {CHR ''L'', CHR ''H''}" for xs ys
      using that assms(3) by (induction xs) auto
    from this [of "rev suf" "rev base"] assms(1) show ?thesis by simp
  qed
  moreover have "case_timeout (base @ d # suf) =
      Some (3600 + 1800 * count_list suf (CHR ''L'') + 3600 * count_list suf (CHR ''H''))"
  proof -
    have "timeout_loop (xs @ d # ys) t = Some (t + 1800 * count_list xs (CHR ''L'') + 3600 * count_list xs (CHR ''H''))"
      if "set xs \<subseteq> {CHR ''L'', CHR ''H''}" for xs ys t
      using that assms(3) by (induction xs arbitrary: t) auto
    from this [of "rev suf" "rev base" 3600] have "timeout_loop (rev (base @ d # suf)) 3600 =
      Some (3600 + 1800 * count_list suf (CHR ''L'') + 3600 * count_list suf (CHR ''H''))" using assms(1) by simp
    moreover obtain c cs where "rev (base @ d # suf) = c # cs" "c \<in> set suf"
      using assms(2) by (cases suf rule: rev_cases) auto
    moreover from this assms(1) have "c \<noteq> CHR ''U''" by auto
    ultimately show ?thesis by (simp only: case_timeout_def list.case if_False)
  qed
  ultimately show ?thesis using assms(2,4) by (simp add: log_name_def)
qed

lemma name_suffix_witness:
  "log_name ''sd_test_LH'' = Some ''sd_test'' \<and> log_name ''sdtestL'' = Some ''sdtes'' \<and> case_timeout ''sd_test_LH'' = Some 9000"
  using name_suffix [of "''LH''" "CHR ''_''" "''sd_test''"] name_suffix [of "''L''" "CHR ''t''" "''sdtes''"] by simp

end
