(* ===== verification/Splitstr.thy ===== *)
theory Splitstr
  imports Prelude
begin

text \<open>
  The two tokenisers: \<open>splitstr\<close> of \<^verbatim>\<open>pan/splitstr.c\<close>, which grows an array of pointers into a copy of
  the string, and \<open>string_to_tokens\<close> of \<^verbatim>\<open>lib/string_to_tokens.c\<close>, which fills an array of the caller.
  A token is kept with its offset in the string, because \<open>splitstr_free\<close> frees the first token in
  place of the copy. A cell of an array is uninitialised, null or a token; a store outside the array
  is \<open>None\<close>.
\<close>

datatype cell = Uninit | Null | Tok nat string

fun cell_token :: "cell \<Rightarrow> string option" where
  "cell_token (Tok off t) = Some t"
| "cell_token _ = None"

section \<open>splitstr\<close>

text \<open>\<open>strtok\<close> on the rest of the string that starts at an offset.\<close>

definition strtok_off :: "string \<Rightarrow> nat \<times> string \<Rightarrow> (cell \<times> nat \<times> string) option" where
  "strtok_off sep p =
     (case strtok sep (snd p) of
        None \<Rightarrow> None
      | Some (t, r) \<Rightarrow> Some (Tok (fst p + length (takeWhile (\<lambda>c. c \<in> set sep) (snd p))) t,
                            fst p + (length (snd p) - length r), r))"

lemma strtok_off_shrinks: "strtok_off sep p = Some (c, q) \<Longrightarrow> length (snd q) < length (snd p)"
  by (auto simp: strtok_off_def dest: strtok_shrinks split: option.splits)

text \<open>The loop: \<open>cur\<close> is the token at hand and the rest after it; the array grows by 20 cells when full.\<close>

function split_loop ::
  "string \<Rightarrow> (cell \<times> nat \<times> string) option \<Rightarrow> nat \<Rightarrow> cell list \<Rightarrow> (nat \<times> cell list) option" where
  "split_loop sep cur num_toks arr =
     (case cur of
        None \<Rightarrow> Some (num_toks, arr)
      | Some (tok, rest) \<Rightarrow> do {
          arr \<leftarrow> buf_set arr num_toks tok;
          split_loop sep (strtok_off sep rest) (num_toks + 1)
            (if num_toks + 1 = length arr then arr @ replicate 20 Uninit else arr) })"
  by pat_completeness auto
termination
  by (relation "measure (\<lambda>(sep, cur, n, arr). case cur of None \<Rightarrow> 0 | Some (c, off, s) \<Rightarrow> Suc (length s))")
    (auto dest!: strtok_off_shrinks split: option.splits)

declare split_loop.simps [simp del]

text \<open>The array and \<open>*argcount\<close>. The flags are the answers of \<open>strdup\<close> and \<open>malloc\<close>.\<close>

definition splitstr ::
  "bool \<Rightarrow> bool \<Rightarrow> string option \<Rightarrow> string option \<Rightarrow> (cell list option \<times> nat) option" where
  "splitstr dup_ok malloc_ok str separator =
     (case str of
        None \<Rightarrow> Some (None, 0)
      | Some s \<Rightarrow>
          if \<not> dup_ok then Some (None, 0)
          else if \<not> malloc_ok then Some (None, 0)
          else (let sep = (case separator of None \<Rightarrow> [CHR '' '', CHR 0x09] | Some x \<Rightarrow> x)
                in do {
                  (n, arr) \<leftarrow> split_loop sep (strtok_off sep (0, s)) 0 (replicate 20 Uninit);
                  arr \<leftarrow> buf_set arr n Null;
                  arr \<leftarrow> for_set (\<lambda>_. Some Null) (n + 1) (length arr) arr;
                  Some (Some arr, n) }))"

text \<open>\<open>splitstr_free\<close>: what it passes to \<open>free\<close> in place of the copy has to be the start of the copy.
  \<open>Some True\<close>: both objects are freed; \<open>Some False\<close>: the copy is leaked; \<open>None\<close>: undefined.\<close>

definition splitstr_free :: "cell list option \<Rightarrow> bool option" where
  "splitstr_free p =
     (case p of
        None \<Rightarrow> None
      | Some arr \<Rightarrow> do {
          c \<leftarrow> buf_get arr 0;
          (case c of
             Uninit \<Rightarrow> None
           | Null \<Rightarrow> Some False
           | Tok off t \<Rightarrow> if off = 0 then Some True else None) })"

section \<open>string_to_tokens\<close>

fun tokens_loop :: "string \<Rightarrow> nat \<times> string \<Rightarrow> nat \<Rightarrow> nat \<Rightarrow> cell list \<Rightarrow> (nat \<times> cell list) option" where
  "tokens_loop sep rest num_toks 0 arr = Some (num_toks, arr)"
| "tokens_loop sep rest num_toks (Suc k) arr =
     (case strtok_off sep rest of
        None \<Rightarrow> do { arr \<leftarrow> buf_set arr num_toks Null; Some (num_toks, arr) }
      | Some (tok, rest') \<Rightarrow> do {
          arr \<leftarrow> buf_set arr num_toks tok;
          tokens_loop sep rest' (num_toks + 1) k arr })"

definition string_to_tokens ::
  "string \<Rightarrow> cell list option \<Rightarrow> nat \<Rightarrow> string option \<Rightarrow> (int \<times> cell list option) option" where
  "string_to_tokens arg_string arg_array array_size separator =
     (case (arg_array, separator) of
        (Some arr, Some sep) \<Rightarrow>
          if array_size \<le> 1 then Some (-1, Some arr)
          else (case strtok_off sep (0, arg_string) of
              None \<Rightarrow> do { arr \<leftarrow> buf_set arr 0 Null; Some (0, Some arr) }
            | Some (tok, rest) \<Rightarrow> do {
                arr \<leftarrow> buf_set arr 0 tok;
                (n, arr) \<leftarrow> tokens_loop sep rest 1 (array_size - 1) arr;
                arr \<leftarrow> (if n = array_size then buf_set arr n Null else Some arr);
                Some (int n, Some arr) })
      | _ \<Rightarrow> Some (-1, arg_array))"

section \<open>The tokens that are found\<close>

text \<open>All tokens of a string, with their offsets.\<close>

function toks :: "string \<Rightarrow> nat \<times> string \<Rightarrow> cell list" where
  "toks sep p = (case strtok_off sep p of None \<Rightarrow> [] | Some (c, q) \<Rightarrow> c # toks sep q)"
  by pat_completeness auto
termination
  by (relation "measure (\<lambda>(sep, p). length (snd p))") (auto dest: strtok_off_shrinks)

declare toks.simps [simp del]

lemma toks_tokens: "map cell_token (toks sep p) = map Some (strtok_all sep (snd p))"
proof (induction sep p rule: toks.induct)
  case (1 sep p)
  then show ?case
    by (simp add: toks.simps [of sep p] strtok_all.simps [of sep "snd p"] strtok_off_def split: option.splits prod.splits)
qed

lemma toks_length: "length (toks sep p) = length (strtok_all sep (snd p))"
  using toks_tokens [of sep p, THEN arg_cong [where f = length]] by simp

lemma toks_step: "strtok_off sep p = Some (c, q) \<Longrightarrow> toks sep p = c # toks sep q"
  "strtok_off sep p = None \<Longrightarrow> toks sep p = []"
  by (simp_all add: toks.simps [of sep p])

text \<open>The loop fills the array with the tokens, and always leaves a free cell after them.\<close>

lemma split_loop_toks:
  assumes "num < length arr" "20 dvd length arr"
  shows "\<exists>arr'. split_loop sep (strtok_off sep p) num arr = Some (num + length (toks sep p), arr') \<and>
    num + length (toks sep p) < length arr' \<and> take num arr' = take num arr \<and>
    take (length (toks sep p)) (drop num arr') = toks sep p \<and> 20 dvd length arr'"
  using assms
proof (induction sep p arbitrary: num arr rule: toks.induct)
  case (1 sep p)
  show ?case
  proof (cases "strtok_off sep p")
    case None
    with "1.prems" show ?thesis by (simp add: split_loop.simps [of sep None] toks_step)
  next
    case (Some cq)
    obtain c q where cq: "cq = (c, q)" by (cases cq)
    define arr1 where "arr1 = arr[num := c]"
    define arr2 where "arr2 = (if num + 1 = length arr then arr1 @ replicate 20 Uninit else arr1)"
    have arr2: "num + 1 < length arr2" "20 dvd length arr2" "take (num + 1) arr2 = take num arr @ [c]"
      using "1.prems" by (auto simp: arr2_def arr1_def take_Suc_conv_app_nth nth_append)
    from "1.IH" [OF Some cq [symmetric] arr2(1,2)] obtain arr' where
      arr': "split_loop sep (strtok_off sep q) (num + 1) arr2 = Some (num + 1 + length (toks sep q), arr')"
      "num + 1 + length (toks sep q) < length arr'" "take (num + 1) arr' = take (num + 1) arr2"
      "take (length (toks sep q)) (drop (num + 1) arr') = toks sep q" "20 dvd length arr'" by blast
    have "split_loop sep (strtok_off sep p) num arr = split_loop sep (strtok_off sep q) (num + 1) arr2"
      unfolding Some cq by (subst split_loop.simps) (use "1.prems" in \<open>simp add: buf_simps arr2_def arr1_def\<close>)
    moreover have t: "toks sep p = c # toks sep q" using Some cq by (simp add: toks_step)
    moreover from arr'(3) arr2(3) have "take (num + 1) arr' = take num arr @ [c]" by simp
    then have "take num arr' = take num arr" "arr' ! num = c"
      using arr'(2) "1.prems"(1) by (auto simp: take_Suc_conv_app_nth)
    then have "take (length (toks sep p)) (drop num arr') = toks sep p"
      using arr'(2,4) t by (simp add: Cons_nth_drop_Suc [symmetric])
    ultimately show ?thesis using arr' \<open>take num arr' = take num arr\<close> by auto
  qed
qed

lemma splitstr_array:
  "\<exists>arr. splitstr True True (Some s) separator = Some (Some arr, length (toks sep (0, s))) \<and>
     length (toks sep (0, s)) < length arr \<and> 20 dvd length arr \<and>
     arr = toks sep (0, s) @ replicate (length arr - length (toks sep (0, s))) Null"
  if "sep = (case separator of None \<Rightarrow> [CHR '' '', CHR 0x09] | Some x \<Rightarrow> x)"
proof -
  define n where "n = length (toks sep (0, s))"
  obtain arr where arr: "split_loop sep (strtok_off sep (0, s)) 0 (replicate 20 Uninit) = Some (n, arr)"
    "n < length arr" "take n arr = toks sep (0, s)" "20 dvd length arr"
    using split_loop_toks [of 0 "replicate 20 Uninit" sep "(0, s)"] by (auto simp: n_def)
  have "for_set (\<lambda>_. Some Null) (n + 1) (length arr) (arr[n := Null]) =
      Some (take (n + 1) (arr[n := Null]) @ map (\<lambda>_. Null) [n + 1..<length arr] @ [])"
    using arr(2) by (subst for_set_total_from) auto
  moreover have "take (n + 1) (arr[n := Null]) = toks sep (0, s) @ [Null]"
    using arr(2,3) by (simp add: take_Suc_conv_app_nth)
  moreover have "map (\<lambda>_. Null) [n + 1..<length arr] = replicate (length arr - n - 1) Null"
    by (simp add: map_replicate_const)
  moreover have "Null # replicate (length arr - n - 1) Null = replicate (length arr - n) Null"
    using arr(2) by (simp flip: replicate_Suc)
  ultimately have "splitstr True True (Some s) separator = Some (Some (toks sep (0, s) @ replicate (length arr - n) Null), n)"
    using arr(1,2) that by (simp add: splitstr_def buf_simps)
  with arr(2,4) show ?thesis by (simp add: n_def)
qed

lemma hd_toks:
  "toks sep (0, s) \<noteq> [] \<Longrightarrow> \<exists>t. hd (toks sep (0, s)) = Tok (length (takeWhile (\<lambda>c. c \<in> set sep) s)) t"
  by (cases "strtok_off sep (0, s)")
    (auto simp: toks_step strtok_off_def split: option.splits prod.splits)

text \<open>The loop of \<open>string_to_tokens\<close>: it stores tokens, and a null only when it leaves before its end.\<close>

lemma tokens_loop_toks:
  assumes "num + k = length arr"
  shows "\<exists>arr'. tokens_loop sep p num k arr =
      Some (num + min k (length (toks sep p)), arr') \<and> length arr' = length arr \<and>
    (length (toks sep p) < k \<longrightarrow>
       take (num + length (toks sep p) + 1) arr' = take num arr @ toks sep p @ [Null])"
  using assms
proof (induction k arbitrary: num arr p)
  case (Suc k)
  show ?case
  proof (cases "strtok_off sep p")
    case None
    with Suc.prems show ?thesis
      by (simp add: toks_step buf_simps take_Suc_conv_app_nth)
  next
    case (Some cq)
    obtain c q where cq: "cq = (c, q)" by (cases cq)
    with Suc.prems Suc.IH [of "num + 1" "arr[num := c]" q] obtain arr' where
      arr': "tokens_loop sep q (num + 1) k (arr[num := c]) = Some (num + 1 + min k (length (toks sep q)), arr')"
      "length arr' = length arr"
      "length (toks sep q) < k \<Longrightarrow> take (num + 1 + length (toks sep q) + 1) arr' =
         take (num + 1) (arr[num := c]) @ toks sep q @ [Null]" by auto
    with Suc.prems Some cq show ?thesis
      by (auto simp: toks_step buf_simps take_Suc_conv_app_nth)
  qed
qed simp

section \<open>Properties\<close>

text \<open>\<open>splitstr\<close> never stores outside its growing array, which holds exactly the tokens of the string
  (those that \<open>strtok\<close> finds), as many as it reports, and after them only nulls, at least one.\<close>

lemma splitstr_tokens:
  "\<exists>arr n. splitstr True True (Some s) separator = Some (Some arr, n) \<and>
     map cell_token (take n arr) =
       map Some (strtok_all (case separator of None \<Rightarrow> [CHR '' '', CHR 0x09] | Some x \<Rightarrow> x) s) \<and>
     n < length arr \<and> drop n arr = replicate (length arr - n) Null"
proof -
  define sep where "sep = (case separator of None \<Rightarrow> [CHR '' '', CHR 0x09] | Some x \<Rightarrow> x)"
  from splitstr_array [OF sep_def, of s] obtain arr where arr:
    "splitstr True True (Some s) separator = Some (Some arr, length (toks sep (0, s)))"
    "length (toks sep (0, s)) < length arr"
    "arr = toks sep (0, s) @ replicate (length arr - length (toks sep (0, s))) Null" by blast
  have "take (length (toks sep (0, s))) arr = toks sep (0, s)" by (subst arr(3)) simp
  moreover have "drop (length (toks sep (0, s))) arr = replicate (length arr - length (toks sep (0, s))) Null"
    by (subst arr(3)) simp
  ultimately show ?thesis using arr(1,2) toks_tokens [of sep "(0, s)"] by (auto simp: sep_def)
qed

text \<open>\<open>splitstr_free\<close> of a result of \<open>splitstr\<close> frees the array and the copy of the string only when
  the string starts with a token. When it starts with a separator the pointer that is freed is not
  the start of the copy, which is undefined; when it has no token the copy is never freed.\<close>

lemma splitstr_free_copy:
  "do { (p, n) \<leftarrow> splitstr True True (Some s) (Some sep); splitstr_free p } =
     (if strtok_all sep s = [] then Some False
      else if hd s \<in> set sep then None else Some True)"
proof -
  have len: "strtok_all sep s = [] \<longleftrightarrow> toks sep (0, s) = []"
    using toks_length [of sep "(0, s)"] by (metis length_0_conv snd_conv)
  from splitstr_array [of sep "Some sep" s] obtain arr where arr:
    "splitstr True True (Some s) (Some sep) = Some (Some arr, length (toks sep (0, s)))"
    "length (toks sep (0, s)) < length arr"
    "arr = toks sep (0, s) @ replicate (length arr - length (toks sep (0, s))) Null" by auto
  have "arr \<noteq> []" using arr(2) by auto
  show ?thesis
  proof (cases "toks sep (0, s)")
    case Nil
    then have "arr ! 0 = Null" by (subst arr(3)) (use \<open>arr \<noteq> []\<close> in simp)
    with Nil arr(1) len \<open>arr \<noteq> []\<close> show ?thesis by (simp add: splitstr_free_def buf_simps)
  next
    case (Cons c cs)
    then have "arr ! 0 = c" by (subst arr(3)) simp
    moreover obtain t where "c = Tok (length (takeWhile (\<lambda>c. c \<in> set sep) s)) t"
      using hd_toks [of sep s] Cons by auto
    moreover have "s \<noteq> []" using Cons by (auto simp: toks.simps [of sep "(0, [])"] strtok_off_def strtok_def)
    then have "takeWhile (\<lambda>c. c \<in> set sep) s = [] \<longleftrightarrow> hd s \<notin> set sep" by (cases s) auto
    ultimately show ?thesis using arr(1) len Cons \<open>arr \<noteq> []\<close> by (simp add: splitstr_free_def buf_simps)
  qed
qed

text \<open>With an array of exactly \<open>array_size\<close> cells, as its description asks for, \<open>string_to_tokens\<close>
  fills in the tokens and a null when there are fewer than \<open>array_size\<close> of them; otherwise it stores
  the null behind the array (it does not stop at \<open>array_size - 1\<close> tokens as documented).\<close>

lemma string_to_tokens_bounds:
  assumes "2 \<le> length arr"
  shows "if length (strtok_all sep s) < length arr
    then \<exists>arr'. string_to_tokens s (Some arr) (length arr) (Some sep) = Some (int (length (strtok_all sep s)), Some arr') \<and>
      map cell_token (take (length (strtok_all sep s)) arr') = map Some (strtok_all sep s) \<and>
      arr' ! length (strtok_all sep s) = Null
    else string_to_tokens s (Some arr) (length arr) (Some sep) = None"
proof (cases "strtok_off sep (0, s)")
  case None
  then have "strtok_all sep s = []" using toks_length [of sep "(0, s)"] by (simp add: toks_step)
  with None assms show ?thesis by (auto simp: string_to_tokens_def buf_simps)
next
  case (Some cq)
  obtain c q where cq: "cq = (c, q)" by (cases cq)
  have t: "toks sep (0, s) = c # toks sep q" using Some cq by (simp add: toks_step)
  then have l: "length (strtok_all sep s) = Suc (length (toks sep q))"
    using toks_length [of sep "(0, s)"] by simp
  obtain arr' where arr': "tokens_loop sep q 1 (length arr - 1) (arr[0 := c]) =
      Some (1 + min (length arr - 1) (length (toks sep q)), arr')" "length arr' = length arr"
    "length (toks sep q) < length arr - 1 \<Longrightarrow> take (1 + length (toks sep q) + 1) arr' =
       take 1 (arr[0 := c]) @ toks sep q @ [Null]"
  proof -
    have "1 + (length arr - 1) = length (arr[0 := c])" using assms by simp
    from tokens_loop_toks [OF this, of sep q] that show ?thesis by auto
  qed
  have run: "string_to_tokens s (Some arr) (length arr) (Some sep) =
      (let n = 1 + min (length arr - 1) (length (toks sep q)) in do {
         arr \<leftarrow> (if n = length arr then buf_set arr' n Null else Some arr');
         Some (int n, Some arr) })"
  proof -
    have "buf_set arr 0 c = Some (arr[0 := c])" using assms by (intro buf_set_Some) auto
    with assms Some cq arr'(1) show ?thesis by (simp add: string_to_tokens_def Let_def)
  qed
  show ?thesis
  proof (cases "Suc (length (toks sep q)) < length arr")
    case True
    then have tk: "take (Suc (length (toks sep q)) + 1) arr' = toks sep (0, s) @ [Null]"
      using arr'(3) assms t by (cases arr) auto
    then have "take (length (toks sep (0, s))) arr' = toks sep (0, s)" "arr' ! length (toks sep (0, s)) = Null"
      using arr'(2) True t by (auto simp: take_Suc_conv_app_nth)
    with True run l t toks_tokens [of sep "(0, s)"] show ?thesis by (simp add: Let_def)
  next
    case False
    then have "1 + min (length arr - 1) (length (toks sep q)) = length arr" using assms by simp
    with False run l arr'(2) show ?thesis by (simp add: buf_set_def Let_def)
  qed
qed

lemma string_to_tokens_bounds_witness:
  "string_to_tokens ''a,b'' (Some [Uninit, Uninit]) 2 (Some '','') = None"
proof -
  have "strtok_all '','' ''a,b'' = [''a'', ''b'']" by code_simp
  with string_to_tokens_bounds [of "[Uninit, Uninit]" "'',''" "''a,b''"] show ?thesis by (simp add: numeral_2_eq_2)
qed

end
