(* ===== verification/Zoo.thy ===== *)
theory Zoo
  imports Prelude "HOL-Library.Multiset"
begin

text \<open>
  \<^verbatim>\<open>pan/zoolib.c\<close>: the \<^emph>\<open>zoo\<close>, the file in which the test driver records what runs at the moment. It
  is a text file of 80-character lines; a line that starts with \<open>#\<close> is free, any other holds
  \<open>pid,tag,cmdline\<close>. The model keeps the file as its characters and transcribes the
  \<open>fgets\<close>/\<open>fseek\<close>/\<open>fprintf\<close> loops of \<open>zoo_mark\<close>, \<open>zoo_clear\<close> and \<open>zoo_getpid\<close>; the locale
  \<open>active_file\<close> is what \<open>pan\<close> relies on, a multiset of running pids, and its interpretation shows
  that the file implements it. The answers of \<open>fcntl\<close> and \<open>fseek\<close> are part of the state, so the error
  paths are branches of the model; a call of \<open>fcntl\<close> that never returns is \<open>None\<close>.
\<close>

section \<open>The file\<close>

abbreviation LF :: char where "LF \<equiv> CHR 0x0A"

definition BUFLEN :: nat where "BUFLEN = 81"

datatype zoo_msg =
  Failed_to_unlock int | Failed_to_lock int | Seek_writing int | Seek_end int | Not_found_pid int
| Could_not_open string int | Malloc_error

datatype fcntl_answer = Fcntl_ok | Fcntl_error int

record zoo =
  z_text :: string
  z_locked :: bool
  z_sigmask :: "int set"
  z_fcntl :: "nat \<Rightarrow> fcntl_answer"
  z_fcntls :: nat
  z_fseek :: "nat \<Rightarrow> int"
  z_fseeks :: nat
  z_error :: "zoo_msg option"

text \<open>The C strings that the code prints and reads: the text before the first NUL; \<open>fgets\<close> reads up to
  a line feed, and at most one character less than the size of its buffer.\<close>

definition c_str :: "string \<Rightarrow> string" where
  "c_str s = takeWhile (\<lambda>c. c \<noteq> CHR 0x00) s"

definition fgets :: "nat \<Rightarrow> string \<Rightarrow> string option" where
  "fgets n s =
     (if s = [] then None
      else (let l = takeWhile (\<lambda>c. c \<noteq> LF) s
            in Some (take (n - 1) (if length l < length s then l @ [LF] else l))))"

text \<open>\<open>%-*.*s\<close> with the same width and precision, and writing at a position of the file.\<close>

definition pad_to :: "nat \<Rightarrow> string \<Rightarrow> string" where
  "pad_to w s = take w s @ replicate (w - length s) (CHR '' '')"

definition write_at :: "string \<Rightarrow> nat \<Rightarrow> string \<Rightarrow> string" where
  "write_at text pos s = take pos text @ s @ drop (pos + length s) text"

text \<open>\<open>fseek\<close>: 0, or the \<open>errno\<close> that the state has for this call.\<close>

definition do_seek :: "zoo \<Rightarrow> int \<times> zoo" where
  "do_seek z = (z_fseek z (z_fseeks z), z\<lparr>z_fseeks := z_fseeks z + 1\<rparr>)"

section \<open>Locking\<close>

text \<open>\<open>SIGINT\<close>, \<open>SIGTERM\<close>, \<open>SIGHUP\<close>, \<open>SIGUSR1\<close>, \<open>SIGUSR2\<close>.\<close>

definition block_these :: "int set" where "block_these = {2, 15, 1, 10, 12}"

partial_function (option) fcntl_loop ::
  "(nat \<Rightarrow> fcntl_answer) \<Rightarrow> nat \<Rightarrow> (fcntl_answer \<times> nat) option" where
  "fcntl_loop ans n =
     (if ans n = Fcntl_error EINTR then fcntl_loop ans (n + 1) else Some (ans n, n + 1))"

declare fcntl_loop.simps [code]

definition zoo_lock :: "zoo \<Rightarrow> (int \<times> zoo) option" where
  "zoo_lock z = do {
     (a, n) \<leftarrow> fcntl_loop (z_fcntl z) (z_fcntls z);
     let z1 = z\<lparr>z_fcntls := n, z_sigmask := (z_sigmask z \<union> block_these) - block_these\<rparr>;
     Some (case a of
         Fcntl_ok \<Rightarrow> (0, z1\<lparr>z_locked := True\<rparr>)
       | Fcntl_error e \<Rightarrow> (-1, z1\<lparr>z_error := Some (Failed_to_unlock e)\<rparr>)) }"

definition zoo_unlock :: "zoo \<Rightarrow> (int \<times> zoo) option" where
  "zoo_unlock z = do {
     (a, n) \<leftarrow> fcntl_loop (z_fcntl z) (z_fcntls z);
     let z1 = z\<lparr>z_fcntls := n, z_sigmask := (z_sigmask z \<union> block_these) - block_these\<rparr>;
     Some (case a of
         Fcntl_ok \<Rightarrow> (0, z1\<lparr>z_locked := False\<rparr>)
       | Fcntl_error e \<Rightarrow> (-1, z1\<lparr>z_error := Some (Failed_to_lock e)\<rparr>)) }"

section \<open>Scanning\<close>

text \<open>The loop that the three operations share: read lines from \<open>pos\<close> on until one hits; the position
  where that line starts (\<open>ftell\<close>) and the buffer. \<open>None\<close> is the end of the file.\<close>

lemma fgets_length:
  assumes "fgets n s = Some b"
  shows "length b \<le> length s" "1 < n \<Longrightarrow> 0 < length b"
proof -
  define l where "l = takeWhile (\<lambda>c. c \<noteq> LF) s"
  have "length l \<le> length s" by (simp add: l_def length_takeWhile_le)
  with assms show "length b \<le> length s" "1 < n \<Longrightarrow> 0 < length b"
    by (auto simp: fgets_def l_def [symmetric] Let_def split: if_splits simp flip: length_greater_0_conv)
qed

function zoo_find :: "(string \<Rightarrow> bool) \<Rightarrow> string \<Rightarrow> nat \<Rightarrow> (nat \<times> string) option" where
  "zoo_find hit text pos =
     (case fgets BUFLEN (drop pos text) of
        None \<Rightarrow> None
      | Some buf \<Rightarrow> if hit buf then Some (pos, buf) else zoo_find hit text (pos + length buf))"
  by pat_completeness auto
termination
proof (relation "measure (\<lambda>(hit, text, pos). length text - pos)")
  fix hit :: "string \<Rightarrow> bool" and src pos buf
  assume "fgets BUFLEN (drop pos src) = Some buf"
  from fgets_length [OF this]
  show "((hit, src, pos + length buf), hit, src, pos) \<in> measure (\<lambda>(hit, text, pos). length text - pos)"
    by (simp add: BUFLEN_def del: length_greater_0_conv)
qed simp

declare zoo_find.simps [simp del]

section \<open>The operations\<close>

definition zoo_mark :: "zoo option \<Rightarrow> string \<Rightarrow> (int \<times> zoo option) option" where
  "zoo_mark fp entry =
     (case fp of
        None \<Rightarrow> Some (-1, None)
      | Some z \<Rightarrow> do {
          (r, z) \<leftarrow> zoo_lock z;
          if r \<noteq> 0 then Some (-1, Some z)
          else (case zoo_find (\<lambda>buf. hd buf = CHR ''#'') (z_text z) 0 of
              Some (pos, buf) \<Rightarrow>
                (let (e, z) = do_seek z; w = length (c_str buf) - 1
                 in if e \<noteq> 0 then Some (-1, Some (z\<lparr>z_error := Some (Seek_writing e)\<rparr>))
                    else do {
                      (r, z) \<leftarrow> zoo_unlock (z\<lparr>z_text := write_at (z_text z) pos (pad_to w entry @ [LF])\<rparr>);
                      Some (if r \<noteq> 0 then -1 else 0, Some z) })
            | None \<Rightarrow>
                (let (e, z) = do_seek z
                 in if e \<noteq> 0 then Some (-1, Some (z\<lparr>z_error := Some (Seek_end e)\<rparr>))
                    else do {
                      (r, z) \<leftarrow> zoo_unlock (z\<lparr>z_text := z_text z @ pad_to 79 entry @ [LF]\<rparr>);
                      Some (if r \<noteq> 0 then -1 else 0, Some z) })) })"

definition entry_of :: "int \<Rightarrow> string \<Rightarrow> string \<Rightarrow> string" where
  "entry_of p tag cmdline = take 79 (show_int p @ CHR '','' # tag @ CHR '','' # cmdline)"

definition zoo_mark_cmdline :: "zoo option \<Rightarrow> int \<Rightarrow> string \<Rightarrow> string \<Rightarrow> (int \<times> zoo option) option" where
  "zoo_mark_cmdline fp p tag cmdline = zoo_mark fp (entry_of p tag cmdline)"

text \<open>\<open>cat_args\<close>: the buffer that is allocated and the string that is built in it, both as sizes and
  characters; a NUL written at the end of the buffer or beyond is \<open>None\<close>.\<close>

fun args_size :: "string list \<Rightarrow> nat" where
  "args_size [] = 0"
| "args_size (a # as) = length a + 1 + args_size as"

definition strcat_buf :: "nat \<Rightarrow> string \<Rightarrow> string \<Rightarrow> string option" where
  "strcat_buf sz cmd s = (if length cmd + length s < sz then Some (cmd @ s) else None)"

fun cat_loop :: "nat \<Rightarrow> bool \<Rightarrow> string list \<Rightarrow> string \<Rightarrow> string option" where
  "cat_loop sz is_first [] cmd = Some cmd"
| "cat_loop sz is_first (a # as) cmd = do {
     cmd \<leftarrow> (if is_first then Some cmd else strcat_buf sz cmd '' '');
     cmd \<leftarrow> strcat_buf sz cmd a;
     cat_loop sz False as cmd }"

definition cat_args :: "string list \<Rightarrow> string option" where
  "cat_args argv = do {
     cmd \<leftarrow> strcat_buf (args_size argv) '''' '''';
     cat_loop (args_size argv) True argv cmd }"

definition zoo_mark_args :: "zoo option \<Rightarrow> int \<Rightarrow> string \<Rightarrow> string list \<Rightarrow> (int \<times> zoo option) option" where
  "zoo_mark_args fp p tag av = do { cmdline \<leftarrow> cat_args av; zoo_mark_cmdline fp p tag cmdline }"

definition zoo_clear :: "zoo option \<Rightarrow> int \<Rightarrow> (int \<times> zoo option) option" where
  "zoo_clear fp p =
     (case fp of
        None \<Rightarrow> Some (-1, None)
      | Some z \<Rightarrow> do {
          (r, z) \<leftarrow> zoo_lock z;
          if r \<noteq> 0 then Some (-1, Some z)
          else (case zoo_find (\<lambda>buf. hd buf \<noteq> CHR ''#'' \<and> atoi buf = p) (z_text z) 0 of
              Some (pos, buf) \<Rightarrow>
                (let (e, z) = do_seek z
                 in if e \<noteq> 0 then Some (-1, Some (z\<lparr>z_error := Some (Seek_writing e)\<rparr>))
                    else do {
                      (r, z) \<leftarrow> zoo_unlock (z\<lparr>z_text := write_at (z_text z) pos ''#''\<rparr>);
                      Some (if r \<noteq> 0 then -1 else 0, Some z) })
            | None \<Rightarrow> do {
                (r, z) \<leftarrow> zoo_unlock z;
                Some (if r \<noteq> 0 then (-1, Some z)
                      else (1, Some (z\<lparr>z_error := Some (Not_found_pid p)\<rparr>))) }) })"

definition tag_hit :: "string \<Rightarrow> string \<Rightarrow> bool" where
  "tag_hit tag buf \<longleftrightarrow>
     hd buf \<noteq> CHR ''#'' \<and> CHR '','' \<in> set (c_str buf) \<and>
     take (length tag) (tl (dropWhile (\<lambda>c. c \<noteq> CHR '','') (c_str buf))) = tag"

definition zoo_getpid :: "zoo option \<Rightarrow> string \<Rightarrow> (int \<times> zoo option) option" where
  "zoo_getpid fp tag =
     (case fp of
        None \<Rightarrow> Some (-1, None)
      | Some z \<Rightarrow> do {
          (r, z) \<leftarrow> zoo_lock z;
          if r \<noteq> 0 then Some (-1, Some z)
          else (let this_pid = (case zoo_find (tag_hit tag) (z_text z) 0 of
                                  Some (_, buf) \<Rightarrow> atoi buf | None \<Rightarrow> -1)
                in do {
                  (r, z) \<leftarrow> zoo_unlock z;
                  Some (if r \<noteq> 0 then -1 else this_pid, Some z) }) })"

text \<open>Opening and closing, over a file system \<open>fs\<close> whose \<open>fopen\<close> gives an open file or an \<open>errno\<close>.\<close>

definition zoo_getname :: "(string \<Rightarrow> string option) \<Rightarrow> string option" where
  "zoo_getname getenv = map_option (\<lambda>z. take 1023 (z @ ''/active'')) (getenv ''ZOO'')"

definition zoo_open :: "(string \<Rightarrow> string \<Rightarrow> 'fs \<Rightarrow> (int + 'f) \<times> 'fs) \<Rightarrow> ('f \<Rightarrow> 'fs \<Rightarrow> int \<times> 'fs) \<Rightarrow>
    string \<Rightarrow> 'fs \<Rightarrow> ('f option \<times> zoo_msg option) \<times> 'fs" where
  "zoo_open fopen fclose zooname fs =
     (case fopen zooname ''r+'' fs of
        (Inr f, fs) \<Rightarrow> ((Some f, None), fs)
      | (Inl e, fs) \<Rightarrow>
          if e = 2
          then (case fopen zooname ''a+'' fs of
                  (Inl e, fs) \<Rightarrow> ((None, Some (Could_not_open zooname e)), fs)
                | (Inr f, fs) \<Rightarrow>
                    (case fopen zooname ''r+'' (snd (fclose f fs)) of
                       (Inr f, fs) \<Rightarrow> ((Some f, None), fs)
                     | (Inl e, fs) \<Rightarrow> ((None, None), fs)))
          else ((None, Some (Could_not_open zooname e)), fs))"

section \<open>What the driver relies on\<close>

text \<open>A file of running pids: marking adds a pid, clearing removes one occurrence and reports whether
  there was one; the file grows only when every slot is taken.\<close>

datatype zoo_op = Mark int string string | Clear int

fun run_ops :: "('z option \<Rightarrow> int \<Rightarrow> string \<Rightarrow> string \<Rightarrow> (int \<times> 'z option) option) \<Rightarrow>
    ('z option \<Rightarrow> int \<Rightarrow> (int \<times> 'z option) option) \<Rightarrow> zoo_op list \<Rightarrow> 'z option \<Rightarrow> 'z option option" where
  "run_ops mark clear [] fp = Some fp"
| "run_ops mark clear (Mark p tag cmd # ops) fp = do { (_, fp) \<leftarrow> mark fp p tag cmd; run_ops mark clear ops fp }"
| "run_ops mark clear (Clear p # ops) fp = do { (_, fp) \<leftarrow> clear fp p; run_ops mark clear ops fp }"

fun running_pids :: "zoo_op list \<Rightarrow> int multiset \<Rightarrow> int multiset" where
  "running_pids [] m = m"
| "running_pids (Mark p tag cmd # ops) m = running_pids ops (add_mset p m)"
| "running_pids (Clear p # ops) m = running_pids ops (m - {#p#})"

fun peak :: "zoo_op list \<Rightarrow> int multiset \<Rightarrow> nat" where
  "peak [] m = size m"
| "peak (Mark p tag cmd # ops) m = max (size m) (peak ops (add_mset p m))"
| "peak (Clear p # ops) m = max (size m) (peak ops (m - {#p#}))"

locale active_file =
  fixes inv :: "'z \<Rightarrow> bool" and pids :: "'z \<Rightarrow> int multiset" and slots :: "'z \<Rightarrow> nat"
    and entry_ok :: "int \<Rightarrow> string \<Rightarrow> string \<Rightarrow> bool"
    and mark :: "'z option \<Rightarrow> int \<Rightarrow> string \<Rightarrow> string \<Rightarrow> (int \<times> 'z option) option"
    and clear :: "'z option \<Rightarrow> int \<Rightarrow> (int \<times> 'z option) option"
  assumes size_slots: "inv z \<Longrightarrow> size (pids z) \<le> slots z"
    and mark_law: "inv z \<Longrightarrow> entry_ok p tag cmd \<Longrightarrow> \<exists>z'. mark (Some z) p tag cmd = Some (0, Some z') \<and>
      inv z' \<and> pids z' = add_mset p (pids z) \<and> slots z' = max (slots z) (size (pids z) + 1)"
    and clear_law: "inv z \<Longrightarrow> \<exists>z'. clear (Some z) p = Some (if p \<in># pids z then 0 else 1, Some z') \<and>
      inv z' \<and> pids z' = pids z - {#p#} \<and> slots z' = slots z"
begin

lemma peak_ge: "size m \<le> peak ops m"
  by (cases "(ops, m)" rule: peak.cases) auto

lemma run_ops_running:
  assumes "inv z" "\<forall>p tag cmd. Mark p tag cmd \<in> set ops \<longrightarrow> entry_ok p tag cmd"
  shows "\<exists>z'. run_ops mark clear ops (Some z) = Some (Some z') \<and> inv z' \<and>
    pids z' = running_pids ops (pids z) \<and> slots z' = max (slots z) (peak ops (pids z))"
  using assms
proof (induction ops "pids z" arbitrary: z rule: peak.induct)
  case 1
  then show ?case using size_slots [of z] by simp
next
  case (2 p tag cmd ops)
  then have ok: "entry_ok p tag cmd" by auto
  from mark_law [OF 2(2) ok] obtain z' where z': "mark (Some z) p tag cmd = Some (0, Some z')"
    "inv z'" "pids z' = add_mset p (pids z)" "slots z' = max (slots z) (size (pids z) + 1)" by blast
  with 2(1) [of z'] 2(3) peak_ge [of "pids z'" ops] size_slots [OF 2(2)] show ?case by auto
next
  case (3 p ops)
  from clear_law [OF 3(2), of p] obtain z' where z': "clear (Some z) p = Some (if p \<in># pids z then 0 else 1, Some z')"
    "inv z'" "pids z' = pids z - {#p#}" "slots z' = slots z" by blast
  with 3(1) [of z'] 3(3) size_slots [OF 3(2)] show ?case by auto
qed

end

section \<open>The zoo file implements it\<close>

definition zoo_line :: "string \<Rightarrow> bool" where
  "zoo_line l \<longleftrightarrow> length l = 79 \<and> LF \<notin> set l \<and> CHR 0x00 \<notin> set l"

definition unlines :: "string list \<Rightarrow> string" where
  "unlines ls = concat (map (\<lambda>l. l @ [LF]) ls)"

fun lines_of :: "string \<Rightarrow> string list" where
  "lines_of text = (if text = [] then [] else take 79 text # lines_of (drop 80 text))"

declare lines_of.simps [simp del]

definition zoo_wf :: "string \<Rightarrow> bool" where
  "zoo_wf text \<longleftrightarrow> text = unlines (lines_of text) \<and> list_all zoo_line (lines_of text)"

definition free_line :: "string \<Rightarrow> bool" where
  "free_line l \<longleftrightarrow> hd l = CHR ''#''"

definition zoo_pids :: "zoo \<Rightarrow> int multiset" where
  "zoo_pids z = mset (map atoi (filter (\<lambda>l. \<not> free_line l) (lines_of (z_text z))))"

definition zoo_slots :: "zoo \<Rightarrow> nat" where
  "zoo_slots z = length (lines_of (z_text z))"

text \<open>Every call of \<open>fcntl\<close> is granted after finitely many interruptions, and no \<open>fseek\<close> fails.\<close>

definition granted :: "(nat \<Rightarrow> fcntl_answer) \<Rightarrow> nat \<Rightarrow> bool" where
  "granted ans n \<longleftrightarrow> (\<exists>k. ans (n + k) = Fcntl_ok \<and> (\<forall>i < k. ans (n + i) = Fcntl_error EINTR))"

definition zoo_inv :: "zoo \<Rightarrow> bool" where
  "zoo_inv z \<longleftrightarrow> zoo_wf (z_text z) \<and> (\<forall>n. granted (z_fcntl z) n) \<and> (\<forall>n. z_fseek z n = 0)"

definition entry_ok :: "int \<Rightarrow> string \<Rightarrow> string \<Rightarrow> bool" where
  "entry_ok p tag cmd \<longleftrightarrow> int_fits 32 p \<and> {LF, CHR 0x00} \<inter> (set tag \<union> set cmd) = {}"

lemma unlines_simps [simp]:
  "unlines [] = []" "unlines (l # ls) = l @ LF # unlines ls" "unlines (a @ b) = unlines a @ unlines b"
  by (simp_all add: unlines_def)

lemma length_unlines: "list_all zoo_line ls \<Longrightarrow> length (unlines ls) = 80 * length ls"
  by (induction ls) (auto simp: zoo_line_def)

lemma lines_of_unlines [simp]: "list_all zoo_line ls \<Longrightarrow> lines_of (unlines ls) = ls"
  by (induction ls) (simp_all add: lines_of.simps [of "_ @ _"] lines_of.simps [of "[]"] zoo_line_def)

lemma zoo_wf_unlines [simp]: "list_all zoo_line ls \<Longrightarrow> zoo_wf (unlines ls)"
  by (simp add: zoo_wf_def)

lemma fgets_line: "zoo_line l \<Longrightarrow> fgets BUFLEN (l @ LF # r) = Some (l @ [LF])"
proof -
  assume l: "zoo_line l"
  then have "\<And>x. x \<in> set l \<Longrightarrow> x \<noteq> LF" by (auto simp: zoo_line_def)
  then have "takeWhile (\<lambda>c. c \<noteq> LF) (l @ LF # r) = l @ takeWhile (\<lambda>c. c \<noteq> LF) (LF # r)"
    by (rule takeWhile_append2)
  with l show ?thesis by (simp add: fgets_def zoo_line_def BUFLEN_def)
qed

lemma zoo_find_step:
  "zoo_line l \<Longrightarrow> zoo_find hit (p @ unlines (l # b)) (length p) =
     (if hit (l @ [LF]) then Some (length p, l @ [LF]) else zoo_find hit ((p @ l @ [LF]) @ unlines b) (length (p @ l @ [LF])))"
  by (subst zoo_find.simps) (simp add: fgets_line)

lemma zoo_find_lines:
  assumes "list_all zoo_line a" "\<forall>x \<in> set a. \<not> hit (x @ [LF])"
  shows "zoo_find hit (p @ unlines (a @ b)) (length p) = zoo_find hit ((p @ unlines a) @ unlines b) (length (p @ unlines a))"
  using assms
proof (induction a arbitrary: p)
  case (Cons x a)
  then show ?case using zoo_find_step [of x hit p "a @ b"] Cons.IH [of "p @ x @ [LF]"] by simp
qed simp

text \<open>The first line that hits, or none; \<open>P\<close> says what hits, on lines.\<close>

lemma zoo_find_first:
  assumes "list_all zoo_line (a @ l # b)" "\<And>x. zoo_line x \<Longrightarrow> hit (x @ [LF]) \<longleftrightarrow> P x"
    and "P l" "\<forall>x \<in> set a. \<not> P x"
  shows "zoo_find hit (unlines (a @ l # b)) 0 = Some (80 * length a, l @ [LF])"
proof -
  have "\<forall>x \<in> set a. \<not> hit (x @ [LF])" "hit (l @ [LF])" using assms by (auto simp: list_all_iff)
  with zoo_find_lines [of a hit "[]" "l # b"] zoo_find_step [of l hit "unlines a" b] assms(1) show ?thesis
    by (simp add: length_unlines)
qed

lemma zoo_find_none:
  assumes "list_all zoo_line a" "\<And>x. zoo_line x \<Longrightarrow> hit (x @ [LF]) \<longleftrightarrow> P x" "\<forall>x \<in> set a. \<not> P x"
  shows "zoo_find hit (unlines a) 0 = None"
proof -
  have "\<forall>x \<in> set a. \<not> hit (x @ [LF])" using assms by (auto simp: list_all_iff)
  moreover have "zoo_find hit (p @ []) (length p) = None" for p
    by (subst zoo_find.simps) (simp add: fgets_def)
  ultimately show ?thesis using zoo_find_lines [of a hit "[]" "[]"] assms(1) by simp
qed

lemma first_cases:
  obtains (hit) a l b where "ls = a @ l # b" "P l" "\<forall>x \<in> set a. \<not> P x"
  | (miss) "\<forall>x \<in> set ls. \<not> P x"
  by (metis split_list_first_prop)

lemma write_line:
  assumes "list_all zoo_line (a @ l # b)" "length n = 79"
  shows "write_at (unlines (a @ l # b)) (80 * length a) (n @ [LF]) = unlines (a @ n # b)"
    and "write_at (unlines (a @ l # b)) (80 * length a) ''#'' = unlines (a @ (CHR ''#'' # tl l) # b)"
proof -
  have a: "length (unlines a) = 80 * length a" and l: "length l = 79"
    using assms(1) by (simp_all add: length_unlines zoo_line_def)
  then show "write_at (unlines (a @ l # b)) (80 * length a) (n @ [LF]) = unlines (a @ n # b)"
    using assms(2) by (simp add: write_at_def flip: a)
  from l show "write_at (unlines (a @ l # b)) (80 * length a) ''#'' = unlines (a @ (CHR ''#'' # tl l) # b)"
    by (cases l) (simp_all add: write_at_def flip: a)
qed

lemma scan_digits_LF: "fst (scan_digits b n (l @ [LF])) = fst (scan_digits b n l)"
  by (induction l arbitrary: n) (auto simp: digit_val_def split: option.splits)

lemma atoi_LF: "atoi (l @ [LF]) = atoi l"
proof (cases "dropWhile is_space l")
  case Nil
  then have "dropWhile is_space (l @ [LF]) = []"
    by (subst dropWhile_append2) (auto simp: is_space_def)
  with Nil show ?thesis by (simp only: atoi_def)
next
  case (Cons c r)
  then have "\<not> (\<forall>x \<in> set l. is_space x)" using dropWhile_eq_Nil_conv [of is_space l] by simp
  with Cons have "dropWhile is_space (l @ [LF]) = c # r @ [LF]" by (simp add: dropWhile_append)
  moreover have "scan_sign (c # r @ [LF]) = map_prod id (\<lambda>s. s @ [LF]) (scan_sign (c # r))"
    by (simp add: scan_sign_def split: char.splits bool.splits)
  ultimately show ?thesis using Cons scan_digits_LF [of 10 0]
    by (cases "scan_sign (c # r)") (simp add: atoi_def)
qed

lemma c_str_line: "zoo_line l \<Longrightarrow> c_str (l @ [LF]) = l @ [LF]"
  by (auto simp: c_str_def zoo_line_def takeWhile_eq_all_conv)

subsection \<open>Entries\<close>

lemma entry_line:
  assumes "entry_ok p tag cmd"
  shows "zoo_line (pad_to 79 (entry_of p tag cmd))" "\<not> free_line (pad_to 79 (entry_of p tag cmd))"
    "\<exists>r. pad_to 79 (entry_of p tag cmd) = show_int p @ CHR '','' # r"
proof -
  have l: "length (show_int p) \<le> 11" using assms show_pid_length by (simp add: entry_ok_def)
  then have "entry_of p tag cmd = show_int p @ CHR '','' # take (78 - length (show_int p)) (tag @ CHR '','' # cmd)"
    by (simp add: entry_of_def Suc_diff_Suc [symmetric] take_Cons')
  then show ex: "\<exists>r. pad_to 79 (entry_of p tag cmd) = show_int p @ CHR '','' # r"
    using l by (auto simp: pad_to_def take_Cons')
  have sub: "set (entry_of p tag cmd) \<subseteq> set (show_int p) \<union> {CHR '',''} \<union> set tag \<union> set cmd"
    unfolding entry_of_def by (rule order_trans [OF set_take_subset]) auto
  have "LF \<notin> set (show_int p) \<union> {CHR '',''} \<union> set tag \<union> set cmd"
    "CHR 0x00 \<notin> set (show_int p) \<union> {CHR '',''} \<union> set tag \<union> set cmd"
    using assms show_int_avoids(4,5) [of p] by (auto simp: entry_ok_def)
  note contra_subsetD [OF sub this(1)] contra_subsetD [OF sub this(2)]
  moreover have "length (entry_of p tag cmd) \<le> 79" by (simp add: entry_of_def)
  ultimately show "zoo_line (pad_to 79 (entry_of p tag cmd))"
    by (simp add: zoo_line_def pad_to_def)
  obtain c r where c: "show_int p = c # r" by (cases "show_int p") auto
  with show_int_avoids(3) [of p] have "c \<noteq> CHR ''#''" by auto
  with ex c show "\<not> free_line (pad_to 79 (entry_of p tag cmd))" by (auto simp: free_line_def)
qed

lemma atoi_entry: "entry_ok p tag cmd \<Longrightarrow> atoi (pad_to 79 (entry_of p tag cmd)) = p"
  using entry_line(3) [of p tag cmd] atoi_show_int [of "CHR '','' # _" p]
  by (auto simp: starts_digit_def digit_val_def)

subsection \<open>The laws\<close>

lemma fcntl_granted: "granted ans n \<Longrightarrow> \<exists>m. fcntl_loop ans n = Some (Fcntl_ok, m)"
proof -
  assume "granted ans n"
  then obtain k where "ans (n + k) = Fcntl_ok" "\<forall>i < k. ans (n + i) = Fcntl_error EINTR"
    by (auto simp: granted_def)
  then show ?thesis
  proof (induction k arbitrary: n)
    case 0
    then show ?case by (subst fcntl_loop.simps) simp
  next
    case (Suc k)
    then have "\<forall>i < k. ans (Suc n + i) = Fcntl_error EINTR" by (metis Suc_less_eq add_Suc_shift)
    with Suc.IH [of "Suc n"] Suc.prems show ?case by (subst fcntl_loop.simps) auto
  qed
qed

definition zoo_calm :: "zoo \<Rightarrow> bool" where
  "zoo_calm z \<longleftrightarrow> (\<forall>n. granted (z_fcntl z) n) \<and> (\<forall>n. z_fseek z n = 0)"

definition zoo_frame :: "zoo \<Rightarrow> zoo \<Rightarrow> bool" where
  "zoo_frame z z' \<longleftrightarrow> z_text z' = z_text z \<and> z_fcntl z' = z_fcntl z \<and> z_fseek z' = z_fseek z"

lemma zoo_lock_ok:
  "zoo_calm z \<Longrightarrow> \<exists>z'. zoo_lock z = Some (0, z') \<and> zoo_frame z z' \<and> z_locked z'"
  using fcntl_granted [of "z_fcntl z" "z_fcntls z"] by (auto simp: zoo_lock_def zoo_frame_def zoo_calm_def)

lemma zoo_unlock_ok:
  "zoo_calm z \<Longrightarrow> \<exists>z'. zoo_unlock z = Some (0, z') \<and> zoo_frame z z' \<and> \<not> z_locked z'"
  using fcntl_granted [of "z_fcntl z" "z_fcntls z"] by (auto simp: zoo_unlock_def zoo_frame_def zoo_calm_def)

lemma hd_line: "zoo_line x \<Longrightarrow> hd (x @ [LF]) = CHR ''#'' \<longleftrightarrow> free_line x"
  by (cases x) (auto simp: free_line_def zoo_line_def)

text \<open>The operations on a file of lines. In each case the file is unlocked at the end.\<close>

lemma zoo_mark_hit:
  assumes "zoo_calm z" "z_text z = unlines (a @ l # b)" "list_all zoo_line (a @ l # b)"
    "free_line l" "\<forall>x \<in> set a. \<not> free_line x"
  shows "\<exists>z'. zoo_mark (Some z) e = Some (0, Some z') \<and> zoo_calm z' \<and> \<not> z_locked z' \<and>
    z_text z' = unlines (a @ pad_to 79 e # b)"
proof -
  obtain z1 where z1: "zoo_lock z = Some (0, z1)" "zoo_frame z z1"
    using zoo_lock_ok [OF assms(1)] by blast
  have found: "zoo_find (\<lambda>buf. hd buf = CHR ''#'') (unlines (a @ l # b)) 0 = Some (80 * length a, l @ [LF])"
    using assms(3) hd_line assms(4,5) by (rule zoo_find_first)
  have w: "length (c_str (l @ [LF])) - 1 = 79" using assms(3) c_str_line [of l] by (simp add: zoo_line_def)
  have wr: "write_at (unlines (a @ l # b)) (80 * length a) (pad_to 79 e @ [LF]) = unlines (a @ pad_to 79 e # b)"
    using assms(3) by (rule write_line) (simp add: pad_to_def)
  define z2 where "z2 = (snd (do_seek z1))\<lparr>z_text := unlines (a @ pad_to 79 e # b)\<rparr>"
  obtain z3 where z3: "zoo_unlock z2 = Some (0, z3)" "zoo_frame z2 z3" "\<not> z_locked z3"
    using zoo_unlock_ok [of z2] assms(1) z1 by (auto simp: z2_def do_seek_def zoo_frame_def zoo_calm_def)
  have "zoo_mark (Some z) e = Some (0, Some z3)"
    using z1 z3(1) found w wr assms(1,2)
    by (simp add: zoo_mark_def zoo_frame_def zoo_calm_def do_seek_def z2_def)
  with z1 z3 assms(1) show ?thesis by (auto simp: z2_def zoo_frame_def zoo_calm_def do_seek_def)
qed

lemma zoo_mark_miss:
  assumes "zoo_calm z" "z_text z = unlines ls" "list_all zoo_line ls" "\<forall>x \<in> set ls. \<not> free_line x"
  shows "\<exists>z'. zoo_mark (Some z) e = Some (0, Some z') \<and> zoo_calm z' \<and> \<not> z_locked z' \<and>
    z_text z' = unlines (ls @ [pad_to 79 e])"
proof -
  obtain z1 where z1: "zoo_lock z = Some (0, z1)" "zoo_frame z z1"
    using zoo_lock_ok [OF assms(1)] by blast
  have none: "zoo_find (\<lambda>buf. hd buf = CHR ''#'') (unlines ls) 0 = None"
    using assms(3) hd_line assms(4) by (rule zoo_find_none)
  define z2 where "z2 = (snd (do_seek z1))\<lparr>z_text := unlines (ls @ [pad_to 79 e])\<rparr>"
  obtain z3 where z3: "zoo_unlock z2 = Some (0, z3)" "zoo_frame z2 z3" "\<not> z_locked z3"
    using zoo_unlock_ok [of z2] assms(1) z1 by (auto simp: z2_def do_seek_def zoo_frame_def zoo_calm_def)
  have "zoo_mark (Some z) e = Some (0, Some z3)"
    using z1 z3(1) none assms(1,2)
    by (simp add: zoo_mark_def zoo_frame_def zoo_calm_def do_seek_def z2_def)
  with z1 z3 assms(1) show ?thesis by (auto simp: z2_def zoo_frame_def zoo_calm_def do_seek_def)
qed

lemma atoi_line: "zoo_line x \<Longrightarrow> hd (x @ [LF]) \<noteq> CHR ''#'' \<and> atoi (x @ [LF]) = p \<longleftrightarrow> \<not> free_line x \<and> atoi x = p"
  using hd_line atoi_LF by auto

lemma zoo_clear_hit:
  assumes "zoo_calm z" "z_text z = unlines (a @ l # b)" "list_all zoo_line (a @ l # b)"
    "\<not> free_line l \<and> atoi l = p" "\<forall>x \<in> set a. \<not> (\<not> free_line x \<and> atoi x = p)"
  shows "\<exists>z'. zoo_clear (Some z) p = Some (0, Some z') \<and> zoo_calm z' \<and> \<not> z_locked z' \<and>
    z_text z' = unlines (a @ (CHR ''#'' # tl l) # b)"
proof -
  obtain z1 where z1: "zoo_lock z = Some (0, z1)" "zoo_frame z z1"
    using zoo_lock_ok [OF assms(1)] by blast
  have found: "zoo_find (\<lambda>buf. hd buf \<noteq> CHR ''#'' \<and> atoi buf = p) (unlines (a @ l # b)) 0 = Some (80 * length a, l @ [LF])"
    using assms(3) atoi_line assms(4,5) by (rule zoo_find_first)
  have wr: "write_at (unlines (a @ l # b)) (80 * length a) ''#'' = unlines (a @ (CHR ''#'' # tl l) # b)"
    using assms(3) write_line(2) [of a l b "replicate 79 (CHR ''#'')"] by simp
  define z2 where "z2 = (snd (do_seek z1))\<lparr>z_text := unlines (a @ (CHR ''#'' # tl l) # b)\<rparr>"
  obtain z3 where z3: "zoo_unlock z2 = Some (0, z3)" "zoo_frame z2 z3" "\<not> z_locked z3"
    using zoo_unlock_ok [of z2] assms(1) z1 by (auto simp: z2_def do_seek_def zoo_frame_def zoo_calm_def)
  have "zoo_clear (Some z) p = Some (0, Some z3)"
    using z1 z3(1) found wr assms(1,2)
    by (simp add: zoo_clear_def zoo_frame_def zoo_calm_def do_seek_def z2_def)
  with z1 z3 assms(1) show ?thesis by (auto simp: z2_def zoo_frame_def zoo_calm_def do_seek_def)
qed

lemma zoo_clear_miss:
  assumes "zoo_calm z" "z_text z = unlines ls" "list_all zoo_line ls"
    "\<forall>x \<in> set ls. \<not> (\<not> free_line x \<and> atoi x = p)"
  shows "\<exists>z'. zoo_clear (Some z) p = Some (1, Some z') \<and> zoo_calm z' \<and> \<not> z_locked z' \<and>
    z_text z' = z_text z \<and> z_error z' = Some (Not_found_pid p)"
proof -
  obtain z1 where z1: "zoo_lock z = Some (0, z1)" "zoo_frame z z1"
    using zoo_lock_ok [OF assms(1)] by blast
  have none: "zoo_find (\<lambda>buf. hd buf \<noteq> CHR ''#'' \<and> atoi buf = p) (unlines ls) 0 = None"
    using assms(3) atoi_line assms(4) by (rule zoo_find_none)
  obtain z3 where z3: "zoo_unlock z1 = Some (0, z3)" "zoo_frame z1 z3" "\<not> z_locked z3"
    using zoo_unlock_ok [of z1] assms(1) z1 by (auto simp: zoo_frame_def zoo_calm_def)
  have "zoo_clear (Some z) p = Some (1, Some (z3\<lparr>z_error := Some (Not_found_pid p)\<rparr>))"
    using z1 z3(1) none assms(1,2) by (simp add: zoo_clear_def zoo_frame_def)
  with z1 z3 assms(1) show ?thesis by (auto simp: zoo_frame_def zoo_calm_def)
qed

lemma zoo_of_lines:
  assumes "z_text z = unlines ls" "list_all zoo_line ls"
  shows "zoo_pids z = mset (map atoi (filter (\<lambda>l. \<not> free_line l) ls))" "zoo_slots z = length ls"
    "zoo_inv z \<longleftrightarrow> zoo_calm z"
  using assms by (simp_all add: zoo_pids_def zoo_slots_def zoo_inv_def zoo_calm_def)

interpretation zoo: active_file zoo_inv zoo_pids zoo_slots entry_ok zoo_mark_cmdline zoo_clear
proof
  fix z :: zoo
  show "size (zoo_pids z) \<le> zoo_slots z"
    by (simp add: zoo_pids_def zoo_slots_def del: mset_map mset_filter)
next
  fix z :: zoo and p tag cmd
  assume inv: "zoo_inv z" and ok: "entry_ok p tag cmd"
  define ls where "ls = lines_of (z_text z)"
  have ls: "z_text z = unlines ls" "list_all zoo_line ls" "zoo_calm z"
    using inv by (simp_all add: zoo_inv_def zoo_wf_def ls_def zoo_calm_def)
  let ?e = "pad_to 79 (entry_of p tag cmd)"
  note e = entry_line(1,2) [OF ok] atoi_entry [OF ok]
  show "\<exists>z'. zoo_mark_cmdline (Some z) p tag cmd = Some (0, Some z') \<and> zoo_inv z' \<and>
      zoo_pids z' = add_mset p (zoo_pids z) \<and> zoo_slots z' = max (zoo_slots z) (size (zoo_pids z) + 1)"
  proof (cases rule: first_cases [of ls free_line])
    case (hit a l b)
    from zoo_mark_hit [OF ls(3) ls(1,2) [unfolded hit(1)] hit(2,3)] obtain z' where z':
      "zoo_mark_cmdline (Some z) p tag cmd = Some (0, Some z')" "zoo_calm z'" "z_text z' = unlines (a @ ?e # b)"
      unfolding zoo_mark_cmdline_def by blast
    have wf: "list_all zoo_line (a @ ?e # b)" using ls(2) hit(1) e(1) by simp
    have "length (filter (\<lambda>l. \<not> free_line l) ls) < length ls"
      using hit(1,2) by (intro length_filter_less [of l]) auto
    with z' e hit(1,2) zoo_of_lines [OF ls(1,2)] zoo_of_lines [OF z'(3) wf] show ?thesis
      by (auto simp del: mset_filter mset_map simp: max_def)
  next
    case miss
    from zoo_mark_miss [OF ls(3,1,2) miss] obtain z' where z':
      "zoo_mark_cmdline (Some z) p tag cmd = Some (0, Some z')" "zoo_calm z'" "z_text z' = unlines (ls @ [?e])"
      unfolding zoo_mark_cmdline_def by blast
    have wf: "list_all zoo_line (ls @ [?e])" using ls(2) e(1) by simp
    have "filter (\<lambda>l. \<not> free_line l) ls = ls" using miss by simp
    with z' e zoo_of_lines [OF ls(1,2)] zoo_of_lines [OF z'(3) wf] show ?thesis
      by (auto simp del: mset_filter)
  qed
next
  fix z :: zoo and p
  assume inv: "zoo_inv z"
  define ls where "ls = lines_of (z_text z)"
  have ls: "z_text z = unlines ls" "list_all zoo_line ls" "zoo_calm z"
    using inv by (simp_all add: zoo_inv_def zoo_wf_def ls_def zoo_calm_def)
  show "\<exists>z'. zoo_clear (Some z) p = Some (if p \<in># zoo_pids z then 0 else 1, Some z') \<and>
      zoo_inv z' \<and> zoo_pids z' = zoo_pids z - {#p#} \<and> zoo_slots z' = zoo_slots z"
  proof (cases rule: first_cases [of ls "\<lambda>x. \<not> free_line x \<and> atoi x = p"])
    case (hit a l b)
    from zoo_clear_hit [OF ls(3) ls(1,2) [unfolded hit(1)] hit(2,3)] obtain z' where z':
      "zoo_clear (Some z) p = Some (0, Some z')" "zoo_calm z'" "z_text z' = unlines (a @ (CHR ''#'' # tl l) # b)"
      by blast
    have l: "zoo_line (CHR ''#'' # tl l)" using ls(2) hit(1) by (cases l) (auto simp: zoo_line_def)
    have fr: "free_line (CHR ''#'' # tl l)" by (simp add: free_line_def)
    have wf: "list_all zoo_line (a @ (CHR ''#'' # tl l) # b)" using ls(2) hit(1) l by simp
    with fr z' hit(1,2) zoo_of_lines [OF ls(1,2)] zoo_of_lines [OF z'(3) wf] show ?thesis by auto
  next
    case miss
    from zoo_clear_miss [OF ls(3,1,2) miss] obtain z' where z':
      "zoo_clear (Some z) p = Some (1, Some z')" "zoo_calm z'" "z_text z' = z_text z" by blast
    have "p \<notin># zoo_pids z" using miss by (auto simp: zoo_pids_def ls_def)
    with z' inv show ?thesis
      by (auto simp: zoo_inv_def zoo_calm_def zoo_pids_def zoo_slots_def diff_single_trivial)
  qed
qed

subsection \<open>Looking up a tag\<close>

lemma tag_hit_entry:
  assumes "entry_ok p (tag @ ext) cmd" "length (show_int p) + 1 + length tag \<le> 79"
  shows "tag_hit tag (pad_to 79 (entry_of p (tag @ ext) cmd) @ [LF])"
proof -
  let ?l = "pad_to 79 (entry_of p (tag @ ext) cmd)"
  have "length tag \<le> 78 - length (show_int p)" using assms(2) by simp
  then have "take (78 - length (show_int p)) (tag @ r) = tag @ take (78 - length (show_int p) - length tag) r" for r
    by simp
  then obtain r where r: "?l = show_int p @ CHR '','' # tag @ r"
    using assms(2) by (auto simp: entry_of_def pad_to_def take_Cons')
  have "takeWhile (\<lambda>c. c \<noteq> CHR '','') (show_int p) = show_int p"
    using show_int_avoids(1) [of p] by (auto simp: takeWhile_eq_all_conv)
  then have "dropWhile (\<lambda>c. c \<noteq> CHR '','') (show_int p @ x) = dropWhile (\<lambda>c. c \<noteq> CHR '','') x" for x
    by (auto simp: takeWhile_eq_all_conv intro: dropWhile_append2)
  moreover have "c_str (?l @ [LF]) = ?l @ [LF]" using entry_line(1) [OF assms(1)] by (rule c_str_line)
  ultimately show ?thesis
    using entry_line(1,2) [OF assms(1)] hd_line [of ?l] unfolding tag_hit_def by (simp add: r)
qed

lemma zoo_getpid_lines:
  assumes "zoo_calm z" "z_text z = unlines (a @ l # b)" "list_all zoo_line (a @ l # b)"
    "tag_hit tag (l @ [LF])" "\<forall>x \<in> set a. \<not> tag_hit tag (x @ [LF])"
  shows "\<exists>z'. zoo_getpid (Some z) tag = Some (atoi l, Some z') \<and> z_text z' = z_text z"
proof -
  obtain z1 where z1: "zoo_lock z = Some (0, z1)" "zoo_frame z z1" "zoo_calm z1"
    using zoo_lock_ok [OF assms(1)] assms(1) by (auto simp: zoo_frame_def zoo_calm_def)
  obtain z2 where z2: "zoo_unlock z1 = Some (0, z2)" "zoo_frame z1 z2" using zoo_unlock_ok [OF z1(3)] by blast
  have "zoo_find (tag_hit tag) (unlines (a @ l # b)) 0 = Some (80 * length a, l @ [LF])"
    by (rule zoo_find_first [where P = "\<lambda>x. tag_hit tag (x @ [LF])"]) (use assms in auto)
  with z1 z2 assms(2) show ?thesis by (simp add: zoo_getpid_def zoo_frame_def atoi_LF)
qed

section \<open>Properties\<close>

text \<open>C6: from an empty file, whatever entries are marked and pids cleared, in whatever order and however
  often \<open>fcntl\<close> is interrupted, every call returns, the file stays a sequence of 80-character lines
  that hold exactly the multiset of running pids, and it has as many lines as there were running
  pids at the peak: a free line is always reused before the file grows.\<close>

theorem zoo_history:
  assumes "zoo_inv z" "z_text z = []"
    and "\<forall>p tag cmd. Mark p tag cmd \<in> set ops \<longrightarrow> entry_ok p tag cmd"
  shows "\<exists>z'. run_ops zoo_mark_cmdline zoo_clear ops (Some z) = Some (Some z') \<and> zoo_wf (z_text z') \<and>
    zoo_pids z' = running_pids ops {#} \<and> length (lines_of (z_text z')) = peak ops {#}"
proof -
  have "zoo_pids z = {#}" "zoo_slots z = 0"
    using zoo_of_lines [of z "[]"] assms(2) by simp_all
  with zoo.run_ops_running [OF assms(1,3)] show ?thesis by (auto simp: zoo_inv_def zoo_slots_def)
qed

definition empty_zoo :: zoo where
  "empty_zoo = \<lparr>z_text = [], z_locked = False, z_sigmask = {},
     z_fcntl = (\<lambda>n. if even n then Fcntl_error EINTR else Fcntl_ok), z_fcntls = 0,
     z_fseek = (\<lambda>n. 0), z_fseeks = 0, z_error = None\<rparr>"

lemma empty_zoo_inv: "zoo_inv empty_zoo" "z_text empty_zoo = []"
proof -
  have "granted (\<lambda>n. if even n then Fcntl_error EINTR else Fcntl_ok) n" for n
  proof (cases "even n")
    case True
    then show ?thesis unfolding granted_def by (intro exI [of _ 1]) simp
  next
    case False
    then show ?thesis unfolding granted_def by (intro exI [of _ 0]) simp
  qed
  then show "zoo_inv empty_zoo"
    using zoo_wf_unlines [of "[]"] by (simp add: zoo_inv_def empty_zoo_def)
qed (simp add: empty_zoo_def)

theorem zoo_history_witness:
  "\<exists>z'. run_ops zoo_mark_cmdline zoo_clear [Mark 7 ''t1'' ''ls'', Mark 8 ''t2'' ''cat'', Clear 7, Mark 9 ''t3'' ''ls''] (Some empty_zoo)
      = Some (Some z') \<and> zoo_pids z' = {#8, 9#} \<and> length (lines_of (z_text z')) = 2"
proof -
  have "\<forall>p tag cmd. Mark p tag cmd \<in> set [Mark 7 ''t1'' ''ls'', Mark 8 ''t2'' ''cat'', Clear 7, Mark 9 ''t3'' ''ls'']
      \<longrightarrow> entry_ok p tag cmd"
    by (auto simp: entry_ok_def int_fits_def)
  from zoo_history [OF empty_zoo_inv this] show ?thesis by (auto simp: add_mset_commute)
qed

text \<open>After marking a pid under a tag, \<open>zoo_getpid\<close> of that tag returns the pid and leaves the file as
  it is, when no line hit before. The lookup compares only as many characters as the tag that is
  looked for has: the pid is returned for every prefix \<open>tag\<close> of the entry's tag as well.\<close>

lemma zoo_mark_getpid:
  assumes "zoo_inv z" "entry_ok p (tag @ ext) cmd" "length (show_int p) + 1 + length tag \<le> 79"
    and "\<forall>l \<in> set (lines_of (z_text z)). \<not> tag_hit tag (l @ [LF])"
  shows "\<exists>z1 z2. zoo_mark_cmdline (Some z) p (tag @ ext) cmd = Some (0, Some z1) \<and>
    zoo_getpid (Some z1) tag = Some (p, Some z2) \<and> z_text z2 = z_text z1"
proof -
  define ls where "ls = lines_of (z_text z)"
  have ls: "z_text z = unlines ls" "list_all zoo_line ls" "zoo_calm z"
    using assms(1) by (simp_all add: zoo_inv_def zoo_wf_def ls_def zoo_calm_def)
  let ?e = "pad_to 79 (entry_of p (tag @ ext) cmd)"
  obtain z1 a b where z1: "zoo_mark_cmdline (Some z) p (tag @ ext) cmd = Some (0, Some z1)" "zoo_calm z1"
    "z_text z1 = unlines (a @ ?e # b)" "set a \<subseteq> set ls" "set b \<subseteq> set ls"
  proof (cases rule: first_cases [of ls free_line])
    case (hit a l b)
    have sub: "set a \<subseteq> set ls" "set b \<subseteq> set ls" using hit(1) by auto
    from zoo_mark_hit [OF ls(3) ls(1,2) [unfolded hit(1)] hit(2,3)] show ?thesis
      using that [OF _ _ _ sub] unfolding zoo_mark_cmdline_def by blast
  next
    case miss
    from zoo_mark_miss [OF ls(3,1,2) miss] that [of _ ls "[]"] show ?thesis
      unfolding zoo_mark_cmdline_def by auto
  qed
  have "list_all zoo_line (a @ ?e # b)"
    using z1(4,5) ls(2) entry_line(1) [OF assms(2)] by (auto simp: list_all_iff)
  moreover have "\<forall>x \<in> set a. \<not> tag_hit tag (x @ [LF])" using z1(4) assms(4) by (auto simp: ls_def)
  ultimately show ?thesis
    using zoo_getpid_lines [OF z1(2,3)] tag_hit_entry [OF assms(2,3)] z1(1) atoi_entry [OF assms(2)] by auto
qed

lemma zoo_mark_getpid_witness:
  "\<exists>z1 z2. zoo_mark_cmdline (Some empty_zoo) 42 ''test10'' ''ls'' = Some (0, Some z1) \<and>
    zoo_getpid (Some z1) ''test1'' = Some (42, Some z2)"
proof -
  have "show_int 42 = ''42''" by code_simp
  then show ?thesis
    using zoo_mark_getpid [OF empty_zoo_inv(1), of 42 "''test1''" "''0''" "''ls''"]
    by (auto simp: entry_ok_def int_fits_def empty_zoo_inv lines_of.simps [of "[]"])
qed

text \<open>When the \<open>fseek\<close> that precedes a write fails, \<open>zoo_mark\<close> returns \<open>-1\<close> with the file unchanged,
  but without releasing the lock that it took: the file stays locked for every other process.\<close>

lemma zoo_mark_seek_error:
  assumes "granted (z_fcntl z) (z_fcntls z)" "z_fseek z (z_fseeks z) \<noteq> 0"
  shows "\<exists>z'. zoo_mark (Some z) e = Some (-1, Some z') \<and> z_locked z' \<and> z_text z' = z_text z"
  using fcntl_granted [OF assms(1)] assms(2)
  by (auto simp: zoo_mark_def zoo_lock_def do_seek_def split: option.splits)

lemma zoo_mark_seek_error_witness:
  "\<exists>z'. zoo_mark (Some (empty_zoo\<lparr>z_fseek := (\<lambda>n. 5)\<rparr>)) ''1,a,b'' = Some (-1, Some z') \<and> z_locked z'"
  using zoo_mark_seek_error [of "empty_zoo\<lparr>z_fseek := (\<lambda>n. 5)\<rparr>" "''1,a,b''"] empty_zoo_inv(1)
  by (auto simp: zoo_inv_def)

text \<open>The buffer that \<open>cat_args\<close> allocates is exactly large enough for the arguments joined by blanks
  and the final NUL, so no \<open>strcat\<close> writes beyond it; with no argument it is empty and the first
  write is out of bounds.\<close>

lemma cat_args_fits:
  "cat_args argv = (if argv = [] then None else Some (join_with (CHR '' '') argv))"
proof -
  have size: "args_size (a # as) = Suc (length (join_with (CHR '' '') (a # as)))" for a as
    by (induction as arbitrary: a) auto
  have loop: "cat_loop sz False as cmd = Some (cmd @ concat (map (\<lambda>a. CHR '' '' # a) as))"
    if "length cmd + args_size as < sz" for sz as cmd
    using that by (induction as arbitrary: cmd) (auto simp: strcat_buf_def)
  have join: "a @ concat (map (\<lambda>a. CHR '' '' # a) as) = join_with (CHR '' '') (a # as)" for a as
  proof (induction as arbitrary: a)
    case (Cons b as)
    from Cons.IH [of b] show ?case by simp
  qed simp
  show ?thesis
  proof (cases argv)
    case (Cons a as)
    then show ?thesis using loop [of a as "args_size argv"] join [of a as]
      by (simp add: cat_args_def strcat_buf_def)
  qed (simp add: cat_args_def strcat_buf_def)
qed

end
