(* ===== verification/Random_Range.thy ===== *)
theory Random_Range
  imports Prelude
begin

text \<open>
  \<^verbatim>\<open>lib/random_range.c\<close>: the parser of range lists (\<open>parse_ranges\<close> and its accessors), the random
  numbers in a range (\<open>random_range\<close> for \<open>int\<close>, \<open>random_rangel\<close> for \<open>long\<close>, \<open>random_rangell\<close> and its
  \<open>divider\<close> for 64-bit numbers) and \<open>random_bit\<close>. The generator \<open>lrand48\<close> is a parameter \<open>rnd\<close> of the
  definitions, a function from its state to a number and the next state; what the code relies on,
  a number in \<open>[0, 2^31)\<close>, is the locale \<open>rand_source\<close>, interpreted with the linear congruential
  generator that POSIX prescribes. A signed overflow is \<open>None\<close>; the width of \<open>long\<close> is a parameter.
\<close>

section \<open>lrand48\<close>

definition lrand48 :: "nat \<Rightarrow> int \<times> nat" where
  "lrand48 x = (let x' = (25214903917 * x + 11) mod 2 ^ 48 in (int (x' div 2 ^ 17), x'))"

definition random_range_seed :: "int \<Rightarrow> nat" where
  "random_range_seed s = nat (s mod 2 ^ 32) * 2 ^ 16 + 13070"

locale rand_source =
  fixes rnd :: "'s \<Rightarrow> int \<times> 's"
  assumes rnd_range: "0 \<le> fst (rnd s) \<and> fst (rnd s) < 2 ^ 31"

interpretation rand48: rand_source lrand48
proof
  fix s
  have "(25214903917 * s + 11) mod 2 ^ 48 < 2 ^ 31 * (2 ^ 17 :: nat)" by simp
  then have "(25214903917 * s + 11) mod 2 ^ 48 div 2 ^ 17 < (2 ^ 31 :: nat)"
    by (rule less_mult_imp_div_less)
  then have "int ((25214903917 * s + 11) mod 2 ^ 48 div 2 ^ 17) < int (2 ^ 31)"
    by (simp only: of_nat_less_iff)
  then show "0 \<le> fst (lrand48 s) \<and> fst (lrand48 s) < 2 ^ 31" by (simp add: lrand48_def Let_def)
qed

section \<open>Range lists\<close>

record range =
  r_min :: int
  r_max :: int
  r_mult :: int

definition str_to_int :: "string \<Rightarrow> int option" where
  "str_to_int s = (case scan_int s of Some (v, []) \<Rightarrow> Some v | _ \<Rightarrow> None)"

text \<open>One token. A failing field is returned as \<open>Inl\<close>, for the error message.\<close>

definition parse_range_token ::
  "(string \<Rightarrow> int option) \<Rightarrow> int \<Rightarrow> int \<Rightarrow> int \<Rightarrow> string \<Rightarrow> string + range" where
  "parse_range_token parse_func defmin defmax defmult tok =
     (let (n1str, r1) = cut_at (CHR '':'') tok;
          (n2str, multstr) = (case r1 of None \<Rightarrow> (None, None)
             | Some r \<Rightarrow> (let (a, b) = cut_at (CHR '':'') r in (Some a, b)));
          field = (\<lambda>s def. if s = [] then Some def else parse_func s)
      in case field n1str defmin of None \<Rightarrow> Inl n1str
      | Some mn \<Rightarrow>
        (case (case n2str of None \<Rightarrow> Some mn | Some s \<Rightarrow> field s defmax) of None \<Rightarrow> Inl (the n2str)
         | Some mx \<Rightarrow>
           (case (case multstr of None \<Rightarrow> Some defmult | Some s \<Rightarrow> field s defmult) of None \<Rightarrow> Inl (the multstr)
            | Some mu \<Rightarrow> Inr \<lparr>r_min = mn, r_max = mx, r_mult = mu\<rparr>)))"

fun parse_range_tokens ::
  "(string \<Rightarrow> int option) \<Rightarrow> int \<Rightarrow> int \<Rightarrow> int \<Rightarrow> string list \<Rightarrow> string + range list" where
  "parse_range_tokens pf defmin defmax defmult [] = Inr []"
| "parse_range_tokens pf defmin defmax defmult (tok # toks) =
     (case parse_range_token pf defmin defmax defmult tok of Inl e \<Rightarrow> Inl e
      | Inr r \<Rightarrow> (case parse_range_tokens pf defmin defmax defmult toks of Inl e \<Rightarrow> Inl e
                | Inr rs \<Rightarrow> Inr (r # rs)))"

text \<open>The number of ranges, the return value, is the length of the list; \<open>ncommas + 1\<close> is the number of
  elements of the array that the ranges are written to.\<close>

definition ncommas :: "string \<Rightarrow> nat" where
  "ncommas str = length (filter (\<lambda>c. c = CHR '','') str)"

definition parse_ranges ::
  "string \<Rightarrow> int \<Rightarrow> int \<Rightarrow> int \<Rightarrow> (string \<Rightarrow> int option) option \<Rightarrow> string + range list" where
  "parse_ranges str defmin defmax defmult parse_func =
     parse_range_tokens (case parse_func of None \<Rightarrow> str_to_int | Some f \<Rightarrow> f) defmin defmax defmult
       (strtok_all '','' str)"

definition range_min :: "range list \<Rightarrow> nat \<Rightarrow> int option" where
  "range_min rbuf r = map_option r_min (buf_get rbuf r)"

definition range_max :: "range list \<Rightarrow> nat \<Rightarrow> int option" where
  "range_max rbuf r = map_option r_max (buf_get rbuf r)"

definition range_mult :: "range list \<Rightarrow> nat \<Rightarrow> int option" where
  "range_mult rbuf r = map_option r_mult (buf_get rbuf r)"

subsection \<open>Tokens never outnumber the array\<close>

lemma parse_range_tokens_length:
  "parse_range_tokens pf a b c toks = Inr rs \<Longrightarrow> length rs = length toks"
  by (induction toks arbitrary: rs) (auto split: sum.splits)

lemma strtok_separators:
  assumes "strtok sep s = Some (t, r)"
  shows "r = [] \<or> Suc (length (filter (\<lambda>c. c \<in> set sep) r)) \<le> length (filter (\<lambda>c. c \<in> set sep) s)"
proof -
  define s1 where "s1 = dropWhile (\<lambda>c. c \<in> set sep) s"
  define s2 where "s2 = dropWhile (\<lambda>c. c \<notin> set sep) s1"
  have r: "r = tl s2" using assms by (auto simp: strtok_def s1_def s2_def Let_def split: if_splits)
  have le: "length (filter P (dropWhile Q xs)) \<le> length (filter P xs)" for P Q and xs :: string
    by (induction xs) auto
  have "length (filter (\<lambda>c. c \<in> set sep) s2) \<le> length (filter (\<lambda>c. c \<in> set sep) s)"
    using le order_trans unfolding s2_def s1_def by blast
  moreover have "s2 \<noteq> [] \<Longrightarrow> hd s2 \<in> set sep" unfolding s2_def using hd_dropWhile by blast
  ultimately show ?thesis unfolding r by (cases s2) auto
qed

lemma strtok_all_length:
  "length (strtok_all sep s) \<le> Suc (length (filter (\<lambda>c. c \<in> set sep) s))"
proof (induction sep s rule: strtok_all.induct)
  case (1 sep s)
  show ?case
  proof (cases "strtok sep s")
    case None
    then show ?thesis by (simp add: strtok_all.simps [of sep s])
  next
    case (Some p)
    obtain t r where p: "p = (t, r)" by (cases p)
    have IH: "length (strtok_all sep r) \<le> Suc (length (filter (\<lambda>c. c \<in> set sep) r))"
      using "1.IH" [OF Some p [symmetric]] .
    from strtok_separators Some p have
      "r = [] \<or> Suc (length (filter (\<lambda>c. c \<in> set sep) r)) \<le> length (filter (\<lambda>c. c \<in> set sep) s)" by simp
    with IH Some p show ?thesis by (auto simp: strtok_all.simps [of sep s] strtok_all_Nil)
  qed
qed

text \<open>\<open>parse_ranges\<close> never writes more ranges than its array of \<open>ncommas + 1\<close> elements holds, and
  after a success the accessors are defined for each of the returned number of ranges.\<close>

lemma parse_ranges_fits:
  assumes "parse_ranges str defmin defmax defmult pf = Inr rs"
  shows "length rs \<le> ncommas str + 1 \<and>
    (\<forall>r < length rs. range_min rs r \<noteq> None \<and> range_max rs r \<noteq> None \<and> range_mult rs r \<noteq> None)"
  using parse_range_tokens_length [OF assms [unfolded parse_ranges_def]] strtok_all_length [of "'',''" str]
  by (auto simp: ncommas_def range_min_def range_max_def range_mult_def buf_get_def)

lemma parse_ranges_fits_witness:
  "\<exists>rs. parse_ranges '',1:5,,7,'' 0 9 1 None = Inr rs \<and> length rs \<le> ncommas '',1:5,,7,'' + 1"
proof -
  have "parse_ranges '',1:5,,7,'' 0 9 1 None
      = Inr [\<lparr>r_min = 1, r_max = 5, r_mult = 1\<rparr>, \<lparr>r_min = 7, r_max = 7, r_mult = 1\<rparr>]" by code_simp
  from parse_ranges_fits [OF this] this show ?thesis by blast
qed

subsection \<open>Round trip\<close>

definition show_range :: "range \<Rightarrow> string" where
  "show_range r = show_int (r_min r) @ CHR '':'' # show_int (r_max r) @ CHR '':'' # show_int (r_mult r)"

lemma str_to_int_show: "str_to_int (show_int i) = Some i"
  using scan_int_show_int [of "[]" i] by (simp add: str_to_int_def starts_digit_def)

lemma parse_show_range: "parse_range_token str_to_int a b c (show_range r) = Inr r"
  by (simp add: parse_range_token_def show_range_def cut_at_append cut_at_none show_int_avoids str_to_int_show)

lemma parse_show_ranges: "parse_range_tokens str_to_int a b c (map show_range rs) = Inr rs"
  by (induction rs) (simp_all add: parse_show_range)

text \<open>A list of ranges printed as \<open>min:max:mult\<close> tokens with commas between them is parsed back
  unchanged by the default integer parser, whatever the caller's defaults.\<close>

lemma parse_ranges_roundtrip:
  "parse_ranges (join_with (CHR '','') (map show_range rs)) defmin defmax defmult None = Inr rs"
proof -
  have "CHR '','' \<notin> set (show_range r)" "show_range r \<noteq> []" for r
    by (auto simp: show_range_def show_int_avoids)
  then have "strtok_all '','' (join_with (CHR '','') (map show_range rs)) = map show_range rs"
    by (intro strtok_all_join) auto
  then show ?thesis by (simp add: parse_ranges_def parse_show_ranges)
qed

section \<open>Random numbers in a range\<close>

datatype range_error = Mult_not_positive | No_multiple int int int

text \<open>The part that the three functions share: exchange \<open>min\<close> and \<open>max\<close> when \<open>max < min\<close>, then move
  both to multiples of \<open>mult\<close> with C's truncating remainder, in integers of \<open>w\<close> bits.\<close>

definition range_bounds :: "nat \<Rightarrow> int \<Rightarrow> int \<Rightarrow> int \<Rightarrow> (int \<times> int) option" where
  "range_bounds w min0 max0 mult =
     (let (mn, mx) = (if max0 < min0 then (max0, min0) else (min0, max0));
          r1 = mn smod mult;
          r2 = mx smod mult
      in do {
        mn' \<leftarrow> (if r1 \<noteq> 0 then do { d \<leftarrow> checked w (mult - r1); checked w (mn + d) } else Some mn);
        mx' \<leftarrow> (if r2 \<noteq> 0 then checked w (mx - r2) else Some mx);
        Some (mn', mx') })"

definition random_range ::
  "('s \<Rightarrow> int \<times> 's) \<Rightarrow> nat \<Rightarrow> int \<Rightarrow> int \<Rightarrow> int \<Rightarrow> 's \<Rightarrow> ((int \<times> range_error option) \<times> 's) option" where
  "random_range rnd lw min0 max0 mult s =
     (if mult < 1 then Some ((-1, Some Mult_not_positive), s)
      else do {
        (mn, mx) \<leftarrow> range_bounds 32 min0 max0 mult;
        if mx < mn then Some ((-1, Some (No_multiple min0 max0 mult)), s)
        else do {
          d \<leftarrow> checked 32 (mx - mn);
          nmults \<leftarrow> checked 32 (d sdiv mult + 1);
          let (r, s') = rnd s;
          p \<leftarrow> checked lw (r smod nmults * mult);
          v \<leftarrow> checked lw (mn + p);
          Some ((v, None), s') } })"

definition random_rangel ::
  "('s \<Rightarrow> int \<times> 's) \<Rightarrow> nat \<Rightarrow> int \<Rightarrow> int \<Rightarrow> int \<Rightarrow> 's \<Rightarrow> ((int \<times> range_error option) \<times> 's) option" where
  "random_rangel rnd lw min0 max0 mult s =
     (if mult < 1 then Some ((-1, Some Mult_not_positive), s)
      else do {
        (mn, mx) \<leftarrow> range_bounds lw min0 max0 mult;
        if mx < mn then Some ((-1, Some (No_multiple min0 max0 mult)), s)
        else do {
          d \<leftarrow> checked lw (mx - mn);
          nmults \<leftarrow> checked lw (d sdiv mult + 1);
          let (r, s') = rnd s;
          p \<leftarrow> checked lw (r smod nmults * mult);
          v \<leftarrow> checked lw (mn + p);
          Some ((v, None), s') } })"

text \<open>\<open>divider\<close>: \<open>1 << cnt\<close> is an \<open>int\<close>, so a shift by 31 or more is undefined.\<close>

function divider ::
  "('s \<Rightarrow> int \<times> 's) \<Rightarrow> int \<Rightarrow> int \<Rightarrow> nat \<Rightarrow> int \<Rightarrow> 's \<Rightarrow> (int \<times> 's) option" where
  "divider rnd mn mx cnt rand0 s =
     (if 32 < cnt then Some (-1, s)
      else (let (rand, s') = (if cnt = 0 \<or> rand0 < -1 then rnd s else (rand0, s))
            in do {
              diff \<leftarrow> checked 64 (mx - mn);
              if diff \<le> 2147483647 then do { v \<leftarrow> checked 64 (mn + rand); Some (v, s') }
              else if 31 \<le> cnt then None
              else (let half = diff sdiv 2; med = mn + half; set_bit = (rand AND 2 ^ cnt \<noteq> 0)
                    in if half \<le> 2147483647
                       then do { v \<leftarrow> checked 64 ((if set_bit then med else mn) + rand); Some (v, s') }
                       else if set_bit then divider rnd med mx (cnt + 1) rand s'
                       else divider rnd mn med (cnt + 1) rand s') }))"
  by pat_completeness auto
termination
  by (relation "measure (\<lambda>(rnd, mn, mx, cnt, rand, s). 33 - cnt)") auto

declare divider.simps [simp del]

definition random_rangell ::
  "('s \<Rightarrow> int \<times> 's) \<Rightarrow> int \<Rightarrow> int \<Rightarrow> int \<Rightarrow> 's \<Rightarrow> ((int \<times> range_error option) \<times> 's) option" where
  "random_rangell rnd min0 max0 mult s =
     (if mult < 1 then Some ((-1, Some Mult_not_positive), s)
      else do {
        (mn, mx) \<leftarrow> range_bounds 64 min0 max0 mult;
        if mx < mn then Some ((-1, Some (No_multiple min0 max0 mult)), s)
        else do {
          d \<leftarrow> checked 64 (mx - mn);
          nmults \<leftarrow> checked 64 (d sdiv mult + 1);
          (r, s') \<leftarrow> (if mx \<le> 2147483647 then Some (rnd s) else divider rnd mn mx 0 (-1) s);
          p \<leftarrow> checked 64 (r smod nmults * mult);
          v \<leftarrow> checked 64 (mn + p);
          Some ((v, None), s') } })"

text \<open>\<open>random_bit\<close>, on a mask with as many bits as a \<open>long\<close>. The second loop runs until it has passed
  as many set bits as were drawn; it never ends when the mask has fewer, and then it is \<open>None\<close>.\<close>

fun count_bits :: "nat \<Rightarrow> 'l::len word \<Rightarrow> 'l word \<Rightarrow> int \<Rightarrow> int" where
  "count_bits 0 msk b nbits = nbits"
| "count_bits (Suc k) msk b nbits =
     count_bits k msk (push_bit 1 b) (if msk AND b \<noteq> 0 then nbits + 1 else nbits)"

partial_function (option) pick_bit :: "int \<Rightarrow> 'l::len word \<Rightarrow> nat \<Rightarrow> nat option" where
  "pick_bit b msk nshift =
     (if b \<noteq> 0
      then pick_bit (if msk AND 1 \<noteq> 0 then b - 1 else b) (signed_drop_bit 1 msk) (nshift + 1)
      else Some nshift)"

declare pick_bit.simps [code]

definition random_bit ::
  "('s \<Rightarrow> int \<times> 's) \<Rightarrow> 'l::len word \<Rightarrow> 's \<Rightarrow> ('l word \<times> 's) option" where
  "random_bit rnd msk s =
     (if msk = 0 then Some (0, s)
      else do {
        ((b, err), s') \<leftarrow> random_range rnd LENGTH('l) 1 (count_bits LENGTH('l) msk 1 0) 1 s;
        nshift \<leftarrow> pick_bit b msk 0;
        Some (push_bit (nshift - 1) 1, s') })"

subsection \<open>The bounds\<close>

lemma smod_bounds:
  assumes "0 < (m::int)"
  shows "0 \<le> a \<Longrightarrow> 0 \<le> a smod m" "a < 0 \<Longrightarrow> a smod m \<le> 0" "\<bar>a smod m\<bar> < m" "m dvd a - a smod m"
proof -
  have eq: "a smod m = (if 0 \<le> a then a mod m else - ((- a) mod m))"
    using assms by (auto simp: signed_modulo_int_def signed_divide_int_def minus_mult_div_eq_mod
        sgn_if algebra_simps)
  show "0 \<le> a \<Longrightarrow> 0 \<le> a smod m" "a < 0 \<Longrightarrow> a smod m \<le> 0" "\<bar>a smod m\<bar> < m"
    using assms by (auto simp: eq)
  show "m dvd a - a smod m"
  proof (cases "0 \<le> a")
    case False
    have "m dvd - a - (- a) mod m" by (rule dvd_minus_mod)
    then have "m dvd - (- a - (- a) mod m)" by (simp only: dvd_minus_iff)
    with False show ?thesis by (simp add: eq add.commute)
  qed (simp add: eq dvd_minus_mod)
qed

lemma smod_zero_dvd: "0 < (m::int) \<Longrightarrow> a smod m = 0 \<longleftrightarrow> m dvd a"
  using smod_bounds(3,4) [of m a]
  by (metis diff_zero dvd_diff_commute dvd_minus_iff zdvd_not_zless zdvd_zdiffD abs_zero minus_diff_eq
      zdvd_imp_le abs_ge_zero dvd_abs_iff linorder_not_less zero_less_abs_iff)

lemma range_bounds_eq:
  "range_bounds w a b m = do {
     mn' \<leftarrow> (if min a b smod m \<noteq> 0
            then do { d \<leftarrow> checked w (m - min a b smod m); checked w (min a b + d) } else Some (min a b));
     mx' \<leftarrow> (if max a b smod m \<noteq> 0 then checked w (max a b - max a b smod m) else Some (max a b));
     Some (mn', mx') }"
  by (simp add: range_bounds_def Let_def min_def max_def)

lemma range_bounds_props:
  assumes "range_bounds w a b m = Some (lo, hi)" "0 < m"
  shows "m dvd lo" "m dvd hi" "min a b \<le> lo" "lo < min a b + 2 * m" "hi < max a b + m"
    "0 \<le> max a b \<or> m dvd max a b \<Longrightarrow> hi \<le> max a b"
    "0 \<le> min a b \<or> m dvd min a b \<Longrightarrow> lo < min a b + m"
proof -
  have mn: "(if b < a then b else a) = min a b" and mx: "(if b < a then a else b) = max a b" by auto
  have lo: "lo = (if min a b smod m \<noteq> 0 then min a b + (m - min a b smod m) else min a b)"
    and hi: "hi = (if max a b smod m \<noteq> 0 then max a b - max a b smod m else max a b)"
    using assms(1) by (auto simp: range_bounds_def Let_def checked_eq_Some bind_eq_Some_conv
        min_def max_def split: if_splits)
  note s1 = smod_bounds [OF assms(2), of "min a b"] and s2 = smod_bounds [OF assms(2), of "max a b"]
  show "m dvd lo" using s1(4) smod_zero_dvd [OF assms(2), of "min a b"]
    by (auto simp: lo algebra_simps) (metis add.commute add_diff_eq dvd_add dvd_refl)
  show "m dvd hi" using s2(4) smod_zero_dvd [OF assms(2), of "max a b"] by (auto simp: hi)
  show "min a b \<le> lo" "lo < min a b + 2 * m" using s1(3) assms(2) by (auto simp: lo)
  show "hi < max a b + m" using s2(3) assms(2) by (auto simp: hi)
  show "hi \<le> max a b" if "0 \<le> max a b \<or> m dvd max a b"
    using that s2(1) smod_zero_dvd [OF assms(2), of "max a b"] by (auto simp: hi)
  show "lo < min a b + m" if "0 \<le> min a b \<or> m dvd min a b"
  proof (cases "min a b smod m = 0")
    case False
    then have "0 < min a b smod m"
      using that s1(1) smod_zero_dvd [OF assms(2), of "min a b"] by (metis order_le_less)
    then show ?thesis by (simp add: lo)
  qed (use assms(2) in \<open>simp add: lo\<close>)
qed

text \<open>For non-negative bounds the result is exact: the least multiple above, the greatest below.\<close>

lemma range_bounds_nonneg:
  assumes "0 \<le> a" "0 \<le> b" "0 < m" "int_fits w (max a b + m)"
  shows "\<exists>lo hi. range_bounds w a b m = Some (lo, hi) \<and>
    (\<forall>x. m dvd x \<and> min a b \<le> x \<and> x \<le> max a b \<longleftrightarrow> m dvd x \<and> lo \<le> x \<and> x \<le> hi)"
proof -
  have fits: "int_fits w x" if "- m \<le> x" "x \<le> max a b + m" for x
    using that assms by (auto simp: int_fits_def)
  note s1 = smod_bounds [OF assms(3), of "min a b"] and s2 = smod_bounds [OF assms(3), of "max a b"]
  have "checked w (m - min a b smod m) = Some (m - min a b smod m)"
    "checked w (min a b + (m - min a b smod m)) = Some (min a b + (m - min a b smod m))"
    "checked w (max a b - max a b smod m) = Some (max a b - max a b smod m)"
  proof -
    have "0 \<le> min a b" "0 \<le> max a b" "min a b \<le> max a b" using assms by auto
    with s1(1,3) s2(1,3) have "0 \<le> min a b smod m" "min a b smod m < m" "0 \<le> max a b smod m"
      "max a b smod m < m" "0 \<le> min a b" "min a b \<le> max a b" by linarith+
    then show "checked w (m - min a b smod m) = Some (m - min a b smod m)"
      "checked w (min a b + (m - min a b smod m)) = Some (min a b + (m - min a b smod m))"
      "checked w (max a b - max a b smod m) = Some (max a b - max a b smod m)"
      by - (rule checked_Some, rule fits; linarith)+
  qed
  then have "range_bounds w a b m \<noteq> None" by (simp add: range_bounds_eq)
  then obtain lo hi where lh: "range_bounds w a b m = Some (lo, hi)" by auto
  note p = range_bounds_props [OF lh assms(3)]
  have lo: "lo \<le> x" if "m dvd x" "min a b \<le> x" for x
  proof (rule ccontr)
    assume "\<not> lo \<le> x"
    moreover have "m dvd lo - x" using p(1) that by simp
    ultimately have "m \<le> lo - x" by (simp add: zdvd_imp_le)
    with that p(7) assms show False by auto
  qed
  have hi: "x \<le> hi" if "m dvd x" "x \<le> max a b" for x
  proof (cases "m dvd max a b")
    case True
    then have "max a b smod m = 0" using smod_zero_dvd assms by blast
    then have "hi = max a b"
      using lh by (auto simp: range_bounds_def Let_def checked_eq_Some bind_eq_Some_conv max_def split: if_splits)
    with that show ?thesis by simp
  next
    case False
    then have "hi = max a b - max a b smod m"
      using lh smod_zero_dvd [OF assms(3)] by (auto simp: range_bounds_def Let_def checked_eq_Some
          bind_eq_Some_conv max_def split: if_splits)
    then have "max a b < hi + m" using s2(3) by auto
    show ?thesis
    proof (rule ccontr)
      assume "\<not> x \<le> hi"
      moreover have "m dvd x - hi" using p(2) that by simp
      ultimately have "m \<le> x - hi" by (simp add: zdvd_imp_le)
      with that \<open>max a b < hi + m\<close> show False by simp
    qed
  qed
  have "0 \<le> max a b" using assms by simp
  then have "hi \<le> max a b" by (rule p(6) [OF disjI1])
  with lh lo hi p(3) show ?thesis by (meson order_trans)
qed

lemma nmults_pos: "0 < m \<Longrightarrow> lo \<le> hi \<Longrightarrow> 0 < (hi - lo) sdiv m + 1 \<and> (hi - lo) sdiv m + 1 = (hi - lo) div m + (1::int)"
  by (simp add: pos_imp_zdiv_nonneg_iff)

lemma pick_in_range:
  assumes "0 < m" "lo \<le> (hi::int)" "m dvd hi - lo" "0 \<le> r"
  shows "lo \<le> lo + r mod ((hi - lo) div m + 1) * m" "lo + r mod ((hi - lo) div m + 1) * m \<le> hi"
proof -
  have n: "0 < (hi - lo) div m + 1" using assms by (simp add: pos_imp_zdiv_nonneg_iff)
  then have "0 \<le> r mod ((hi - lo) div m + 1)" "r mod ((hi - lo) div m + 1) \<le> (hi - lo) div m" by auto
    (use n pos_mod_bound [of "(hi - lo) div m + 1" r] in linarith)
  then have "0 \<le> r mod ((hi - lo) div m + 1) * m" "r mod ((hi - lo) div m + 1) * m \<le> (hi - lo) div m * m"
    using assms by (auto intro: mult_right_mono)
  moreover have "(hi - lo) div m * m = hi - lo" using assms(3) by simp
  ultimately show "lo \<le> lo + r mod ((hi - lo) div m + 1) * m" "lo + r mod ((hi - lo) div m + 1) * m \<le> hi"
    by auto
qed

text \<open>The loops of \<open>random_bit\<close>.\<close>

lemma count_bits_card:
  fixes msk :: "'l::len word"
  assumes "j + k \<le> LENGTH('l)"
  shows "count_bits k msk (push_bit j 1) n = n + int (card {x. j \<le> x \<and> x < j + k \<and> bit msk x})"
  using assms
proof (induction k arbitrary: j n)
  case (Suc k)
  have split: "{x. j \<le> x \<and> x < j + Suc k \<and> bit msk x} =
      (if bit msk j then insert j else id) {x. Suc j \<le> x \<and> x < Suc j + k \<and> bit msk x}"
    by (auto simp: le_less Suc_le_eq)
  have "push_bit 1 (push_bit j (1::'l word)) = push_bit (Suc j) 1"
    by (simp only: push_bit_push_bit plus_1_eq_Suc)
  moreover have "msk AND push_bit j 1 \<noteq> 0 \<longleftrightarrow> bit msk j" by (simp only: bit_iff_and_push_bit_not_eq_0)
  moreover have "finite {x. Suc j \<le> x \<and> x < Suc j + k \<and> bit msk x}" by simp
  ultimately show ?case using Suc.IH [of "Suc j"] Suc.prems unfolding split
    by (simp only: count_bits.simps) auto
qed simp

lemma pick_bit_rank:
  fixes msk :: "'l::len word"
  assumes "0 < b" "b \<le> int (card {x. j \<le> x \<and> x < LENGTH('l) \<and> bit msk x})"
  shows "\<exists>i. j \<le> i \<and> i < LENGTH('l) \<and> bit msk i \<and> pick_bit b (signed_drop_bit j msk) j = Some (Suc i) \<and>
    int (card {x. j \<le> x \<and> x < i \<and> bit msk x}) = b - 1"
  using assms
proof (induction "LENGTH('l) - j" arbitrary: j b)
  case 0
  then have "{x. j \<le> x \<and> x < LENGTH('l) \<and> bit msk x} = {}" by auto
  with 0 show ?case by (metis card.empty int_ops(1) linorder_not_less)
next
  case (Suc d)
  then have j: "j < LENGTH('l)" by simp
  have odd: "signed_drop_bit j msk AND 1 \<noteq> 0 \<longleftrightarrow> bit msk j"
    using bit_iff_and_push_bit_not_eq_0 [of "signed_drop_bit j msk" 0] j
    by (simp add: bit_signed_drop_bit_iff del: bit_0)
  have drop: "signed_drop_bit 1 (signed_drop_bit j msk) = signed_drop_bit (Suc j) msk"
    by (simp add: signed_drop_bit_signed_drop_bit)
  have split: "{x. j \<le> x \<and> x < m \<and> bit msk x} =
      (if bit msk j then insert j else id) {x. Suc j \<le> x \<and> x < m \<and> bit msk x}" if "j < m" for m
    using that by (auto simp: le_less Suc_le_eq)
  have step: "pick_bit b (signed_drop_bit j msk) j =
      pick_bit (if bit msk j then b - 1 else b) (signed_drop_bit (Suc j) msk) (Suc j)"
    using Suc.prems(1) by (subst pick_bit.simps) (simp add: odd drop)
  show ?case
  proof (cases "bit msk j \<and> b = 1")
    case True
    then have "pick_bit b (signed_drop_bit j msk) j = Some (Suc j)"
      unfolding step by (subst pick_bit.simps) simp
    with True j show ?thesis by (intro exI [of _ j]) auto
  next
    case False
    have "\<exists>i. Suc j \<le> i \<and> i < LENGTH('l) \<and> bit msk i \<and>
        pick_bit (if bit msk j then b - 1 else b) (signed_drop_bit (Suc j) msk) (Suc j) = Some (Suc i) \<and>
        int (card {x. Suc j \<le> x \<and> x < i \<and> bit msk x}) = (if bit msk j then b - 1 else b) - 1"
      using Suc False split [OF j] by (intro Suc.hyps(1)) (auto split: if_splits)
    then obtain i where i: "Suc j \<le> i" "i < LENGTH('l)" "bit msk i"
      "pick_bit b (signed_drop_bit j msk) j = Some (Suc i)"
      "int (card {x. Suc j \<le> x \<and> x < i \<and> bit msk x}) = (if bit msk j then b - 1 else b) - 1"
      unfolding step by blast
    then have "j < i" by simp
    with i split [OF this] show ?thesis by (intro exI [of _ i]) auto
  qed
qed

context rand_source begin

text \<open>The common end of the three functions, for the generator's number \<open>r\<close>.\<close>

lemma draw_fits:
  assumes "0 < m" "lo \<le> hi" "m dvd hi - lo" "0 \<le> r" "int_fits w lo" "int_fits w hi" "int_fits w (hi - lo)"
  shows "checked w (r smod ((hi - lo) sdiv m + 1) * m) = Some (r mod ((hi - lo) div m + 1) * m)"
    "checked w (lo + r mod ((hi - lo) div m + 1) * m) = Some (lo + r mod ((hi - lo) div m + 1) * m)"
proof -
  define v where "v = r mod ((hi - lo) div m + 1) * m"
  have v: "lo \<le> lo + v" "lo + v \<le> hi" using pick_in_range [OF assms(1-4)] by (simp_all add: v_def)
  have "r smod ((hi - lo) sdiv m + 1) = r mod ((hi - lo) div m + 1)"
    using nmults_pos [OF assms(1,2)] assms(4) by simp
  moreover have "int_fits w v" using v assms(7) by (auto simp: int_fits_def intro: order_trans [of _ 0])
  ultimately show "checked w (r smod ((hi - lo) sdiv m + 1) * m) = Some (r mod ((hi - lo) div m + 1) * m)"
    by (simp add: v_def)
  show "checked w (lo + r mod ((hi - lo) div m + 1) * m) = Some (lo + r mod ((hi - lo) div m + 1) * m)"
    using int_fits_between [OF assms(5,6) v] by (simp add: v_def)
qed

lemma random_range_value:
  assumes "random_range rnd lw a b m s = Some ((v, None), s')"
  shows "0 < m" "m dvd v" "min a b \<le> v" "v < max a b + m" "0 \<le> max a b \<or> m dvd max a b \<Longrightarrow> v \<le> max a b"
proof -
  from assms show m: "0 < m" by (auto simp: random_range_def split: if_splits)
  from assms m obtain lo hi where lh: "range_bounds 32 a b m = Some (lo, hi)" and le: "lo \<le> hi"
    and v: "v = lo + fst (rnd s) smod ((hi - lo) sdiv m + 1) * m"
    by (auto simp: random_range_def bind_eq_Some_conv checked_eq_Some split: if_splits prod.splits)
  note p = range_bounds_props [OF lh m]
  have d: "m dvd hi - lo" using p(1,2) by simp
  have r0: "0 \<le> fst (rnd s)" using rnd_range by blast
  have v': "v = lo + fst (rnd s) mod ((hi - lo) div m + 1) * m"
    unfolding v using nmults_pos [OF m le] r0 by simp
  show "m dvd v" using p(1) by (simp add: v')
  show "min a b \<le> v" "v < max a b + m" "0 \<le> max a b \<or> m dvd max a b \<Longrightarrow> v \<le> max a b"
    using pick_in_range [OF m le d r0] p(3,5,6) by (auto simp: v')
qed

lemma random_range_complete:
  assumes "0 \<le> a" "0 \<le> b" "0 < m" "max a b + m < 2 ^ 31" "32 \<le> lw"
  shows "(\<exists>v. m dvd v \<and> min a b \<le> v \<and> v \<le> max a b) \<Longrightarrow> \<exists>v. random_range rnd lw a b m s = Some ((v, None), snd (rnd s))"
    and "\<not> (\<exists>v. m dvd v \<and> min a b \<le> v \<and> v \<le> max a b) \<Longrightarrow>
      random_range rnd lw a b m s = Some ((-1, Some (No_multiple a b m)), s)"
proof -
  have fits: "int_fits 32 (max a b + m)" using assms by (auto simp: int_fits_def)
  from range_bounds_nonneg [OF assms(1-3) fits] obtain lo hi where lh: "range_bounds 32 a b m = Some (lo, hi)"
    and ex: "\<And>x. m dvd x \<and> min a b \<le> x \<and> x \<le> max a b \<longleftrightarrow> m dvd x \<and> lo \<le> x \<and> x \<le> hi" by blast
  note p = range_bounds_props [OF lh assms(3)]
  have nonempty: "(\<exists>v. m dvd v \<and> min a b \<le> v \<and> v \<le> max a b) \<longleftrightarrow> lo \<le> hi"
    using ex p(1) by (meson order_trans order_refl)
  show "random_range rnd lw a b m s = Some ((-1, Some (No_multiple a b m)), s)"
    if "\<not> (\<exists>v. m dvd v \<and> min a b \<le> v \<and> v \<le> max a b)"
    using that nonempty lh assms(3) by (simp add: random_range_def)
  assume "\<exists>v. m dvd v \<and> min a b \<le> v \<and> v \<le> max a b"
  then have le: "lo \<le> hi" using nonempty by blast
  have "0 \<le> max a b" "0 \<le> min a b" using assms by auto
  then have hi: "hi < 2 ^ 31 - m" "0 \<le> lo" using p(6) [OF disjI1] p(3) assms(4) by linarith+
  have two: "(2::int) ^ 31 \<le> 2 ^ (lw - 1)" using assms(5) by (intro power_increasing) auto
  have fl: "int_fits lw lo" "int_fits lw hi" "int_fits lw (hi - lo)"
    using hi le two assms(3) by (auto simp: int_fits_def intro: order_trans [of _ 0])
  have "(hi - lo) div m \<le> hi - lo" using le assms(3) zdiv_mono2 [of "hi - lo" 1 m] by simp
  then have f32: "int_fits 32 (hi - lo)" "int_fits 32 ((hi - lo) sdiv m + 1)"
    using hi le assms(3) nmults_pos [OF assms(3) le] by (auto simp: int_fits_def)
  have r0: "0 \<le> fst (rnd s)" using rnd_range by blast
  have "m dvd hi - lo" using p(1,2) by simp
  note draw = draw_fits [OF assms(3) le this r0 fl]
  show "\<exists>v. random_range rnd lw a b m s = Some ((v, None), snd (rnd s))"
    using lh le f32 draw assms(3) nmults_pos [OF assms(3) le]
    by (cases "rnd s") (simp add: random_range_def)
qed

text \<open>\<open>divider\<close> returns, never runs into its run-away guard and never shifts by 31 or more.\<close>

lemma divider_value:
  assumes "0 \<le> mn" "mn \<le> mx" "mx + 2 ^ 31 \<le> 2 ^ 63" "mx - mn \<le> 2 ^ (61 - cnt)" "cnt \<le> 31"
    and "cnt = 0 \<or> 0 \<le> rand0 \<and> rand0 < 2 ^ 31"
  shows "\<exists>v. divider rnd mn mx cnt rand0 s = Some (v, if cnt = 0 then snd (rnd s) else s) \<and> mn \<le> v \<and> v < mx + 2 ^ 31"
  using assms
proof (induction "33 - cnt" arbitrary: mn mx cnt rand0 s rule: less_induct)
  case less
  define rand where "rand = (if cnt = 0 then fst (rnd s) else rand0)"
  define s' where "s' = (if cnt = 0 then snd (rnd s) else s)"
  have rs: "(if cnt = 0 \<or> rand0 < -1 then rnd s else (rand0, s)) = (rand, s')"
    using less.prems(6) by (auto simp: rand_def s'_def)
  have rand: "0 \<le> rand" "rand < 2 ^ 31" using less.prems(6) rnd_range [of s] by (auto simp: rand_def)
  have fits: "checked 64 x = Some x" if "0 \<le> x" "x < mx + 2 ^ 31" for x
    using that less.prems(3) by (intro checked_Some) (simp add: int_fits_def)
  have diff: "checked 64 (mx - mn) = Some (mx - mn)"
    using less.prems(1,2) by (intro fits) auto
  have unfold: "divider rnd mn mx cnt rand0 s =
     (if mx - mn \<le> 2147483647 then do { v \<leftarrow> checked 64 (mn + rand); Some (v, s') }
      else if 31 \<le> cnt then None
      else (let half = (mx - mn) div 2; med = mn + half; set_bit = (rand AND 2 ^ cnt \<noteq> 0)
            in if half \<le> 2147483647
               then do { v \<leftarrow> checked 64 ((if set_bit then med else mn) + rand); Some (v, s') }
               else if set_bit then divider rnd med mx (cnt + 1) rand s'
               else divider rnd mn med (cnt + 1) rand s'))"
    using less.prems(2,5) rs diff by (subst divider.simps) (simp add: Let_def)
  show ?case
  proof (cases "mx - mn \<le> 2147483647")
    case True
    with unfold fits [of "mn + rand"] rand less.prems(1,2) show ?thesis by (simp add: s'_def)
  next
    case big: False
    define half where "half = (mx - mn) div 2"
    have half: "0 \<le> half" "mn + half \<le> mx" "mx - mn \<le> 2 * half + 1" using big by (auto simp: half_def)
    have cnt: "cnt < 31"
    proof (rule ccontr)
      assume "\<not> cnt < 31"
      then have "(2::int) ^ (61 - cnt) \<le> 2 ^ 30" by (intro power_increasing) auto
      with big less.prems(4) show False by simp
    qed
    then have pow: "(2::int) ^ (61 - cnt) = 2 * 2 ^ (61 - (cnt + 1))" by (simp flip: power_Suc)
    have low: "half \<le> 2 ^ (61 - (cnt + 1))" "mx - (mn + half) \<le> 2 ^ (61 - (cnt + 1))"
      using less.prems(4) unfolding pow half_def by linarith+
    show ?thesis
    proof (cases "half \<le> 2147483647")
      case True
      with unfold big cnt fits [of "mn + half + rand"] fits [of "mn + rand"] rand less.prems(1,2) half
      show ?thesis by (auto simp: Let_def half_def [symmetric] s'_def)
    next
      case False
      have up: "\<exists>v. divider rnd (mn + half) mx (cnt + 1) rand s' = Some (v, s') \<and> mn + half \<le> v \<and> v < mx + 2 ^ 31"
        using less.hyps [of "cnt + 1" "mn + half" mx rand s'] less.prems half low cnt rand by simp
      have down: "\<exists>v. divider rnd mn (mn + half) (cnt + 1) rand s' = Some (v, s') \<and> mn \<le> v \<and> v < mn + half + 2 ^ 31"
        using less.hyps [of "cnt + 1" mn "mn + half" rand s'] less.prems half low cnt rand by simp
      from up down half False big cnt unfold show ?thesis
        by (cases "rand AND 2 ^ cnt \<noteq> 0") (auto simp: Let_def half_def [symmetric] s'_def)
    qed
  qed
qed

lemma random_rangell_value:
  assumes "0 \<le> a" "0 \<le> b" "0 < m" "max a b + m + 2 ^ 31 \<le> 2 ^ 63" "max a b - min a b \<le> 2 ^ 61"
  shows "(\<exists>v. m dvd v \<and> min a b \<le> v \<and> v \<le> max a b) \<Longrightarrow>
      \<exists>v. random_rangell rnd a b m s = Some ((v, None), snd (rnd s)) \<and> m dvd v \<and> min a b \<le> v \<and> v \<le> max a b"
    and "\<not> (\<exists>v. m dvd v \<and> min a b \<le> v \<and> v \<le> max a b) \<Longrightarrow>
      random_rangell rnd a b m s = Some ((-1, Some (No_multiple a b m)), s)"
proof -
  have fits: "int_fits 64 (max a b + m)" using assms by (auto simp: int_fits_def)
  from range_bounds_nonneg [OF assms(1-3) fits] obtain lo hi where lh: "range_bounds 64 a b m = Some (lo, hi)"
    and ex: "\<And>x. m dvd x \<and> min a b \<le> x \<and> x \<le> max a b \<longleftrightarrow> m dvd x \<and> lo \<le> x \<and> x \<le> hi" by blast
  note p = range_bounds_props [OF lh assms(3)]
  have nonempty: "(\<exists>v. m dvd v \<and> min a b \<le> v \<and> v \<le> max a b) \<longleftrightarrow> lo \<le> hi"
    using ex p(1) by (meson order_trans order_refl)
  show "random_rangell rnd a b m s = Some ((-1, Some (No_multiple a b m)), s)"
    if "\<not> (\<exists>v. m dvd v \<and> min a b \<le> v \<and> v \<le> max a b)"
    using that nonempty lh assms(3) by (simp add: random_rangell_def)
  assume "\<exists>v. m dvd v \<and> min a b \<le> v \<and> v \<le> max a b"
  then have le: "lo \<le> hi" using nonempty by blast
  have "0 \<le> max a b" "0 \<le> min a b" using assms by auto
  then have hi: "hi \<le> max a b" "0 \<le> lo" "min a b \<le> lo" using p(6) [OF disjI1] p(3) by linarith+
  have fl: "int_fits 64 lo" "int_fits 64 hi" "int_fits 64 (hi - lo)"
    using hi le assms(3,4) by (auto simp: int_fits_def)
  have dv: "m dvd hi - lo" using p(1,2) by simp
  have "(hi - lo) div m \<le> hi - lo" using le assms(3) zdiv_mono2 [of "hi - lo" 1 m] by simp
  then have fn: "int_fits 64 ((hi - lo) sdiv m + 1)"
    using hi le assms(3,4) nmults_pos [OF assms(3) le] by (auto simp: int_fits_def)
  obtain r where r: "(if hi \<le> 2147483647 then Some (rnd s) else divider rnd lo hi 0 (-1) s) = Some (r, snd (rnd s))"
    "0 \<le> r"
  proof (cases "hi \<le> 2147483647")
    case True
    then show ?thesis using that [of "fst (rnd s)"] rnd_range by simp
  next
    case False
    with divider_value [of lo hi 0 "-1" s] hi le assms(3-5) that show ?thesis by fastforce
  qed
  note draw = draw_fits [OF assms(3) le dv r(2) fl] and pick = pick_in_range [OF assms(3) le dv r(2)]
  have "m dvd lo + r mod ((hi - lo) div m + 1) * m" using p(1) by simp
  with lh le fl fn draw assms(3) pick ex r(1)
  show "\<exists>v. random_rangell rnd a b m s = Some ((v, None), snd (rnd s)) \<and> m dvd v \<and> min a b \<le> v \<and> v \<le> max a b"
    by (simp add: random_rangell_def)
qed

lemma random_range_one:
  assumes "1 \<le> n" "int_fits 32 n" "int_fits lw n"
  shows "random_range rnd lw 1 n 1 s = Some ((1 + fst (rnd s) mod n, None), snd (rnd s))"
proof -
  have "0 \<le> fst (rnd s) mod n" "fst (rnd s) mod n < n" using assms(1) by simp_all
  moreover have "0 \<le> (2::int) ^ (lw - 1)" by simp
  ultimately have "int_fits lw (fst (rnd s) mod n)" "int_fits lw (1 + fst (rnd s) mod n)" "int_fits 32 (n - 1)"
    using assms unfolding int_fits_def by linarith+
  moreover have "x smod 1 = 0" for x :: int using smod_zero_dvd [of 1 x] by simp
  ultimately show ?thesis using assms rnd_range [of s]
    by (cases "rnd s") (simp add: random_range_def range_bounds_def)
qed

lemma random_bit_value:
  fixes msk :: "'l::len word"
  assumes "msk \<noteq> 0" "LENGTH('l) < 2 ^ 31" "LENGTH('l) < 2 ^ (LENGTH('l) - 1)"
  shows "\<exists>i < LENGTH('l). bit msk i \<and> random_bit rnd msk s = Some (push_bit i 1, snd (rnd s)) \<and>
    int (card {x. x < i \<and> bit msk x}) = fst (rnd s) mod int (card {x. x < LENGTH('l) \<and> bit msk x})"
proof -
  define n where "n = card {x. x < LENGTH('l) \<and> bit msk x}"
  have cnt: "count_bits LENGTH('l) msk 1 0 = int n"
    using count_bits_card [of 0 "LENGTH('l)" msk 0] by (simp add: n_def)
  obtain k where "bit msk k" using assms(1) by (metis bit_eqI bit_0_eq bot_apply bot_bool_def)
  then have "n \<noteq> 0" using bit_imp_le_length by (auto simp: n_def)
  have "n \<le> card {..<LENGTH('l)}" unfolding n_def by (intro card_mono) auto
  then have nL: "n \<le> LENGTH('l)" by simp
  have "int n < int (2 ^ 31)" "int n < int (2 ^ (LENGTH('l) - 1))"
    using nL assms(2,3) by (simp_all only: of_nat_less_iff)
  then have fits: "int_fits 32 (int n)" "int_fits LENGTH('l) (int n)"
    by (auto simp: int_fits_def intro: order_trans [of _ 0])
  have "fst (rnd s) mod int n < int n" "0 \<le> fst (rnd s) mod int n" using \<open>n \<noteq> 0\<close> by simp_all
  then obtain i where i: "i < LENGTH('l)" "bit msk i"
    "pick_bit (1 + fst (rnd s) mod int n) msk 0 = Some (Suc i)"
    "int (card {x. x < i \<and> bit msk x}) = fst (rnd s) mod int n"
    using pick_bit_rank [of "1 + fst (rnd s) mod int n" 0 msk] by (auto simp: n_def)
  have "random_bit rnd msk s = Some (push_bit i 1, snd (rnd s))"
    using random_range_one [of "int n" "LENGTH('l)"] \<open>n \<noteq> 0\<close> fits cnt i(3) assms(1)
    by (simp add: random_bit_def)
  with i show ?thesis by (auto simp: n_def)
qed

end

section \<open>Properties of the random numbers\<close>



text \<open>The 64-bit \<open>random_rangell\<close> has the same contract when the range is at most \<open>2^61\<close> wide: its
  \<open>divider\<close> returns before its run-away guard, and never shifts by the width of an \<open>int\<close>.\<close>

lemma random_rangell_correct:
  assumes "0 \<le> a" "0 \<le> b" "0 < m" "max a b + m + 2 ^ 31 \<le> 2 ^ 63" "max a b - min a b \<le> 2 ^ 61"
  shows "\<exists>v e s'. random_rangell lrand48 a b m s = Some ((v, e), s') \<and>
    (e = None \<longleftrightarrow> (\<exists>x. m dvd x \<and> min a b \<le> x \<and> x \<le> max a b)) \<and>
    (e = None \<longrightarrow> m dvd v \<and> min a b \<le> v \<and> v \<le> max a b)"
proof (cases "\<exists>x. m dvd x \<and> min a b \<le> x \<and> x \<le> max a b")
  case True
  with rand48.random_rangell_value(1) [OF assms True, of s] show ?thesis by blast
next
  case False
  with rand48.random_rangell_value(2) [OF assms False, of s] show ?thesis by simp
qed

lemma random_rangell_correct_witness:
  "\<exists>v. fst (the (random_rangell lrand48 10000000000 7 8 5)) = (v, None) \<and> 8 dvd v \<and> 7 \<le> v \<and> v \<le> 10000000000"
proof -
  have "\<exists>x. (8::int) dvd x \<and> min 10000000000 7 \<le> x \<and> x \<le> max 10000000000 7" by (rule exI [of _ 8]) simp
  with random_rangell_correct [of 10000000000 7 8 5] show ?thesis by force
qed

text \<open>For a nonzero mask \<open>random_bit\<close> returns (its second loop ends), and what it returns is
  exactly one bit of the mask, the one whose rank among the set bits is the number drawn; zero is
  returned for the empty mask only.\<close>

lemma random_bit_correct:
  fixes m :: "64 word"
  shows "random_bit lrand48 0 s = Some (0 :: 64 word, s) \<and>
    (m \<noteq> 0 \<longrightarrow> (\<exists>i < 64. bit m i \<and> random_bit lrand48 m s = Some (push_bit i 1, snd (lrand48 s)) \<and>
      int (card {x. x < i \<and> bit m x}) = fst (lrand48 s) mod int (card {x. x < 64 \<and> bit m x})))"
  using rand48.random_bit_value [of m s] by (auto simp: random_bit_def)

lemma random_bit_correct_witness:
  "\<exists>i < 64. bit (0x14 :: 64 word) i \<and> random_bit lrand48 (0x14 :: 64 word) 1 = Some (push_bit i 1, snd (lrand48 1))"
  using random_bit_correct [of 1 "0x14"] by auto

text \<open>The header comment lets the bounds be any integers, but C's \<open>%\<close> of a negative number is not
  positive: with the bounds \<open>-8\<close> and \<open>-5\<close> and \<open>mult\<close> 3 the function returns \<open>-3\<close>, which is above the
  maximum, whatever the generator's state, and never the only multiple \<open>-6\<close> of the range.\<close>

lemma random_range_negative:
  "random_range lrand48 64 (-8) (-5) 3 s = Some ((-3, None), snd (lrand48 s))"
proof -
  have "range_bounds 32 (-8) (-5) 3 = Some (-3, -3)" by code_simp
  then show ?thesis using smod_zero_dvd [of 1 "fst (lrand48 s)"]
    by (cases "lrand48 s") (simp add: random_range_def int_fits_def)
qed

end
