(* ===== verification/Pan.thy ===== *)
theory Pan
  imports Pan_Collection Splitstr Zoo Random_Range
begin

text \<open>
  The test driver \<^verbatim>\<open>pan/ltp-pan.c\<close>: slots for the running tests, the list of orphaned process groups,
  the signal ratchet, \<open>check_pids\<close> (reaping one child), \<open>run_child\<close> (starting one) and the scheduling
  loop of \<open>main\<close>. What the kernel answers (\<open>fork\<close>, \<open>waitpid\<close>, \<open>kill\<close>, the clock) is a parameter of each
  step or, for \<open>kill\<close>, part of the state. What is written is kept as data: the log, the list of failed
  commands, the report, the signals sent. A result is \<open>None\<close> when the code is undefined or blocks.
\<close>

section \<open>State\<close>

record tag_pgrp =
  tp_pgrp :: int
  tp_stopping :: bool
  tp_mystime :: int
  tp_cmd :: "coll_entry option"
  tp_output :: string

datatype status = Signaled | Exited | Stopped | Unknown | Driver_interrupt

datatype log_line =
  Log_rts string int int status int bool int int
| Log_fmt string string int

datatype report_line =
  Test_start string int string
| Test_output string
| Test_end string int status int bool int int

record pan_conf =
  keep_active :: nat
  sequential :: bool
  has_brakes :: bool
  track_exit_stats :: bool
  fmt_print :: bool
  quiet_mode :: bool
  log_open :: bool
  failcmd_open :: bool
  test_out_dir :: "string option"
  rts :: bool
  panname :: string
  own_pid :: int

record pan =
  running :: "tag_pgrp list"
  num_active :: int
  orphans :: "int list"
  rec_signal :: int
  send_signal :: int
  lastsent :: int
  failcnt :: int
  zoofile :: "zoo option"
  kill_errno :: "nat \<Rightarrow> int"
  kills :: "(int \<times> int) list"
  log :: "log_line list"
  failcmds :: "(string \<times> string) list"
  report :: "report_line list"
  cmdno :: nat
  pcnt_counter :: nat
  starts :: int
  stop :: nat
  go_idle :: nat
  fork_in_road :: bool
  exit_stat :: nat
  cmd_index :: nat
  seed :: nat

datatype outcome = Returned int | Exit_with int | Rebooted

definition empty_slot :: tag_pgrp where
  "empty_slot = \<lparr>tp_pgrp = 0, tp_stopping = False, tp_mystime = 0, tp_cmd = None, tp_output = []\<rparr>"

section \<open>Signals\<close>

text \<open>\<open>kill\<close>: the call is recorded, and the state has the \<open>errno\<close> of each call (0 for success).\<close>

definition do_kill :: "int \<Rightarrow> int \<Rightarrow> pan \<Rightarrow> int \<times> pan" where
  "do_kill pid sig p = (kill_errno p (length (kills p)), p\<lparr>kills := kills p @ [(pid, sig)]\<rparr>)"

definition wait_handler :: "int \<Rightarrow> pan \<Rightarrow> pan" where
  "wait_handler sig p =
     (if sig = 0 then p\<lparr>lastsent := 0\<rparr>
      else (let p = p\<lparr>rec_signal := sig\<rparr>
            in if sig = SIGUSR2 then p
               else (let p = (if lastsent p = 0 then p\<lparr>send_signal := sig\<rparr>
                              else if lastsent p = SIGUSR1 then p\<lparr>send_signal := SIGINT\<rparr>
                              else if lastsent p = sig then p\<lparr>send_signal := SIGTERM\<rparr>
                              else if lastsent p = SIGTERM then p\<lparr>send_signal := SIGHUP\<rparr>
                              else if lastsent p = SIGHUP then p\<lparr>send_signal := SIGKILL\<rparr>
                              else p)
                     in p\<lparr>lastsent := send_signal p\<rparr>)))"

fun check_orphan_list :: "int list \<Rightarrow> int \<Rightarrow> pan \<Rightarrow> (int list \<times> pan) option" where
  "check_orphan_list [] sig p = Some ([], p)"
| "check_orphan_list (orph # os) sig p =
     (if orph = 0 then do { (os, p) \<leftarrow> check_orphan_list os sig p; Some (orph # os, p) }
      else (let (e, p) = do_kill (- orph) sig p
            in if e = ESRCH
               then do {
                 (_, z) \<leftarrow> zoo_clear (zoofile p) orph;
                 (os, p) \<leftarrow> check_orphan_list os sig (p\<lparr>zoofile := z\<rparr>);
                 Some (0 # os, p) }
               else do { (os, p) \<leftarrow> check_orphan_list os sig p; Some (orph # os, p) }))"

definition check_orphans :: "int \<Rightarrow> pan \<Rightarrow> pan option" where
  "check_orphans sig p = do {
     (os, p) \<leftarrow> check_orphan_list (orphans p) sig p;
     Some (p\<lparr>orphans := os\<rparr>) }"

text \<open>The first free cell, or a new one just after the head.\<close>

definition mark_orphan :: "int list \<Rightarrow> int \<Rightarrow> int list" where
  "mark_orphan os cpid =
     (if 0 \<in> set os then takeWhile (\<lambda>x. x \<noteq> 0) os @ cpid # tl (dropWhile (\<lambda>x. x \<noteq> 0) os)
      else hd os # cpid # tl os)"

fun signal_slots :: "tag_pgrp list \<Rightarrow> pan \<Rightarrow> tag_pgrp list \<times> pan" where
  "signal_slots [] p = ([], p)"
| "signal_slots (s # ss) p =
     (if tp_pgrp s = 0 then (let (ss, p) = signal_slots ss p in (s # ss, p))
      else (let (e, p) = do_kill (- tp_pgrp s) (send_signal p) p;
                (ss, p) = signal_slots ss p
            in (s\<lparr>tp_stopping := True\<rparr> # ss, p)))"

definition propagate_signal :: "pan \<Rightarrow> pan option" where
  "propagate_signal p =
     (let p = (if rec_signal p = SIGALRM then p\<lparr>rec_signal := SIGTERM\<rparr> else p);
          (ss, p) = signal_slots (running p) p
      in do {
        p \<leftarrow> check_orphans (send_signal p) (p\<lparr>running := ss\<rparr>);
        Some (p\<lparr>rec_signal := 0, send_signal := 0\<rparr>) })"

section \<open>Reaping a child: check_pids\<close>

text \<open>The wait status.\<close>

definition WTERMSIG :: "nat \<Rightarrow> nat" where "WTERMSIG s = s mod 128"
definition WEXITSTATUS :: "nat \<Rightarrow> nat" where "WEXITSTATUS s = s div 256 mod 256"
definition WIFSIGNALED :: "nat \<Rightarrow> bool" where "WIFSIGNALED s \<longleftrightarrow> 0 < WTERMSIG s \<and> WTERMSIG s < 127"
definition WIFEXITED :: "nat \<Rightarrow> bool" where "WIFEXITED s \<longleftrightarrow> WTERMSIG s = 0"
definition WIFSTOPPED :: "nat \<Rightarrow> bool" where "WIFSTOPPED s \<longleftrightarrow> s mod 256 = 127"
definition core_flag :: "nat \<Rightarrow> bool" where "core_flag s \<longleftrightarrow> bit s 7"

datatype wait_answer = W_none | W_error int | W_child int nat

text \<open>The polling loop of a driver with a log file: \<open>wp\<close> has the answer of each call of \<open>waitpid\<close>, \<open>i\<close>
  is the slot, \<open>pcnt\<close> counts the calls that returned 0.\<close>

datatype poll_result = Poll_child int nat | Poll_lost nat int | Poll_timeout nat

function poll :: "(nat \<Rightarrow> wait_answer) \<Rightarrow> nat \<Rightarrow> nat \<Rightarrow> nat \<Rightarrow> nat \<Rightarrow> poll_result option" where
  "poll wp ka timeout i pcnt =
     (if i < ka
      then (case wp pcnt of
              W_child cpid stat \<Rightarrow> Some (Poll_child cpid stat)
            | W_error e \<Rightarrow> Some (Poll_lost i e)
            | W_none \<Rightarrow> if timeout < pcnt + 1 then Some (Poll_timeout i) else poll wp ka timeout (i + 1) (pcnt + 1))
      else if ka = 0 then None
      else poll wp ka timeout 0 pcnt)"
  by pat_completeness auto
termination
  by (relation "measures [\<lambda>(wp, ka, timeout, i, pcnt). timeout + 1 - pcnt, \<lambda>(wp, ka, timeout, i, pcnt). if i < ka then 0 else 1]")
    auto

declare poll.simps [simp del]

record clock_vals =
  now :: int
  cutime :: int
  cstime :: int

text \<open>\<open>w\<close>, \<open>status\<close>, \<open>signaled\<close>, \<open>ret\<close>, and whether \<open>*num_active\<close> is decremented.\<close>

definition wait_decode :: "nat \<Rightarrow> int \<times> status \<times> bool \<times> int \<times> bool" where
  "wait_decode stat =
     (if WIFSIGNALED stat then (int (WTERMSIG stat), Signaled, True, 0, True)
      else if WIFEXITED stat
      then (int (WEXITSTATUS stat), Exited, False, if WEXITSTATUS stat \<noteq> 0 then 1 else 0, True)
      else if WIFSTOPPED stat then (int (WEXITSTATUS stat), Stopped, False, 1, False)
      else (0, Unknown, False, 1, False))"

definition entry_name :: "tag_pgrp \<Rightarrow> string option" where
  "entry_name s = map_option ce_name (tp_cmd s)"

definition entry_cmdline :: "tag_pgrp \<Rightarrow> string option" where
  "entry_cmdline s = map_option ce_cmdline (tp_cmd s)"

text \<open>The log line of a child that ended: the formatted one has the name of the command of slot 0.\<close>

definition log_end ::
  "pan_conf \<Rightarrow> clock_vals \<Rightarrow> nat \<Rightarrow> tag_pgrp \<Rightarrow> int \<Rightarrow> status \<Rightarrow> pan \<Rightarrow> pan option" where
  "log_end cf clk stat s w status p =
     (if \<not> log_open cf then Some p
      else if \<not> fmt_print cf
      then do {
        name \<leftarrow> entry_name s;
        Some (p\<lparr>log := log p @ [Log_rts name (tp_mystime s) (now clk - tp_mystime s) status w
                                   (core_flag stat) (cutime clk) (cstime clk)]\<rparr>) }
      else do {
        _ \<leftarrow> entry_name s;
        name0 \<leftarrow> entry_name (hd (running p));
        oricom \<leftarrow> log_name name0;
        Some (p\<lparr>failcnt := failcnt p + (if w \<noteq> 0 then 1 else 0),
                log := log p @ [Log_fmt (take 30 oricom) (if w \<noteq> 0 then ''FAIL'' else ''PASS'') w]\<rparr>) })"

text \<open>\<open>copy_buffered_output\<close>: the contents of the buffer file, \<open>None\<close> when it cannot be read. The last
  character of an empty file is read before its start.\<close>

definition copy_buffered_output :: "string option \<Rightarrow> string option" where
  "copy_buffered_output contents =
     (case contents of
        None \<Rightarrow> Some []
      | Some s \<Rightarrow> if s = [] then None else Some (if last s \<noteq> LF then s @ [LF] else s))"

definition write_test_start :: "pan_conf \<Rightarrow> tag_pgrp \<Rightarrow> pan \<Rightarrow> pan option" where
  "write_test_start cf s p =
     (if rts cf then do {
        e \<leftarrow> tp_cmd s;
        Some (p\<lparr>report := report p @ [Test_start (ce_name e) (tp_mystime s) (ce_cmdline e)]\<rparr>) }
      else Some p)"

definition write_test_end ::
  "pan_conf \<Rightarrow> tag_pgrp \<Rightarrow> string \<Rightarrow> int \<Rightarrow> status \<Rightarrow> nat \<Rightarrow> int \<Rightarrow> int \<Rightarrow> int \<Rightarrow> pan \<Rightarrow> pan" where
  "write_test_end cf s init_status exit_time status stat term_id cu cs p =
     (if rts cf
      then p\<lparr>report := report p @ [Test_end init_status (exit_time - tp_mystime s) status term_id (core_flag stat) cu cs]\<rparr>
      else p)"

text \<open>The slot of the child that ended, with what \<open>wait_decode\<close> gave. \<open>out\<close> is what its buffer file holds.\<close>

definition exit_130 :: "tag_pgrp \<Rightarrow> int \<Rightarrow> status \<Rightarrow> bool" where
  "exit_130 s w status \<longleftrightarrow> w = 130 \<and> tp_stopping s \<and> status = Exited"

definition report_end ::
  "pan_conf \<Rightarrow> clock_vals \<Rightarrow> string option \<Rightarrow> nat \<Rightarrow> tag_pgrp \<Rightarrow> int \<Rightarrow> status \<Rightarrow> pan \<Rightarrow> pan option" where
  "report_end cf clk out stat s w status p = do {
     p \<leftarrow> (if failcmd_open cf \<and> w \<noteq> 0
          then do { e \<leftarrow> tp_cmd s; Some (p\<lparr>failcmds := failcmds p @ [(ce_name e, ce_cmdline e)]\<rparr>) }
          else Some p);
     let status = (if tp_stopping s then Driver_interrupt else status);
     p \<leftarrow> (if test_out_dir cf \<noteq> None
          then do {
            p \<leftarrow> (if \<not> quiet_mode cf then write_test_start cf s p else Some p);
            o' \<leftarrow> copy_buffered_output out;
            Some (p\<lparr>report := report p @ [Test_output o']\<rparr>) }
          else Some p);
     Some (if \<not> quiet_mode cf
           then write_test_end cf s ''ok'' (now clk) status stat w (cutime clk) (cstime clk) p else p) }"

definition orphan_check :: "tag_pgrp \<Rightarrow> int \<Rightarrow> pan \<Rightarrow> (bool \<times> pan) option" where
  "orphan_check s cpid p =
     (let (e, p) = do_kill (- cpid) 0 p
      in if e = 0 \<or> e = EPERM
         then do {
           cmd \<leftarrow> entry_cmdline s;
           (r, z) \<leftarrow> zoo_mark_cmdline (zoofile p) cpid ''panorphan'' cmd;
           if r \<noteq> 0 then Some (False, p\<lparr>zoofile := z\<rparr>)
           else Some (True, snd (do_kill (- cpid) SIGTERM (p\<lparr>zoofile := z, orphans := mark_orphan (orphans p) cpid\<rparr>))) }
         else Some (True, p))"

definition reap ::
  "pan_conf \<Rightarrow> clock_vals \<Rightarrow> string option \<Rightarrow> int \<Rightarrow> nat \<Rightarrow> pan \<Rightarrow> (outcome \<times> pan) option" where
  "reap cf clk out cpid stat p =
     (let (w, status, signaled, ret, dec) = wait_decode stat;
          p = (if dec then p\<lparr>num_active := num_active p - 1\<rparr> else p)
      in case find (\<lambda>i. tp_pgrp (running p ! i) = cpid) [0..<length (running p)] of
           None \<Rightarrow> Some (Returned ret, p)
         | Some i \<Rightarrow>
             (let s = running p ! i;
                  (w, ret) = (if exit_130 s w status then (0, ret - 1) else (w, ret))
              in do {
                p \<leftarrow> log_end cf clk stat s w status p;
                p \<leftarrow> report_end cf clk out stat s w status p;
                let ret = (if signaled \<and> \<not> tp_stopping s then ret + 1 else ret);
                let p = p\<lparr>running := (running p)[i := s\<lparr>tp_pgrp := 0\<rparr>]\<rparr>;
                (r, z) \<leftarrow> zoo_clear (zoofile p) cpid;
                if r \<noteq> 0 then Some (Exit_with 1, p\<lparr>zoofile := z\<rparr>)
                else do {
                  (ok, p) \<leftarrow> orphan_check s cpid (p\<lparr>zoofile := z\<rparr>);
                  Some (if ok then Returned ret else Exit_with 1, p) } }))"

text \<open>A failing \<open>waitpid\<close> of the polling loop gives up slot \<open>i\<close>; a timeout writes to the logs and reboots
  the machine. Both name the command of slot 0.\<close>

definition lose_slot :: "pan_conf \<Rightarrow> nat \<Rightarrow> pan \<Rightarrow> pan option" where
  "lose_slot cf i p = do {
     e \<leftarrow> tp_cmd (hd (running p));
     let p = p\<lparr>num_active := num_active p - 1\<rparr>;
     let s = running p ! i;
     let p = (if tp_pgrp s \<noteq> 0 then snd (do_kill (tp_pgrp s) SIGTERM p) else p);
     let p = p\<lparr>running := (running p)[i := s\<lparr>tp_pgrp := 0\<rparr>]\<rparr>;
     Some (if failcmd_open cf
           then p\<lparr>failcmds := failcmds p @ [(ce_name e, ce_cmdline e)],
                  log := log p @ [Log_fmt (take 30 (ce_name e)) ''CFAIL'' 128]\<rparr>
           else p) }"

definition reboot :: "pan_conf \<Rightarrow> nat \<Rightarrow> pan \<Rightarrow> pan option" where
  "reboot cf i p =
     (if failcmd_open cf
      then do {
        e \<leftarrow> tp_cmd (hd (running p));
        _ \<leftarrow> tp_cmd (running p ! i);
        oricom \<leftarrow> log_name (ce_name e);
        Some (p\<lparr>failcmds := failcmds p @ [(ce_name e, ce_cmdline e)],
                log := log p @ [Log_fmt (take 30 oricom) ''TIMEOUT'' 255]\<rparr>) }
      else Some p)"

definition check_pids ::
  "pan_conf \<Rightarrow> (nat \<Rightarrow> wait_answer) \<Rightarrow> clock_vals \<Rightarrow> (int \<Rightarrow> string option) \<Rightarrow> pan \<Rightarrow> (outcome \<times> pan) option" where
  "check_pids cf wp clk out p = do {
     p \<leftarrow> check_orphans 0 p;
     if log_open cf
     then do {
       name0 \<leftarrow> entry_name (hd (running p));
       timeout \<leftarrow> case_timeout name0;
       r \<leftarrow> poll wp (keep_active cf) timeout 0 0;
       (case r of
          Poll_child cpid stat \<Rightarrow> reap cf clk (out cpid) cpid stat p
        | Poll_lost i e \<Rightarrow> do { p \<leftarrow> lose_slot cf i p; Some (Returned 0, p) }
        | Poll_timeout i \<Rightarrow> do { p \<leftarrow> reboot cf i p; Some (Rebooted, p) }) }
     else (case wp 0 of
         W_none \<Rightarrow> None
       | W_error e \<Rightarrow> Some (Returned 0, p)
       | W_child cpid stat \<Rightarrow> reap cf clk (out cpid) cpid stat p) }"

section \<open>Starting a child: run_child\<close>

text \<open>What the kernel answers: \<open>open\<close> of the buffer file for each number, \<open>pipe\<close>, \<open>fork\<close>, and what is read
  from the pipe: nothing when \<open>exec\<close> worked, an error message and the child's status otherwise.\<close>

record child_env =
  open_errno :: "nat \<Rightarrow> int"
  pipe_ok :: bool
  fork_pid :: int
  exec_error :: "(string \<times> nat) option"
  start_time :: int
  end_time :: int

partial_function (option) open_output :: "(nat \<Rightarrow> int) \<Rightarrow> nat \<Rightarrow> (int \<times> nat) option" where
  "open_output ans n = (if ans n = EEXIST then open_output ans (n + 1) else Some (ans n, n))"

declare open_output.simps [code]

datatype exec_choice = Shell string | Exec "string list" | Exec_null

definition child_exec :: "string \<Rightarrow> exec_choice option" where
  "child_exec c_cmdline =
     (if wants_shell c_cmdline then Some (Shell c_cmdline)
      else do {
        (arr, n) \<leftarrow> splitstr True True (Some c_cmdline) None;
        arg_v \<leftarrow> arr;
        Some (if n = 0 then Exec_null else Exec (map (the \<circ> cell_token) (take n arg_v))) })"

text \<open>The status of a child that could not run its command. A stopped child is not waited for here.\<close>

definition exec_failed ::
  "pan_conf \<Rightarrow> coll_entry \<Rightarrow> tag_pgrp \<Rightarrow> string \<Rightarrow> nat \<Rightarrow> int \<Rightarrow> pan \<Rightarrow> pan" where
  "exec_failed cf colle active errbuf stat end_t p =
     (let (termid, termtype, _) = wait_decode stat;
          p = (if \<not> log_open cf then p
               else if \<not> fmt_print cf
               then p\<lparr>log := log p @ [Log_rts (ce_name colle) (tp_mystime active) (end_t - tp_mystime active)
                                        termtype termid (core_flag stat) 0 0]\<rparr>
               else p\<lparr>failcnt := failcnt p + (if termid \<noteq> 0 then 1 else 0),
                      log := log p @ [Log_fmt (take 30 (ce_name colle)) (if termid \<noteq> 0 then ''FAIL'' else ''PASS'') termid]\<rparr>)
      in if quiet_mode cf then p else write_test_end cf active errbuf end_t termtype stat termid 0 0 p)"

text \<open>After \<open>fork\<close>, in the parent.\<close>

definition parent_side ::
  "pan_conf \<Rightarrow> child_env \<Rightarrow> coll_entry \<Rightarrow> nat \<Rightarrow> tag_pgrp \<Rightarrow> pan \<Rightarrow> (outcome \<times> pan) option" where
  "parent_side cf env colle i active p =
     (case exec_error env of
        Some (errbuf, stat) \<Rightarrow> Some (Returned (-1), exec_failed cf colle active errbuf stat (end_time env) p)
      | None \<Rightarrow>
          (let p = p\<lparr>running := (running p)[i := active\<lparr>tp_pgrp := fork_pid env, tp_stopping := False\<rparr>]\<rparr>
           in do {
             (r, z) \<leftarrow> zoo_mark_cmdline (zoofile p) (fork_pid env) (ce_name colle) (ce_cmdline colle);
             Some (if r \<noteq> 0 then Exit_with 1 else Returned (fork_pid env), p\<lparr>zoofile := z\<rparr>) }))"

definition start_child ::
  "pan_conf \<Rightarrow> child_env \<Rightarrow> coll_entry \<Rightarrow> nat \<Rightarrow> tag_pgrp \<Rightarrow> pan \<Rightarrow> (outcome \<times> pan) option" where
  "start_child cf env colle i active p = do {
     (c_cmdline, cnt) \<leftarrow> subst_pcnt_f (own_pid cf) (pcnt_counter p) colle;
     let p = p\<lparr>pcnt_counter := cnt\<rparr>;
     if \<not> pipe_ok env then Some (Returned (-1), p)
     else do {
       let active = active\<lparr>tp_mystime := start_time env, tp_cmd := Some colle\<rparr>;
       let p = p\<lparr>running := (running p)[i := active]\<rparr>;
       p \<leftarrow> (if test_out_dir cf = None \<and> \<not> quiet_mode cf then write_test_start cf active p else Some p);
       if fork_pid env = -1 then Some (Returned (-1), p)
       else parent_side cf env colle i active p } }"

definition run_child ::
  "pan_conf \<Rightarrow> child_env \<Rightarrow> coll_entry \<Rightarrow> nat \<Rightarrow> pan \<Rightarrow> (outcome \<times> pan) option" where
  "run_child cf env colle i p =
     (case test_out_dir cf of
        None \<Rightarrow> start_child cf env colle i (running p ! i) p
      | Some dir \<Rightarrow> do {
          (e, n) \<leftarrow> open_output (open_errno env) (cmdno p);
          let active = (running p ! i)\<lparr>tp_output := dir @ ''/'' @ ce_name colle @ ''.'' @ show_nat n\<rparr>;
          let p = p\<lparr>cmdno := n + 1, running := (running p)[i := active]\<rparr>;
          if e \<noteq> 0 then Some (Returned (-1), p) else start_child cf env colle i active p })"

section \<open>The scheduler: main\<close>

definition init_starts :: "bool \<Rightarrow> bool \<Rightarrow> int \<Rightarrow> nat \<Rightarrow> nat \<Rightarrow> int" where
  "init_starts timed seq starts0 cnt ka =
     (if timed \<and> starts0 = -1 then -1
      else if starts0 = -1 then (if seq then int cnt else 1)
      else if starts0 = 0 then -1
      else if starts0 < int ka then int ka else starts0)"

text \<open>The driver's own entry, and the lines that it reserves with the pids \<open>0 \<dots> keep_active - 1\<close>.\<close>

fun zoo_each :: "(nat \<Rightarrow> zoo option \<Rightarrow> (int \<times> zoo option) option) \<Rightarrow> nat list \<Rightarrow> zoo option \<Rightarrow> (bool \<times> zoo option) option" where
  "zoo_each f [] z = Some (True, z)"
| "zoo_each f (c # cs) z = do { (r, z) \<leftarrow> f c z; if r \<noteq> 0 then Some (False, z) else zoo_each f cs z }"

definition zoo_reserve :: "pan_conf \<Rightarrow> string list \<Rightarrow> zoo option \<Rightarrow> (bool \<times> zoo option) option" where
  "zoo_reserve cf argv z = do {
     (r, z) \<leftarrow> zoo_mark_args z (own_pid cf) (panname cf) argv;
     if r \<noteq> 0 then Some (False, z)
     else do {
       (ok, z) \<leftarrow> zoo_each (\<lambda>c z. zoo_mark_cmdline z (int c) (panname cf) []) [0..<keep_active cf] z;
       if \<not> ok then Some (False, z)
       else zoo_each (\<lambda>c z. zoo_clear z (int c)) [0..<keep_active cf] z } }"

text \<open>The inner loop: start children while there are free slots. \<open>fe k\<close> is what the kernel answers to the
  \<open>k\<close>-th start.\<close>

definition after_start :: "pan_conf \<Rightarrow> nat \<Rightarrow> int \<Rightarrow> pan \<Rightarrow> pan" where
  "after_start cf cnt cpid p =
     (let p = (if cpid \<noteq> -1 then p\<lparr>num_active := num_active p + 1\<rparr> else p);
          p = (if (cpid \<noteq> -1 \<or> sequential cf) \<and> 0 < starts p then p\<lparr>starts := starts p - 1\<rparr> else p)
      in if sequential cf
         then p\<lparr>cmd_index := (if cnt \<le> cmd_index p + 1 then 0 else cmd_index p + 1)\<rparr> else p)"

definition can_launch :: "pan_conf \<Rightarrow> pan \<Rightarrow> bool" where
  "can_launch cf p \<longleftrightarrow>
     num_active p < int (keep_active cf) \<and> starts p \<noteq> 0 \<and> \<not> (stop p \<noteq> 0 \<or> rec_signal p \<noteq> 0 \<or> go_idle p \<noteq> 0)"

text \<open>One pass: \<open>Inl\<close> leaves the loop, \<open>Inr\<close> goes on.\<close>

definition launch_one ::
  "pan_conf \<Rightarrow> coll_entry list \<Rightarrow> child_env \<Rightarrow> pan \<Rightarrow> ((outcome \<times> pan) + pan) option" where
  "launch_one cf coll env p0 =
     (let p = (if sequential cf then p0
               else p0\<lparr>cmd_index := nat (fst (lrand48 (seed p0)) mod int (length coll)), seed := snd (lrand48 (seed p0))\<rparr>)
      in case find (\<lambda>i. tp_pgrp (running p ! i) = 0) [0..<keep_active cf] of
           None \<Rightarrow> Some (Inl (Returned 0, (wait_handler SIGINT p)\<lparr>exit_stat := exit_stat p + 1\<rparr>))
         | Some i \<Rightarrow> do {
             colle \<leftarrow> buf_get coll (cmd_index p);
             (o', p) \<leftarrow> run_child cf env colle i p;
             Some (case o' of
                Returned cpid \<Rightarrow> Inr (after_start cf (length coll) cpid p)
              | _ \<Rightarrow> Inl (o', p)) })"

partial_function (option) launch ::
  "pan_conf \<Rightarrow> coll_entry list \<Rightarrow> (nat \<Rightarrow> child_env) \<Rightarrow> nat \<Rightarrow> pan \<Rightarrow> (outcome \<times> pan) option" where
  "launch cf coll fe k p =
     (if can_launch cf p
      then do {
        r \<leftarrow> launch_one cf coll (fe k) p;
        (case r of Inl q \<Rightarrow> Some q | Inr p \<Rightarrow> launch cf coll fe (k + 1) p) }
      else Some (Returned 0, p))"

declare launch.simps [code]

text \<open>One iteration of the outer loop, in three parts; the signals of an iteration are handled at its start.\<close>

record iter_env =
  it_signals :: "int list"
  it_forks :: "nat \<Rightarrow> child_env"
  it_stop_file :: bool
  it_waits :: "nat \<Rightarrow> wait_answer"
  it_clock :: clock_vals
  it_output :: "int \<Rightarrow> string option"

definition handle_stop :: "bool \<Rightarrow> pan \<Rightarrow> pan" where
  "handle_stop stop_file p =
     (if starts p = 0 then p\<lparr>stop := stop p + 1\<rparr>
      else if starts p = -1 \<and> stop_file then p\<lparr>stop := stop p + 1\<rparr> else p)"

definition stop_or_idle :: "pan \<Rightarrow> pan" where
  "stop_or_idle p = (if fork_in_road p then p\<lparr>go_idle := go_idle p + 1\<rparr> else p\<lparr>stop := stop p + 1\<rparr>)"

definition handle_signal :: "pan \<Rightarrow> pan option" where
  "handle_signal p =
     (if rec_signal p = 0 then Some p
      else if rec_signal p = SIGUSR2 then Some ((stop_or_idle p)\<lparr>rec_signal := 0, send_signal := 0\<rparr>)
      else do {
        p \<leftarrow> propagate_signal (if rec_signal p = SIGUSR1 then p\<lparr>fork_in_road := False\<rparr> else p);
        Some (stop_or_idle p) })"

definition handle_err :: "pan_conf \<Rightarrow> int \<Rightarrow> pan \<Rightarrow> pan" where
  "handle_err cf err p =
     (if err = 0 then p
      else (let p = (if fork_in_road p then p\<lparr>go_idle := go_idle p + 1\<rparr> else p);
                p = (if track_exit_stats cf then p\<lparr>exit_stat := exit_stat p + 1\<rparr> else p)
            in if has_brakes cf then wait_handler SIGINT p else p))"

datatype loop_result = Continue | Break | Leave outcome

definition iterate :: "pan_conf \<Rightarrow> coll_entry list \<Rightarrow> iter_env \<Rightarrow> pan \<Rightarrow> (loop_result \<times> pan) option" where
  "iterate cf coll env p = do {
     (o', p) \<leftarrow> launch cf coll (it_forks env) 0 (fold wait_handler (it_signals env) p);
     (case o' of
        Returned _ \<Rightarrow> do {
          p \<leftarrow> handle_signal (handle_stop (it_stop_file env) p);
          (o', p) \<leftarrow> check_pids cf (it_waits env) (it_clock env) (it_output env) p;
          (case o' of
             Returned err \<Rightarrow>
               (let p = handle_err cf err p
                in Some (if stop p \<noteq> 0 \<and> num_active p = 0 then (Break, p)
                         else if go_idle p \<noteq> 0 \<and> num_active p = 0
                         then (Continue, wait_handler 0 (p\<lparr>go_idle := 0\<rparr>)) else (Continue, p)))
           | _ \<Rightarrow> Some (Leave o', p)) }
      | _ \<Rightarrow> Some (Leave o', p)) }"

text \<open>The states at the head of the outer loop.\<close>

inductive pan_reach :: "pan_conf \<Rightarrow> coll_entry list \<Rightarrow> (iter_env \<Rightarrow> pan \<Rightarrow> bool) \<Rightarrow> pan \<Rightarrow> pan \<Rightarrow> bool"
  for cf coll ok p0 where
  start: "pan_reach cf coll ok p0 p0"
| step: "pan_reach cf coll ok p0 p \<Longrightarrow> ok env p \<Longrightarrow> iterate cf coll env p = Some (Continue, p') \<Longrightarrow>
    pan_reach cf coll ok p0 p'"

text \<open>Waiting for the orphans: one round signals all of them.\<close>

partial_function (option) orphan_wait :: "pan \<Rightarrow> pan option" where
  "orphan_wait p =
     (if \<forall>orph \<in> set (orphans p). orph = 0 then Some p
      else do {
        p \<leftarrow> propagate_signal (if rec_signal p = 0 then wait_handler SIGINT p else p);
        orphan_wait p })"

declare orphan_wait.simps [code]

definition pan_end :: "pan_conf \<Rightarrow> pan \<Rightarrow> (outcome \<times> pan) option" where
  "pan_end cf p = do {
     p \<leftarrow> orphan_wait p;
     (r, z) \<leftarrow> zoo_clear (zoofile p) (own_pid cf);
     let p = p\<lparr>zoofile := z, exit_stat := (if r \<noteq> 0 then exit_stat p + 1 else exit_stat p)\<rparr>;
     Some (Exit_with (int (exit_stat p)), p) }"

end
