(* ===== verification/Pan_Props.thy ===== *)
theory Pan_Props
  imports Pan
begin

text \<open>
  What the driver guarantees. The invariant of its state ties the slots to the counter \<open>num_active\<close>
  and to the zoo file: the file holds the driver itself, every running test and every orphaned group,
  and nothing else. The zoo file enters through the facts of the interpretation \<open>zoo\<close> only.
\<close>

section \<open>The invariant\<close>

definition entry_clean :: "coll_entry \<Rightarrow> bool" where
  "entry_clean e \<longleftrightarrow> {LF, CHR 0x00} \<inter> (set (ce_name e) \<union> set (ce_cmdline e)) = {} \<and>
     log_name (ce_name e) \<noteq> None \<and> case_timeout (ce_name e) \<noteq> None"

definition slot_ok :: "tag_pgrp \<Rightarrow> bool" where
  "slot_ok s \<longleftrightarrow>
     (tp_pgrp s = 0 \<or> 0 < tp_pgrp s \<and> int_fits 32 (tp_pgrp s) \<and> tp_cmd s \<noteq> None) \<and>
     (\<forall>e. tp_cmd s = Some e \<longrightarrow> entry_clean e)"

definition pids_of :: "tag_pgrp list \<Rightarrow> int list" where
  "pids_of ss = filter (\<lambda>x. x \<noteq> 0) (map tp_pgrp ss)"

definition zoo_holds :: "zoo option \<Rightarrow> int multiset \<Rightarrow> bool" where
  "zoo_holds zf m \<longleftrightarrow> (\<exists>z. zf = Some z \<and> zoo_inv z \<and> zoo_pids z = m)"

definition pan_inv :: "pan_conf \<Rightarrow> pan \<Rightarrow> bool" where
  "pan_inv cf p \<longleftrightarrow>
     length (running p) = keep_active cf \<and>
     num_active p = int (length (pids_of (running p))) \<and>
     orphans p \<noteq> [] \<and>
     (\<forall>s \<in> set (running p). slot_ok s) \<and>
     (pids_of (running p) \<noteq> [] \<longrightarrow> tp_cmd (hd (running p)) \<noteq> None) \<and>
     zoo_holds (zoofile p)
       (add_mset (own_pid cf) (mset (pids_of (running p)) + mset (filter (\<lambda>x. x \<noteq> 0) (orphans p))))"

lemma pan_inv_bound: "pan_inv cf p \<Longrightarrow> 0 \<le> num_active p \<and> num_active p \<le> int (keep_active cf)"
  by (auto simp: pan_inv_def pids_of_def intro: order_trans [OF length_filter_le])

lemma zoo_holds_mark:
  "zoo_holds z m \<Longrightarrow> entry_ok q tag cmd \<Longrightarrow>
   \<exists>z'. zoo_mark_cmdline z q tag cmd = Some (0, z') \<and> zoo_holds z' (add_mset q m)"
  using zoo.mark_law by (fastforce simp: zoo_holds_def)

lemma zoo_holds_clear:
  "zoo_holds z m \<Longrightarrow> \<exists>z'. zoo_clear z q = Some (if q \<in># m then 0 else 1, z') \<and> zoo_holds z' (m - {#q#})"
proof -
  assume "zoo_holds z m"
  then obtain f where f: "z = Some f" "zoo_inv f" "zoo_pids f = m" by (auto simp: zoo_holds_def)
  from zoo.clear_law [OF f(2), of q] f show ?thesis by (fastforce simp: zoo_holds_def)
qed

text \<open>What the invariant depends on.\<close>

definition frame :: "pan \<Rightarrow> pan \<Rightarrow> bool" where
  "frame p p' \<longleftrightarrow> running p' = running p \<and> num_active p' = num_active p \<and> orphans p' = orphans p \<and> zoofile p' = zoofile p \<and> cmd_index p' = cmd_index p"

lemma frame_inv: "frame p p' \<Longrightarrow> pan_inv cf p' = pan_inv cf p"
  by (simp add: frame_def pan_inv_def)

section \<open>Orphans and signals\<close>

lemma check_orphan_list_inv:
  assumes "zoo_holds (zoofile p) (m + mset (filter (\<lambda>x. x \<noteq> 0) os))"
  shows "\<exists>os' z ks. check_orphan_list os sig p = Some (os', p\<lparr>zoofile := z, kills := ks\<rparr>) \<and>
    length os' = length os \<and> zoo_holds z (m + mset (filter (\<lambda>x. x \<noteq> 0) os'))"
  using assms
proof (induction os arbitrary: p m)
  case Nil
  have "p = p\<lparr>zoofile := zoofile p, kills := kills p\<rparr>" by simp
  with Nil show ?case by (metis check_orphan_list.simps(1))
next
  case (Cons orph os)
  show ?case
  proof (cases "orph = 0")
    case True
    with Cons.IH [of p m] Cons.prems show ?thesis by fastforce
  next
    case False
    define p1 where "p1 = p\<lparr>kills := kills p @ [(- orph, sig)]\<rparr>"
    have kill: "do_kill (- orph) sig p = (kill_errno p (length (kills p)), p1)"
      by (simp add: do_kill_def p1_def)
    show ?thesis
    proof (cases "kill_errno p (length (kills p)) = ESRCH")
      case dead: True
      from zoo_holds_clear [OF Cons.prems, of orph] False obtain z where z:
        "zoo_clear (zoofile p) orph = Some (0, z)" "zoo_holds z (m + mset (filter (\<lambda>x. x \<noteq> 0) os))" by auto
      from Cons.IH [of "p1\<lparr>zoofile := z\<rparr>" m] z(2) obtain os' z' ks where
        "check_orphan_list os sig (p1\<lparr>zoofile := z\<rparr>) = Some (os', p1\<lparr>zoofile := z', kills := ks\<rparr>)"
        "length os' = length os" "zoo_holds z' (m + mset (filter (\<lambda>x. x \<noteq> 0) os'))" by (auto simp: p1_def)
      with dead z(1) kill False show ?thesis by (simp add: p1_def) blast
    next
      case alive: False
      from Cons.IH [of p1 "add_mset orph m"] Cons.prems False obtain os' z' ks where
        "check_orphan_list os sig p1 = Some (os', p1\<lparr>zoofile := z', kills := ks\<rparr>)"
        "length os' = length os" "zoo_holds z' (add_mset orph m + mset (filter (\<lambda>x. x \<noteq> 0) os'))" by (auto simp: p1_def)
      with alive kill False show ?thesis by (simp add: p1_def) blast
    qed
  qed
qed

lemma check_orphans_inv:
  assumes "pan_inv cf p"
  shows "\<exists>os z ks. check_orphans sig p = Some (p\<lparr>zoofile := z, kills := ks, orphans := os\<rparr>) \<and>
    pan_inv cf (p\<lparr>zoofile := z, kills := ks, orphans := os\<rparr>)"
proof -
  let ?m = "add_mset (own_pid cf) (mset (pids_of (running p)))"
  have "zoo_holds (zoofile p) (?m + mset (filter (\<lambda>x. x \<noteq> 0) (orphans p)))"
    using assms by (simp add: pan_inv_def)
  from check_orphan_list_inv [OF this, of sig] obtain os z ks where
    "check_orphan_list (orphans p) sig p = Some (os, p\<lparr>zoofile := z, kills := ks\<rparr>)"
    "length os = length (orphans p)" "zoo_holds z (?m + mset (filter (\<lambda>x. x \<noteq> 0) os))" by blast
  with assms show ?thesis by (intro exI [of _ os] exI [of _ z] exI [of _ ks]) (auto simp: check_orphans_def pan_inv_def)
qed

lemma mark_orphan_mset:
  "os \<noteq> [] \<Longrightarrow> q \<noteq> 0 \<Longrightarrow>
   mset (filter (\<lambda>x. x \<noteq> 0) (mark_orphan os q)) = add_mset q (mset (filter (\<lambda>x. x \<noteq> 0) os))"
proof -
  assume os: "os \<noteq> []" "q \<noteq> 0"
  show ?thesis
  proof (cases "0 \<in> set os")
    case True
    then obtain a b where ab: "os = a @ 0 # b" "0 \<notin> set a" by (meson split_list_first)
    then have "\<And>x. x \<in> set a \<Longrightarrow> x \<noteq> 0" by auto
    with ab have "takeWhile (\<lambda>x. x \<noteq> 0) os = a" "dropWhile (\<lambda>x. x \<noteq> 0) os = 0 # b"
      by (simp_all add: takeWhile_append2 dropWhile_append2)
    with ab os show ?thesis by (simp add: mark_orphan_def)
  next
    case False
    with os show ?thesis by (cases os) (auto simp: mark_orphan_def)
  qed
qed

lemma signal_slots_frame:
  "\<exists>ks. signal_slots ss p = (map (\<lambda>s. if tp_pgrp s = 0 then s else s\<lparr>tp_stopping := True\<rparr>) ss, p\<lparr>kills := kills p @ ks\<rparr>) \<and>
    ks = map (\<lambda>q. (- q, send_signal p)) (pids_of ss)"
proof (induction ss arbitrary: p)
  case (Cons s ss)
  show ?case
    using Cons [of p] Cons [of "p\<lparr>kills := kills p @ [(- tp_pgrp s, send_signal p)]\<rparr>"]
    by (auto simp: do_kill_def pids_of_def)
qed (simp add: pids_of_def)

lemma pids_of_stopping:
  "pids_of (map (\<lambda>s. if tp_pgrp s = 0 then s else s\<lparr>tp_stopping := True\<rparr>) ss) = pids_of ss"
  by (induction ss) (auto simp: pids_of_def)

lemma stopping_hd:
  "ss \<noteq> [] \<Longrightarrow> tp_cmd (hd (map (\<lambda>s. if tp_pgrp s = 0 then s else s\<lparr>tp_stopping := True\<rparr>) ss)) = tp_cmd (hd ss)"
  by (cases ss) auto

lemma stopping_ok: "slot_ok (if tp_pgrp s = 0 then s else s\<lparr>tp_stopping := True\<rparr>) = slot_ok s"
  by (auto simp: slot_ok_def)

lemma stopping_all_ok:
  "\<forall>s \<in> set ss. slot_ok s \<Longrightarrow> \<forall>s \<in> set (map (\<lambda>s. if tp_pgrp s = 0 then s else s\<lparr>tp_stopping := True\<rparr>) ss). slot_ok s"
  by (simp only: set_map ball_simps stopping_ok)

lemma propagate_signal_inv:
  assumes "pan_inv cf p"
  shows "\<exists>p'. propagate_signal p = Some p' \<and> pan_inv cf p' \<and> num_active p' = num_active p"
proof -
  define p1 where "p1 = (if rec_signal p = SIGALRM then p\<lparr>rec_signal := SIGTERM\<rparr> else p)"
  obtain ks where sl: "signal_slots (running p1) p1 =
      (map (\<lambda>s. if tp_pgrp s = 0 then s else s\<lparr>tp_stopping := True\<rparr>) (running p1), p1\<lparr>kills := ks\<rparr>)"
    using signal_slots_frame by blast
  define p2 where "p2 = p1\<lparr>kills := ks, running := map (\<lambda>s. if tp_pgrp s = 0 then s else s\<lparr>tp_stopping := True\<rparr>) (running p1)\<rparr>"
  have "running p \<noteq> []" if "pids_of (running p) \<noteq> []" using that by (auto simp: pids_of_def)
  then have "pan_inv cf p2" using assms stopping_hd [of "running p"]
      stopping_all_ok [of "running p"]
    by (simp add: pan_inv_def p2_def p1_def pids_of_stopping del: set_map)
  from check_orphans_inv [OF this, of "send_signal p1"] obtain os z ks' where
    co: "check_orphans (send_signal p1) p2 = Some (p2\<lparr>zoofile := z, kills := ks', orphans := os\<rparr>)"
    "pan_inv cf (p2\<lparr>zoofile := z, kills := ks', orphans := os\<rparr>)" by blast
  then have "propagate_signal p = Some (p2\<lparr>zoofile := z, kills := ks', orphans := os, rec_signal := 0, send_signal := 0\<rparr>)"
    using sl by (simp add: propagate_signal_def p1_def [symmetric] p2_def Let_def)
  moreover have "pan_inv cf (p2\<lparr>zoofile := z, kills := ks', orphans := os, rec_signal := 0, send_signal := 0\<rparr>)"
    using co(2) by (simp add: pan_inv_def)
  ultimately show ?thesis by (auto simp: p2_def p1_def)
qed

section \<open>Reaping\<close>

lemma pids_of_update:
  assumes "i < length ss"
  shows "mset (pids_of (ss[i := s'])) + (if tp_pgrp (ss ! i) = 0 then {#} else {#tp_pgrp (ss ! i)#}) =
    mset (pids_of ss) + (if tp_pgrp s' = 0 then {#} else {#tp_pgrp s'#})"
proof -
  have "ss = take i ss @ ss ! i # drop (Suc i) ss" using assms by (rule id_take_nth_drop)
  then have "pids_of ss = pids_of (take i ss @ ss ! i # drop (Suc i) ss)" by simp
  moreover have "ss[i := s'] = take i ss @ s' # drop (Suc i) ss" using assms by (rule upd_conv_take_nth_drop)
  ultimately show ?thesis by (simp add: pids_of_def)
qed

lemma log_end_frame:
  assumes "tp_cmd s \<noteq> None" "tp_cmd (hd (running p)) = Some e0" "log_name (ce_name e0) \<noteq> None"
  shows "\<exists>p'. log_end cf clk stat s w st p = Some p' \<and> frame p p'"
  using assms by (auto simp: log_end_def entry_name_def frame_def)

lemma report_end_frame:
  assumes "tp_cmd s \<noteq> None" "out \<noteq> Some []"
  shows "\<exists>p'. report_end cf clk out stat s w st p = Some p' \<and> frame p p'"
proof -
  obtain e where e: "tp_cmd s = Some e" using assms(1) by auto
  obtain o' where o': "copy_buffered_output out = Some o'"
    using assms(2) by (cases out) (simp_all add: copy_buffered_output_def)
  show ?thesis using e o'
    by (cases "test_out_dir cf"; cases "quiet_mode cf"; cases "rts cf")
      (simp_all add: report_end_def write_test_start_def write_test_end_def frame_def Let_def)
qed

lemma find_slot:
  assumes "find (\<lambda>i. P (xs ! i)) [0..<n] = Some i"
  shows "i < n" "P (xs ! i)" "\<forall>j < i. \<not> P (xs ! j)"
  using assms by (auto simp: find_Some_iff)

lemma orphan_check_inv:
  assumes "pan_inv cf p" "0 < cpid" "int_fits 32 cpid" "tp_cmd s = Some e" "entry_clean e"
  shows "\<exists>p'. orphan_check s cpid p = Some (True, p') \<and> pan_inv cf p' \<and>
    running p' = running p \<and> num_active p' = num_active p \<and> cmd_index p' = cmd_index p"
proof -
  define p1 where "p1 = p\<lparr>kills := kills p @ [(- cpid, 0)]\<rparr>"
  have kill: "do_kill (- cpid) 0 p = (kill_errno p (length (kills p)), p1)" by (simp add: do_kill_def p1_def)
  have inv1: "pan_inv cf p1" using assms(1) by (simp add: pan_inv_def p1_def)
  show ?thesis
  proof (cases "kill_errno p (length (kills p)) = 0 \<or> kill_errno p (length (kills p)) = EPERM")
    case True
    have ok: "entry_ok cpid ''panorphan'' (ce_cmdline e)"
      using assms(3,5) by (auto simp: entry_ok_def entry_clean_def)
    from inv1 have zh: "zoo_holds (zoofile p1)
       (add_mset (own_pid cf) (mset (pids_of (running p1)) + mset (filter (\<lambda>x. x \<noteq> 0) (orphans p1))))"
      by (simp add: pan_inv_def)
    from zoo_holds_mark [OF zh ok] obtain z where
      z: "zoo_mark_cmdline (zoofile p1) cpid ''panorphan'' (ce_cmdline e) = Some (0, z)"
      "zoo_holds z (add_mset cpid (add_mset (own_pid cf) (mset (pids_of (running p1)) + mset (filter (\<lambda>x. x \<noteq> 0) (orphans p1)))))"
      by blast
    define p2 where "p2 = snd (do_kill (- cpid) SIGTERM (p1\<lparr>zoofile := z, orphans := mark_orphan (orphans p1) cpid\<rparr>))"
    have "orphan_check s cpid p = Some (True, p2)"
      using True kill z(1) assms(4) by (simp add: orphan_check_def entry_cmdline_def p2_def)
    moreover have "orphans p \<noteq> []" using assms(1) by (simp add: pan_inv_def)
    then have "mark_orphan (orphans p) cpid \<noteq> []" by (simp add: mark_orphan_def)
    with inv1 z(2) mark_orphan_mset [OF \<open>orphans p \<noteq> []\<close>, of cpid] assms(2) have "pan_inv cf p2"
      by (auto simp: pan_inv_def p2_def do_kill_def p1_def add_mset_commute)
    ultimately show ?thesis by (auto simp: p2_def p1_def do_kill_def)
  next
    case False
    with kill inv1 show ?thesis by (auto simp: orphan_check_def p1_def)
  qed
qed

text \<open>The verdict on a child: what \<open>check_pids\<close> returns for it.\<close>

definition verdict :: "nat \<Rightarrow> bool \<Rightarrow> int" where
  "verdict stat stopping =
     (if WIFSIGNALED stat then (if stopping then 0 else 1)
      else if WEXITSTATUS stat = 0 \<or> WEXITSTATUS stat = 130 \<and> stopping then 0 else 1)"

lemma reap_inv:
  assumes inv: "pan_inv cf p" and cpid: "cpid \<in> set (pids_of (running p))"
    and stat: "WIFSIGNALED stat \<or> WIFEXITED stat" and out: "out \<noteq> Some []"
  shows "\<exists>p' i. reap cf clk out cpid stat p = Some (Returned (verdict stat (tp_stopping (running p ! i))), p') \<and>
    pan_inv cf p' \<and> num_active p' = num_active p - 1 \<and> cmd_index p' = cmd_index p \<and> i < keep_active cf \<and> tp_pgrp (running p ! i) = cpid"
proof -
  obtain w st sig ret where dec: "wait_decode stat = (w, st, sig, ret, True)"
    using stat by (cases "WIFSIGNALED stat") (simp_all add: wait_decode_def)
  define p1 where "p1 = p\<lparr>num_active := num_active p - 1\<rparr>"
  have "\<exists>i < length (running p). tp_pgrp (running p ! i) = cpid"
    using cpid by (auto simp: pids_of_def in_set_conv_nth)
  then obtain i where i: "find (\<lambda>i. tp_pgrp (running p ! i) = cpid) [0..<length (running p)] = Some i"
    by (cases "find (\<lambda>i. tp_pgrp (running p ! i) = cpid) [0..<length (running p)]") (auto simp: find_None_iff)
  define s where "s = running p ! i"
  have idx: "i < length (running p)" "tp_pgrp s = cpid"
    using find_slot [where P = "\<lambda>s. tp_pgrp s = cpid", OF i] by (auto simp: s_def)
  have "cpid \<noteq> 0" using cpid by (auto simp: pids_of_def)
  moreover have "slot_ok s" using inv idx(1) by (auto simp: pan_inv_def s_def)
  ultimately obtain e where s: "0 < cpid" "int_fits 32 cpid" "tp_cmd s = Some e" "entry_clean e"
    using idx(2) by (auto simp: slot_ok_def)
  have "tp_cmd (hd (running p)) \<noteq> None" "\<forall>s \<in> set (running p). slot_ok s" "running p \<noteq> []"
    using inv cpid idx(1) by (auto simp: pan_inv_def)
  then obtain e0 where e0: "tp_cmd (hd (running p)) = Some e0" "log_name (ce_name e0) \<noteq> None"
    by (metis list.set_sel(1) slot_ok_def entry_clean_def not_None_eq)
  define w' where "w' = (if exit_130 s w st then 0 else w)"
  define ret' where "ret' = (if exit_130 s w st then ret - 1 else ret)"
  obtain p2 where le: "log_end cf clk stat s w' st p1 = Some p2" and f2: "frame p1 p2"
    using log_end_frame [of s p1 e0 cf clk stat w' st] s e0 by (auto simp: p1_def)
  obtain p3' where re: "report_end cf clk out stat s w' st p2 = Some p3'" and f3: "frame p2 p3'"
    using report_end_frame [of s out] s out by blast
  define p3 where "p3 = p3'\<lparr>running := (running p)[i := s\<lparr>tp_pgrp := 0\<rparr>]\<rparr>"
  have core: "running p3' = running p" "num_active p3' = num_active p - 1" "orphans p3' = orphans p" "zoofile p3' = zoofile p"
    "cmd_index p3' = cmd_index p"
    using f2 f3 by (simp_all add: frame_def p1_def)
  let ?m = "add_mset (own_pid cf) (mset (pids_of (running p)) + mset (filter (\<lambda>x. x \<noteq> 0) (orphans p)))"
  have zh: "zoo_holds (zoofile p) ?m" using inv by (simp add: pan_inv_def)
  have "cpid \<in># ?m" using cpid by simp
  with zoo_holds_clear [OF zh, of cpid] obtain z where
    z: "zoo_clear (zoofile p) cpid = Some (0, z)" "zoo_holds z (?m - {#cpid#})" by auto
  have pids: "mset (pids_of ((running p)[i := s\<lparr>tp_pgrp := 0\<rparr>])) + {#cpid#} = mset (pids_of (running p))"
    using pids_of_update [OF idx(1), of "s\<lparr>tp_pgrp := 0\<rparr>"] idx(2) \<open>cpid \<noteq> 0\<close> by (simp add: s_def)
  have inv4: "pan_inv cf (p3\<lparr>zoofile := z\<rparr>)"
  proof -
    have "?m - {#cpid#} = add_mset (own_pid cf) (mset (pids_of ((running p)[i := s\<lparr>tp_pgrp := 0\<rparr>])) + mset (filter (\<lambda>x. x \<noteq> 0) (orphans p)))"
      unfolding pids [symmetric] by simp
    moreover have "length (pids_of (running p)) = Suc (length (pids_of ((running p)[i := s\<lparr>tp_pgrp := 0\<rparr>])))"
      using pids by (metis size_mset size_add_mset add_mset_add_single)
    moreover have "slot_ok (s\<lparr>tp_pgrp := 0\<rparr>)" using \<open>slot_ok s\<close> by (simp add: slot_ok_def)
    then have "\<forall>x \<in> set ((running p)[i := s\<lparr>tp_pgrp := 0\<rparr>]). slot_ok x"
      using inv by (auto simp: pan_inv_def dest!: set_update_subset_insert [THEN subsetD])
    moreover have "tp_cmd (hd ((running p)[i := s\<lparr>tp_pgrp := 0\<rparr>])) \<noteq> None"
      using e0 s(3) idx(1) by (cases "running p"; cases i) (auto simp: s_def)
    ultimately show ?thesis using inv z(2) by (simp add: pan_inv_def p3_def core)
  qed
  from orphan_check_inv [OF inv4 s(1-4)] obtain p5 where
    p5: "orphan_check s cpid (p3\<lparr>zoofile := z\<rparr>) = Some (True, p5)" "pan_inv cf p5" "num_active p5 = num_active p3" "cmd_index p5 = cmd_index p3" by auto
  have ver: "(if sig \<and> \<not> tp_stopping s then ret' + 1 else ret') = verdict stat (tp_stopping s)"
    using dec stat by (auto simp: ret'_def verdict_def exit_130_def wait_decode_def split: if_splits)
  have "reap cf clk out cpid stat p = Some (Returned (verdict stat (tp_stopping s)), p5)"
  proof -
    have z': "zoo_clear (zoofile p3') cpid = Some (0, z)" using z(1) by (simp add: core)
    have p5': "orphan_check s cpid (p3'\<lparr>running := (running p)[i := s\<lparr>tp_pgrp := 0\<rparr>], zoofile := z\<rparr>) = Some (True, p5)"
      using p5(1) by (simp add: p3_def)
    show ?thesis using le re i z' p5' unfolding ver [symmetric] p1_def w'_def ret'_def
      by (cases "exit_130 s w st") (simp_all add: reap_def dec Let_def s_def [symmetric] core)
  qed
  with p5 idx show ?thesis using inv
    by (intro exI [of _ p5] exI [of _ i]) (auto simp: s_def p3_def core pan_inv_def)
qed

section \<open>Starting\<close>

text \<open>What scheduling depends on besides the slots.\<close>

definition sched :: "pan \<Rightarrow> int \<times> int \<times> nat \<times> nat \<times> int \<times> nat \<times> bool" where
  "sched p = (num_active p, starts p, stop p, go_idle p, rec_signal p, cmd_index p, fork_in_road p)"

definition child_ok :: "child_env \<Rightarrow> bool" where
  "child_ok env \<longleftrightarrow> fork_pid env = -1 \<or> 0 < fork_pid env \<and> int_fits 32 (fork_pid env)"

text \<open>Writing into a free slot.\<close>

lemma pan_inv_slot:
  assumes "pan_inv cf p" "i < keep_active cf" "tp_pgrp (running p ! i) = 0" "slot_ok s" "tp_pgrp s = 0"
    "tp_cmd (running p ! i) \<noteq> None \<longrightarrow> tp_cmd s \<noteq> None"
    "running p' = (running p)[i := s]" "num_active p' = num_active p" "orphans p' = orphans p" "zoofile p' = zoofile p"
  shows "pan_inv cf p'"
proof -
  have i: "i < length (running p)" using assms(1,2) by (simp add: pan_inv_def)
  have "mset (pids_of ((running p)[i := s])) = mset (pids_of (running p))"
    using pids_of_update [OF i, of s] assms(3,5) by simp
  moreover from this have "length (pids_of ((running p)[i := s])) = length (pids_of (running p))"
    "pids_of ((running p)[i := s]) = [] \<longleftrightarrow> pids_of (running p) = []"
    by (metis size_mset, metis mset_zero_iff)
  moreover have "\<forall>x \<in> set ((running p)[i := s]). slot_ok x"
    using assms(1,4) by (auto simp: pan_inv_def dest!: set_update_subset_insert [THEN subsetD])
  moreover have "tp_cmd (hd ((running p)[i := s])) \<noteq> None" if "tp_cmd (hd (running p)) \<noteq> None"
    using that assms(6) i by (cases "running p"; cases i) auto
  ultimately show ?thesis using assms(1,7-10) by (simp add: pan_inv_def)
qed

lemma pan_inv_start:
  assumes "pan_inv cf p" "i < keep_active cf" "tp_pgrp (running p ! i) = 0" "\<forall>j < i. tp_pgrp (running p ! j) \<noteq> 0"
    "slot_ok s" "0 < tp_pgrp s" "tp_cmd s = Some e"
    "running p' = (running p)[i := s]" "num_active p' = num_active p + 1" "orphans p' = orphans p"
    "zoo_holds (zoofile p') (add_mset (tp_pgrp s) (add_mset (own_pid cf) (mset (pids_of (running p)) + mset (filter (\<lambda>x. x \<noteq> 0) (orphans p)))))"
  shows "pan_inv cf p'"
proof -
  have i: "i < length (running p)" using assms(1,2) by (simp add: pan_inv_def)
  have m: "mset (pids_of ((running p)[i := s])) = add_mset (tp_pgrp s) (mset (pids_of (running p)))"
    using pids_of_update [OF i, of s] assms(3,6) by simp
  then have "length (pids_of ((running p)[i := s])) = Suc (length (pids_of (running p)))"
    by (metis size_mset size_add_mset)
  moreover have "\<forall>x \<in> set ((running p)[i := s]). slot_ok x"
    using assms(1,5) by (auto simp: pan_inv_def dest!: set_update_subset_insert [THEN subsetD])
  moreover have "tp_cmd (hd ((running p)[i := s])) \<noteq> None"
  proof (cases i)
    case 0
    with i assms(7) show ?thesis by (cases "running p") auto
  next
    case (Suc j)
    then have "tp_pgrp (running p ! 0) \<noteq> 0" using assms(4) by simp
    then have "pids_of (running p) \<noteq> []" using i by (cases "running p") (auto simp: pids_of_def)
    then have "tp_cmd (hd (running p)) \<noteq> None" using assms(1) by (simp add: pan_inv_def)
    with Suc i show ?thesis by (cases "running p") auto
  qed
  ultimately show ?thesis using assms(1,8-11) m by (simp add: pan_inv_def add_mset_commute)
qed

text \<open>The three parts of \<open>run_child\<close>: each returns and keeps the invariant, where a started child is not yet
  counted.\<close>

definition started :: "pan_conf \<Rightarrow> pan \<Rightarrow> outcome \<Rightarrow> pan \<Rightarrow> bool" where
  "started cf p o' p' \<longleftrightarrow> (\<exists>cpid. o' = Returned cpid \<and> sched p' = sched p \<and>
     pan_inv cf (if cpid \<noteq> -1 then p'\<lparr>num_active := num_active p' + 1\<rparr> else p'))"

lemma parent_side_inv:
  assumes inv: "pan_inv cf p" and i: "i < keep_active cf" "tp_pgrp (running p ! i) = 0" "\<forall>j < i. tp_pgrp (running p ! j) \<noteq> 0"
    and ok: "child_ok env" "entry_clean colle" "fork_pid env \<noteq> -1" and a: "tp_cmd a = Some colle"
  shows "\<exists>o' p'. parent_side cf env colle i a p = Some (o', p') \<and> started cf p o' p'"
proof (cases "exec_error env")
  case (Some es)
  have "frame p (exec_failed cf colle a eb st t p)" "sched (exec_failed cf colle a eb st t p) = sched p" for eb st t
    by (auto simp: exec_failed_def write_test_end_def frame_def sched_def split: prod.splits)
  moreover from this(1) have "pan_inv cf (exec_failed cf colle a eb st t p)" for eb st t
    using inv frame_inv by blast
  ultimately show ?thesis using Some by (cases es) (auto simp: parent_side_def started_def)
next
  case None
  have "entry_ok (fork_pid env) (ce_name colle) (ce_cmdline colle)"
    using ok by (auto simp: entry_ok_def child_ok_def entry_clean_def)
  moreover have "zoo_holds (zoofile p) (add_mset (own_pid cf) (mset (pids_of (running p)) + mset (filter (\<lambda>x. x \<noteq> 0) (orphans p))))"
    using inv by (simp add: pan_inv_def)
  ultimately obtain z where z: "zoo_mark_cmdline (zoofile p) (fork_pid env) (ce_name colle) (ce_cmdline colle) = Some (0, z)"
    "zoo_holds z (add_mset (fork_pid env) (add_mset (own_pid cf) (mset (pids_of (running p)) + mset (filter (\<lambda>x. x \<noteq> 0) (orphans p)))))"
    using zoo_holds_mark by blast
  define s where "s = a\<lparr>tp_pgrp := fork_pid env, tp_stopping := False\<rparr>"
  have s: "slot_ok s" "0 < tp_pgrp s" "tp_cmd s = Some colle" "tp_pgrp s = fork_pid env"
    using ok a by (auto simp: s_def slot_ok_def child_ok_def)
  define p' where "p' = p\<lparr>running := (running p)[i := s], zoofile := z\<rparr>"
  have "pan_inv cf (p'\<lparr>num_active := num_active p' + 1\<rparr>)"
    by (rule pan_inv_start [OF inv i s(1-3)]) (use z(2) s(4) in \<open>simp_all add: p'_def\<close>)
  moreover have "parent_side cf env colle i a p = Some (Returned (fork_pid env), p')"
    using None z(1) by (simp add: parent_side_def p'_def s_def)
  ultimately show ?thesis using ok(3) by (auto simp: started_def p'_def sched_def)
qed

lemma start_child_inv:
  assumes inv: "pan_inv cf p" and i: "i < keep_active cf" "tp_pgrp (running p ! i) = 0" "\<forall>j < i. tp_pgrp (running p ! j) \<noteq> 0"
    and ok: "child_ok env" "entry_clean colle" "subst_pcnt_f (own_pid cf) (pcnt_counter p) colle \<noteq> None"
    and a: "tp_pgrp a = 0"
  shows "\<exists>o' p'. start_child cf env colle i a p = Some (o', p') \<and> started cf p o' p'"
proof -
  obtain cl cnt where sub: "subst_pcnt_f (own_pid cf) (pcnt_counter p) colle = Some (cl, cnt)" using ok(3) by auto
  define a1 where "a1 = a\<lparr>tp_mystime := start_time env, tp_cmd := Some colle\<rparr>"
  have a1: "slot_ok a1" "tp_pgrp a1 = 0" "tp_cmd a1 = Some colle" using a ok(2) by (simp_all add: a1_def slot_ok_def)
  have len: "i < length (running p)" using inv i(1) by (simp add: pan_inv_def)
  define p1 where "p1 = p\<lparr>pcnt_counter := cnt\<rparr>"
  define p2 where "p2 = p1\<lparr>running := (running p)[i := a1]\<rparr>"
  obtain p3 where ws: "(if test_out_dir cf = None \<and> \<not> quiet_mode cf then write_test_start cf a1 p2 else Some p2) = Some p3"
    and f3: "frame p2 p3" "sched p3 = sched p2"
    using a1(3) by (cases "test_out_dir cf = None \<and> \<not> quiet_mode cf"; cases "rts cf")
      (auto simp: write_test_start_def frame_def sched_def)
  have p1: "pan_inv cf p1" "sched p1 = sched p" using inv by (auto simp: p1_def pan_inv_def sched_def)
  have "pan_inv cf p2" by (rule pan_inv_slot [OF inv i(1,2) a1(1,2)]) (simp_all add: p2_def p1_def a1_def)
  then have p3: "pan_inv cf p3" "sched p3 = sched p" using f3 p1(2) frame_inv by (auto simp: p2_def sched_def)
  have run: "start_child cf env colle i a p =
      (if \<not> pipe_ok env then Some (Returned (-1), p1)
       else if fork_pid env = -1 then Some (Returned (-1), p3) else parent_side cf env colle i a1 p3)"
    using sub ws by (cases "test_out_dir cf"; cases "quiet_mode cf")
      (simp_all add: start_child_def p1_def p2_def a1_def Let_def)
  have r3: "running p3 = (running p)[i := a1]" using f3(1) by (simp add: frame_def p2_def p1_def)
  have "\<exists>o' p'. parent_side cf env colle i a1 p3 = Some (o', p') \<and> started cf p3 o' p'" if "fork_pid env \<noteq> -1"
    by (rule parent_side_inv [OF p3(1) i(1) _ _ ok(1,2) that a1(3)])
      (use i(3) a1(2) len in \<open>simp_all add: r3\<close>)
  with run p1 p3 show ?thesis by (auto simp: started_def)
qed

lemma run_child_inv:
  assumes inv: "pan_inv cf p" and i: "i < keep_active cf" "tp_pgrp (running p ! i) = 0" "\<forall>j < i. tp_pgrp (running p ! j) \<noteq> 0"
    and ok: "child_ok env" "entry_clean colle" "\<And>c. subst_pcnt_f (own_pid cf) c colle \<noteq> None"
    and op: "test_out_dir cf \<noteq> None \<longrightarrow> open_output (open_errno env) (cmdno p) \<noteq> None"
  shows "\<exists>o' p'. run_child cf env colle i p = Some (o', p') \<and> started cf p o' p'"
proof (cases "test_out_dir cf")
  case None
  with start_child_inv [OF inv i ok i(2)] show ?thesis by (simp add: run_child_def)
next
  case (Some dir)
  obtain e n where en: "open_output (open_errno env) (cmdno p) = Some (e, n)" using op Some by auto
  define a where "a = (running p ! i)\<lparr>tp_output := dir @ ''/'' @ ce_name colle @ ''.'' @ show_nat n\<rparr>"
  define p1 where "p1 = p\<lparr>cmdno := n + 1, running := (running p)[i := a]\<rparr>"
  have len: "i < length (running p)" using inv i(1) by (simp add: pan_inv_def)
  then have a: "slot_ok a" "tp_pgrp a = 0" using inv i(2) by (auto simp: a_def pan_inv_def slot_ok_def)
  have inv1: "pan_inv cf p1" by (rule pan_inv_slot [OF inv i(1,2) a]) (simp_all add: p1_def a_def)
  obtain o' p' where st: "start_child cf env colle i a p1 = Some (o', p')" "started cf p1 o' p'"
    using start_child_inv [OF inv1 i(1) _ _ ok a(2)] len i(3) a(2) by (auto simp: p1_def)
  have sch: "sched p1 = sched p" by (simp add: p1_def sched_def)
  have "run_child cf env colle i p = Some (if e \<noteq> 0 then (Returned (-1), p1) else (o', p'))"
    using Some en st(1) by (simp add: run_child_def Let_def a_def p1_def)
  with st(2) sch inv1 show ?thesis by (cases "e = 0") (auto simp: started_def)
qed

section \<open>The scheduling loops\<close>

text \<open>What the answers of the kernel have to be: \<open>fork\<close> gives pids, the numbered buffer files end the
  search for a free name, and every command of the collection is well-formed.\<close>

definition forks_ok :: "pan_conf \<Rightarrow> (nat \<Rightarrow> child_env) \<Rightarrow> bool" where
  "forks_ok cf fe \<longleftrightarrow> (\<forall>k. child_ok (fe k) \<and>
     (test_out_dir cf \<noteq> None \<longrightarrow> (\<forall>n. open_output (open_errno (fe k)) n \<noteq> None)))"

definition coll_ok :: "pan_conf \<Rightarrow> coll_entry list \<Rightarrow> bool" where
  "coll_ok cf coll \<longleftrightarrow> coll \<noteq> [] \<and>
     (\<forall>e \<in> set coll. entry_clean e \<and> (\<forall>c. subst_pcnt_f (own_pid cf) c e \<noteq> None))"

lemma free_slot_exists:
  assumes "pan_inv cf p" "num_active p < int (keep_active cf)"
  shows "\<exists>i. find (\<lambda>i. tp_pgrp (running p ! i) = 0) [0..<keep_active cf] = Some i"
proof (cases "find (\<lambda>i. tp_pgrp (running p ! i) = 0) [0..<keep_active cf]")
  case None
  then have "\<forall>i < length (running p). tp_pgrp (running p ! i) \<noteq> 0"
    using assms(1) by (auto simp: find_None_iff pan_inv_def)
  then have "\<forall>s \<in> set (running p). tp_pgrp s \<noteq> 0" by (auto simp: in_set_conv_nth)
  then have "pids_of (running p) = map tp_pgrp (running p)" by (simp add: pids_of_def)
  with assms show ?thesis by (simp add: pan_inv_def)
qed simp

text \<open>One pass of the inner loop: it starts a child in a free slot and goes on from there.\<close>

lemma launch_one_inv:
  assumes inv: "pan_inv cf p" and can: "can_launch cf p" and env: "forks_ok cf fe" "coll_ok cf coll" "cmd_index p < length coll"
  shows "\<exists>p' cpid :: int. launch_one cf coll (fe k) p = Some (Inr p') \<and> pan_inv cf p' \<and> cmd_index p' < length coll \<and>
    stop p' = stop p \<and> rec_signal p' = rec_signal p \<and> go_idle p' = go_idle p \<and>
    (starts p' = (if (cpid \<noteq> -1 \<or> sequential cf) \<and> 0 < starts p then starts p - 1 else starts p)) \<and>
    num_active p' = (if cpid \<noteq> -1 then num_active p + 1 else num_active p) \<and>
    (sequential cf \<longrightarrow> cmd_index p' = Suc (cmd_index p) mod length coll)"
proof -
  define p0 where "p0 = (if sequential cf then p
     else p\<lparr>cmd_index := nat (fst (lrand48 (seed p)) mod int (length coll)), seed := snd (lrand48 (seed p))\<rparr>)"
  have inv0: "pan_inv cf p0" and fr0: "running p0 = running p" "num_active p0 = num_active p"
    using inv by (auto simp: p0_def pan_inv_def)
  have L: "0 < length coll" using env(2) by (simp add: coll_ok_def)
  have idx0: "cmd_index p0 < length coll"
    using env(3) L by (auto simp: p0_def nat_less_iff)
  obtain i where i: "find (\<lambda>i. tp_pgrp (running p ! i) = 0) [0..<keep_active cf] = Some i"
    using free_slot_exists [OF inv] can by (auto simp: can_launch_def)
  note fi = find_slot [where P = "\<lambda>s. tp_pgrp s = 0", OF i]
  define e where "e = coll ! cmd_index p0"
  have e: "buf_get coll (cmd_index p0) = Some e" "entry_clean e" "\<And>c. subst_pcnt_f (own_pid cf) c e \<noteq> None"
    using idx0 env(2) nth_mem [OF idx0] by (auto simp: e_def buf_simps coll_ok_def)
  have "\<exists>o' p'. run_child cf (fe k) e i p0 = Some (o', p') \<and> started cf p0 o' p'"
    by (rule run_child_inv [OF inv0 fi(1) _ _ _ e(2,3)]) (use fi env(1) in \<open>auto simp: fr0 forks_ok_def\<close>)
  then obtain cpid p1 where r: "run_child cf (fe k) e i p0 = Some (Returned cpid, p1)" "sched p1 = sched p0"
    "pan_inv cf (if cpid \<noteq> -1 then p1\<lparr>num_active := num_active p1 + 1\<rparr> else p1)"
    by (auto simp: started_def)
  define p' where "p' = after_start cf (length coll) cpid p1"
  have step: "launch_one cf coll (fe k) p = Some (Inr p')"
    using i e(1) r(1) by (simp add: launch_one_def Let_def p0_def [symmetric] fr0(1) p'_def)
  have s1: "num_active p1 = num_active p" "starts p1 = starts p" "stop p1 = stop p" "go_idle p1 = go_idle p"
    "rec_signal p1 = rec_signal p" "cmd_index p1 = cmd_index p0"
    using r(2) by (auto simp: sched_def p0_def)
  have "pan_inv cf p'" using r(3) by (auto simp: p'_def after_start_def pan_inv_def Let_def)
  moreover have idx: "cmd_index p' = (if sequential cf then Suc (cmd_index p0) mod length coll else cmd_index p0)"
    using idx0 s1 by (cases "Suc (cmd_index p0) = length coll") (auto simp: p'_def after_start_def Let_def)
  then have "cmd_index p' < length coll" "sequential cf \<longrightarrow> cmd_index p' = Suc (cmd_index p) mod length coll"
    using L idx0 by (auto simp: p0_def)
  moreover have "stop p' = stop p" "rec_signal p' = rec_signal p" "go_idle p' = go_idle p"
    "starts p' = (if (cpid \<noteq> -1 \<or> sequential cf) \<and> 0 < starts p then starts p - 1 else starts p)"
    "num_active p' = (if cpid \<noteq> -1 then num_active p + 1 else num_active p)"
    using s1 by (auto simp: p'_def after_start_def Let_def)
  ultimately show ?thesis using step by blast
qed

text \<open>Whatever the inner loop returns keeps the invariant, and it always returns when the number of
  starts is limited and tests run sequentially.\<close>

lemma launch_inv:
  assumes "launch cf coll fe k p = Some r"
  shows "pan_inv cf p \<and> forks_ok cf fe \<and> coll_ok cf coll \<and> cmd_index p < length coll \<longrightarrow>
    fst r = Returned 0 \<and> pan_inv cf (snd r) \<and> cmd_index (snd r) < length coll \<and> \<not> can_launch cf (snd r) \<and>
    stop (snd r) = stop p \<and> rec_signal (snd r) = rec_signal p \<and> go_idle (snd r) = go_idle p"
proof (induction rule: launch.raw_induct [OF _ assms])
  case (1 launch cf coll fe k p r)
  show ?case
  proof (cases "can_launch cf p")
    case True
    show ?thesis
    proof
      assume ok: "pan_inv cf p \<and> forks_ok cf fe \<and> coll_ok cf coll \<and> cmd_index p < length coll"
      with True launch_one_inv [of cf p fe coll k] obtain p' where p': "launch_one cf coll (fe k) p = Some (Inr p')"
        "pan_inv cf p'" "cmd_index p' < length coll" "stop p' = stop p" "rec_signal p' = rec_signal p" "go_idle p' = go_idle p"
        by blast
      with 1(2) True have "launch cf coll fe (k + 1) p' = Some r" by simp
      from 1(1) [OF this] ok p' show "fst r = Returned 0 \<and> pan_inv cf (snd r) \<and> cmd_index (snd r) < length coll \<and> \<not> can_launch cf (snd r) \<and>
        stop (snd r) = stop p \<and> rec_signal (snd r) = rec_signal p \<and> go_idle (snd r) = go_idle p" by simp
    qed
  next
    case False
    with 1(2) have "r = (Returned 0, p)" by simp
    with False show ?thesis by simp
  qed
qed

lemma launch_returns:
  assumes "sequential cf" "0 \<le> starts p" "pan_inv cf p" "forks_ok cf fe" "coll_ok cf coll" "cmd_index p < length coll"
  shows "\<exists>r. launch cf coll fe k p = Some r"
  using assms(2,3,6)
proof (induction "nat (starts p)" arbitrary: p k rule: less_induct)
  case less
  show ?case
  proof (cases "can_launch cf p")
    case True
    with launch_one_inv [OF less(3) True assms(4,5) less(4), of k] assms(1) less(2) obtain p' where
      p': "launch_one cf coll (fe k) p = Some (Inr p')" "pan_inv cf p'" "cmd_index p' < length coll"
      "starts p' = starts p - 1" "0 < starts p" by (auto simp: can_launch_def)
    with less(1) [of p' "k + 1"] have "\<exists>r. launch cf coll fe (k + 1) p' = Some r" by simp
    with p'(1) True show ?thesis by (subst launch.simps) simp
  qed (subst launch.simps, simp)
qed

section \<open>One iteration\<close>

lemma wait_handler_frame:
  "frame p (wait_handler sig p)" "cmd_index (wait_handler sig p) = cmd_index p" "stop (wait_handler sig p) = stop p"
  "starts (wait_handler sig p) = starts p"
  by (simp_all add: wait_handler_def frame_def Let_def)

lemma wait_handlers_frame:
  "frame p (fold wait_handler sigs p) \<and> cmd_index (fold wait_handler sigs p) = cmd_index p \<and> starts (fold wait_handler sigs p) = starts p"
proof (induction sigs arbitrary: p)
  case (Cons s sigs)
  from Cons [of "wait_handler s p"] wait_handler_frame(1) [of p s] show ?case
    by (simp add: frame_def wait_handler_frame(2,4))
qed (simp add: frame_def)

lemma handle_stop_frame: "frame p (handle_stop b p)" "cmd_index (handle_stop b p) = cmd_index p"
  by (simp_all add: handle_stop_def frame_def)

lemma stop_or_idle_frame: "frame p (stop_or_idle p)" "cmd_index (stop_or_idle p) = cmd_index p"
  by (simp_all add: stop_or_idle_def frame_def)

lemma check_orphans_index: "check_orphans sig p = Some p' \<Longrightarrow> cmd_index p' = cmd_index p"
proof -
  have "check_orphan_list os sig p = Some (os', p') \<Longrightarrow> cmd_index p' = cmd_index p" for os os' p'
  proof (induction os arbitrary: p os')
    case (Cons orph os)
    then show ?case
      by (auto simp: do_kill_def Let_def bind_eq_Some_conv split: if_splits dest!: Cons.IH)
  qed simp
  then show "check_orphans sig p = Some p' \<Longrightarrow> cmd_index p' = cmd_index p"
    by (auto simp: check_orphans_def bind_eq_Some_conv)
qed

lemma propagate_signal_index: "propagate_signal p = Some p' \<Longrightarrow> cmd_index p' = cmd_index p"
proof -
  assume ps: "propagate_signal p = Some p'"
  define p1 where "p1 = (if rec_signal p = SIGALRM then p\<lparr>rec_signal := SIGTERM\<rparr> else p)"
  obtain ks where "signal_slots (running p1) p1 =
      (map (\<lambda>s. if tp_pgrp s = 0 then s else s\<lparr>tp_stopping := True\<rparr>) (running p1), p1\<lparr>kills := ks\<rparr>)"
    using signal_slots_frame by blast
  with ps have "\<exists>q. check_orphans (send_signal p1) (p1\<lparr>kills := ks, running := map (\<lambda>s. if tp_pgrp s = 0 then s else s\<lparr>tp_stopping := True\<rparr>) (running p1)\<rparr>) = Some q
    \<and> p' = q\<lparr>rec_signal := 0, send_signal := 0\<rparr>"
    by (auto simp: propagate_signal_def p1_def [symmetric] Let_def bind_eq_Some_conv)
  then show ?thesis by (auto dest!: check_orphans_index simp: p1_def)
qed

text \<open>The signals sent: the slots first, then the orphans.\<close>

lemma check_orphans_kills: "check_orphans sig p = Some p' \<Longrightarrow> \<exists>ks. kills p' = kills p @ ks"
proof -
  have "check_orphan_list os sig p = Some (os', p') \<Longrightarrow> \<exists>ks. kills p' = kills p @ ks" for os os' p'
  proof (induction os arbitrary: p os')
    case (Cons orph os)
    then show ?case
      by (fastforce simp: do_kill_def Let_def bind_eq_Some_conv split: if_splits dest!: Cons.IH)
  qed simp
  then show "check_orphans sig p = Some p' \<Longrightarrow> \<exists>ks. kills p' = kills p @ ks"
    by (fastforce simp: check_orphans_def bind_eq_Some_conv)
qed

lemma propagate_signal_kills:
  assumes "propagate_signal p = Some p'"
  shows "\<exists>ks. kills p' = kills p @ map (\<lambda>q. (- q, send_signal p)) (pids_of (running p)) @ ks"
proof -
  define p1 where "p1 = (if rec_signal p = SIGALRM then p\<lparr>rec_signal := SIGTERM\<rparr> else p)"
  have p1: "running p1 = running p" "send_signal p1 = send_signal p" "kills p1 = kills p" by (simp_all add: p1_def)
  obtain q q' where q: "check_orphans (send_signal p1) q = Some q'" "p' = q'\<lparr>rec_signal := 0, send_signal := 0\<rparr>"
    "kills q = kills p @ map (\<lambda>q. (- q, send_signal p)) (pids_of (running p))"
    using signal_slots_frame [of "running p1" p1] assms p1
    by (auto simp: propagate_signal_def p1_def [symmetric] Let_def bind_eq_Some_conv)
  from check_orphans_kills [OF q(1)] q(2,3) show ?thesis by auto
qed

lemma handle_signal_inv:
  assumes "pan_inv cf p"
  shows "\<exists>p'. handle_signal p = Some p' \<and> pan_inv cf p' \<and> cmd_index p' = cmd_index p"
proof (cases "rec_signal p = 0 \<or> rec_signal p = SIGUSR2")
  case True
  with assms stop_or_idle_frame [of p] show ?thesis
    by (auto simp: handle_signal_def pan_inv_def frame_def)
next
  case False
  define p1 where "p1 = (if rec_signal p = SIGUSR1 then p\<lparr>fork_in_road := False\<rparr> else p)"
  have "pan_inv cf p1" using assms by (simp add: p1_def pan_inv_def)
  with propagate_signal_inv obtain p2 where p2: "propagate_signal p1 = Some p2" "pan_inv cf p2" by blast
  with stop_or_idle_frame [of p2] frame_inv propagate_signal_index [OF p2(1)] False show ?thesis
    by (auto simp: handle_signal_def p1_def [symmetric] split: if_splits) (simp_all add: p1_def)
qed

lemma case_timeout_ge: "case_timeout name = Some t \<Longrightarrow> 3600 \<le> t"
proof -
  have "timeout_loop cs t0 = Some t \<Longrightarrow> t0 \<le> t" for cs t0
    by (induction cs arbitrary: t0) (auto split: if_splits, fastforce+)
  then show "case_timeout name = Some t \<Longrightarrow> 3600 \<le> t"
    by (fastforce simp: case_timeout_def split: list.splits if_splits)
qed

text \<open>The polling loop finds the first answer that is not 0.\<close>

lemma poll_child:
  assumes "\<forall>k < n. wp k = W_none" "wp n = W_child cpid stat" "n \<le> timeout" "0 < ka" "m \<le> n"
  shows "poll wp ka timeout i m = Some (Poll_child cpid stat)"
proof -
  have wrap: "poll wp ka timeout i m = poll wp ka timeout 0 m" if "\<not> i < ka" for i m
    using that assms(4) by (subst poll.simps) simp
  have inside: "poll wp ka timeout i m = Some (Poll_child cpid stat)" if "i < ka" "m \<le> n" for i m
    using that
  proof (induction "n - m" arbitrary: i m)
    case 0
    then show ?case using assms(2) by (subst poll.simps) simp
  next
    case (Suc d)
    then have "wp m = W_none" "m < timeout" using assms(1,3) by auto
    then have "poll wp ka timeout i m = poll wp ka timeout (i + 1) (m + 1)"
      using Suc.prems by (subst poll.simps) simp
    also have "\<dots> = poll wp ka timeout (if i + 1 < ka then i + 1 else 0) (m + 1)"
      using wrap [of "i + 1"] by simp
    also have "\<dots> = Some (Poll_child cpid stat)"
      using Suc.hyps assms(4) by (intro Suc.hyps(1)) auto
    finally show ?case .
  qed
  show ?thesis
  proof (cases "i < ka")
    case False
    with wrap [of i m] inside assms(4,5) show ?thesis by simp
  qed (use inside assms(5) in simp)
qed

text \<open>Good answers of \<open>wait\<close>: a child that is in a slot ended, or, without a log file, an error.\<close>

definition child_end :: "pan \<Rightarrow> iter_env \<Rightarrow> int \<Rightarrow> nat \<Rightarrow> bool" where
  "child_end p env cpid stat \<longleftrightarrow> cpid \<in> set (pids_of (running p)) \<and> (WIFSIGNALED stat \<or> WIFEXITED stat) \<and>
     it_output env cpid \<noteq> Some []"

definition waits_ok :: "pan_conf \<Rightarrow> iter_env \<Rightarrow> pan \<Rightarrow> bool" where
  "waits_ok cf env p \<longleftrightarrow>
     (if log_open cf
      then \<exists>n \<le> 3600. \<exists>cpid stat. (\<forall>k < n. it_waits env k = W_none) \<and> it_waits env n = W_child cpid stat \<and> child_end p env cpid stat
      else (\<exists>e. it_waits env 0 = W_error e) \<or>
           (\<exists>cpid stat. it_waits env 0 = W_child cpid stat \<and> child_end p env cpid stat))"

lemma check_pids_inv:
  assumes inv: "pan_inv cf p" and w: "waits_ok cf env p"
  shows "\<exists>err p'. check_pids cf (it_waits env) (it_clock env) (it_output env) p = Some (Returned err, p') \<and>
    pan_inv cf p' \<and> cmd_index p' = cmd_index p"
proof -
  obtain p1 where p1: "check_orphans 0 p = Some p1" "pan_inv cf p1" "running p1 = running p" "cmd_index p1 = cmd_index p"
    using check_orphans_inv [OF inv, of 0] by fastforce
  have reap: "\<exists>err p'. reap cf (it_clock env) (it_output env cpid) cpid stat p1 = Some (Returned err, p') \<and>
      pan_inv cf p' \<and> cmd_index p' = cmd_index p"
    if "child_end p env cpid stat" for cpid stat
    using reap_inv [OF p1(2), of cpid stat "it_output env cpid" "it_clock env"] that p1(3,4) by (auto simp: child_end_def)
  show ?thesis
  proof (cases "log_open cf")
    case True
    then obtain n cpid stat where n: "n \<le> 3600" "\<forall>k < n. it_waits env k = W_none" "it_waits env n = W_child cpid stat"
      "child_end p env cpid stat" using w by (auto simp: waits_ok_def)
    then have "pids_of (running p1) \<noteq> []" using p1(3) by (auto simp: child_end_def)
    with p1(2) obtain e where e: "tp_cmd (hd (running p1)) = Some e" "0 < keep_active cf" "entry_clean e"
      by (cases "running p1") (auto simp: pan_inv_def slot_ok_def pids_of_def)
    then obtain t where "case_timeout (ce_name e) = Some t" "3600 \<le> t"
      using case_timeout_ge by (auto simp: entry_clean_def)
    with poll_child [OF n(2,3), of t "keep_active cf" 0 0] n(1) e have
      "poll (it_waits env) (keep_active cf) t 0 0 = Some (Poll_child cpid stat)" by simp
    with reap [OF n(4)] True p1(1) e(1) \<open>case_timeout (ce_name e) = Some t\<close> show ?thesis
      by (simp add: check_pids_def entry_name_def)
  next
    case False
    with w reap p1 show ?thesis by (auto simp: waits_ok_def check_pids_def)
  qed
qed

text \<open>The state in which an iteration calls \<open>check_pids\<close>, and what an iteration does.\<close>

definition at_check :: "pan_conf \<Rightarrow> coll_entry list \<Rightarrow> iter_env \<Rightarrow> pan \<Rightarrow> pan option" where
  "at_check cf coll env p = do {
     (o', p) \<leftarrow> launch cf coll (it_forks env) 0 (fold wait_handler (it_signals env) p);
     handle_signal (handle_stop (it_stop_file env) p) }"

definition env_ok :: "pan_conf \<Rightarrow> coll_entry list \<Rightarrow> iter_env \<Rightarrow> pan \<Rightarrow> bool" where
  "env_ok cf coll env p \<longleftrightarrow> forks_ok cf (it_forks env) \<and>
     (case at_check cf coll env p of None \<Rightarrow> True | Some p' \<Rightarrow> waits_ok cf env p')"

lemma handle_err_inv:
  "pan_inv cf (handle_err cf err p) = pan_inv cf p" "cmd_index (handle_err cf err p) = cmd_index p"
  by (auto simp: handle_err_def Let_def pan_inv_def wait_handler_def)

definition iter_inv :: "pan_conf \<Rightarrow> coll_entry list \<Rightarrow> pan \<Rightarrow> bool" where
  "iter_inv cf coll p \<longleftrightarrow> pan_inv cf p \<and> coll_ok cf coll \<and> cmd_index p < length coll"

lemma iterate_launched:
  assumes inv: "iter_inv cf coll p" and env: "env_ok cf coll env p"
    and l: "launch cf coll (it_forks env) 0 (fold wait_handler (it_signals env) p) = Some r"
  shows "\<exists>lr p'. iterate cf coll env p = Some (lr, p') \<and> iter_inv cf coll p' \<and> (lr = Continue \<or> lr = Break) \<and>
    (lr = Break \<longrightarrow> num_active p' = 0 \<and> stop p' \<noteq> 0)"
proof -
  define p0 where "p0 = fold wait_handler (it_signals env) p"
  have "iter_inv cf coll p0" using inv wait_handlers_frame [of p "it_signals env"] frame_inv
    by (auto simp: iter_inv_def p0_def)
  with launch_inv [OF l] env obtain p1 where p1: "r = (Returned 0, p1)" "iter_inv cf coll p1"
    by (cases r) (auto simp: iter_inv_def env_ok_def p0_def)
  define p2 where "p2 = handle_stop (it_stop_file env) p1"
  have "iter_inv cf coll p2" using p1(2)
    by (simp add: iter_inv_def p2_def frame_inv [OF handle_stop_frame(1)] handle_stop_frame(2))
  then obtain p3 where p3: "handle_signal p2 = Some p3" "iter_inv cf coll p3"
    using handle_signal_inv by (fastforce simp: iter_inv_def)
  have "at_check cf coll env p = Some p3" using l p1(1) p3(1) by (simp add: at_check_def p2_def)
  then have "waits_ok cf env p3" using env by (simp add: env_ok_def)
  with check_pids_inv [of cf p3 env] p3(2) obtain err p4 where p4:
    "check_pids cf (it_waits env) (it_clock env) (it_output env) p3 = Some (Returned err, p4)" "iter_inv cf coll p4"
    by (auto simp: iter_inv_def)
  define p5 where "p5 = handle_err cf err p4"
  have p5: "iter_inv cf coll p5" using p4(2) by (simp add: iter_inv_def p5_def handle_err_inv)
  have "iterate cf coll env p = Some (if stop p5 \<noteq> 0 \<and> num_active p5 = 0 then (Break, p5)
      else if go_idle p5 \<noteq> 0 \<and> num_active p5 = 0 then (Continue, wait_handler 0 (p5\<lparr>go_idle := 0\<rparr>)) else (Continue, p5))"
    using l p1(1) p3(1) p4(1) by (simp add: iterate_def p2_def p5_def Let_def)
  moreover have "iter_inv cf coll (wait_handler 0 (p5\<lparr>go_idle := 0\<rparr>))"
    using p5 by (simp add: iter_inv_def pan_inv_def wait_handler_def)
  ultimately show ?thesis using p5 by auto
qed

lemma iterate_inv:
  assumes "iter_inv cf coll p" "env_ok cf coll env p" "iterate cf coll env p = Some (lr, p')"
  shows "iter_inv cf coll p'" "lr = Break \<Longrightarrow> num_active p' = 0"
proof -
  obtain r where "launch cf coll (it_forks env) 0 (fold wait_handler (it_signals env) p) = Some r"
    using assms(3) by (auto simp: iterate_def bind_eq_Some_conv)
  from iterate_launched [OF assms(1,2) this] assms(3) show "iter_inv cf coll p'" "lr = Break \<Longrightarrow> num_active p' = 0" by auto
qed

lemma pan_reach_inv: "pan_reach cf coll (env_ok cf coll) p0 p \<Longrightarrow> iter_inv cf coll p0 \<Longrightarrow> iter_inv cf coll p"
  by (induction rule: pan_reach.induct) (auto intro: iterate_inv(1))

section \<open>A concrete driver\<close>

definition demo_conf :: pan_conf where
  "demo_conf = \<lparr>keep_active = 1, sequential = True, has_brakes = False, track_exit_stats = True, fmt_print = True,
     quiet_mode = False, log_open = False, failcmd_open = False, test_out_dir = None, rts = True,
     panname = ''ltp'', own_pid = 100\<rparr>"

definition demo_coll :: "coll_entry list" where
  "demo_coll = [\<lparr>ce_name = ''fork01'', ce_cmdline = ''fork01 -i 2'', ce_pcnt_f = False\<rparr>,
                \<lparr>ce_name = ''abs01'', ce_cmdline = ''abs01'', ce_pcnt_f = False\<rparr>]"

definition demo_zoo :: zoo where
  "demo_zoo = empty_zoo\<lparr>z_text := pad_to 79 ''100,ltp,pan'' @ [LF]\<rparr>"

definition demo_pan :: pan where
  "demo_pan = \<lparr>running = [empty_slot], num_active = 0, orphans = [0], rec_signal = 0, send_signal = 0, lastsent = 0,
     failcnt = 0, zoofile = Some demo_zoo, kill_errno = (\<lambda>n. 3), kills = [], log = [], failcmds = [], report = [],
     cmdno = 0, pcnt_counter = 1, starts = 2, stop = 0, go_idle = 0, fork_in_road = False, exit_stat = 0,
     cmd_index = 0, seed = 1\<rparr>"

definition demo_env :: "wait_answer \<Rightarrow> iter_env" where
  "demo_env w = \<lparr>it_signals = [],
     it_forks = (\<lambda>k. \<lparr>open_errno = (\<lambda>n. 0), pipe_ok = True, fork_pid = 200, exec_error = None, start_time = 5, end_time = 6\<rparr>),
     it_stop_file = False, it_waits = (\<lambda>n. w), it_clock = \<lparr>now = 9, cutime = 1, cstime = 1\<rparr>, it_output = (\<lambda>c. None)\<rparr>"

lemma demo_iter_inv: "iter_inv demo_conf demo_coll demo_pan"
proof -
  have "zoo_wf (z_text demo_zoo)" by code_simp
  then have "zoo_inv demo_zoo" using empty_zoo_inv(1) by (simp add: zoo_inv_def demo_zoo_def)
  moreover have "zoo_pids demo_zoo = {#100#}" by code_simp
  moreover have "slot_ok empty_slot" by (simp add: slot_ok_def empty_slot_def)
  ultimately have "pan_inv demo_conf demo_pan"
    by (simp add: pan_inv_def demo_conf_def demo_pan_def zoo_holds_def pids_of_def empty_slot_def)
  moreover have "entry_clean (demo_coll ! 0)" "entry_clean (demo_coll ! 1)" by code_simp+
  then have "coll_ok demo_conf demo_coll" by (simp add: coll_ok_def demo_coll_def subst_pcnt_f_def)
  ultimately show ?thesis by (simp add: iter_inv_def demo_pan_def demo_coll_def)
qed

lemma demo_env_ok: "env_ok demo_conf coll (demo_env (W_error 4)) p"
  by (auto simp: env_ok_def demo_env_def demo_conf_def forks_ok_def child_ok_def int_fits_def waits_ok_def split: option.split)

lemma demo_step: "map_option fst (iterate demo_conf demo_coll (demo_env (W_error 4)) demo_pan) = Some Continue"
  by code_simp

section \<open>Properties\<close>







text \<open>The signals that \<open>pan\<close> sends to its tests for a sequence of signals that it receives.\<close>

fun sends :: "int list \<Rightarrow> pan \<Rightarrow> int list" where
  "sends [] p = []"
| "sends (s # ss) p = send_signal (wait_handler s p) # sends ss (wait_handler s p)"

text \<open>The ratchet escalates repeated interrupts to \<open>SIGTERM\<close>, \<open>SIGHUP\<close> and \<open>SIGKILL\<close>, where it stays;
  but a driver that is told to terminate repeatedly sends \<open>SIGTERM\<close> for ever and never escalates.\<close>

lemma signal_ratchet:
  "sends (replicate (4 + n) SIGINT) (p\<lparr>lastsent := 0\<rparr>) = [SIGINT, SIGTERM, SIGHUP, SIGKILL] @ replicate n SIGKILL \<and>
   sends (replicate n SIGTERM) (p\<lparr>lastsent := 0\<rparr>) = replicate n SIGTERM"
proof
  have kill: "sends (replicate n SIGINT) q = replicate n SIGKILL" if "lastsent q = SIGKILL" "send_signal q = SIGKILL" for n q
    using that
  proof (induction n arbitrary: q)
    case (Suc n)
    have "lastsent (wait_handler SIGINT q) = SIGKILL" "send_signal (wait_handler SIGINT q) = SIGKILL"
      using Suc.prems by (simp_all add: wait_handler_def)
    with Suc.IH show ?case by simp
  qed simp
  have "replicate (4 + n) SIGINT = SIGINT # SIGINT # SIGINT # SIGINT # replicate n SIGINT"
    by (simp add: numeral_eq_Suc)
  then show "sends (replicate (4 + n) SIGINT) (p\<lparr>lastsent := 0\<rparr>) = [SIGINT, SIGTERM, SIGHUP, SIGKILL] @ replicate n SIGKILL"
    by (simp add: wait_handler_def kill)
  have "sends (replicate n SIGTERM) q = replicate n SIGTERM" if "lastsent q = 0 \<or> lastsent q = SIGTERM" for q
    using that by (induction n arbitrary: q) (auto simp: wait_handler_def)
  then show "sends (replicate n SIGTERM) (p\<lparr>lastsent := 0\<rparr>) = replicate n SIGTERM" by simp
qed

text \<open>When the run time is over, the alarm is meant to end the tests with \<open>SIGTERM\<close>, but what is sent
  to every running group is the alarm itself.\<close>

lemma alarm_propagated:
  assumes "pan_inv cf p"
  shows "\<exists>p' ks. propagate_signal (wait_handler SIGALRM (p\<lparr>lastsent := 0\<rparr>)) = Some p' \<and>
    kills p' = kills p @ map (\<lambda>q. (- q, SIGALRM)) (pids_of (running p)) @ ks \<and> pan_inv cf p'"
proof -
  define q where "q = wait_handler SIGALRM (p\<lparr>lastsent := 0\<rparr>)"
  have q: "send_signal q = SIGALRM" "kills q = kills p" "running q = running p"
    by (simp_all add: q_def wait_handler_def)
  have "pan_inv cf q" using assms by (simp add: q_def wait_handler_def pan_inv_def)
  then obtain p' where "propagate_signal q = Some p'" "pan_inv cf p'" using propagate_signal_inv by blast
  with propagate_signal_kills [of q p'] q show ?thesis by (auto simp: q_def)
qed

lemma alarm_propagated_witness:
  "\<exists>p'. propagate_signal (wait_handler SIGALRM (demo_pan\<lparr>lastsent := 0\<rparr>)) = Some p' \<and> pan_inv demo_conf p'"
  using alarm_propagated [of demo_conf demo_pan] demo_iter_inv by (auto simp: iter_inv_def)

text \<open>A driver with a log file that has started everything and has no child any more.\<close>

definition hung :: "pan_conf \<Rightarrow> pan \<Rightarrow> bool" where
  "hung cf p \<longleftrightarrow> log_open cf \<and> 0 < keep_active cf \<and> length (running p) = keep_active cf \<and>
     (\<forall>s \<in> set (running p). tp_pgrp s = 0) \<and> (\<forall>x \<in> set (orphans p). x = 0) \<and>
     starts p = 0 \<and> rec_signal p = 0 \<and> num_active p \<le> 0 \<and>
     (\<exists>e t. tp_cmd (hd (running p)) = Some e \<and> case_timeout (ce_name e) = Some t)"

text \<open>A driver that writes a log file, has no start left and no child, because the last command could
  not be executed, never ends: \<open>waitpid\<close> fails, the number of active tests becomes negative, and every
  iteration continues with a still smaller number.\<close>

lemma pan_hangs:
  assumes "hung cf p" "it_signals env = []" "it_waits env 0 = W_error e"
  shows "\<exists>p'. iterate cf coll env p = Some (Continue, p') \<and> hung cf p' \<and> num_active p' = num_active p - 1"
proof -
  have orph: "check_orphan_list os sig q = Some (os, q)" if "\<forall>x \<in> set os. x = 0" for os sig q
    using that by (induction os) auto
  obtain ce t where ce: "tp_cmd (hd (running p)) = Some ce" "case_timeout (ce_name ce) = Some t"
    using assms(1) by (auto simp: hung_def)
  have l: "launch cf coll (it_forks env) 0 p = Some (Returned 0, p)"
    using assms(1) by (subst launch.simps) (simp add: can_launch_def hung_def)
  define p1 where "p1 = p\<lparr>stop := stop p + 1\<rparr>"
  have hs: "handle_signal (handle_stop (it_stop_file env) p) = Some p1"
    using assms(1) by (simp add: hung_def handle_stop_def handle_signal_def p1_def)
  have s0: "0 < length (running p)" "tp_pgrp (running p ! 0) = 0" using assms(1) by (auto simp: hung_def)
  define p2 where "p2 = p1\<lparr>num_active := num_active p - 1, running := (running p)[0 := (running p ! 0)\<lparr>tp_pgrp := 0\<rparr>]\<rparr>"
  define p3 where "p3 = (if failcmd_open cf then p2\<lparr>failcmds := failcmds p2 @ [(ce_name ce, ce_cmdline ce)],
     log := log p2 @ [Log_fmt (take 30 (ce_name ce)) ''CFAIL'' 128]\<rparr> else p2)"
  have "poll (it_waits env) (keep_active cf) t 0 0 = Some (Poll_lost 0 e)"
    using assms(1,3) by (subst poll.simps) (simp add: hung_def)
  moreover have "check_orphans 0 p1 = Some p1"
    using assms(1) orph by (simp add: check_orphans_def hung_def p1_def)
  moreover have "lose_slot cf 0 p1 = Some p3"
    using ce(1) s0 by (simp add: lose_slot_def p3_def p2_def p1_def Let_def)
  ultimately have "check_pids cf (it_waits env) (it_clock env) (it_output env) p1 = Some (Returned 0, p3)"
    using ce assms(1) by (simp add: check_pids_def hung_def entry_name_def p1_def)
  moreover have na: "num_active p3 = num_active p - 1" by (simp add: p3_def p2_def)
  moreover have "num_active p \<le> 0" using assms(1) by (simp add: hung_def)
  ultimately have "iterate cf coll env p = Some (Continue, p3)"
    using l hs assms(2) by (simp add: iterate_def handle_err_def)
  moreover have "hung cf p3"
  proof -
    have "\<forall>s \<in> set ((running p)[0 := (running p ! 0)\<lparr>tp_pgrp := 0\<rparr>]). tp_pgrp s = 0"
      using assms(1) by (auto simp: hung_def dest!: set_update_subset_insert [THEN subsetD])
    moreover have "tp_cmd (hd ((running p)[0 := (running p ! 0)\<lparr>tp_pgrp := 0\<rparr>])) = Some ce"
      using ce(1) s0 by (cases "running p") auto
    ultimately show ?thesis using assms(1) ce by (simp add: hung_def p3_def p2_def p1_def)
  qed
  ultimately show ?thesis using na by blast
qed

lemma pan_hangs_witness:
  "\<exists>p'. iterate (demo_conf\<lparr>log_open := True\<rparr>) [] (demo_env (W_error 10))
      (demo_pan\<lparr>running := [empty_slot\<lparr>tp_cmd := Some (demo_coll ! 1)\<rparr>], starts := 0\<rparr>) = Some (Continue, p') \<and> num_active p' = -1"
proof -
  have "hung (demo_conf\<lparr>log_open := True\<rparr>) (demo_pan\<lparr>running := [empty_slot\<lparr>tp_cmd := Some (demo_coll ! 1)\<rparr>], starts := 0\<rparr>)"
  proof -
    have "case_timeout ''abs01'' = Some 3600" by code_simp
    then show ?thesis by (simp add: hung_def demo_conf_def demo_pan_def empty_slot_def demo_coll_def)
  qed
  from pan_hangs [OF this, of "demo_env (W_error 10)" 10 "[]"] show ?thesis
    by (auto simp: demo_env_def demo_pan_def)
qed

end
