(* ===== verification/Parse_Opts.thy ===== *)
theory Parse_Opts
  imports Complex_Main Prelude
begin

text \<open>
  \<^verbatim>\<open>lib/parse_opts.c\<close>: the standard options of the test programs, their defaults from the environment, the forking of
  copies, and the function that says whether a test goes on. The record \<open>std\<close> has the variables of the file (\<open>Debug\<close> and
  what it prints, and \<open>STD_argind\<close>, are left out); the locations of the caller's options are its last two fields, one per
  entry, and are taken to be distinct. \<open>getopt\<close> is modelled for short options, with options found among the other arguments as in
  the C library. A \<open>float\<close> is a rational number; its conversions and the product with the million are the parameters in
  \<open>flt\<close>. The clock is a function of the number of the call.
\<close>

section \<open>Options\<close>

fun getopt :: "string \<Rightarrow> string \<Rightarrow> string list \<Rightarrow> ((char \<times> string option) \<times> string \<times> string list) option" where
  "getopt optstring [] [] = None"
| "getopt optstring [] (a # args) =
     (if 2 \<le> length a \<and> hd a = CHR ''-''
      then if a = ''--'' then None else getopt optstring (tl a) args
      else getopt optstring [] args)"
| "getopt optstring (c # cs) args =
     (let tail = dropWhile (\<lambda>x. x \<noteq> c) optstring
      in if c = CHR '':'' \<or> c = CHR '';'' \<or> tail = [] then Some ((CHR ''?'', None), cs, args)
         else if take 1 (tl tail) = '':''
         then (if cs \<noteq> [] then Some ((c, Some cs), [], args)
               else case args of [] \<Rightarrow> Some ((CHR ''?'', None), [], []) | a # as \<Rightarrow> Some ((c, Some a), [], as))
         else Some ((c, None), cs, args))"

record option_t =
  o_option :: string
  o_flag :: bool
  o_arg :: bool

record std =
  STD_FUNCTIONAL_TEST :: int
  STD_TIMING_ON :: int
  STD_PAUSE :: int
  STD_INFINITE :: int
  STD_LOOP_COUNT :: int
  STD_COPIES :: int
  STD_ERRNO_LOG :: int
  STD_LOOP_DURATION :: rat
  STD_LOOP_DELAY :: rat
  STD_TP_barrier :: int
  STD_LP_barrier :: int
  STD_TP_shmem_sz :: int
  STD_LD_shmem :: int
  STD_LP_shmem :: int
  STD_LD_recfun :: int
  STD_LP_recfun :: int
  STD_TP_sbrk :: int
  STD_LP_sbrk :: int
  STD_bigstack :: bool
  STD_start_break :: int
  u_flags :: "bool list"
  u_args :: "string option list"

definition std_init :: "nat \<Rightarrow> std" where
  "std_init n = \<lparr>STD_FUNCTIONAL_TEST = 1, STD_TIMING_ON = 0, STD_PAUSE = 0, STD_INFINITE = 0, STD_LOOP_COUNT = 1, STD_COPIES = 1,
     STD_ERRNO_LOG = 0, STD_LOOP_DURATION = 0, STD_LOOP_DELAY = 0, STD_TP_barrier = 0, STD_LP_barrier = 0, STD_TP_shmem_sz = 0,
     STD_LD_shmem = 0, STD_LP_shmem = 0, STD_LD_recfun = 0, STD_LP_recfun = 0, STD_TP_sbrk = 0, STD_LP_sbrk = 0,
     STD_bigstack = False, STD_start_break = 0, u_flags = replicate n False, u_args = replicate n None\<rparr>"

record flt =
  atof :: "string \<Rightarrow> rat"
  scan_f :: "string \<Rightarrow> rat option"
  usecs :: "rat \<Rightarrow> rat"

definition std_options :: "string list" where
  "std_options = [''c:'', ''e'', ''f'', ''h'', ''i:'', ''I:'', ''p'', ''P:'', ''t'']"

definition add_option :: "string \<Rightarrow> string \<Rightarrow> string" where
  "add_option optionstr opt = (if opt = [] \<or> hd opt \<in> set optionstr then optionstr else optionstr @ opt)"

definition option_string :: "option_t list \<Rightarrow> string" where
  "option_string user = foldl add_option (concat std_options) (map o_option user)"

definition OPT_iteration :: "32 word" where "OPT_iteration = 0x1"
definition OPT_nofunccheck :: "32 word" where "OPT_nofunccheck = 0x2"
definition OPT_duration :: "32 word" where "OPT_duration = 0x4"
definition OPT_delay :: "32 word" where "OPT_delay = 0x8"
definition OPT_copies :: "32 word" where "OPT_copies = 0x10"

datatype opt_result = Opt_error string | Opt_exit | Opt_ok

text \<open>The search of the caller's table. An option with an argument whose location is null, and a null table, are undefined.\<close>

definition user_option :: "option_t list option \<Rightarrow> char \<Rightarrow> string option \<Rightarrow> std \<Rightarrow> (opt_result \<times> std) option" where
  "user_option user c optarg st =
     (case user of
        None \<Rightarrow> None
      | Some opts \<Rightarrow>
          (case find (\<lambda>i. o_option (opts ! i) \<noteq> [] \<and> hd (o_option (opts ! i)) = c) [0..<length opts] of
             None \<Rightarrow> Some (Opt_error ''INTERNAL ERROR'', st)
           | Some i \<Rightarrow>
               (let st = (if o_flag (opts ! i) then st\<lparr>u_flags := (u_flags st)[i := True]\<rparr> else st)
                in if last (o_option (opts ! i)) = CHR '':''
                   then (if o_arg (opts ! i) then Some (Opt_ok, st\<lparr>u_args := (u_args st)[i := optarg]\<rparr>) else None)
                   else Some (Opt_ok, st))))"

text \<open>The body of the loop, with the mask \<open>options\<close> of the options that were given.\<close>

definition do_option ::
  "flt \<Rightarrow> option_t list option \<Rightarrow> char \<Rightarrow> string option \<Rightarrow> 32 word \<times> std \<Rightarrow> (opt_result \<times> 32 word \<times> std) option" where
  "do_option F user c optarg = (\<lambda>(options, st).
     if c = CHR ''?'' then Some (Opt_error ''Unknown option'', options, st)
     else if c = CHR '':'' then Some (Opt_error ''Missing argument'', options, st)
     else if c = CHR ''i'' then do {
       s \<leftarrow> optarg;
       let st = st\<lparr>STD_LOOP_COUNT := atoi s\<rparr>;
       Some (Opt_ok, options OR OPT_iteration, if STD_LOOP_COUNT st = 0 then st\<lparr>STD_INFINITE := 1\<rparr> else st) }
     else if c = CHR ''P'' then do { s \<leftarrow> optarg; Some (Opt_ok, options OR OPT_delay, st\<lparr>STD_LOOP_DELAY := atof F s\<rparr>) }
     else if c = CHR ''I'' then do {
       s \<leftarrow> optarg;
       let st = st\<lparr>STD_LOOP_DURATION := atof F s\<rparr>;
       Some (Opt_ok, options OR OPT_duration, if STD_LOOP_DURATION st = 0 then st\<lparr>STD_INFINITE := 1\<rparr> else st) }
     else if c = CHR ''c'' then do { s \<leftarrow> optarg; Some (Opt_ok, options OR OPT_copies, st\<lparr>STD_COPIES := atoi s\<rparr>) }
     else if c = CHR ''f'' then Some (Opt_ok, options, st\<lparr>STD_FUNCTIONAL_TEST := 0\<rparr>)
     else if c = CHR ''p'' then Some (Opt_ok, options, st\<lparr>STD_PAUSE := 1\<rparr>)
     else if c = CHR ''t'' then Some (Opt_ok, options, st\<lparr>STD_TIMING_ON := 1\<rparr>)
     else if c = CHR ''e'' then Some (Opt_ok, options, st\<lparr>STD_ERRNO_LOG := 1\<rparr>)
     else if c = CHR ''h'' then Some (Opt_exit, options, st)
     else map_option (\<lambda>(r, st). (r, options, st)) (user_option user c optarg st))"

lemma getopt_shrinks: "getopt optstring cur args = Some (r, cur', args') \<Longrightarrow>
  length cur' + sum_list (map (Suc \<circ> length) args') < length cur + sum_list (map (Suc \<circ> length) args)"
  by (induction optstring cur args rule: getopt.induct)
    (auto simp: Let_def split: if_splits list.splits)

function opts_loop ::
  "flt \<Rightarrow> option_t list option \<Rightarrow> string \<Rightarrow> string \<Rightarrow> string list \<Rightarrow> 32 word \<times> std \<Rightarrow> (opt_result \<times> 32 word \<times> std) option" where
  "opts_loop F user optionstr cur args st =
     (case getopt optionstr cur args of
        None \<Rightarrow> Some (Opt_ok, st)
      | Some ((c, optarg), cur', args') \<Rightarrow> do {
          (r, st) \<leftarrow> do_option F user c optarg st;
          if r = Opt_ok then opts_loop F user optionstr cur' args' st else Some (r, st) })"
  by pat_completeness auto
termination
  by (relation "measure (\<lambda>(F, user, optionstr, cur, args, st). length cur + sum_list (map (Suc \<circ> length) args))")
    (auto dest: getopt_shrinks)

declare opts_loop.simps [simp del]

section \<open>Defaults from the environment\<close>

type_synonym environ = "string \<Rightarrow> string option"

text \<open>\<open>%d\<close> and \<open>%i\<close>.\<close>

definition scan_d :: "string \<Rightarrow> int option" where
  "scan_d s = (if starts_digit 10 (snd (scan_sign (dropWhile is_space s))) then Some (atoi s) else None)"

definition scan_i :: "string \<Rightarrow> int option" where
  "scan_i s = map_option fst (scan_int s)"

text \<open>A number that is not negative.\<close>

definition env_nat :: "environ \<Rightarrow> string \<Rightarrow> int option" where
  "env_nat env name = do { s \<leftarrow> env name; k \<leftarrow> scan_i s; if 0 \<le> k then Some k else None }"

definition env_float :: "flt \<Rightarrow> environ \<Rightarrow> string \<Rightarrow> rat option" where
  "env_float F env name = do { s \<leftarrow> env name; x \<leftarrow> scan_f F s; if 0 \<le> x then Some x else None }"

definition env_iterations :: "environ \<Rightarrow> 32 word \<Rightarrow> std \<Rightarrow> std" where
  "env_iterations env options st =
     (if options AND OPT_iteration = 0
      then case Option.bind (env ''USC_ITERATIONS'') scan_i of
             None \<Rightarrow> st
           | Some k \<Rightarrow> if k = 0 then st\<lparr>STD_INFINITE := 1\<rparr> else st\<lparr>STD_LOOP_COUNT := k\<rparr>
      else st)"

definition env_nofunccheck :: "environ \<Rightarrow> 32 word \<Rightarrow> std \<Rightarrow> std" where
  "env_nofunccheck env options st =
     (if options AND OPT_nofunccheck = 0 \<and> env ''USC_NO_FUNC_CHECK'' \<noteq> None then st\<lparr>STD_FUNCTIONAL_TEST := 0\<rparr> else st)"

definition env_duration :: "flt \<Rightarrow> environ \<Rightarrow> string \<Rightarrow> 32 word \<Rightarrow> std \<Rightarrow> std" where
  "env_duration F env name options st =
     (if options AND OPT_duration = 0
      then case env_float F env name of
             None \<Rightarrow> st
           | Some x \<Rightarrow> (let st = st\<lparr>STD_LOOP_DURATION := x\<rparr> in if x = 0 then st\<lparr>STD_INFINITE := 1\<rparr> else st)
      else st)"

definition env_delay :: "flt \<Rightarrow> environ \<Rightarrow> 32 word \<Rightarrow> std \<Rightarrow> std" where
  "env_delay F env options st =
     (if options AND OPT_delay = 0
      then case env_float F env ''USC_LOOP_DELAY'' of None \<Rightarrow> st | Some x \<Rightarrow> st\<lparr>STD_LOOP_DELAY := x\<rparr>
      else st)"

text \<open>The number is stored by \<open>sscanf\<close> before it is compared with 0.\<close>

definition env_copies :: "environ \<Rightarrow> 32 word \<Rightarrow> std \<Rightarrow> std" where
  "env_copies env options st =
     (if options AND OPT_copies = 0
      then case Option.bind (env ''USC_COPIES'') scan_d of None \<Rightarrow> st | Some k \<Rightarrow> st\<lparr>STD_COPIES := k\<rparr>
      else st)"

definition barrier :: "environ \<Rightarrow> string \<Rightarrow> int \<Rightarrow> int" where
  "barrier env name old =
     (if env name = None then old else case env_nat env name of Some k \<Rightarrow> k | None \<Rightarrow> 1)"

definition env_hook :: "environ \<Rightarrow> string \<Rightarrow> int \<Rightarrow> int" where
  "env_hook env name old = (case env_nat env name of Some k \<Rightarrow> k | None \<Rightarrow> old)"

text \<open>\<open>STD_bigstack\<close> is allocated only when it is allocated already.\<close>

definition env_hooks :: "environ \<Rightarrow> std \<Rightarrow> std" where
  "env_hooks env st =
     st\<lparr>STD_TP_barrier := barrier env ''USC_TP_BARRIER'' (STD_TP_barrier st),
        STD_LP_barrier := barrier env ''USC_LP_BARRIER'' (STD_LP_barrier st),
        STD_TP_shmem_sz := env_hook env ''USC_TP_SHMEM'' (STD_TP_shmem_sz st),
        STD_LP_shmem := env_hook env ''USC_LP_SHMEM'' (STD_LP_shmem st),
        STD_LD_shmem := env_hook env ''USC_LD_SHMEM'' (STD_LD_shmem st),
        STD_TP_sbrk := env_hook env ''USC_TP_SBRK'' (STD_TP_sbrk st),
        STD_LP_sbrk := env_hook env ''USC_LP_SBRK'' (STD_LP_sbrk st),
        STD_LP_recfun := env_hook env ''USC_LP_RECFUN'' (STD_LP_recfun st),
        STD_LD_recfun := env_hook env ''USC_LD_RECFUN'' (STD_LD_recfun st),
        STD_bigstack := STD_bigstack st\<rparr>"

definition env_defaults :: "flt \<Rightarrow> environ \<Rightarrow> 32 word \<Rightarrow> std \<Rightarrow> std" where
  "env_defaults F env options st =
     env_hooks env (env_copies env options (env_delay F env options
       (env_duration F env ''USC_DURATION'' options (env_duration F env ''USC_LOOP_WALLTIME'' options
         (env_nofunccheck env options (env_iterations env options st))))))"

text \<open>\<open>args\<close> are the arguments behind the program's name. The result is the message, or \<open>Opt_exit\<close> for the help.\<close>

definition parse_opts :: "flt \<Rightarrow> environ \<Rightarrow> option_t list option \<Rightarrow> string list \<Rightarrow> std \<Rightarrow> (opt_result \<times> std) option" where
  "parse_opts F env user args st =
     (let opts = (case user of None \<Rightarrow> [] | Some opts \<Rightarrow> opts)
      in if list_ex (\<lambda>p. 2 < length (o_option p)) opts
         then Some (Opt_error ''parse_opts: ERROR - Only short options are allowed'', st)
         else do {
           (r, options, st) \<leftarrow> opts_loop F user (option_string opts) [] args (0, st);
           Some (r, if r = Opt_ok then env_defaults F env options st else st) })"

section \<open>Copies and looping\<close>

text \<open>The loop of the forks, with the answers of \<open>fork\<close>: whether this process is a child, and the number of its children.\<close>

function fork_loop :: "(nat \<Rightarrow> int) \<Rightarrow> nat \<Rightarrow> int \<Rightarrow> int \<Rightarrow> nat \<Rightarrow> bool \<times> nat" where
  "fork_loop forks n cnt copies kids =
     (if cnt < copies
      then if forks n = -1 then fork_loop forks (n + 1) (cnt + 1) copies kids
           else if forks n = 0 then (True, kids)
           else fork_loop forks (n + 1) (cnt + 1) copies (kids + 1)
      else (False, kids))"
  by pat_completeness auto
termination
  by (relation "measure (\<lambda>(forks, n, cnt, copies, kids). nat (copies - cnt))") auto

declare fork_loop.simps [simp del]

record loop_state =
  first_time :: bool
  stop_time :: "64 word"
  delay :: "64 word"
  tick :: nat
  brk :: int

text \<open>\<open>signalled\<close>: whether the signal that ends the pause comes.\<close>

definition usc_global_setup_hook ::
  "(nat \<Rightarrow> int) \<Rightarrow> bool \<Rightarrow> std \<times> loop_state \<Rightarrow> ((bool \<times> nat) \<times> std \<times> loop_state) option" where
  "usc_global_setup_hook forks signalled = (\<lambda>(st, lp).
     let p = fork_loop forks 0 1 (STD_COPIES st) 0
     in if STD_PAUSE st \<noteq> 0 \<and> \<not> signalled then None
        else (let st = (if STD_TP_sbrk st \<noteq> 0 \<or> STD_LP_sbrk st \<noteq> 0 then st\<lparr>STD_start_break := brk lp\<rparr> else st);
                  lp = (if STD_TP_sbrk st \<noteq> 0 then lp\<lparr>brk := brk lp + STD_TP_sbrk st\<rparr> else lp)
              in Some (p, st, lp)))"

definition loop_init :: "loop_state" where
  "loop_init = \<lparr>first_time = True, stop_time = 0, delay = 0, tick = 0, brk = 0\<rparr>"

text \<open>Out of the range of the type the conversion is undefined.\<close>

definition uint64_of_float :: "rat \<Rightarrow> 64 word option" where
  "uint64_of_float x = (if -1 < x \<and> x < 2 ^ 64 then Some (if x < 0 then 0 else word_of_int \<lfloor>x\<rfloor>) else None)"

text \<open>\<open>*STD_bigstack\<close> is passed by value, which is undefined for a null pointer; the recursion itself returns.\<close>

definition usc_recressive_func :: "int \<Rightarrow> std \<Rightarrow> unit option" where
  "usc_recressive_func depth st = (if depth \<noteq> 0 \<and> \<not> STD_bigstack st then None else Some ())"

partial_function (option) delay_loop :: "std \<Rightarrow> (nat \<Rightarrow> 64 word) \<Rightarrow> 64 word \<Rightarrow> 64 word \<Rightarrow> nat \<Rightarrow> nat option" where
  "delay_loop st clock end_time ct n =
     (if ct < end_time
      then do { usc_recressive_func (STD_LD_recfun st) st; delay_loop st clock end_time (clock n) (n + 1) }
      else Some n)"

declare delay_loop.simps [code]

definition loop_prologue :: "flt \<Rightarrow> (nat \<Rightarrow> 64 word) \<Rightarrow> std \<Rightarrow> loop_state \<Rightarrow> loop_state option" where
  "loop_prologue F clock st lp =
     (if first_time lp
      then do {
        let lp = lp\<lparr>first_time := False\<rparr>;
        lp \<leftarrow> (if STD_LOOP_DURATION st \<noteq> 0
               then do {
                 u \<leftarrow> uint64_of_float (usecs F (STD_LOOP_DURATION st));
                 Some (lp\<lparr>stop_time := u + clock (tick lp), tick := tick lp + 1\<rparr>) }
               else Some lp);
        (if STD_LOOP_DELAY st \<noteq> 0
         then do { d \<leftarrow> uint64_of_float (usecs F (STD_LOOP_DELAY st)); Some (lp\<lparr>delay := d\<rparr>) }
         else Some lp) }
      else if STD_LOOP_DELAY st \<noteq> 0
      then do {
        let ct = clock (tick lp);
        n \<leftarrow> delay_loop st clock (ct + delay lp) ct (tick lp + 1);
        Some (lp\<lparr>tick := n\<rparr>) }
      else Some lp)"

definition usc_test_looping :: "flt \<Rightarrow> (nat \<Rightarrow> 64 word) \<Rightarrow> std \<Rightarrow> int \<Rightarrow> loop_state \<Rightarrow> (int \<times> loop_state) option" where
  "usc_test_looping F clock st counter lp = do {
     lp \<leftarrow> loop_prologue F clock st lp;
     let keepgoing = (if STD_INFINITE st \<noteq> 0 then 1 else 0) +
       (if STD_LOOP_COUNT st \<noteq> 0 \<and> counter < STD_LOOP_COUNT st then 1 else 0 :: int);
     let (keepgoing, lp) =
       (if STD_LOOP_DURATION st \<noteq> 0
        then (if clock (tick lp) < stop_time lp then keepgoing + 1 else keepgoing, lp\<lparr>tick := tick lp + 1\<rparr>)
        else (keepgoing, lp));
     if keepgoing = 0 then Some (0, lp)
     else do {
       usc_recressive_func (STD_LP_recfun st) st;
       Some (1, if STD_LP_sbrk st \<noteq> 0 then lp\<lparr>brk := brk lp + STD_LP_sbrk st\<rparr> else lp) } }"

text \<open>The loop of every test program, \<open>for (lc = 0; TEST_LOOPING (lc); lc++)\<close>: the number of iterations.\<close>

partial_function (option) test_loop :: "flt \<Rightarrow> (nat \<Rightarrow> 64 word) \<Rightarrow> std \<Rightarrow> int \<Rightarrow> loop_state \<Rightarrow> (int \<times> loop_state) option" where
  "test_loop F clock st lc lp = do {
     (r, lp) \<leftarrow> usc_test_looping F clock st lc lp;
     if r = 0 then Some (lc, lp)
     else do { lc \<leftarrow> checked 32 (lc + 1); test_loop F clock st lc lp } }"

declare test_loop.simps [code]

text \<open>Without failing forks the first process gets one child for each copy but itself, and a child forks no more.\<close>

lemma fork_loop_parent: "\<forall>i. 0 < forks i \<Longrightarrow> fork_loop forks n cnt copies kids = (False, kids + nat (copies - cnt))"
proof (induction forks n cnt copies kids rule: fork_loop.induct)
  case (1 forks n cnt copies kids)
  then have "forks n \<noteq> -1" "forks n \<noteq> 0" by (metis less_irrefl zero_less_one neg_0_less_iff_less less_asym', metis less_irrefl)
  with 1 show ?case by (subst fork_loop.simps) (auto simp: nat_diff_distrib')
qed

lemma fork_loop_child: "cnt < copies \<Longrightarrow> forks n = 0 \<Longrightarrow> fork_loop forks n cnt copies kids = (True, kids)"
  by (subst fork_loop.simps) simp

section \<open>How often a test runs\<close>

text \<open>Whether there is an iteration number \<open>k\<close>, when the check number \<open>k\<close> reads the clock for the time \<open>k + 1\<close>.\<close>

definition wants_iteration :: "(nat \<Rightarrow> 64 word) \<Rightarrow> std \<Rightarrow> 64 word \<Rightarrow> nat \<Rightarrow> bool" where
  "wants_iteration clock st u k \<longleftrightarrow> int k < STD_LOOP_COUNT st \<or> STD_LOOP_DURATION st \<noteq> 0 \<and> clock (k + 1) < u + clock 0"

lemma looping_step:
  assumes "STD_INFINITE st = 0" "STD_LOOP_DELAY st = 0" "STD_LP_recfun st = 0 \<or> STD_bigstack st"
    and "\<not> first_time lp" "STD_LOOP_DURATION st \<noteq> 0 \<longrightarrow> tick lp = k + 1 \<and> stop_time lp = u + clock 0"
  shows "\<exists>lp'. usc_test_looping F clock st (int k) lp = Some (of_bool (wants_iteration clock st u k), lp') \<and>
    \<not> first_time lp' \<and> (STD_LOOP_DURATION st \<noteq> 0 \<longrightarrow> tick lp' = k + 2 \<and> stop_time lp' = u + clock 0)"
  using assms by (auto simp: usc_test_looping_def loop_prologue_def wants_iteration_def usc_recressive_func_def Let_def)

lemma looping_first:
  assumes "STD_INFINITE st = 0" "STD_LOOP_DELAY st = 0" "STD_LP_recfun st = 0 \<or> STD_bigstack st"
    and "STD_LOOP_DURATION st \<noteq> 0 \<longrightarrow> uint64_of_float (usecs F (STD_LOOP_DURATION st)) = Some u"
  shows "\<exists>lp'. usc_test_looping F clock st 0 loop_init = Some (of_bool (wants_iteration clock st u 0), lp') \<and>
    \<not> first_time lp' \<and> (STD_LOOP_DURATION st \<noteq> 0 \<longrightarrow> tick lp' = 2 \<and> stop_time lp' = u + clock 0)"
  using assms by (auto simp: usc_test_looping_def loop_prologue_def loop_init_def wants_iteration_def usc_recressive_func_def Let_def)

lemma test_loop_from:
  assumes "STD_INFINITE st = 0" "STD_LOOP_DELAY st = 0" "STD_LP_recfun st = 0 \<or> STD_bigstack st"
    and "\<forall>j. k \<le> j \<and> j < n \<longrightarrow> wants_iteration clock st u j" "\<not> wants_iteration clock st u n" "k \<le> n" "n < 2 ^ 31"
    and "\<not> first_time lp" "STD_LOOP_DURATION st \<noteq> 0 \<longrightarrow> tick lp = k + 1 \<and> stop_time lp = u + clock 0"
  shows "\<exists>lp'. test_loop F clock st (int k) lp = Some (int n, lp')"
  using assms(4-9)
proof (induction "n - k" arbitrary: k lp)
  case 0
  then obtain lp' where "usc_test_looping F clock st (int k) lp = Some (0, lp')"
    using looping_step [where k = k and u = u and clock = clock and F = F, OF assms(1-3) 0(6,7)] by (metis diff_is_0_eq le_antisym of_bool_eq(1))
  then show ?case using 0 by (subst test_loop.simps) simp
next
  case (Suc d)
  then have "wants_iteration clock st u k" by simp
  then obtain lp' where l: "usc_test_looping F clock st (int k) lp = Some (1, lp')" "\<not> first_time lp'"
      "STD_LOOP_DURATION st \<noteq> 0 \<longrightarrow> tick lp' = Suc k + 1 \<and> stop_time lp' = u + clock 0"
    using looping_step [where k = k and u = u and clock = clock and F = F, OF assms(1-3) Suc.prems(5,6)] by auto
  have "\<exists>lp''. test_loop F clock st (int (Suc k)) lp' = Some (int n, lp'')"
    using Suc.hyps(2) Suc.prems(1-4) l(2,3) by (intro Suc.hyps(1)) auto
  moreover have "int_fits 32 (int k + 1)" using Suc.hyps(2) Suc.prems(4) by (simp add: int_fits_def)
  ultimately show ?case using l(1) by (subst test_loop.simps) (simp add: add.commute)
qed

text \<open>C34: A test program without infinite looping and delay returns from its loop after exactly \<open>n\<close> iterations, where \<open>n\<close> is
  the first number at which the count is used up and, when a duration was asked for, the clock has reached the start plus the
  duration. With a count alone this is the count itself, and no iteration for a negative one.\<close>

theorem test_loop_iterations:
  assumes "STD_INFINITE st = 0" "STD_LOOP_DELAY st = 0" "STD_LP_recfun st = 0"
    and "STD_LOOP_DURATION st \<noteq> 0 \<longrightarrow> uint64_of_float (usecs F (STD_LOOP_DURATION st)) = Some u"
    and "\<forall>j < n. wants_iteration clock st u j" "\<not> wants_iteration clock st u n" "n < 2 ^ 31"
  shows "\<exists>lp. test_loop F clock st 0 loop_init = Some (int n, lp) \<and>
    (STD_LOOP_DURATION st = 0 \<longrightarrow> int n = max 0 (STD_LOOP_COUNT st))"
proof -
  have "\<exists>lp. test_loop F clock st 0 loop_init = Some (int n, lp)"
  proof -
    obtain lp where lp: "usc_test_looping F clock st 0 loop_init = Some (of_bool (wants_iteration clock st u 0), lp)"
        "\<not> first_time lp" "STD_LOOP_DURATION st \<noteq> 0 \<longrightarrow> tick lp = 1 + 1 \<and> stop_time lp = u + clock 0"
      using looping_first [of st F u clock] assms(1-4) by auto
    show ?thesis
    proof (cases n)
      case 0
      then show ?thesis using assms(6) lp by (subst test_loop.simps) simp
    next
      case (Suc m)
      then have "wants_iteration clock st u 0" using assms(5) by simp
      moreover have "\<exists>lp'. test_loop F clock st (int 1) lp = Some (int n, lp')"
        using assms(1-3,5-7) lp(2,3) Suc by (intro test_loop_from [where u = u]) auto
      moreover have "int_fits 32 (0 + 1)" by (simp add: int_fits_def)
      ultimately show ?thesis using lp(1) by (subst test_loop.simps) simp
    qed
  qed
  moreover have "int n = max 0 (STD_LOOP_COUNT st)" if "STD_LOOP_DURATION st = 0"
  proof -
    have "\<not> int n < STD_LOOP_COUNT st" "\<forall>j < n. int j < STD_LOOP_COUNT st"
      using that assms(5,6) by (simp_all add: wants_iteration_def)
    then show ?thesis by (cases n) auto
  qed
  ultimately show ?thesis by blast
qed

definition demo_flt :: "flt" where
  "demo_flt = \<lparr>atof = (\<lambda>s. of_int (atoi s)), scan_f = (\<lambda>s. map_option of_int (scan_d s)), usecs = (\<lambda>x. 1000000 * x)\<rparr>"

theorem test_loop_iterations_witness:
  "\<exists>lp. test_loop demo_flt (\<lambda>n. of_nat n * 400000) ((std_init 0)\<lparr>STD_LOOP_DURATION := 1\<rparr>) 0 loop_init = Some (2, lp)"
proof -
  have u: "uint64_of_float (usecs demo_flt 1) = Some 1000000" by (simp add: uint64_of_float_def demo_flt_def)
  have "\<forall>j < 2. wants_iteration (\<lambda>n. of_nat n * 400000) ((std_init 0)\<lparr>STD_LOOP_DURATION := 1\<rparr>) 1000000 j"
    "\<not> wants_iteration (\<lambda>n. of_nat n * 400000) ((std_init 0)\<lparr>STD_LOOP_DURATION := 1\<rparr>) 1000000 2"
    by (auto simp: less_2_cases_iff wants_iteration_def std_init_def word_less_nat_alt)
  then show ?thesis
    using test_loop_iterations [of "(std_init 0)\<lparr>STD_LOOP_DURATION := 1\<rparr>" demo_flt 1000000 2 "\<lambda>n. of_nat n * 400000"] u
    by (force simp: std_init_def)
qed

section \<open>The command line\<close>

type_synonym setting = "(char \<times> string option) \<times> bool"

text \<open>An option with its argument as one word or as two.\<close>

fun render :: "setting \<Rightarrow> string list" where
  "render ((c, None), joined) = [[CHR ''-'', c]]"
| "render ((c, Some a), joined) = (if joined then [CHR ''-'' # c # a] else [[CHR ''-'', c], a])"

definition takes_arg :: "char \<Rightarrow> bool" where
  "takes_arg c \<longleftrightarrow> c \<in> set ''ciIP''"

definition standard :: "setting \<Rightarrow> bool" where
  "standard p = (case p of ((c, a), joined) \<Rightarrow>
     c \<in> set ''ciIPefpt'' \<and> (a \<noteq> None \<longleftrightarrow> takes_arg c) \<and> (joined \<longrightarrow> a \<noteq> Some []))"

lemma add_option_prefix: "\<exists>extra. add_option s opt = s @ extra \<and> (extra = [] \<or> hd extra \<notin> set s)"
  by (auto simp: add_option_def)

lemma option_string_prefix:
  "\<exists>extra. option_string user = ''c:efhi:I:pP:t'' @ extra \<and> (extra = [] \<or> hd extra \<notin> set ''c:efhi:I:pP:t'')"
proof -
  have "\<exists>extra. foldl add_option s os = s @ extra \<and> (extra = [] \<or> hd extra \<notin> set s)" for s os
  proof (induction os arbitrary: s)
    case (Cons opt os)
    obtain x where x: "add_option s opt = s @ x" "x = [] \<or> hd x \<notin> set s" using add_option_prefix by blast
    obtain y where "foldl add_option (s @ x) os = (s @ x) @ y" "y = [] \<or> hd y \<notin> set (s @ x)" using Cons by blast
    with x show ?case by (intro exI [of _ "x @ y"]) (cases x; auto)
  qed simp
  moreover have "concat std_options = ''c:efhi:I:pP:t''" by (simp add: std_options_def)
  ultimately show ?thesis unfolding option_string_def by metis
qed

lemma getopt_standard:
  assumes "standard ((c, a), joined)"
  shows "getopt (option_string user) [] (render ((c, a), joined) @ args) = Some ((c, a), [], args)"
proof -
  obtain extra where e: "option_string user = ''c:efhi:I:pP:t'' @ extra" "extra = [] \<or> hd extra \<notin> set ''c:efhi:I:pP:t''"
    using option_string_prefix by blast
  then have colon: "take 1 extra \<noteq> '':''" by (cases extra) auto
  have c: "c \<in> set ''ciIPefpt''" "a \<noteq> None \<longleftrightarrow> takes_arg c" "joined \<longrightarrow> a \<noteq> Some []" using assms by (auto simp: standard_def)
  have tail: "dropWhile (\<lambda>x. x \<noteq> c) (option_string user) \<noteq> []"
      "take 1 (tl (dropWhile (\<lambda>x. x \<noteq> c) (option_string user))) = '':'' \<longleftrightarrow> takes_arg c"
    using c(1) colon unfolding e(1) by (auto simp: takes_arg_def)
  have p: "c \<noteq> CHR '':''" "c \<noteq> CHR '';''" "c \<noteq> CHR ''-''" using c(1) by auto
  show ?thesis using c(2,3) p tail by (cases a) (auto simp: Let_def)
qed

fun run_options ::
  "flt \<Rightarrow> option_t list option \<Rightarrow> setting list \<Rightarrow> 32 word \<times> std \<Rightarrow> (opt_result \<times> 32 word \<times> std) option" where
  "run_options F user [] s = Some (Opt_ok, s)"
| "run_options F user (((c, a), joined) # os) s = do {
     (r, s) \<leftarrow> do_option F user c a s;
     if r = Opt_ok then run_options F user os s else Some (r, s) }"

lemma opts_loop_standard:
  assumes "\<forall>p \<in> set os. standard p" "getopt (option_string opts) [] rest = None"
  shows "opts_loop F user (option_string opts) [] (concat (map render os) @ rest) s = run_options F user os s"
  using assms(1)
proof (induction os arbitrary: s)
  case Nil
  then show ?case using assms(2) by (subst opts_loop.simps) simp
next
  case (Cons p os)
  obtain c a joined where p: "p = ((c, a), joined)" by (metis surj_pair)
  then have "getopt (option_string opts) [] (concat (map render (p # os)) @ rest) = Some ((c, a), [], concat (map render os) @ rest)"
    using Cons.prems getopt_standard [of c a joined opts "concat (map render os) @ rest"] by simp
  with Cons p show ?case by (subst opts_loop.simps) (auto split: bind_split)
qed

text \<open>What remains of the standard options: the last argument of each.\<close>

definition last_arg :: "char \<Rightarrow> setting list \<Rightarrow> string option" where
  "last_arg c os = foldl (\<lambda>r ((x, a), joined). if x = c then a else r) None os"

lemma last_arg_snoc: "last_arg c (os @ [((x, a), j)]) = (if x = c then a else last_arg c os)"
  by (simp add: last_arg_def)

lemma run_options_snoc:
  "run_options F user (os @ [((c, a), j)]) s =
     (case run_options F user os s of Some (Opt_ok, s) \<Rightarrow> do_option F user c a s | x \<Rightarrow> x)"
  by (induction F user os s rule: run_options.induct) (auto split: bind_split option.splits opt_result.splits)

lemma getopt_end: "getopt optstring [] [] = None" "getopt optstring [] (''--'' # words) = None"
  by simp_all

definition given :: "char \<Rightarrow> setting list \<Rightarrow> bool" where
  "given c os \<longleftrightarrow> (\<exists>p \<in> set os. fst (fst p) = c)"

lemma given_snoc: "given c (os @ [((x, a), j)]) \<longleftrightarrow> given c os \<or> x = c"
  by (auto simp: given_def)

text \<open>The state after the standard options \<open>os\<close>.\<close>

definition set_by :: "flt \<Rightarrow> setting list \<Rightarrow> 32 word \<Rightarrow> std \<Rightarrow> bool" where
  "set_by F os options st \<longleftrightarrow>
     (options AND OPT_iteration = 0 \<longleftrightarrow> last_arg (CHR ''i'') os = None) \<and>
     (options AND OPT_duration = 0 \<longleftrightarrow> last_arg (CHR ''I'') os = None) \<and>
     (options AND OPT_delay = 0 \<longleftrightarrow> last_arg (CHR ''P'') os = None) \<and>
     (options AND OPT_copies = 0 \<longleftrightarrow> last_arg (CHR ''c'') os = None) \<and>
     options AND OPT_nofunccheck = 0 \<and>
     STD_LOOP_COUNT st = (case last_arg (CHR ''i'') os of Some s \<Rightarrow> atoi s | None \<Rightarrow> 1) \<and>
     STD_LOOP_DURATION st = (case last_arg (CHR ''I'') os of Some s \<Rightarrow> atof F s | None \<Rightarrow> 0) \<and>
     STD_LOOP_DELAY st = (case last_arg (CHR ''P'') os of Some s \<Rightarrow> atof F s | None \<Rightarrow> 0) \<and>
     STD_COPIES st = (case last_arg (CHR ''c'') os of Some s \<Rightarrow> atoi s | None \<Rightarrow> 1) \<and>
     STD_FUNCTIONAL_TEST st = (if given (CHR ''f'') os then 0 else 1) \<and>
     STD_PAUSE st = of_bool (given (CHR ''p'') os) \<and> STD_TIMING_ON st = of_bool (given (CHR ''t'') os) \<and>
     STD_ERRNO_LOG st = of_bool (given (CHR ''e'') os)"

lemma opt_bits:
  "OPT_iteration \<noteq> 0" "OPT_duration \<noteq> 0" "OPT_delay \<noteq> 0" "OPT_copies \<noteq> 0"
  "OPT_iteration AND OPT_iteration \<noteq> 0" "OPT_iteration AND OPT_duration = 0" "OPT_iteration AND OPT_delay = 0"
  "OPT_iteration AND OPT_copies = 0" "OPT_iteration AND OPT_nofunccheck = 0"
  "OPT_duration AND OPT_iteration = 0" "OPT_duration AND OPT_duration \<noteq> 0" "OPT_duration AND OPT_delay = 0"
  "OPT_duration AND OPT_copies = 0" "OPT_duration AND OPT_nofunccheck = 0"
  "OPT_delay AND OPT_iteration = 0" "OPT_delay AND OPT_duration = 0" "OPT_delay AND OPT_delay \<noteq> 0"
  "OPT_delay AND OPT_copies = 0" "OPT_delay AND OPT_nofunccheck = 0"
  "OPT_copies AND OPT_iteration = 0" "OPT_copies AND OPT_duration = 0" "OPT_copies AND OPT_delay = 0"
  "OPT_copies AND OPT_copies \<noteq> 0" "OPT_copies AND OPT_nofunccheck = 0"
  by (simp_all add: OPT_iteration_def OPT_nofunccheck_def OPT_duration_def OPT_delay_def OPT_copies_def)

lemma or_bits: "(options OR b) AND m = 0 \<longleftrightarrow> options AND m = 0 \<and> b AND m = (0 :: 32 word)"
  by (auto simp: bit_eq_iff bit_and_iff bit_or_iff)

lemma do_option_set_by:
  assumes "set_by F os options st" "standard ((c, a), j)"
  shows "\<exists>options' st'. do_option F user c a (options, st) = Some (Opt_ok, options', st') \<and> set_by F (os @ [((c, a), j)]) options' st'"
proof -
  note defs = do_option_def last_arg_snoc given_snoc or_bits opt_bits
  note inv = assms(1) [unfolded set_by_def]
  from assms(2) have c: "c \<in> set ''ciIPefpt''" "a \<noteq> None \<longleftrightarrow> takes_arg c" by (auto simp: standard_def)
  show ?thesis
  proof (cases a)
    case None
    with c have "c = CHR ''e'' \<or> c = CHR ''f'' \<or> c = CHR ''p'' \<or> c = CHR ''t''" by (auto simp: takes_arg_def)
    then show ?thesis using inv None unfolding set_by_def by (elim disjE) (simp_all add: defs)
  next
    case (Some s)
    with c have "c = CHR ''c'' \<or> c = CHR ''i'' \<or> c = CHR ''I'' \<or> c = CHR ''P''" by (auto simp: takes_arg_def)
    then show ?thesis using inv Some unfolding set_by_def by (elim disjE) (simp_all add: defs Let_def)
  qed
qed

lemma run_options_set_by:
  "\<forall>p \<in> set os. standard p \<Longrightarrow>
   \<exists>options st. run_options F user os (0, std_init n) = Some (Opt_ok, options, st) \<and> set_by F os options st"
proof (induction os rule: rev_induct)
  case Nil
  then show ?case by (auto simp: set_by_def std_init_def last_arg_def given_def)
next
  case (snoc p os)
  obtain c a j where p: "p = ((c, a), j)" by (metis surj_pair)
  obtain options st where "run_options F user os (0, std_init n) = Some (Opt_ok, options, st)" "set_by F os options st"
    using snoc by auto
  with do_option_set_by [of F os options st c a j user] snoc.prems p show ?case by (simp add: run_options_snoc)
qed

definition same_rest :: "std \<Rightarrow> std \<Rightarrow> bool" where
  "same_rest st st' \<longleftrightarrow> STD_COPIES st = STD_COPIES st' \<and> STD_LOOP_DELAY st = STD_LOOP_DELAY st' \<and>
     STD_PAUSE st = STD_PAUSE st' \<and> STD_TIMING_ON st = STD_TIMING_ON st' \<and> STD_ERRNO_LOG st = STD_ERRNO_LOG st'"

text \<open>An option is set by its last argument, else by the environment, else to its default.\<close>

definition setting_value :: "'a option \<Rightarrow> 'a option \<Rightarrow> 'a \<Rightarrow> 'a" where
  "setting_value arg env def = (case arg of Some x \<Rightarrow> x | None \<Rightarrow> (case env of Some x \<Rightarrow> x | None \<Rightarrow> def))"


definition demo_settings :: "setting list" where
  "demo_settings = [((CHR ''i'', Some ''3''), True), ((CHR ''P'', Some ''2''), False), ((CHR ''i'', Some ''7''), False), ((CHR ''e'', None), False)]"


section \<open>The recursion hook\<close>

lemma user_option_bigstack: "user_option user c a st = Some (r, st') \<Longrightarrow> STD_bigstack st' = STD_bigstack st"
  by (auto simp: user_option_def Let_def split: option.splits if_splits)

lemma do_option_bigstack: "do_option F user c a (options, st) = Some (r, options', st') \<Longrightarrow> STD_bigstack st' = STD_bigstack st"
  by (auto simp: do_option_def Let_def user_option_bigstack split: if_splits bind_splits)

lemma opts_loop_bigstack:
  "opts_loop F user optionstr cur args s = Some (r, options, st) \<Longrightarrow> STD_bigstack st = STD_bigstack (snd s)"
proof (induction F user optionstr cur args s arbitrary: r options st rule: opts_loop.induct)
  case (1 F user optionstr cur args s)
  obtain o0 st0 where s: "s = (o0, st0)" by fastforce
  show ?case
  proof (cases "getopt optionstr cur args")
    case None
    then show ?thesis using "1.prems" s by (subst (asm) opts_loop.simps) simp
  next
    case (Some g)
    obtain c optarg cur' args' where g: "g = ((c, optarg), cur', args')" by (metis surj_pair)
    obtain r1 o1 st1 where d: "do_option F user c optarg (o0, st0) = Some (r1, o1, st1)"
      using "1.prems" Some g s by (subst (asm) opts_loop.simps) (auto split: bind_splits)
    have "STD_bigstack st = STD_bigstack st1"
    proof (cases "r1 = Opt_ok")
      case True
      then have "opts_loop F user optionstr cur' args' (o1, st1) = Some (r, options, st)"
        using "1.prems" Some g s d by (subst (asm) opts_loop.simps) simp
      then show ?thesis using "1.IH" [OF Some, of "(c, optarg)" "(cur', args')" c optarg cur' args'] g s d True by auto
    next
      case False
      then show ?thesis using "1.prems" Some g s d by (subst (asm) opts_loop.simps) simp
    qed
    then show ?thesis using do_option_bigstack [OF d] s by simp
  qed
qed

lemma env_bigstack: "STD_bigstack (env_defaults F env options st) = STD_bigstack st"
    "STD_LP_recfun (env_defaults F env options st) = env_hook env ''USC_LP_RECFUN'' (STD_LP_recfun
      (env_copies env options (env_delay F env options (env_duration F env ''USC_DURATION'' options
        (env_duration F env ''USC_LOOP_WALLTIME'' options (env_nofunccheck env options (env_iterations env options st)))))))"
  by (simp_all add: env_defaults_def env_hooks_def env_copies_def env_delay_def env_duration_def env_nofunccheck_def
      env_iterations_def Let_def split: option.split)

text \<open>The test hook \<open>USC_LP_RECFUN\<close> cannot be used: the buffer for it is allocated only when it exists already, so that after
  any successful parsing with a positive number in the variable the first iteration passes a null pointer's contents.\<close>

lemma recfun_undefined:
  assumes "parse_opts F env user args (std_init n) = Some (Opt_ok, st)" "env_nat env ''USC_LP_RECFUN'' = Some k" "k \<noteq> 0"
    and "counter < STD_LOOP_COUNT st" "STD_LOOP_COUNT st \<noteq> 0"
  shows "usc_test_looping F clock st counter lp = None"
proof -
  obtain options st0 opts where p: "opts_loop F user (option_string opts) [] args (0, std_init n) = Some (Opt_ok, options, st0)"
      "st = env_defaults F env options st0"
    using assms(1) by (auto simp: parse_opts_def Let_def split: if_splits bind_splits)
  have "\<not> STD_bigstack st" using opts_loop_bigstack [OF p(1)] by (simp add: p(2) env_bigstack std_init_def)
  moreover have "STD_LP_recfun st \<noteq> 0" using assms(2,3) by (simp add: p(2) env_bigstack env_hook_def)
  ultimately show ?thesis
    using assms(4,5) by (auto simp: usc_test_looping_def usc_recressive_func_def Let_def split: bind_split)
qed

lemma recfun_undefined_witness:
  "\<exists>st. parse_opts demo_flt [''USC_LP_RECFUN'' \<mapsto> ''1''] None [] (std_init 0) = Some (Opt_ok, st) \<and>
    usc_test_looping demo_flt (\<lambda>_. 0) st 0 loop_init = None"
proof -
  have k: "scan_int ''1'' = Some (1, [])" by code_simp
  have p: "parse_opts demo_flt [''USC_LP_RECFUN'' \<mapsto> ''1''] None [] (std_init 0) = Some (Opt_ok, env_defaults demo_flt [''USC_LP_RECFUN'' \<mapsto> ''1''] 0 (std_init 0))"
    by (subst parse_opts_def, subst opts_loop.simps) simp
  have c: "STD_LOOP_COUNT (env_defaults demo_flt [''USC_LP_RECFUN'' \<mapsto> ''1''] 0 (std_init 0)) = 1"
    by (simp add: env_defaults_def env_hooks_def env_copies_def env_delay_def env_duration_def env_nofunccheck_def
        env_iterations_def env_float_def std_init_def)
  have e: "env_nat [''USC_LP_RECFUN'' \<mapsto> ''1''] ''USC_LP_RECFUN'' = Some 1" by (simp add: env_nat_def scan_i_def k)
  show ?thesis using recfun_undefined [OF p e] p c by simp
qed

end
