(* ===== verification/Pan_Main.thy ===== *)
theory Pan_Main
  imports Pan_Props Parse_Opts
begin

text \<open>
  \<open>main\<close> of \<^verbatim>\<open>pan/ltp-pan.c\<close> from its arguments to its exit status: the options, the set-up of the state that the
  scheduling loop of \<open>Pan\<close> starts with, the loop, and the end; and what the child does between \<open>fork\<close> and \<open>exec\<close>.
  Messages on the error output, and the ones about the run time and the stop, are left out; the debug bits only print.
\<close>

section \<open>Options\<close>

record pan_opts =
  po_zooname :: "string option"
  po_filename :: string
  po_logfile :: "string option"
  po_failcmd :: "string option"
  po_output :: "string option"
  po_keep :: int
  po_starts :: int
  po_timed :: bool
  po_run_time :: int
  po_modifier :: char
  po_brakes :: bool
  po_track :: bool
  po_sequential :: bool
  po_fork_in_road :: bool
  po_fmt_print :: bool
  po_quiet :: bool
  po_panname :: "string option"
  po_report :: "string option"
  po_out_dir :: "string option"

definition pan_defaults :: pan_opts where
  "pan_defaults = \<lparr>po_zooname = None, po_filename = ''/dev/null'', po_logfile = None, po_failcmd = None, po_output = None,
     po_keep = 1, po_starts = -1, po_timed = False, po_run_time = -1, po_modifier = CHR ''m'', po_brakes = False,
     po_track = False, po_sequential = False, po_fork_in_road = False, po_fmt_print = False, po_quiet = False,
     po_panname = None, po_report = None, po_out_dir = None\<rparr>"

text \<open>The run time in seconds; \<open>Inl\<close> is an exit.\<close>

definition apply_modifier :: "pan_opts \<Rightarrow> (int + pan_opts) option" where
  "apply_modifier po =
     (let set = (\<lambda>t. map_option (\<lambda>t. Inr (po\<lparr>po_run_time := t, po_timed := True\<rparr>)) (checked 32 t));
          m = po_modifier po
      in if m = CHR ''s'' then set (po_run_time po)
         else if m = CHR ''m'' then set (po_run_time po * 60)
         else if m = CHR ''h'' then set (po_run_time po * 60 * 60)
         else if m = CHR ''d'' then set (po_run_time po * 60 * 60 * 24)
         else Some (Inl (-1)))"

text \<open>\<open>-t\<close>: \<open>sscanf\<close> with \<open>%d%c\<close> stores nothing and is -1 on a blank argument, is 0 on one without a number, 1 on a number
  alone, which is then taken as seconds whatever the message says, and 2 on a number and a letter.\<close>

definition time_option :: "string \<Rightarrow> pan_opts \<Rightarrow> (int + pan_opts) option" where
  "time_option optarg po =
     (let s = dropWhile is_space optarg; (neg, r) = scan_sign s; (n, rest) = scan_digits 10 0 r
      in if s = [] then apply_modifier po
         else if \<not> starts_digit 10 r then Some (Inr po)
         else do {
           t \<leftarrow> checked 32 (if neg then - int n else int n);
           (case rest of
              [] \<Rightarrow> Some (Inr (po\<lparr>po_run_time := t, po_timed := True\<rparr>))
            | c # _ \<Rightarrow> apply_modifier (po\<lparr>po_run_time := t, po_modifier := c\<rparr>)) })"

text \<open>One option, with its argument. An unknown option, or one without its argument, is ignored.\<close>

fun pan_option :: "char \<Rightarrow> string option \<Rightarrow> pan_opts \<Rightarrow> (int + pan_opts) option" where
  "pan_option c None po =
     (if c = CHR ''h'' then Some (Inl 0)
      else Some (Inr (
        if c = CHR ''A'' then po\<lparr>po_brakes := True, po_track := True\<rparr>
        else if c = CHR ''S'' then po\<lparr>po_sequential := True\<rparr>
        else if c = CHR ''e'' then po\<lparr>po_track := True\<rparr>
        else if c = CHR ''p'' then po\<lparr>po_fmt_print := True\<rparr>
        else if c = CHR ''q'' then po\<lparr>po_quiet := True\<rparr>
        else if c = CHR ''y'' then po\<lparr>po_fork_in_road := True\<rparr>
        else po)))"
| "pan_option c (Some optarg) po =
     (if c = CHR ''t'' then time_option optarg po
      else Some (Inr (
        if c = CHR ''O'' then po\<lparr>po_out_dir := Some optarg\<rparr>
        else if c = CHR ''a'' then po\<lparr>po_zooname := Some optarg\<rparr>
        else if c = CHR ''C'' then po\<lparr>po_failcmd := Some optarg\<rparr>
        else if c = CHR ''f'' then po\<lparr>po_filename := optarg\<rparr>
        else if c = CHR ''l'' then po\<lparr>po_logfile := Some optarg\<rparr>
        else if c = CHR ''n'' then po\<lparr>po_panname := Some optarg\<rparr>
        else if c = CHR ''o'' then po\<lparr>po_output := Some optarg\<rparr>
        else if c = CHR ''r'' then po\<lparr>po_report := Some optarg\<rparr>
        else if c = CHR ''s'' then po\<lparr>po_starts := atoi optarg\<rparr>
        else if c = CHR ''x'' then po\<lparr>po_keep := atoi optarg\<rparr>
        else po)))"

text \<open>The loop over the options. \<open>getopt\<close> moves the words that are no options behind the options: the result has the
  arguments in their new order, as the options and the words.\<close>

definition no_option :: "string \<Rightarrow> bool" where
  "no_option a \<longleftrightarrow> length a < 2 \<or> hd a \<noteq> CHR ''-''"

function pan_options ::
  "string \<Rightarrow> string \<Rightarrow> string list \<Rightarrow> pan_opts \<Rightarrow> (int + pan_opts \<times> string list \<times> string list) option" where
  "pan_options optstring cur args po =
     (let words = (if cur = [] then takeWhile no_option args else []); rest = drop (length words) args
      in case getopt optstring cur args of
           None \<Rightarrow> Some (Inr (po, take 1 rest, words @ drop 1 rest))
         | Some ((c, optarg), cur', args') \<Rightarrow> do {
             r \<leftarrow> pan_option c optarg po;
             (case r of
                Inl e \<Rightarrow> Some (Inl e)
              | Inr po \<Rightarrow> do {
                  r \<leftarrow> pan_options optstring cur' args' po;
                  Some (case r of
                     Inl e \<Rightarrow> Inl e
                   | Inr (po, os, ws) \<Rightarrow> Inr (po, take (length rest - length args') rest @ os, words @ ws)) }) })"
  by pat_completeness auto
termination
  by (relation "measure (\<lambda>(optstring, cur, args, po). length cur + sum_list (map (Suc \<circ> length) args))")
    (auto dest: getopt_shrinks)

declare pan_options.simps [simp del]

section \<open>Set-up\<close>

text \<open>What the system answers: the environment, whether the files can be opened (the log, the output, the failed
  commands), the files that are read, whether the buffer directory is one that can be used, the opened zoo, the text of the
  start time, and the numbers that the seed is made of.\<close>

record setup_env =
  se_getenv :: "string \<Rightarrow> string option"
  se_log :: bool
  se_output :: bool
  se_failcmd :: bool
  se_files :: "string \<Rightarrow> int + string"
  se_out_dir :: bool
  se_zoo :: "string \<Rightarrow> zoo option"
  se_ctime :: string
  se_time :: int
  se_pid :: int
  se_kill :: "nat \<Rightarrow> int"

text \<open>\<open>%-30.20s %-10.10s %-10.10s\<close> and the lines at the start of the log.\<close>

definition pad_field :: "nat \<Rightarrow> nat \<Rightarrow> string \<Rightarrow> string" where
  "pad_field w m s = take m s @ replicate (w - length (take m s)) (CHR '' '')"

definition log_columns :: "string \<Rightarrow> string \<Rightarrow> string \<Rightarrow> string" where
  "log_columns a b c = pad_field 30 20 a @ '' '' @ pad_field 10 10 b @ '' '' @ pad_field 10 10 c"

definition log_header :: "bool \<Rightarrow> string \<Rightarrow> string list" where
  "log_header fmt s =
     (if \<not> fmt then [''startup='' @ [CHR 0x27] @ s @ [CHR 0x27]]
      else [''Test Start Time: '' @ s, ''-----------------------------------------'',
            log_columns ''Testcase'' ''Result'' ''Exit Value'', log_columns ''--------'' ''------'' ''------------''])"

text \<open>\<open>strcasecmp (s, ''none'')\<close>.\<close>

definition to_lower :: "char \<Rightarrow> char" where
  "to_lower c = (if 65 \<le> (of_char c :: nat) \<and> (of_char c :: nat) \<le> 90 then char_of (of_char c + 32 :: nat) else c)"

definition reports_rts :: "string option \<Rightarrow> bool" where
  "reports_rts r = (case r of None \<Rightarrow> True | Some s \<Rightarrow> map to_lower s \<noteq> ''none'')"

text \<open>The array of slots: its end has a slot more. \<open>memset\<close> with a negative number is outside of it, and a more negative
  number is a size that cannot be allocated.\<close>

definition alloc_slots :: "int \<Rightarrow> (int + tag_pgrp list) option" where
  "alloc_slots keep = do {
     n \<leftarrow> checked 32 (keep + 1);
     if n < 0 then Some (Inl 2) else if n = 0 then None else Some (Inr (replicate (nat keep) empty_slot)) }"

definition start_seed :: "int \<Rightarrow> int \<Rightarrow> nat option" where
  "start_seed t pid = do {
     hi \<leftarrow> checked 32 (pid * 2 ^ 15);
     n \<leftarrow> checked 32 (pid + hi);
     Some (random_range_seed (t XOR n)) }"

text \<open>The state at the head of the loop, with the configuration, the commands, the argument of \<open>alarm\<close> and the start of the
  log.\<close>

record pan_setup =
  su_conf :: pan_conf
  su_coll :: "coll_entry list"
  su_alarm :: "int option"
  su_header :: "string list"
  su_state :: pan

definition setup_conf :: "setup_env \<Rightarrow> pan_opts \<Rightarrow> string \<Rightarrow> pan_conf" where
  "setup_conf se po name =
     \<lparr>keep_active = nat (po_keep po), sequential = po_sequential po, has_brakes = po_brakes po,
      track_exit_stats = po_track po, fmt_print = po_fmt_print po, quiet_mode = po_quiet po,
      log_open = po_logfile po \<noteq> None, failcmd_open = po_failcmd po \<noteq> None,
      test_out_dir = (if po_keep po = 1 then None else po_out_dir po), rts = reports_rts (po_report po),
      panname = name, own_pid = se_pid se\<rparr>"

definition setup_state :: "setup_env \<Rightarrow> pan_opts \<Rightarrow> int \<Rightarrow> tag_pgrp list \<Rightarrow> zoo option \<Rightarrow> nat \<Rightarrow> pan" where
  "setup_state se po cnt slots z rand =
     \<lparr>running = slots, num_active = 0, orphans = [0], rec_signal = 0, send_signal = 0, lastsent = 0, failcnt = 0,
      zoofile = z, kill_errno = se_kill se, kills = [], log = [], failcmds = [], report = [], cmdno = 0, pcnt_counter = 1,
      starts = init_starts (po_timed po) (po_sequential po) (po_starts po) (nat cnt) (nat (po_keep po)),
      stop = 0, go_idle = 0, fork_in_road = po_fork_in_road po, exit_stat = 0, cmd_index = 0, seed = rand\<rparr>"

text \<open>The files that are opened, in order; a file that was not asked for is no error.\<close>

definition opened :: "'a option \<Rightarrow> bool \<Rightarrow> bool" where
  "opened name ok \<longleftrightarrow> name = None \<or> ok"

definition setup_zoo :: "pan_conf \<Rightarrow> string list \<Rightarrow> zoo option \<Rightarrow> (int + zoo option) option" where
  "setup_zoo cf argv z =
     (case z of
        None \<Rightarrow> Some (Inl 1)
      | Some _ \<Rightarrow> do { (ok, z) \<leftarrow> zoo_reserve cf argv z; Some (if ok then Inr z else Inl 1) })"

text \<open>A step that may exit, and a check.\<close>

definition or_exit :: "(int + 'a) option \<Rightarrow> ('a \<Rightarrow> (int + 'b) option) \<Rightarrow> (int + 'b) option" where
  "or_exit m f = (case m of None \<Rightarrow> None | Some (Inl e) \<Rightarrow> Some (Inl e) | Some (Inr x) \<Rightarrow> f x)"

lemma or_exit_Inr: "or_exit m f = Some (Inr y) \<longleftrightarrow> (\<exists>x. m = Some (Inr x) \<and> f x = Some (Inr y))"
  by (auto simp: or_exit_def split: option.splits sum.splits)

definition check_1 :: "bool \<Rightarrow> (int + unit) option" where
  "check_1 b = Some (if b then Inr () else Inl 1)"

lemma check_1_Inr [simp]: "check_1 b = Some (Inr u) \<longleftrightarrow> b"
  by (simp add: check_1_def)

definition pan_prepare ::
  "setup_env \<Rightarrow> pan_opts \<Rightarrow> string \<Rightarrow> string list \<Rightarrow> coll_entry list \<Rightarrow> string \<Rightarrow> (int + pan_setup) option" where
  "pan_prepare se po name argv coll zooname =
     or_exit (alloc_slots (po_keep po)) (\<lambda>slots.
     or_exit (map_option Inr (start_seed (se_time se) (se_pid se))) (\<lambda>rand.
       let cf = setup_conf se po name in
       or_exit (check_1 (opened (test_out_dir cf) (se_out_dir se) \<and> opened (po_output po) (se_output se) \<and>
         opened (po_failcmd po) (se_failcmd se))) (\<lambda>_.
       or_exit (setup_zoo cf argv (se_zoo se zooname)) (\<lambda>z.
       Some (Inr
         \<lparr>su_conf = cf, su_coll = coll,
          su_alarm = (if po_run_time po = -1 then None else Some (po_run_time po)),
          su_header = (if po_logfile po = None then [] else log_header (po_fmt_print po) (se_ctime se)),
          su_state = setup_state se po (int (length coll)) slots z rand\<rparr>)))))"

definition pan_start ::
  "setup_env \<Rightarrow> pan_opts \<Rightarrow> string \<Rightarrow> string list \<Rightarrow> string list \<Rightarrow> (int + pan_setup) option" where
  "pan_start se po name argv words =
     (case (case po_zooname po of None \<Rightarrow> zoo_getname (se_getenv se) | Some z \<Rightarrow> Some z) of
        None \<Rightarrow> Some (Inl 1)
      | Some zooname \<Rightarrow>
          or_exit (check_1 (opened (po_logfile po) (po_logfile po = Some ''-'' \<or> se_log se))) (\<lambda>_.
          or_exit (map_option Inr (get_collection (se_files se) (po_filename po) words)) (\<lambda>coll.
          or_exit (check_1 (coll \<noteq> None \<and> coll \<noteq> Some [])) (\<lambda>_.
          pan_prepare se po name argv (the coll) zooname))))"

definition pan_optstring :: string where "pan_optstring = ''AO:Sa:C:d:ef:hl:n:o:pqr:s:t:x:y''"

definition pan_setup_main :: "setup_env \<Rightarrow> string \<Rightarrow> string list \<Rightarrow> (int + pan_setup) option" where
  "pan_setup_main se argv0 args =
     or_exit (pan_options pan_optstring [] args pan_defaults) (\<lambda>(po, os, words).
       (case po_panname po of
          None \<Rightarrow> Some (Inl 1)
        | Some name \<Rightarrow> pan_start se po name (argv0 # os @ words) words))"

section \<open>The program\<close>

text \<open>The loop of \<open>main\<close>: \<open>envs n\<close> is what the kernel answers in the \<open>n\<close>th iteration.\<close>

partial_function (option) pan_loop ::
  "pan_conf \<Rightarrow> coll_entry list \<Rightarrow> (nat \<Rightarrow> iter_env) \<Rightarrow> nat \<Rightarrow> pan \<Rightarrow> (outcome \<times> pan) option" where
  "pan_loop cf coll envs n p = do {
     (r, p) \<leftarrow> iterate cf coll (envs n) p;
     (case r of
        Continue \<Rightarrow> pan_loop cf coll envs (n + 1) p
      | Break \<Rightarrow> pan_end cf p
      | Leave o' \<Rightarrow> Some (o', p)) }"

declare pan_loop.simps [code]

text \<open>The summary at the end of a formatted log; \<open>uts\<close> is the release, the machine and the name of the node.\<close>

definition log_summary :: "pan_setup \<Rightarrow> string \<times> string \<times> string \<Rightarrow> pan \<Rightarrow> string list" where
  "log_summary su uts p =
     (if log_open (su_conf su) \<and> fmt_print (su_conf su)
      then ['''', ''-----------------------------------------------'',
            ''Total Tests: '' @ show_nat (length (su_coll su)), ''Total Failures: '' @ show_int (failcnt p),
            ''Kernel Version: '' @ fst uts, ''Machine Architecture: '' @ fst (snd uts), ''Hostname: '' @ snd (snd uts), '''']
      else [])"

text \<open>The whole program: how it ends, with the text lines of the log before and after the entries, and its last state.\<close>

definition ltp_pan ::
  "setup_env \<Rightarrow> string \<Rightarrow> string list \<Rightarrow> (nat \<Rightarrow> iter_env) \<Rightarrow> string \<times> string \<times> string \<Rightarrow>
     (outcome \<times> (string list \<times> string list \<times> pan) option) option" where
  "ltp_pan se argv0 args envs uts = do {
     r \<leftarrow> pan_setup_main se argv0 args;
     (case r of
        Inl e \<Rightarrow> Some (Exit_with e, None)
      | Inr su \<Rightarrow> do {
          (o', p) \<leftarrow> pan_loop (su_conf su) (su_coll su) envs 0 (su_state su);
          Some (o', Some (su_header su, log_summary su uts p, p)) }) }"

section \<open>The child\<close>

text \<open>What the child meets before \<open>exec\<close>: the \<open>errno\<close> of each \<open>dup2\<close> and of \<open>exec\<close>, 0 for success. A message for the
  driver is built in \<open>errbuf[1024]\<close>; writing it to the pipe is taken to succeed.\<close>

record exec_env =
  dup_stdout :: int
  dup_stderr :: int
  exec_errno :: int
  exec_strerror :: "int \<Rightarrow> string"

text \<open>The message for the driver, with the wait status of the \<open>exit\<close> that follows.\<close>

definition child_fails :: "string \<Rightarrow> int \<Rightarrow> (string \<times> nat) option option" where
  "child_fails msg code = (if length msg < 1024 then Some (Some (msg, nat (code mod 256) * 256)) else None)"

definition pan_says :: "string \<Rightarrow> string \<Rightarrow> string" where
  "pan_says name msg = ''pan('' @ name @ ''): '' @ msg"

definition redirect_failed :: "pan_conf \<Rightarrow> exec_env \<Rightarrow> string \<Rightarrow> string \<Rightarrow> int \<Rightarrow> (string \<times> nat) option option" where
  "redirect_failed cf ans stream tag e =
     child_fails (pan_says (panname cf)
       (''couldn'' @ [CHR 0x27] @ ''t redirect '' @ stream @ '' for tag '' @ tag @ ''.  errno:'' @ show_int e @ ''  '' @ exec_strerror ans e)) 2"

text \<open>\<open>Some None\<close> is a child that runs its command. The name of a command without words is a null pointer, which \<open>%s\<close> of
  the C library prints as shown.\<close>

definition child_side :: "pan_conf \<Rightarrow> exec_env \<Rightarrow> coll_entry \<Rightarrow> string \<Rightarrow> (string \<times> nat) option option" where
  "child_side cf ans colle c_cmdline =
     (let tag = ce_name colle; e = exec_errno ans in
      if test_out_dir cf \<noteq> None \<and> dup_stdout ans \<noteq> 0 then redirect_failed cf ans ''stdout'' tag (dup_stdout ans)
      else if dup_stderr ans \<noteq> 0 then redirect_failed cf ans ''stderr'' tag (dup_stderr ans)
      else do {
        x \<leftarrow> child_exec c_cmdline;
        if e = 0 then Some None
        else (case x of
                Shell cmd \<Rightarrow> child_fails (pan_says (panname cf)
                  (''execlp of '' @ [CHR 0x27] @ cmd @ [CHR 0x27] @ '' (tag '' @ tag @ '') failed.  errno:'' @ show_int e @ '' '' @ exec_strerror ans e)) e
              | Exec argv \<Rightarrow> child_fails (pan_says (panname cf)
                  (''execvp of '' @ [CHR 0x27] @ hd argv @ [CHR 0x27] @ '' (tag '' @ tag @ '') failed.  errno:'' @ show_int e @ ''  '' @ exec_strerror ans e)) e
              | Exec_null \<Rightarrow> child_fails (pan_says (panname cf)
                  (''execvp of '' @ [CHR 0x27] @ ''(null)'' @ [CHR 0x27] @ '' (tag '' @ tag @ '') failed.  errno:'' @ show_int e @ ''  '' @ exec_strerror ans e)) e) })"

text \<open>The answer that the driver meets in \<open>start_child\<close> when its child is this one.\<close>

definition with_child :: "pan_conf \<Rightarrow> exec_env \<Rightarrow> coll_entry \<Rightarrow> string \<Rightarrow> child_env \<Rightarrow> child_env option" where
  "with_child cf ans colle c_cmdline env = map_option (\<lambda>x. env\<lparr>exec_error := x\<rparr>) (child_side cf ans colle c_cmdline)"

text \<open>A command that cannot be run ends with the error number as its exit status, which the driver logs as a failure.\<close>

lemma child_fails_decode:
  assumes "child_fails msg code = Some (Some (m, stat))" "0 < code" "code < 256"
  shows "m = msg \<and> wait_decode stat = (code, Exited, False, 1, True)"
  using assms nat_dvd_not_less [of "nat code" 256]
  by (auto simp: child_fails_def wait_decode_def WIFSIGNALED_def WIFEXITED_def WTERMSIG_def WEXITSTATUS_def split: if_splits)

lemma child_side_status:
  assumes "child_side cf ans colle c = Some (Some (m, stat))" "0 \<le> exec_errno ans" "exec_errno ans < 256"
  shows "\<exists>w > 0. wait_decode stat = (w, Exited, False, 1, True)"
proof -
  obtain msg code where "child_fails msg code = Some (Some (m, stat))" "code = 2 \<or> code = exec_errno ans \<and> exec_errno ans \<noteq> 0"
    using assms(1)
    by (auto simp: child_side_def redirect_failed_def Let_def bind_eq_Some_conv split: if_splits exec_choice.splits)
  with assms(2,3) show ?thesis
    by (intro exI [of _ code]) (auto dest!: child_fails_decode)
qed

text \<open>A long command line for the shell overruns the buffer when the shell cannot be run.\<close>

lemma child_side_overrun:
  assumes "wants_shell c" "1000 \<le> length c" "exec_errno ans \<noteq> 0" "dup_stdout ans = 0" "dup_stderr ans = 0"
  shows "child_side cf ans colle c = None"
  using assms by (simp add: child_side_def child_exec_def child_fails_def pan_says_def)

section \<open>The end of the driver\<close>

lemma check_orphan_list_kills:
  "check_orphan_list os sig p = Some (os', p') \<Longrightarrow>
     kill_errno p' = kill_errno p \<and> exit_stat p' = exit_stat p \<and>
     length (kills p') = length (kills p) + length (filter (\<lambda>x. x \<noteq> 0) os) \<and>
     ((\<forall>n \<ge> length (kills p). kill_errno p n = ESRCH) \<longrightarrow> (\<forall>orph \<in> set os'. orph = 0))"
proof (induction os arbitrary: p os' p')
  case (Cons orph os)
  show ?case
  proof (cases "orph = 0")
    case True
    with Cons show ?thesis by (fastforce simp: bind_eq_Some_conv)
  next
    case False
    define p1 where "p1 = p\<lparr>kills := kills p @ [(- orph, sig)]\<rparr>"
    have kill: "do_kill (- orph) sig p = (kill_errno p (length (kills p)), p1)"
      by (simp add: do_kill_def p1_def)
    show ?thesis
    proof (cases "kill_errno p (length (kills p)) = ESRCH")
      case dead: True
      with Cons.prems False kill obtain r z os1 where
        "zoo_clear (zoofile p1) orph = Some (r, z)" "check_orphan_list os sig (p1\<lparr>zoofile := z\<rparr>) = Some (os1, p')" "os' = 0 # os1"
        by (auto simp: bind_eq_Some_conv)
      with Cons.IH [of "p1\<lparr>zoofile := z\<rparr>"] False show ?thesis by (simp add: p1_def)
    next
      case alive: False
      with Cons.prems False kill obtain os1 where "check_orphan_list os sig p1 = Some (os1, p')"
        by (auto simp: bind_eq_Some_conv)
      with Cons.IH [of p1] False alive show ?thesis by (auto simp: p1_def)
    qed
  qed
qed simp

lemma propagate_signal_counts:
  assumes "propagate_signal p = Some p'"
  shows "kill_errno p' = kill_errno p \<and> exit_stat p' = exit_stat p \<and>
    length (kills p) + length (filter (\<lambda>x. x \<noteq> 0) (orphans p)) \<le> length (kills p') \<and>
    ((\<forall>n \<ge> length (kills p). kill_errno p n = ESRCH) \<longrightarrow> (\<forall>orph \<in> set (orphans p'). orph = 0))"
proof -
  define p1 where "p1 = (if rec_signal p = SIGALRM then p\<lparr>rec_signal := SIGTERM\<rparr> else p)"
  obtain ss ks where sl: "signal_slots (running p1) p1 = (ss, p1\<lparr>kills := kills p1 @ ks\<rparr>)"
    using signal_slots_frame by blast
  have p1: "kill_errno p1 = kill_errno p" "exit_stat p1 = exit_stat p" "orphans p1 = orphans p" "kills p1 = kills p"
    by (simp_all add: p1_def)
  from assms sl obtain os p2 where
    "check_orphan_list (orphans p1) (send_signal p1) (p1\<lparr>kills := kills p1 @ ks, running := ss\<rparr>) = Some (os, p2)"
    "p' = p2\<lparr>orphans := os, rec_signal := 0, send_signal := 0\<rparr>"
    by (auto simp: propagate_signal_def p1_def [symmetric] Let_def check_orphans_def bind_eq_Some_conv)
  from check_orphan_list_kills [OF this(1)] this(2) p1 show ?thesis by simp
qed

lemma orphan_wait_ends:
  assumes "pan_inv cf p" "\<forall>n \<ge> N. kill_errno p n = ESRCH"
  shows "\<exists>p'. orphan_wait p = Some p' \<and> pan_inv cf p' \<and> num_active p' = num_active p \<and> exit_stat p' = exit_stat p \<and>
    (\<forall>orph \<in> set (orphans p'). orph = 0)"
  using assms
proof (induction "if \<forall>orph \<in> set (orphans p). orph = 0 then 0 else Suc (N - length (kills p))" arbitrary: p rule: less_induct)
  case less
  show ?case
  proof (cases "\<forall>orph \<in> set (orphans p). orph = 0")
    case True
    with less.prems(1) show ?thesis by (subst orphan_wait.simps) simp
  next
    case False
    define p1 where "p1 = (if rec_signal p = 0 then wait_handler SIGINT p else p)"
    have p1: "pan_inv cf p1" "num_active p1 = num_active p" "exit_stat p1 = exit_stat p" "kill_errno p1 = kill_errno p"
      "kills p1 = kills p" "orphans p1 = orphans p"
      using less.prems(1) by (auto simp: p1_def wait_handler_def pan_inv_def Let_def)
    obtain p2 where p2: "propagate_signal p1 = Some p2" "pan_inv cf p2" "num_active p2 = num_active p1"
      using propagate_signal_inv [OF p1(1)] by blast
    note k = propagate_signal_counts [OF p2(1)]
    have "filter (\<lambda>x. x \<noteq> 0) (orphans p) \<noteq> []" using False by (auto simp: filter_empty_conv)
    moreover have "length (kills p) + length (filter (\<lambda>x. x \<noteq> 0) (orphans p)) \<le> length (kills p2)" using k p1 by simp
    ultimately have "length (kills p) < length (kills p2)" by (cases "filter (\<lambda>x. x \<noteq> 0) (orphans p)") auto
    moreover have "\<forall>orph \<in> set (orphans p2). orph = 0" if "N \<le> length (kills p)"
      using k that less.prems(2) p1 by auto
    ultimately have smaller: "(if \<forall>orph \<in> set (orphans p2). orph = 0 then 0 else Suc (N - length (kills p2))) <
        (if \<forall>orph \<in> set (orphans p). orph = 0 then 0 else Suc (N - length (kills p)))"
      using False by (cases "N \<le> length (kills p)") auto
    have kp2: "\<forall>n \<ge> N. kill_errno p2 n = ESRCH" using k p1(4) less.prems(2) by simp
    have "orphan_wait p = orphan_wait p2"
      using False p2(1) by (subst orphan_wait.simps) (auto simp: p1_def)
    with less.hyps [OF smaller p2(2) kp2] k p1 p2(3) show ?thesis by simp
  qed
qed

text \<open>The exit of the driver, once no test is active.\<close>

lemma pan_end_clean:
  assumes "pan_inv cf p" "num_active p = 0" "\<forall>n \<ge> N. kill_errno p n = ESRCH"
  shows "\<exists>p'. pan_end cf p = Some (Exit_with (int (exit_stat p)), p') \<and> zoo_holds (zoofile p') {#}"
proof -
  obtain q where q: "orphan_wait p = Some q" "pan_inv cf q" "num_active q = num_active p" "exit_stat q = exit_stat p"
    "\<forall>orph \<in> set (orphans q). orph = 0"
    using orphan_wait_ends [OF assms(1,3)] by blast
  have "pids_of (running q) = []" "filter (\<lambda>x. x \<noteq> 0) (orphans q) = []"
    using q assms(2) by (auto simp: pan_inv_def filter_empty_conv)
  with q(2) have "zoo_holds (zoofile q) {#own_pid cf#}" by (simp add: pan_inv_def)
  from zoo_holds_clear [OF this, of "own_pid cf"] obtain z where
    "zoo_clear (zoofile q) (own_pid cf) = Some (0, z)" "zoo_holds z {#}" by auto
  with q(1,4) show ?thesis by (simp add: pan_end_def)
qed

section \<open>What the set-up gives\<close>

definition clean_arg :: "string \<Rightarrow> bool" where
  "clean_arg a \<longleftrightarrow> {LF, CHR 0x00} \<inter> set a = {}"

lemma clean_args_parts:
  "list_all clean_arg args \<Longrightarrow> list_all clean_arg (take n args)"
  "list_all clean_arg args \<Longrightarrow> list_all clean_arg (drop n args)"
  "list_all clean_arg args \<Longrightarrow> list_all clean_arg (takeWhile P args)"
  by (auto simp: list_all_iff dest: in_set_takeD in_set_dropD set_takeWhileD)

lemma clean_tl: "clean_arg a \<Longrightarrow> clean_arg (tl a)"
  by (cases a) (auto simp: clean_arg_def)

lemma getopt_clean:
  "getopt optstring cur args = Some ((c, oa), cur', args') \<Longrightarrow> clean_arg cur \<Longrightarrow> list_all clean_arg args \<Longrightarrow>
     clean_arg cur' \<and> list_all clean_arg args' \<and> (\<forall>a. oa = Some a \<longrightarrow> clean_arg a)"
  by (induction optstring cur args rule: getopt.induct)
    (auto simp: Let_def clean_tl split: if_splits list.splits, auto simp: clean_arg_def)

lemma pan_option_name:
  assumes "pan_option c oa po = Some (Inr po')" "\<forall>s. po_panname po = Some s \<longrightarrow> clean_arg s" "\<forall>a. oa = Some a \<longrightarrow> clean_arg a"
  shows "\<forall>s. po_panname po' = Some s \<longrightarrow> clean_arg s"
  using assms
  by (cases oa)
    (auto simp: time_option_def apply_modifier_def Let_def bind_eq_Some_conv checked_eq_Some
      split: if_splits prod.splits list.splits)

lemma pan_options_clean:
  "pan_options optstring cur args po = Some (Inr (po', os, ws)) \<Longrightarrow> clean_arg cur \<Longrightarrow> list_all clean_arg args \<Longrightarrow>
   \<forall>s. po_panname po = Some s \<longrightarrow> clean_arg s \<Longrightarrow>
     (\<forall>s. po_panname po' = Some s \<longrightarrow> clean_arg s) \<and> list_all clean_arg os \<and> list_all clean_arg ws"
proof (induction optstring cur args po arbitrary: po' os ws rule: pan_options.induct)
  case (1 optstring cur args po)
  define words where "words = (if cur = [] then takeWhile no_option args else [])"
  define rest where "rest = drop (length words) args"
  have cl: "list_all clean_arg words" "list_all clean_arg rest"
    using "1.prems"(3) by (auto simp: words_def rest_def clean_args_parts)
  note unfold = "1.prems"(1) [unfolded pan_options.simps [of optstring cur args po] Let_def, folded words_def rest_def]
  show ?case
  proof (cases "getopt optstring cur args")
    case None
    with unfold "1.prems"(4) cl show ?thesis by (auto simp: clean_args_parts)
  next
    case (Some a)
    then obtain c oa cur' args' where g: "getopt optstring cur args = Some ((c, oa), cur', args')" by (metis surj_pair)
    with unfold obtain po1 where po1: "pan_option c oa po = Some (Inr po1)"
      by (cases "pan_option c oa po"; cases "the (pan_option c oa po)") auto
    with unfold g obtain os1 ws1 where r: "pan_options optstring cur' args' po1 = Some (Inr (po', os1, ws1))"
      "os = take (length rest - length args') rest @ os1" "ws = words @ ws1"
      by (cases "pan_options optstring cur' args' po1"; cases "the (pan_options optstring cur' args' po1)") (auto simp: po1)
    note gc = getopt_clean [OF g "1.prems"(2,3)]
    have "\<forall>s. po_panname po1 = Some s \<longrightarrow> clean_arg s" using pan_option_name [OF po1 "1.prems"(4)] gc by blast
    then have "(\<forall>s. po_panname po' = Some s \<longrightarrow> clean_arg s) \<and> list_all clean_arg os1 \<and> list_all clean_arg ws1"
      using "1.IH" [OF words_def rest_def g refl refl refl po1 refl r(1)] gc by blast
    with r cl show ?thesis by (simp add: clean_args_parts)
  qed
qed

lemma zoo_each_mark:
  assumes "zoo_holds z m" "\<forall>c \<in> set cs. entry_ok (int c) name []"
  shows "\<exists>z'. zoo_each (\<lambda>c z. zoo_mark_cmdline z (int c) name []) cs z = Some (True, z') \<and>
    zoo_holds z' (m + mset (map int cs))"
  using assms
proof (induction cs arbitrary: z m)
  case (Cons c cs)
  from zoo_holds_mark [OF Cons.prems(1), of "int c" name "[]"] Cons.prems(2) obtain z1 where
    "zoo_mark_cmdline z (int c) name [] = Some (0, z1)" "zoo_holds z1 (add_mset (int c) m)" by auto
  with Cons.IH [of z1 "add_mset (int c) m"] Cons.prems(2) show ?case by auto
qed simp

lemma zoo_each_clear:
  assumes "zoo_holds z (m + mset (map int cs))"
  shows "\<exists>z'. zoo_each (\<lambda>c z. zoo_clear z (int c)) cs z = Some (True, z') \<and> zoo_holds z' m"
  using assms
proof (induction cs arbitrary: z)
  case (Cons c cs)
  from zoo_holds_clear [OF Cons.prems, of "int c"] obtain z1 where
    "zoo_clear z (int c) = Some (0, z1)" "zoo_holds z1 (m + mset (map int cs))" by auto
  with Cons.IH show ?case by auto
qed simp

lemma join_clean: "list_all clean_arg as \<Longrightarrow> clean_arg (join_with (CHR '' '') as)"
  by (induction "CHR '' ''" as rule: join_with.induct) (auto simp: clean_arg_def)

lemma zoo_reserve_holds:
  assumes "zoo_holds z m" "int_fits 32 (own_pid cf)" "int_fits 32 (int (keep_active cf))" "clean_arg (panname cf)"
    and "argv \<noteq> []" "list_all clean_arg argv"
  shows "\<exists>z'. zoo_reserve cf argv z = Some (True, z') \<and> zoo_holds z' (add_mset (own_pid cf) m)"
proof -
  have "entry_ok (own_pid cf) (panname cf) (join_with (CHR '' '') argv)"
    using assms(2,4) join_clean [OF assms(6)] by (auto simp: entry_ok_def clean_arg_def)
  from zoo_holds_mark [OF assms(1) this] assms(5) obtain z1 where z1:
    "zoo_mark_args z (own_pid cf) (panname cf) argv = Some (0, z1)" "zoo_holds z1 (add_mset (own_pid cf) m)"
    by (auto simp: zoo_mark_args_def cat_args_fits)
  have "\<forall>c \<in> set [0..<keep_active cf]. entry_ok (int c) (panname cf) []"
    using assms(3,4) by (auto simp: entry_ok_def clean_arg_def int_fits_def)
  from zoo_each_mark [OF z1(2) this] obtain z2 where z2:
    "zoo_each (\<lambda>c z. zoo_mark_cmdline z (int c) (panname cf) []) [0..<keep_active cf] z1 = Some (True, z2)"
    "zoo_holds z2 (add_mset (own_pid cf) m + mset (map int [0..<keep_active cf]))" by blast
  from zoo_each_clear [OF z2(2)] z1(1) z2(1) show ?thesis by (auto simp: zoo_reserve_def)
qed

lemma alloc_slots_fits:
  "alloc_slots k = Some (Inr ss) \<Longrightarrow> 0 \<le> k \<and> int_fits 32 k \<and> ss = replicate (nat k) empty_slot"
  by (auto simp: alloc_slots_def bind_eq_Some_conv checked_eq_Some int_fits_def split: if_splits)

text \<open>The state of a set-up with a zoo that holds \<open>m\<close>.\<close>

lemma pan_start_state:
  assumes "pan_start se po name argv words = Some (Inr su)" "int_fits 32 (se_pid se)" "clean_arg name"
    and "argv \<noteq> []" "list_all clean_arg argv" "\<forall>f z. se_zoo se f = Some z \<longrightarrow> zoo_inv z \<and> zoo_pids z = m"
  shows "\<exists>z rand. su_conf su = setup_conf se po name \<and> su_coll su \<noteq> [] \<and>
    su_state su = setup_state se po (int (length (su_coll su))) (replicate (nat (po_keep po)) empty_slot) z rand \<and>
    zoo_holds z (add_mset (se_pid se) m)"
proof -
  from assms(1) obtain zn coll where "coll \<noteq> []" and prep: "pan_prepare se po name argv coll zn = Some (Inr su)"
    by (fastforce simp: pan_start_def or_exit_Inr split: option.split_asm)
  from prep obtain ss rand z where
    ss: "alloc_slots (po_keep po) = Some (Inr ss)" and
    z: "setup_zoo (setup_conf se po name) argv (se_zoo se zn) = Some (Inr z)" and
    su: "su_conf su = setup_conf se po name" "su_coll su = coll"
      "su_state su = setup_state se po (int (length coll)) ss z rand"
    by (fastforce simp: pan_prepare_def or_exit_Inr Let_def)
  from z obtain z0 where z0: "se_zoo se zn = Some z0" by (auto simp: setup_zoo_def split: option.splits)
  then have "zoo_holds (Some z0) m" using assms(6) by (auto simp: zoo_holds_def)
  from zoo_reserve_holds [OF this, of "setup_conf se po name" argv] assms(2-5) alloc_slots_fits [OF ss] z z0
  have "zoo_holds z (add_mset (se_pid se) m)" by (auto simp: setup_zoo_def setup_conf_def)
  with su \<open>coll \<noteq> []\<close> alloc_slots_fits [OF ss] show ?thesis by auto
qed

text \<open>A system on which the driver is alone: the zoo that it opens holds no pid.\<close>

definition alone :: "setup_env \<Rightarrow> string list \<Rightarrow> bool" where
  "alone se argv \<longleftrightarrow> list_all clean_arg argv \<and> int_fits 32 (se_pid se) \<and>
     (\<forall>f z. se_zoo se f = Some z \<longrightarrow> zoo_inv z \<and> zoo_pids z = {#})"

lemma setup_state_inv:
  assumes "zoo_holds z {#se_pid se#}"
  shows "pan_inv (setup_conf se po name) (setup_state se po n (replicate (nat (po_keep po)) empty_slot) z rand)"
  using assms
  by (simp add: pan_inv_def setup_conf_def setup_state_def pids_of_def filter_empty_conv empty_slot_def slot_ok_def)



section \<open>A concrete run\<close>

definition demo_setup :: setup_env where
  "demo_setup = \<lparr>se_getenv = (\<lambda>s. None), se_log = True, se_output = True, se_failcmd = True,
     se_files = (\<lambda>f. Inr (''fork01 fork01 -i 2'' @ [LF])), se_out_dir = True, se_zoo = (\<lambda>f. Some empty_zoo),
     se_ctime = ''Thu Jan  1 00:00:00 1970'', se_time = 0, se_pid = 100, se_kill = (\<lambda>n. ESRCH)\<rparr>"

definition demo_args :: "string list" where
  "demo_args = [''-S'', ''-nltp'', ''-azoo'', ''-t'', ''5m'']"

definition demo_opts :: pan_opts where
  "demo_opts = pan_defaults\<lparr>po_sequential := True, po_panname := Some ''ltp'', po_zooname := Some ''zoo'',
     po_run_time := 300, po_timed := True\<rparr>"

lemma demo_options: "pan_options pan_optstring [] demo_args pan_defaults = Some (Inr (demo_opts, demo_args, []))"
  by code_simp

lemma demo_collection: "get_collection (se_files demo_setup) (po_filename demo_opts) [] = Some (Some [demo_coll ! 0])"
  by code_simp

lemma demo_alone: "alone demo_setup (''ltp-pan'' # demo_args)"
proof -
  have "list_all clean_arg (''ltp-pan'' # demo_args)" by code_simp
  moreover have "zoo_pids empty_zoo = {#}" by code_simp
  ultimately show ?thesis using empty_zoo_inv(1) by (simp add: alone_def demo_setup_def int_fits_def)
qed

lemma demo_setup_runs:
  obtains su z rand where "pan_setup_main demo_setup ''ltp-pan'' demo_args = Some (Inr su)"
    "su_conf su = setup_conf demo_setup demo_opts ''ltp''" "su_coll su = [demo_coll ! 0]"
    "su_state su = setup_state demo_setup demo_opts 1 [empty_slot] z rand"
proof -
  have "clean_arg ''ltp''" "list_all clean_arg (''ltp-pan'' # demo_args)" by code_simp+
  then obtain z where z: "zoo_reserve (setup_conf demo_setup demo_opts ''ltp'') (''ltp-pan'' # demo_args) (Some empty_zoo) = Some (True, z)"
    using zoo_reserve_holds [of "Some empty_zoo" "{#}" "setup_conf demo_setup demo_opts ''ltp''" "''ltp-pan'' # demo_args"] demo_alone
    by (auto simp: zoo_holds_def alone_def demo_setup_def setup_conf_def demo_opts_def pan_defaults_def int_fits_def)
  have "alloc_slots (po_keep demo_opts) = Some (Inr [empty_slot])"
    by (simp add: alloc_slots_def demo_opts_def pan_defaults_def int_fits_def)
  moreover have "\<exists>r. start_seed (se_time demo_setup) (se_pid demo_setup) = Some r"
    by (simp add: start_seed_def demo_setup_def int_fits_def)
  moreover have "opened (test_out_dir (setup_conf demo_setup demo_opts ''ltp'')) (se_out_dir demo_setup)"
    "opened (po_output demo_opts) b" "opened (po_failcmd demo_opts) b" "opened (po_logfile demo_opts) b" for b
    by (simp_all add: opened_def demo_setup_def demo_opts_def pan_defaults_def setup_conf_def)
  moreover have "po_panname demo_opts = Some ''ltp''" "po_zooname demo_opts = Some ''zoo''"
    "se_zoo demo_setup ''zoo'' = Some empty_zoo" by (simp_all add: demo_opts_def demo_setup_def)
  ultimately show ?thesis
    using that z demo_options demo_collection
    by (fastforce simp: pan_setup_main_def or_exit_Inr pan_start_def pan_prepare_def setup_zoo_def Let_def)
qed

lemma demo_coll_ok: "coll_ok cf [demo_coll ! 0]"
proof -
  have "entry_clean (demo_coll ! 0)" by code_simp
  then show ?thesis by (simp add: coll_ok_def demo_coll_def subst_pcnt_f_def)
qed


text \<open>The driver is interrupted at once: it starts no test, and ends.\<close>

definition demo_intr :: iter_env where
  "demo_intr = (demo_env (W_error 10))\<lparr>it_signals := [SIGINT]\<rparr>"

lemma interrupted_at_once:
  assumes "rec_signal p = 0" "lastsent p = 0" "running p = [empty_slot]" "num_active p = 0" "orphans p = [0]" "starts p = -1"
    and "stop p = 0" "\<not> fork_in_road p" "\<not> log_open cf"
  shows "\<exists>p'. iterate cf coll demo_intr p = Some (Break, p') \<and> exit_stat p' = exit_stat p \<and> kill_errno p' = kill_errno p"
proof -
  define q where "q = p\<lparr>rec_signal := SIGINT, send_signal := SIGINT, lastsent := SIGINT\<rparr>"
  have w: "wait_handler SIGINT p = q" using assms by (simp add: wait_handler_def q_def)
  have l: "launch cf coll fe 0 q = Some (Returned 0, q)" for fe
    by (subst launch.simps) (simp add: q_def can_launch_def)
  have s: "handle_stop False q = q" using assms by (simp add: handle_stop_def q_def)
  define r where "r = q\<lparr>rec_signal := 0, send_signal := 0, stop := 1\<rparr>"
  have h: "handle_signal q = Some r"
    using assms by (simp add: handle_signal_def q_def r_def propagate_signal_def check_orphans_def stop_or_idle_def empty_slot_def Let_def)
  have c: "check_pids cf (\<lambda>n. W_error 10) clk out r = Some (Returned 0, r)" for clk out
    using assms by (simp add: check_pids_def check_orphans_def r_def q_def)
  have "stop r \<noteq> 0" "num_active r = 0" "exit_stat r = exit_stat p" "kill_errno r = kill_errno p"
    using assms(4) by (simp_all add: r_def q_def)
  then show ?thesis by (simp add: iterate_def demo_intr_def demo_env_def w l s h c handle_err_def)
qed

lemma demo_intr_break:
  assumes "cf = setup_conf demo_setup demo_opts ''ltp''" "p = setup_state demo_setup demo_opts 1 [empty_slot] z rand"
  shows "\<exists>p'. iterate cf coll demo_intr p = Some (Break, p') \<and> exit_stat p' = 0 \<and> (\<forall>n. kill_errno p' n = ESRCH)"
    and "env_ok cf coll demo_intr p"
proof -
  have "\<not> log_open cf" by (simp add: assms setup_conf_def demo_opts_def pan_defaults_def)
  from interrupted_at_once [of p, OF _ _ _ _ _ _ _ _ this, of coll] show
    "\<exists>p'. iterate cf coll demo_intr p = Some (Break, p') \<and> exit_stat p' = 0 \<and> (\<forall>n. kill_errno p' n = ESRCH)"
    by (auto simp: assms(2) setup_state_def demo_opts_def pan_defaults_def demo_setup_def init_starts_def)
  show "env_ok cf coll demo_intr p"
    by (auto simp: env_ok_def demo_intr_def demo_env_def forks_ok_def child_ok_def int_fits_def waits_ok_def
      assms(1) setup_conf_def demo_opts_def pan_defaults_def split: option.split)
qed


end
