(* ===== verification/Tst_Res.thy ===== *)
theory Tst_Res
  imports Prelude
begin

text \<open>
  The result interface of the test library, \<^verbatim>\<open>lib/tst_res.c\<close>: \<open>tst_res\<close> and its output modes, the
  condensed output of the mode \<open>NOPASS\<close>, \<open>tst_brk\<close> with its cleanup function, \<open>tst_flush\<close> and
  \<open>tst_exit\<close>. The global variables are the record \<open>tst\<close>; what a run cannot change (the test's name,
  the environment, \<open>errno\<close>, the files) is the record \<open>tconf\<close>. \<open>None\<close> is a run that aborts, crashes or
  never returns. Messages are already formatted.
\<close>

section \<open>Types of results\<close>

definition TPASS :: int where "TPASS = 0"
definition TFAIL :: int where "TFAIL = 1"
definition TBROK :: int where "TBROK = 2"
definition TWARN :: int where "TWARN = 4"
definition TRETR :: int where "TRETR = 8"
definition TINFO :: int where "TINFO = 16"
definition TCONF :: int where "TCONF = 32"
definition TERRNO :: int where "TERRNO = 0x100"
definition TTERRNO :: int where "TTERRNO = 0x200"

lemmas ttype_defs = TPASS_def TFAIL_def TBROK_def TWARN_def TRETR_def TINFO_def TCONF_def TERRNO_def TTERRNO_def

definition TTYPE_RESULT :: "int \<Rightarrow> int" where
  "TTYPE_RESULT ttype = ttype AND 0x3f"

text \<open>\<open>pair_lookup\<close>, on a table of pairs; a missing index has no name.\<close>

definition pair_lookup :: "(int \<times> string) list \<Rightarrow> int \<Rightarrow> string" where
  "pair_lookup pairs idx = (case map_of pairs idx of None \<Rightarrow> ''???'' | Some n \<Rightarrow> n)"

definition strttype :: "int \<Rightarrow> string" where
  "strttype ttype = pair_lookup [(TPASS, ''TPASS''), (TFAIL, ''TFAIL''), (TBROK, ''TBROK''), (TRETR, ''TRETR''),
     (TCONF, ''TCONF''), (TWARN, ''TWARN''), (TINFO, ''TINFO'')] (TTYPE_RESULT ttype)"

definition strerrnodef :: "int \<Rightarrow> string" where
  "strerrnodef err = pair_lookup
     (zip [1..34] [''EPERM'', ''ENOENT'', ''ESRCH'', ''EINTR'', ''EIO'', ''ENXIO'', ''E2BIG'', ''ENOEXEC'', ''EBADF'',
        ''ECHILD'', ''EAGAIN'', ''ENOMEM'', ''EACCES'', ''EFAULT'', ''ENOTBLK'', ''EBUSY'', ''EEXIST'', ''EXDEV'',
        ''ENODEV'', ''ENOTDIR'', ''EISDIR'', ''EINVAL'', ''ENFILE'', ''EMFILE'', ''ENOTTY'', ''ETXTBSY'', ''EFBIG'',
        ''ENOSPC'', ''ESPIPE'', ''EROFS'', ''EMLINK'', ''EPIPE'', ''EDOM'', ''ERANGE''] @ [(36, ''ENAMETOOLONG'')]) err"

section \<open>State\<close>

datatype tmode = VERBOSE | NOPASS | DISCARD

text \<open>What happens to a file: whether \<open>access\<close> finds it, the \<open>errno\<close> of \<open>fopen\<close> (0 for success), its
  contents, a short \<open>fwrite\<close> (written and read bytes), the \<open>errno\<close> when the loop of \<open>fread\<close> does not
  reach the end of the file, and the \<open>errno\<close> of \<open>fclose\<close>.\<close>

record file_answer =
  fa_exists :: bool
  fa_open :: int
  fa_content :: string
  fa_short :: "(nat \<times> nat) option"
  fa_read_error :: "int option"
  fa_close :: int

record tconf =
  TCID :: string
  toutput :: "string option"
  cur_errno :: int
  test_errno :: int
  strerror :: "int \<Rightarrow> string"
  files :: "string \<Rightarrow> file_answer"
  euid :: int

datatype out_item = Line string | Contents string

record tst =
  File :: "string option"
  T_exitval :: int
  T_mode :: tmode
  Last :: "(string \<times> int \<times> int \<times> string) option"
  tst_count :: int
  first_time :: bool
  tst_brk_entered :: nat
  T_out :: "out_item list"

definition tst_init :: tst where
  "tst_init = \<lparr>File = None, T_exitval = 0, T_mode = VERBOSE, Last = None, tst_count = 0, first_time = True,
     tst_brk_entered = 0, T_out = []\<rparr>"

section \<open>Printing\<close>

text \<open>\<open>%-8s\<close> and \<open>%4d\<close>.\<close>

definition pad_right :: "nat \<Rightarrow> string \<Rightarrow> string" where
  "pad_right n s = s @ replicate (n - length s) (CHR '' '')"

definition pad_left :: "nat \<Rightarrow> string \<Rightarrow> string" where
  "pad_left n s = replicate (n - length s) (CHR '' '') @ s"

text \<open>The line of a result, without its line feed. A line that does not fit in \<open>message\<close> aborts.\<close>

definition result_line :: "tconf \<Rightarrow> tmode \<Rightarrow> string \<Rightarrow> int \<Rightarrow> int \<Rightarrow> string \<Rightarrow> string option" where
  "result_line cf mode tcid tnum ttype tmesg =
     (let s1 = pad_right 8 tcid @ '' '' @ pad_left 4 (show_int tnum) @
               (if mode = VERBOSE then ''  '' else ''       '') @ strttype ttype @ ''  :  '' @ tmesg;
          s2 = (if ttype AND TERRNO \<noteq> 0
                then s1 @ '': errno='' @ strerrnodef (cur_errno cf) @ ''('' @ show_int (cur_errno cf) @ ''): '' @ strerror cf (cur_errno cf)
                else s1);
          s3 = (if ttype AND TTERRNO \<noteq> 0
                then s2 @ '': TEST_ERRNO='' @ strerrnodef (test_errno cf) @ ''('' @ show_int (test_errno cf) @ ''): '' @ strerror cf (test_errno cf)
                else s2)
      in if 2048 \<le> length s1 \<or> 2048 \<le> length s2 \<or> 2048 \<le> length s3 + 1 then None else Some s3)"

text \<open>A warning is formatted in \<open>Warn_mesg[80]\<close>; a longer one is written past its end.\<close>

definition warn_mesg :: "string \<Rightarrow> string option" where
  "warn_mesg s = (if length s < 80 then Some s else None)"

definition fopen_warning :: "tconf \<Rightarrow> string \<Rightarrow> string" where
  "fopen_warning cf f = ''tst_res(): fopen('' @ f @ '', '' @ [CHR 0x22] @ ''r'' @ [CHR 0x22] @ '') failed; errno = '' @
     show_int (fa_open (files cf f)) @ '': '' @ strerror cf (fa_open (files cf f))"

text \<open>The warnings of \<open>cat_file\<close> after a successful \<open>fopen\<close>, in order.\<close>

definition cat_warnings :: "tconf \<Rightarrow> string \<Rightarrow> string list" where
  "cat_warnings cf f =
     (let a = files cf f; cat = ''tst_res(): While trying to cat '' @ [CHR 0x22] @ f @ [CHR 0x22]
      in (case fa_short a of None \<Rightarrow> []
          | Some (w, n) \<Rightarrow> [cat @ '', fwrite() wrote only '' @ show_nat w @ '' of '' @ show_nat n @ '' bytes'']) @
         (case fa_read_error a of
            None \<Rightarrow> []
          | Some e \<Rightarrow> [cat @ '', fread() failed, errno = '' @ show_int e @ '': '' @ strerror cf e]) @
         (if fa_close a = 0 then []
          else [cat @ '', fclose() failed, errno = '' @ show_int (fa_close a) @ '': '' @ strerror cf (fa_close a)]))"

text \<open>\<open>tst_print\<close> and \<open>cat_file\<close> call each other: a warning of \<open>cat_file\<close> is printed while \<open>File\<close> is still
  set. The argument is the list of the lines that are printed in turn.\<close>

definition print_line :: "tconf \<Rightarrow> string \<Rightarrow> int \<Rightarrow> int \<Rightarrow> string \<Rightarrow> tst \<Rightarrow> (bool \<times> tst) option" where
  "print_line cf tcid tnum ttype tmesg s =
     (let r = TTYPE_RESULT ttype; s = s\<lparr>T_exitval := T_exitval s OR r\<rparr>
      in if T_mode s = DISCARD \<or> T_mode s = NOPASS \<and> r \<noteq> TFAIL \<and> r \<noteq> TBROK \<and> r \<noteq> TWARN
         then Some (False, s)
         else do {
           l \<leftarrow> result_line cf (T_mode s) tcid tnum ttype tmesg;
           Some (True, s\<lparr>T_out := T_out s @ [Line l]\<rparr>) })"

partial_function (option) tst_print_all ::
  "tconf \<Rightarrow> (string \<times> int \<times> int \<times> string) list \<Rightarrow> tst \<Rightarrow> tst option" where
  "tst_print_all cf ls s =
     (case ls of
        [] \<Rightarrow> Some s
      | (tcid, tnum, ttype, tmesg) # ls \<Rightarrow> do {
          (printed, s) \<leftarrow> print_line cf tcid tnum ttype tmesg s;
          s \<leftarrow> (if \<not> printed then Some s
                else (case File s of
                    None \<Rightarrow> Some s
                  | Some f \<Rightarrow> do {
                      s \<leftarrow> (if fa_open (files cf f) \<noteq> 0
                           then do {
                             w \<leftarrow> warn_mesg (fopen_warning cf f);
                             tst_print_all cf [(TCID cf, 0, TWARN, w)] s }
                           else do {
                             let s = s\<lparr>T_out := T_out s @ [Contents (fa_content (files cf f))]\<rparr>;
                             if list_all (\<lambda>w. warn_mesg w \<noteq> None) (cat_warnings cf f)
                             then tst_print_all cf (map (\<lambda>w. (TCID cf, 0, TWARN, w)) (cat_warnings cf f)) s
                             else None });
                      Some (s\<lparr>File := None\<rparr>) }));
          tst_print_all cf ls s })"

declare tst_print_all.simps [code]

definition tst_print :: "tconf \<Rightarrow> string \<Rightarrow> int \<Rightarrow> int \<Rightarrow> string \<Rightarrow> tst \<Rightarrow> tst option" where
  "tst_print cf tcid tnum ttype tmesg s = tst_print_all cf [(tcid, tnum, ttype, tmesg)] s"

section \<open>Reporting\<close>

definition check_env :: "tconf \<Rightarrow> tst \<Rightarrow> tst" where
  "check_env cf s =
     (if \<not> first_time s then s
      else s\<lparr>first_time := False,
             T_mode := (case toutput cf of
                None \<Rightarrow> VERBOSE
              | Some v \<Rightarrow> if v = ''NOPASS'' then NOPASS else if v = ''DISCARD'' then DISCARD else VERBOSE)\<rparr>)"

definition tst_condense :: "tconf \<Rightarrow> int \<Rightarrow> int \<Rightarrow> string \<Rightarrow> tst \<Rightarrow> tst option" where
  "tst_condense cf tnum ttype tmesg s =
     (let r = TTYPE_RESULT ttype;
          same = (case Last s of
             None \<Rightarrow> False
           | Some (tcid, num, typ, mesg) \<Rightarrow> tcid = TCID cf \<and> typ = r \<and> mesg = tmesg \<and> File s = None)
      in if same then Some s
         else do {
           s \<leftarrow> (case Last s of
                 None \<Rightarrow> Some s
               | Some (tcid, num, typ, mesg) \<Rightarrow> do {
                   let file = File s;
                   s \<leftarrow> tst_print cf tcid num typ mesg (s\<lparr>File := None\<rparr>);
                   Some (s\<lparr>File := file\<rparr>) });
           if File s \<noteq> None
           then do { s \<leftarrow> tst_print cf (TCID cf) tnum ttype tmesg s; Some (s\<lparr>Last := None\<rparr>) }
           else Some (s\<lparr>Last := Some (TCID cf, tnum, r, tmesg)\<rparr>) })"

definition tst_flush :: "tconf \<Rightarrow> tst \<Rightarrow> tst option" where
  "tst_flush cf s =
     (case Last s of
        None \<Rightarrow> Some s
      | Some (tcid, num, typ, mesg) \<Rightarrow>
          if T_mode s = NOPASS
          then do { s \<leftarrow> tst_print cf tcid num typ mesg s; Some (s\<lparr>Last := None\<rparr>) } else Some s)"

text \<open>\<open>EXPAND_VAR_ARGS\<close>: at most 2047 characters, and an empty message fails its assertion.\<close>

definition expand_args :: "string \<Rightarrow> string option" where
  "expand_args m = (if m = [] then None else Some (take 2047 m))"

definition tst_res :: "tconf \<Rightarrow> int \<Rightarrow> string option \<Rightarrow> string \<Rightarrow> tst \<Rightarrow> tst option" where
  "tst_res cf ttype fname arg s = do {
     tmesg \<leftarrow> expand_args arg;
     let r = TTYPE_RESULT ttype;
     let s = check_env cf (s\<lparr>T_exitval := T_exitval s OR r\<rparr>);
     let s = (case fname of None \<Rightarrow> s | Some f \<Rightarrow> if fa_exists (files cf f) then s\<lparr>File := Some f\<rparr> else s);
     if r = TWARN \<or> r = TINFO then tst_print cf (TCID cf) 0 ttype tmesg s
     else do {
       s \<leftarrow> (if tst_count s < 0 then tst_print cf (TCID cf) 0 TWARN ''tst_res(): tst_count < 0 is not valid'' s else Some s);
       s \<leftarrow> (case T_mode s of
               DISCARD \<Rightarrow> Some s
             | NOPASS \<Rightarrow> tst_condense cf (tst_count s + 1) ttype tmesg s
             | VERBOSE \<Rightarrow> tst_print cf (TCID cf) (tst_count s + 1) ttype tmesg s);
       Some (s\<lparr>tst_count := tst_count s + 1\<rparr>) } }"

definition tst_resm :: "tconf \<Rightarrow> int \<Rightarrow> string \<Rightarrow> tst \<Rightarrow> tst option" where
  "tst_resm cf ttype arg s = do { tmesg \<leftarrow> expand_args arg; tst_res cf ttype None tmesg s }"

section \<open>Breaking and exiting\<close>

text \<open>A call that may end the process.\<close>

datatype ctl = Go tst | Exited int tst

definition tst_exit :: "tconf \<Rightarrow> tst \<Rightarrow> ctl option" where
  "tst_exit cf s = do {
     s \<leftarrow> tst_flush cf s;
     Some (Exited (T_exitval s AND NOT (TRETR OR TINFO OR TCONF)) s) }"

definition tst_brk ::
  "tconf \<Rightarrow> int \<Rightarrow> string option \<Rightarrow> (tst \<Rightarrow> ctl option) option \<Rightarrow> string \<Rightarrow> tst \<Rightarrow> ctl option" where
  "tst_brk cf ttype fname func arg s = do {
     tmesg \<leftarrow> expand_args arg;
     let r = TTYPE_RESULT ttype;
     (ttype, s) \<leftarrow> (if r \<noteq> TFAIL \<and> r \<noteq> TBROK \<and> r \<noteq> TCONF \<and> r \<noteq> TRETR
        then do {
          w \<leftarrow> warn_mesg (''tst_brk: Invalid Type: '' @ show_int r @ ''. Using TBROK'');
          s \<leftarrow> tst_print cf (TCID cf) 0 TWARN w s;
          Some ((ttype AND NOT r) OR TBROK, s) }
        else Some (ttype, s));
     s \<leftarrow> tst_res cf ttype fname tmesg s;
     s \<leftarrow> (if tst_brk_entered s \<noteq> 0 then Some s
          else if r = TCONF then tst_res cf ttype None ''Remaining cases not appropriate for configuration'' s
          else if r = TRETR then tst_res cf ttype None ''Remaining cases retired'' s
          else if r = TBROK then tst_res cf TBROK None ''Remaining cases broken'' s
          else Some s);
     c \<leftarrow> (case func of
             None \<Rightarrow> Some (Go s)
           | Some f \<Rightarrow> do {
               c \<leftarrow> f (s\<lparr>tst_brk_entered := tst_brk_entered s + 1\<rparr>);
               Some (case c of Go s \<Rightarrow> Go (s\<lparr>tst_brk_entered := tst_brk_entered s - 1\<rparr>) | Exited e s \<Rightarrow> Exited e s) });
     (case c of
        Exited e s \<Rightarrow> Some (Exited e s)
      | Go s \<Rightarrow> if tst_brk_entered s = 0 then tst_exit cf s else Some (Go s)) }"

definition tst_brkm :: "tconf \<Rightarrow> int \<Rightarrow> (tst \<Rightarrow> ctl option) option \<Rightarrow> string \<Rightarrow> tst \<Rightarrow> ctl option" where
  "tst_brkm cf ttype func arg s = do { tmesg \<leftarrow> expand_args arg; tst_brk cf ttype None func tmesg s }"

text \<open>The code behind a break goes on when the break returns; \<open>w\<close> is what the caller leaves when it does not.\<close>

definition on_break :: "ctl option \<Rightarrow> 'w \<Rightarrow> (tst \<Rightarrow> (ctl \<times> 'w) option) \<Rightarrow> (ctl \<times> 'w) option" where
  "on_break c w go_on =
     (case c of None \<Rightarrow> None | Some (Exited e s) \<Rightarrow> Some (Exited e s, w) | Some (Go s) \<Rightarrow> go_on s)"

lemma on_break_simps [simp]:
  "on_break None w k = None" "on_break (Some (Exited e s)) w k = Some (Exited e s, w)" "on_break (Some (Go s)) w k = k s"
  by (simp_all add: on_break_def)

definition tst_require_root :: "tconf \<Rightarrow> (tst \<Rightarrow> ctl option) option \<Rightarrow> tst \<Rightarrow> ctl option" where
  "tst_require_root cf func s =
     (if euid cf \<noteq> 0 then tst_brkm cf TCONF func ''Test needs to be run as root'' s else Some (Go s))"

section \<open>Lines that fit\<close>

definition plain :: "int \<Rightarrow> bool" where
  "plain t \<longleftrightarrow> t = TPASS \<or> t = TFAIL \<or> t = TBROK \<or> t = TRETR \<or> t = TCONF"

definition failing :: "int \<Rightarrow> bool" where
  "failing t \<longleftrightarrow> t = TFAIL \<or> t = TBROK \<or> t = TWARN"

definition mesg_ok :: "string \<Rightarrow> bool" where
  "mesg_ok m \<longleftrightarrow> m \<noteq> [] \<and> length m \<le> 1000"

definition tcid_ok :: "tconf \<Rightarrow> bool" where
  "tcid_ok cf \<longleftrightarrow> length (TCID cf) \<le> 500"

definition line_of :: "tconf \<Rightarrow> tmode \<Rightarrow> int \<Rightarrow> int \<Rightarrow> string \<Rightarrow> string" where
  "line_of cf mode n t m =
     pad_right 8 (TCID cf) @ '' '' @ pad_left 4 (show_int n) @ (if mode = VERBOSE then ''  '' else ''       '') @
     strttype t @ ''  :  '' @ m"

lemma plain_result [simp]: "plain t \<Longrightarrow> TTYPE_RESULT t = t" "TTYPE_RESULT TWARN = TWARN"
  by (auto simp: plain_def TTYPE_RESULT_def ttype_defs)

lemma plain_flags: "plain t \<or> t = TWARN \<Longrightarrow> t AND TERRNO = 0 \<and> t AND TTERRNO = 0"
  by (auto simp: plain_def ttype_defs)

lemma strttype_length: "plain t \<or> t = TWARN \<Longrightarrow> length (strttype t) = 5"
  by (auto simp: plain_def strttype_def pair_lookup_def TTYPE_RESULT_def ttype_defs)

lemma result_line_fits:
  assumes "tcid_ok cf" "mesg_ok m" "int_fits 32 n" "plain t \<or> t = TWARN"
  shows "result_line cf mode (TCID cf) n t m = Some (line_of cf mode n t m)"
proof -
  have "length (pad_left 4 (show_int n)) \<le> 11" using show_pid_length [OF assms(3)] by (simp add: pad_left_def)
  moreover have "length (pad_right 8 (TCID cf)) \<le> 508" using assms(1) by (simp add: pad_right_def tcid_ok_def)
  ultimately have "length (line_of cf mode n t m) + 1 < 2048"
    using assms(2) strttype_length [OF assms(4)] by (simp add: line_of_def mesg_ok_def)
  with plain_flags [OF assms(4)] show ?thesis by (simp add: result_line_def line_of_def Let_def)
qed

text \<open>Without a file nothing recurses.\<close>

lemma tst_print_nofile:
  assumes "File s = None"
  shows "tst_print cf tcid n t m s = map_option snd (print_line cf tcid n t m s)"
proof (cases "print_line cf tcid n t m s")
  case None
  then show ?thesis unfolding tst_print_def by (subst tst_print_all.simps) simp
next
  case (Some q)
  then have "File (snd q) = None" using assms
    by (auto simp: print_line_def Let_def bind_eq_Some_conv split: if_splits)
  moreover have "tst_print_all cf [] (snd q) = Some (snd q)" by (subst tst_print_all.simps) simp
  ultimately show ?thesis unfolding tst_print_def using Some
    by (subst tst_print_all.simps) (cases q, simp)
qed

definition emit :: "tconf \<Rightarrow> tmode \<Rightarrow> int \<times> int \<times> string \<Rightarrow> out_item list" where
  "emit cf mode r = (case r of (n, t, m) \<Rightarrow>
     if mode = VERBOSE \<or> mode = NOPASS \<and> failing t then [Line (line_of cf mode n t m)] else [])"

lemma tst_print_plain:
  assumes "File s = None" "tcid_ok cf" "mesg_ok m" "int_fits 32 n" "plain t \<or> t = TWARN"
  shows "tst_print cf (TCID cf) n t m s =
    Some (s\<lparr>T_exitval := T_exitval s OR t, T_out := T_out s @ emit cf (T_mode s) (n, t, m)\<rparr>)"
proof -
  have t: "TTYPE_RESULT t = t" using assms(5) by auto
  have "t \<noteq> TFAIL \<and> t \<noteq> TBROK \<and> t \<noteq> TWARN \<longleftrightarrow> \<not> failing t" by (simp add: failing_def)
  with t result_line_fits [OF assms(2-5), of "T_mode s"] show ?thesis
    by (cases "T_mode s") (auto simp: tst_print_nofile [OF assms(1)] print_line_def emit_def Let_def)
qed

text \<open>With a file that cannot be opened the recursion has no end.\<close>

lemma print_unreadable:
  assumes "tst_print_all cf ls s = Some r"
  shows "ls \<noteq> [] \<longrightarrow> File s = Some f \<longrightarrow> T_mode s = VERBOSE \<longrightarrow> fa_open (files cf f) = 0"
proof (induction rule: tst_print_all.raw_induct [OF _ assms])
  case (1 rec cf ls s r)
  show ?case
  proof (intro impI)
    assume ne: "ls \<noteq> []" and f: "File s = Some f" and v: "T_mode s = VERBOSE"
    then obtain tcid n t m ls' where ls: "ls = (tcid, n, t, m) # ls'" by (cases ls) auto
    show "fa_open (files cf f) = 0"
    proof (rule ccontr)
      assume bad: "fa_open (files cf f) \<noteq> 0"
      from 1(2) ls obtain printed s1 where pl: "print_line cf tcid n t m s = Some (printed, s1)"
        by (auto simp: bind_eq_Some_conv)
      then have s1: "printed" "File s1 = Some f" "T_mode s1 = VERBOSE"
        using f v by (auto simp: print_line_def Let_def bind_eq_Some_conv)
      from 1(2) ls pl s1 bad obtain w s2 where "rec cf [(TCID cf, 0, TWARN, w)] s1 = Some s2"
        by (auto simp: bind_eq_Some_conv)
      from 1(1) [OF this] s1 bad show False by simp
    qed
  qed
qed

section \<open>Runs of results\<close>

fun run_resm :: "tconf \<Rightarrow> (int \<times> string) list \<Rightarrow> tst \<Rightarrow> tst option" where
  "run_resm cf [] s = Some s"
| "run_resm cf ((t, m) # rs) s = do { s \<leftarrow> tst_resm cf t m s; run_resm cf rs s }"

definition results_ok :: "(int \<times> string) list \<Rightarrow> bool" where
  "results_ok rs \<longleftrightarrow> (\<forall>(t, m) \<in> set rs. plain t \<and> mesg_ok m) \<and> length rs < 2 ^ 31 - 1"

lemma tst_resm_plain:
  assumes "plain t" "mesg_ok m" "first_time s = False" "0 \<le> tst_count s"
  shows "tst_resm cf t m s = do {
    s \<leftarrow> (let s = s\<lparr>T_exitval := T_exitval s OR t\<rparr> in case T_mode s of
           DISCARD \<Rightarrow> Some s
         | NOPASS \<Rightarrow> tst_condense cf (tst_count s + 1) t m s
         | VERBOSE \<Rightarrow> tst_print cf (TCID cf) (tst_count s + 1) t m s);
    Some (s\<lparr>tst_count := tst_count s + 1\<rparr>) }"
proof -
  have "t \<noteq> TWARN" "t \<noteq> TINFO" using assms(1) by (auto simp: plain_def ttype_defs)
  with assms show ?thesis
    by (simp add: tst_resm_def tst_res_def expand_args_def mesg_ok_def check_env_def Let_def cong: tmode.case_cong)
qed

text \<open>A warning is a line without a number; it may have the text of \<open>errno\<close>.\<close>

definition calm_tst :: "tst \<Rightarrow> bool" where
  "calm_tst s \<longleftrightarrow> T_mode s = VERBOSE \<and> \<not> first_time s \<and> File s = None \<and> Last s = None \<and> 0 \<le> tst_count s \<and> tst_count s < 2 ^ 31 - 2"

lemma strerrnodef_length: "length (strerrnodef e) \<le> 12"
  by (auto simp: strerrnodef_def pair_lookup_def upto.simps split: option.split dest!: map_of_SomeD)

lemma tst_resm_warn:
  assumes "calm_tst s" "tcid_ok cf" "mesg_ok m" "t = TWARN \<or> t = TWARN OR TERRNO" "int_fits 32 (cur_errno cf)"
    "length (strerror cf (cur_errno cf)) \<le> 300"
  shows "\<exists>s' l. tst_resm cf t m s = Some s' \<and> calm_tst s' \<and> T_out s' = T_out s @ [Line l] \<and> tst_brk_entered s' = tst_brk_entered s"
proof -
  have r: "TTYPE_RESULT t = TWARN" and fl: "t AND TTERRNO = 0" using assms(4) by (auto simp: TTYPE_RESULT_def ttype_defs)
  have st: "length (strttype t) = 5" using r by (simp add: strttype_def pair_lookup_def ttype_defs)
  have z: "length (pad_left 4 (show_int 0)) \<le> 11" using show_pid_length [of 0] by (simp add: pad_left_def int_fits_def)
  have p: "length (pad_right 8 (TCID cf)) \<le> 508" using assms(2) by (simp add: pad_right_def tcid_ok_def)
  have "\<exists>l. result_line cf VERBOSE (TCID cf) 0 t m = Some l"
    using st z p assms(3,6) strerrnodef_length [of "cur_errno cf"] show_pid_length [OF assms(5)]
    by (auto simp: result_line_def Let_def fl mesg_ok_def)
  then obtain l where l: "result_line cf VERBOSE (TCID cf) 0 t m = Some l" ..
  have "tst_resm cf t m s = Some (s\<lparr>T_exitval := T_exitval s OR TWARN OR TWARN, T_out := T_out s @ [Line l]\<rparr>)"
    using assms(1,3) r l
    by (simp add: tst_resm_def tst_res_def expand_args_def mesg_ok_def check_env_def calm_tst_def Let_def tst_print_nofile
      print_line_def or.assoc)
  with assms(1) show ?thesis by (auto simp: calm_tst_def)
qed

text \<open>In the mode \<open>VERBOSE\<close> each result is a line, numbered from 1.\<close>

fun numbered :: "int \<Rightarrow> (int \<times> string) list \<Rightarrow> (int \<times> int \<times> string) list" where
  "numbered n [] = []"
| "numbered n ((t, m) # rs) = (n, t, m) # numbered (n + 1) rs"

definition or_all :: "int \<Rightarrow> int list \<Rightarrow> int" where
  "or_all v ts = fold (\<lambda>t v. v OR t) ts v"

lemma or_all_simps [simp]: "or_all v [] = v" "or_all v (t # ts) = or_all (v OR t) ts"
  by (simp_all add: or_all_def)

lemma run_verbose:
  assumes "\<forall>(t, m) \<in> set rs. plain t \<and> mesg_ok m" "tcid_ok cf" "0 \<le> tst_count s" "tst_count s + int (length rs) < 2 ^ 31"
    and "File s = None" "first_time s = False" "T_mode s = VERBOSE"
  shows "run_resm cf rs s = Some (s\<lparr>T_exitval := or_all (T_exitval s) (map fst rs),
     T_out := T_out s @ concat (map (emit cf VERBOSE) (numbered (tst_count s + 1) rs)),
     tst_count := tst_count s + int (length rs)\<rparr>)"
  using assms
proof (induction rs arbitrary: s)
  case (Cons r rs)
  obtain t m where r: "r = (t, m)" by (cases r)
  have tm: "plain t" "mesg_ok m" using Cons.prems(1) r by auto
  have "int_fits 32 (tst_count s + 1)" using Cons.prems(3,4) by (simp add: int_fits_def)
  with tm Cons.prems have "tst_resm cf t m s = Some (s\<lparr>T_exitval := T_exitval s OR t,
      T_out := T_out s @ emit cf VERBOSE (tst_count s + 1, t, m), tst_count := tst_count s + 1\<rparr>)"
    by (simp add: tst_resm_plain tst_print_plain)
  with Cons r show ?case by (simp add: add.assoc)
qed simp

text \<open>In the mode \<open>NOPASS\<close> adjacent equal results are one result, with the number of the first.\<close>

function condensed :: "int \<Rightarrow> (int \<times> string) list \<Rightarrow> (int \<times> int \<times> string) list" where
  "condensed n [] = []"
| "condensed n ((t, m) # rs) =
     (n, t, m) # condensed (n + 1 + int (length (takeWhile (\<lambda>r. r = (t, m)) rs))) (dropWhile (\<lambda>r. r = (t, m)) rs)"
  by pat_completeness auto
termination
  by (relation "measure (\<lambda>(n, rs). length rs)") (auto simp: less_Suc_eq_le length_dropWhile_le)

lemma condense_other:
  assumes "Last s = Some (TCID cf, n0, t0, m0)" "t0 \<noteq> t \<or> m0 \<noteq> m" "File s = None"
    and "tcid_ok cf" "plain t0" "mesg_ok m0" "int_fits 32 n0" "plain t"
  shows "tst_condense cf n t m s = Some (s\<lparr>T_exitval := T_exitval s OR t0,
    T_out := T_out s @ emit cf (T_mode s) (n0, t0, m0), Last := Some (TCID cf, n, t, m)\<rparr>)"
  using assms by (auto simp: tst_condense_def tst_print_plain Let_def)

lemma run_nopass:
  assumes "\<forall>(t, m) \<in> set rs. plain t \<and> mesg_ok m" "tcid_ok cf" "0 \<le> tst_count s" "tst_count s + int (length rs) < 2 ^ 31"
    and "File s = None" "first_time s = False" "T_mode s = NOPASS"
    and "Last s = Some (TCID cf, n0, t0, m0)" "plain t0" "mesg_ok m0" "int_fits 32 n0"
  shows "\<exists>s'. do { s \<leftarrow> run_resm cf rs s; tst_flush cf s } = Some s' \<and>
    T_exitval s' = or_all (T_exitval s OR t0) (map fst rs) \<and>
    T_out s' = T_out s @ concat (map (emit cf NOPASS) ((n0, t0, m0) #
      condensed (tst_count s + 1 + int (length (takeWhile (\<lambda>r. r = (t0, m0)) rs))) (dropWhile (\<lambda>r. r = (t0, m0)) rs)))"
  using assms
proof (induction rs arbitrary: s n0 t0 m0)
  case Nil
  then show ?case by (simp add: tst_flush_def tst_print_plain)
next
  case (Cons r rs)
  obtain t m where r: "r = (t, m)" by (cases r)
  have tm: "plain t" "mesg_ok m" using Cons.prems(1) r by auto
  have fit: "int_fits 32 (tst_count s + 1)" using Cons.prems(3,4) by (simp add: int_fits_def)
  show ?case
  proof (cases "t = t0 \<and> m = m0")
    case True
    define s1 where "s1 = s\<lparr>T_exitval := T_exitval s OR t, tst_count := tst_count s + 1\<rparr>"
    have step: "tst_resm cf t m s = Some s1"
      using tm Cons.prems True by (simp add: tst_resm_plain tst_condense_def s1_def)
    have "\<exists>s'. do { s \<leftarrow> run_resm cf rs s1; tst_flush cf s } = Some s' \<and>
      T_exitval s' = or_all (T_exitval s1 OR t0) (map fst rs) \<and>
      T_out s' = T_out s1 @ concat (map (emit cf NOPASS) ((n0, t0, m0) #
        condensed (tst_count s1 + 1 + int (length (takeWhile (\<lambda>r. r = (t0, m0)) rs))) (dropWhile (\<lambda>r. r = (t0, m0)) rs)))"
      by (rule Cons.IH) (use Cons.prems in \<open>auto simp: s1_def\<close>)
    with step True r show ?thesis by (simp add: s1_def ac_simps)
  next
    case False
    define s1 where "s1 = s\<lparr>T_exitval := T_exitval s OR t OR t0, T_out := T_out s @ emit cf NOPASS (n0, t0, m0),
      Last := Some (TCID cf, tst_count s + 1, t, m), tst_count := tst_count s + 1\<rparr>"
    have step: "tst_resm cf t m s = Some s1"
    proof -
      have "t0 \<noteq> t \<or> m0 \<noteq> m" using False by auto
      with Cons.prems tm have "tst_condense cf (tst_count s + 1) t m (s\<lparr>T_exitval := T_exitval s OR t\<rparr>) =
          Some (s\<lparr>T_exitval := (T_exitval s OR t) OR t0, T_out := T_out s @ emit cf NOPASS (n0, t0, m0),
            Last := Some (TCID cf, tst_count s + 1, t, m)\<rparr>)"
        using condense_other [of "s\<lparr>T_exitval := T_exitval s OR t\<rparr>" cf n0 t0 m0 t m "tst_count s + 1"] by simp
      with Cons.prems tm show ?thesis by (simp add: tst_resm_plain s1_def or.assoc)
    qed
    have "\<exists>s'. do { s \<leftarrow> run_resm cf rs s1; tst_flush cf s } = Some s' \<and>
      T_exitval s' = or_all (T_exitval s1 OR t) (map fst rs) \<and>
      T_out s' = T_out s1 @ concat (map (emit cf NOPASS) ((tst_count s + 1, t, m) #
        condensed (tst_count s1 + 1 + int (length (takeWhile (\<lambda>r. r = (t, m)) rs))) (dropWhile (\<lambda>r. r = (t, m)) rs)))"
      by (rule Cons.IH) (use Cons.prems tm fit in \<open>auto simp: s1_def\<close>)
    with step False r show ?thesis by (auto simp: s1_def ac_simps)
  qed
qed

text \<open>The mode that \<open>check_env\<close> chooses is fixed by the first result.\<close>

definition mode_of :: "tconf \<Rightarrow> tmode" where
  "mode_of cf = T_mode (check_env cf tst_init)"

lemma tst_resm_first:
  assumes "plain t" "mesg_ok m"
  shows "tst_resm cf t m tst_init = tst_resm cf t m (tst_init\<lparr>first_time := False, T_mode := mode_of cf\<rparr>)"
  using assms by (simp add: tst_resm_def tst_res_def check_env_def mode_of_def tst_init_def Let_def)

text \<open>The exit status.\<close>

definition exit_status :: "int \<Rightarrow> int" where
  "exit_status v = v AND NOT (TRETR OR TINFO OR TCONF)"

lemma exit_status_or: "exit_status (v OR t) = exit_status v OR exit_status t"
  by (simp add: exit_status_def bit.conj_disj_distrib2)

lemma exit_status_all:
  assumes "\<forall>t \<in> set ts. plain t"
  shows "exit_status (or_all v ts) =
    (exit_status v OR (if TFAIL \<in> set ts then 1 else 0)) OR (if TBROK \<in> set ts then 2 else 0)"
proof -
  define one two :: int where "one = 1" and "two = 2"
  have type: "exit_status t = (if t = TFAIL then one else if t = TBROK then two else 0)" if "plain t" for t
    using that by (auto simp: plain_def exit_status_def ttype_defs one_def two_def)
  have "TFAIL \<noteq> TBROK" by (simp add: ttype_defs)
  with assms have "exit_status (or_all v ts) =
    (exit_status v OR (if TFAIL \<in> set ts then one else 0)) OR (if TBROK \<in> set ts then two else 0)"
  proof (induction ts arbitrary: v)
    case (Cons t ts)
    then show ?case by (auto simp: exit_status_or type or.assoc or.commute or.left_commute)
  qed simp
  then show ?thesis by (simp add: one_def two_def)
qed

section \<open>Properties\<close>


definition demo_tconf :: "string \<Rightarrow> tconf" where
  "demo_tconf mode = \<lparr>TCID = ''fork01'', toutput = Some mode, cur_errno = 0, test_errno = 0, strerror = (\<lambda>e. ''err''),
     files = (\<lambda>f. \<lparr>fa_exists = True, fa_open = (if f = ''secret'' then 13 else 0), fa_content = ''dump'', fa_short = None,
                   fa_read_error = None, fa_close = 0\<rparr>), euid = 0\<rparr>"

lemma demo_modes: "mode_of (demo_tconf ''VERBOSE'') = VERBOSE" "mode_of (demo_tconf ''NOPASS'') = NOPASS"
  "tcid_ok (demo_tconf m)"
  by (simp_all add: mode_of_def check_env_def tst_init_def demo_tconf_def tcid_ok_def)




lemma brkm_plain:
  assumes "T_mode s = VERBOSE" "first_time s = False" "File s = None" "Last s = None" "0 \<le> tst_count s" "tst_count s < 2 ^ 31 - 2"
    and "tcid_ok cf" "mesg_ok m" "r \<in> {TFAIL, TBROK, TCONF, TRETR}"
  shows "if tst_brk_entered s = 0
    then \<exists>s'. tst_brkm cf r None m s = Some (Exited (exit_status (T_exitval s OR r)) s') \<and>
      length (T_out s') = length (T_out s) + (if r = TFAIL then 1 else 2)
    else \<exists>s'. tst_brkm cf r None m s = Some (Go s') \<and> T_exitval s' = T_exitval s OR r \<and>
      T_out s' = T_out s @ [Line (line_of cf VERBOSE (tst_count s + 1) r m)]"
proof -
  have r: "plain r" "r \<noteq> TWARN" "r \<noteq> TINFO" using assms(9) by (auto simp: plain_def ttype_defs)
  have res: "tst_res cf r None x q = Some (q\<lparr>T_exitval := T_exitval q OR r,
      T_out := T_out q @ [Line (line_of cf VERBOSE (tst_count q + 1) r x)], tst_count := tst_count q + 1\<rparr>)"
    if "T_mode q = VERBOSE" "first_time q = False" "File q = None" "0 \<le> tst_count q" "tst_count q < 2 ^ 31 - 1" "mesg_ok x" for q x
  proof -
    have "int_fits 32 (tst_count q + 1)" using that by (simp add: int_fits_def)
    with that r assms(7) show ?thesis
      by (simp add: tst_res_def check_env_def Let_def expand_args_def mesg_ok_def tst_print_plain emit_def)
  qed
  define s1 where "s1 = s\<lparr>T_exitval := T_exitval s OR r,
    T_out := T_out s @ [Line (line_of cf VERBOSE (tst_count s + 1) r m)], tst_count := tst_count s + 1\<rparr>"
  have s1: "tst_res cf r None m s = Some s1" using res [of s m] assms by (simp add: s1_def)
  have args: "expand_args m = Some m" using assms(8) by (simp add: expand_args_def mesg_ok_def)
  show ?thesis
  proof (cases "tst_brk_entered s = 0")
    case False
    with s1 args r assms(9) show ?thesis by (auto simp: tst_brkm_def tst_brk_def s1_def)
  next
    case True
    define s2 where "s2 x = s1\<lparr>T_exitval := T_exitval s1 OR r,
      T_out := T_out s1 @ [Line (line_of cf VERBOSE (tst_count s1 + 1) r x)], tst_count := tst_count s1 + 1\<rparr>" for x
    have s2: "tst_res cf r None x s1 = Some (s2 x)" if "mesg_ok x" for x
      using res [of s1 x] that assms by (simp add: s1_def s2_def)
    have ok: "mesg_ok ''Remaining cases not appropriate for configuration''" "mesg_ok ''Remaining cases retired''"
      "mesg_ok ''Remaining cases broken''" by (simp_all add: mesg_ok_def)
    have ne: "TFAIL \<noteq> TBROK" "TFAIL \<noteq> TCONF" "TFAIL \<noteq> TRETR" "TBROK \<noteq> TCONF" "TBROK \<noteq> TRETR" "TRETR \<noteq> TCONF"
      by (simp_all add: ttype_defs)
    have ex: "tst_exit cf q = Some (Exited (exit_status (T_exitval q)) q)" if "Last q = None" for q
      using that by (simp add: tst_exit_def tst_flush_def exit_status_def)
    from assms(9) consider "r = TFAIL" | "r = TBROK" | "r = TCONF" | "r = TRETR" by blast
    then show ?thesis
      by cases (use True s1 s2 ok args ne r(1) ex assms(4) in
        \<open>simp_all add: tst_brkm_def tst_brk_def s2_def s1_def or.assoc plain_result\<close>)
  qed
qed



text \<open>A result that names a file which exists but cannot be opened is never reported: the warning about
  the file is printed while the file is still attached, so that it is opened again, without end.\<close>

lemma unreadable_file_never_returns:
  assumes "T_mode s = VERBOSE" "first_time s = False" "fa_exists (files cf f)" "fa_open (files cf f) \<noteq> 0"
  shows "tst_res cf t (Some f) m s = None"
proof -
  define q where "q = s\<lparr>T_exitval := T_exitval s OR TTYPE_RESULT t, File := Some f\<rparr>"
  have q: "File q = Some f" "T_mode q = VERBOSE" "tst_count q = tst_count s" using assms(1) by (simp_all add: q_def)
  have pn: "tst_print cf c n t' m' q = None" for c n t' m'
    using print_unreadable [of cf "[(c, n, t', m')]" q _ f] q assms(4)
    by (cases "tst_print_all cf [(c, n, t', m')] q") (auto simp: tst_print_def)
  show ?thesis
    by (cases "expand_args m"; cases "tst_count s < 0")
      (simp_all add: tst_res_def check_env_def Let_def assms(1-3) pn [unfolded q_def])
qed

lemma unreadable_file_never_returns_witness:
  "tst_res (demo_tconf ''VERBOSE'') TINFO (Some ''secret'') ''see file'' (tst_init\<lparr>first_time := False\<rparr>) = None"
  by (rule unreadable_file_never_returns) (simp_all add: tst_init_def demo_tconf_def)

text \<open>In the mode \<open>NOPASS\<close> a suppressed result does not detach its file: the file of a passed result is
  printed after the next result that fails, which named no file.\<close>

lemma stale_file_printed:
  "map_option T_out (do {
     s \<leftarrow> tst_res (demo_tconf ''NOPASS'') TPASS (Some ''log'') ''fine'' tst_init;
     tst_res (demo_tconf ''NOPASS'') TFAIL None ''broken'' s }) =
   Some [Line ''fork01      2       TFAIL  :  broken'', Contents ''dump'']"
  by code_simp

end
