(* ===== verification/Symbol.thy ===== *)
theory Symbol
  imports Splitstr "HOL-Library.Sublist"
begin

text \<open>
  \<^verbatim>\<open>pan/symbol.c\<close>: the symbol table of the report tools, a tree of tables whose keys are paths
  \<open>a,b,c\<close>. A table is the list of its entries in the order of insertion; an entry's data is null, a
  datum of the user or another table (the C code tells them apart by a magic number). Keys are split
  by the model of \<open>splitstr\<close>, whose storage is given back by \<open>splitstr_free\<close> on every path, so a key that
  starts with a comma is undefined behaviour (\<open>None\<close>). Allocation is taken to succeed.
\<close>

datatype 'a sdata = Nul | Datum 'a | Table "(string \<times> 'a sdata) list"

type_synonym 'a table = "(string \<times> 'a sdata) list"

abbreviation (input) SYM_EEXIST :: int where "SYM_EEXIST \<equiv> 17"
abbreviation (input) SYM_ENOTDIR :: int where "SYM_ENOTDIR \<equiv> 20"
abbreviation (input) SYM_EINVAL :: int where "SYM_EINVAL \<equiv> 22"

definition PUT_REPLACE :: int where "PUT_REPLACE = 1"

section \<open>Entries\<close>

definition newsym :: "'a table" where "newsym = []"

fun find_key1 :: "'a table \<Rightarrow> string \<Rightarrow> 'a sdata option" where
  "find_key1 [] key = None"
| "find_key1 ((k, d) # tab) key = (if k = key then Some d else find_key1 tab key)"

definition add_key :: "'a table \<Rightarrow> string \<Rightarrow> 'a sdata \<Rightarrow> 'a table" where
  "add_key tab key d = tab @ [(key, d)]"

text \<open>Storing through the pointer that \<open>find_key1\<close> returned.\<close>

fun set_key1 :: "'a table \<Rightarrow> string \<Rightarrow> 'a sdata \<Rightarrow> 'a table" where
  "set_key1 [] key d = []"
| "set_key1 ((k, x) # tab) key d = (if k = key then (k, d) # tab else (k, x) # set_key1 tab key d)"

text \<open>The second loop of \<open>sym_put\<close>: new tables for the rest of the key, the last one with the data.\<close>

fun new_path :: "string list \<Rightarrow> 'a sdata \<Rightarrow> 'a sdata" where
  "new_path [] d = d"
| "new_path (k # ks) d = Table (add_key newsym k (new_path ks d))"

fun put_path :: "'a table \<Rightarrow> string list \<Rightarrow> 'a sdata \<Rightarrow> int \<Rightarrow> int \<times> 'a table" where
  "put_path tab [] d flags = (SYM_EEXIST, tab)"
| "put_path tab (k # ks) d flags =
     (case find_key1 tab k of
        None \<Rightarrow> (0, add_key tab k (new_path ks d))
      | Some x \<Rightarrow>
          if ks = []
          then (if flags = PUT_REPLACE then (0, set_key1 tab k d) else (SYM_EEXIST, tab))
          else (case x of
              Table sub \<Rightarrow> (let (r, sub') = put_path sub ks d flags in (r, set_key1 tab k (Table sub')))
            | _ \<Rightarrow> (SYM_ENOTDIR, tab)))"

text \<open>The first loop, as a lookup.\<close>

fun get_path :: "'a table \<Rightarrow> string list \<Rightarrow> 'a sdata option" where
  "get_path tab [] = None"
| "get_path tab (k # ks) =
     (case find_key1 tab k of
        None \<Rightarrow> None
      | Some x \<Rightarrow> if ks = [] then Some x else (case x of Table sub \<Rightarrow> get_path sub ks | _ \<Rightarrow> None))"

section \<open>Operations on key strings\<close>

text \<open>The keys, after \<open>splitstr\<close>, and whether giving them back is defined.\<close>

definition split_key :: "string \<Rightarrow> string list option" where
  "split_key key = do {
     (arr, n) \<leftarrow> splitstr True True (Some key) (Some '','');
     keys \<leftarrow> arr;
     _ \<leftarrow> splitstr_free arr;
     Some (map (the \<circ> cell_token) (take n keys)) }"

text \<open>With no key at all the loop never sets \<open>nsym\<close>: only a put that does not replace is defined.\<close>

definition sym_put :: "'a table option \<Rightarrow> string \<Rightarrow> 'a sdata \<Rightarrow> int \<Rightarrow> (int \<times> 'a table option) option" where
  "sym_put tab key d flags =
     (case tab of
        None \<Rightarrow> Some (SYM_EINVAL, None)
      | Some t \<Rightarrow> do {
          keys \<leftarrow> split_key key;
          if keys = [] \<and> flags = PUT_REPLACE then None
          else (let (r, t') = put_path t keys d flags in Some (r, Some t')) })"

definition sym_get :: "'a table option \<Rightarrow> string \<Rightarrow> 'a sdata option" where
  "sym_get tab key =
     (case tab of
        None \<Rightarrow> Some Nul
      | Some t \<Rightarrow> do {
          keys \<leftarrow> split_key key;
          if keys = [] then None
          else Some (case get_path t keys of None \<Rightarrow> Nul | Some d \<Rightarrow> d) })"

section \<open>Stepping through a table\<close>

record 'a symh =
  sym_tab :: "'a table"
  cursor :: "(string list \<times> nat) option"

datatype seq_flag = R_CURSOR | R_FIRST | R_NEXT | R_LAST | R_PREV

definition table_at :: "'a table \<Rightarrow> string list \<Rightarrow> 'a table option" where
  "table_at t path = (if path = [] then Some t else case get_path t path of Some (Table s) \<Rightarrow> Some s | _ \<Rightarrow> None)"

text \<open>The cursor is the path of a table and the number of an entry. The result is the code and, when it is
  0, the entry. A cursor into a table that was replaced
  since (the C code steps on through the old table) is not modelled: \<open>None\<close>.\<close>

definition seq_to :: "'a symh \<Rightarrow> string list \<Rightarrow> nat \<Rightarrow> (int \<times> (string \<times> 'a sdata) option \<times> 'a symh) option" where
  "seq_to h path i = do {
     t \<leftarrow> table_at (sym_tab h) path;
     Some (if i < length t then (0, Some (t ! i), h\<lparr>cursor := Some (path, i)\<rparr>)
           else (1, None, h\<lparr>cursor := None\<rparr>)) }"

definition sym_seq ::
  "'a symh \<Rightarrow> string \<Rightarrow> seq_flag \<Rightarrow> (int \<times> (string \<times> 'a sdata) option \<times> 'a symh) option" where
  "sym_seq h key flag =
     (case flag of
        R_CURSOR \<Rightarrow> do {
          d \<leftarrow> sym_get (Some (sym_tab h)) key;
          (case d of
             Table t \<Rightarrow> do { path \<leftarrow> split_key key; seq_to h path 0 }
           | _ \<Rightarrow> Some (2, None, h)) }
      | R_FIRST \<Rightarrow> seq_to h [] 0
      | R_NEXT \<Rightarrow>
          (case cursor h of None \<Rightarrow> Some (1, None, h) | Some (path, i) \<Rightarrow> seq_to h path (i + 1))
      | _ \<Rightarrow> Some (-1, None, h))"

section \<open>Dumping\<close>

text \<open>The lines: depth and key, depth first.\<close>

fun dump_data :: "nat \<Rightarrow> 'a sdata \<Rightarrow> (nat \<times> string) list"
  and sym_dump :: "nat \<Rightarrow> 'a table \<Rightarrow> (nat \<times> string) list" where
  "dump_data depth (Table t) = sym_dump depth t"
| "dump_data depth Nul = []"
| "dump_data depth (Datum x) = []"
| "sym_dump depth [] = []"
| "sym_dump depth ((k, d) # t) = (depth, k) # dump_data (depth + 1) d @ sym_dump depth t"

section \<open>Laws\<close>

text \<open>What a user of a tree of keys relies on.\<close>

locale key_tree =
  fixes wf :: "'t \<Rightarrow> bool" and ok :: "'d \<Rightarrow> bool" and put :: "'t \<Rightarrow> 'k list \<Rightarrow> 'd \<Rightarrow> int \<Rightarrow> int \<times> 't" and get :: "'t \<Rightarrow> 'k list \<Rightarrow> 'd option"
  assumes put_wf: "wf t \<Longrightarrow> ok d \<Longrightarrow> put t ks d f = (r, t') \<Longrightarrow> wf t'"
    and get_put: "put t ks d f = (0, t') \<Longrightarrow> get t' ks = Some d"
    and get_put_other: "put t ks d f = (0, t') \<Longrightarrow> \<not> prefix ks ks' \<Longrightarrow> \<not> prefix ks' ks \<Longrightarrow> get t' ks' = get t ks'"
    and put_failed: "put t ks d f = (r, t') \<Longrightarrow> r \<noteq> 0 \<Longrightarrow> t' = t"
begin

fun put_all :: "'t \<Rightarrow> ('k list \<times> 'd) list \<Rightarrow> int \<Rightarrow> 't" where
  "put_all t [] f = t"
| "put_all t ((ks, d) # kds) f = put_all (snd (put t ks d f)) kds f"

lemma put_all_other:
  assumes "\<forall>(ks', d') \<in> set kds. \<not> prefix ks ks' \<and> \<not> prefix ks' ks"
  shows "get (put_all t kds f) ks = get t ks"
  using assms
proof (induction kds arbitrary: t)
  case (Cons kd kds)
  obtain ks' d' where kd: "kd = (ks', d')" by (cases kd)
  obtain r t' where r: "put t ks' d' f = (r, t')" by (cases "put t ks' d' f")
  have "get t' ks = get t ks"
    using get_put_other [of t ks' d' f t' ks] put_failed [OF r] Cons.prems r kd by (cases "r = 0") auto
  with Cons kd r show ?case by simp
qed simp

end

text \<open>Every table has each key once.\<close>

fun wf_data :: "'a sdata \<Rightarrow> bool" and wf_table :: "'a table \<Rightarrow> bool" where
  "wf_data (Table t) = wf_table t"
| "wf_data Nul = True"
| "wf_data (Datum x) = True"
| "wf_table [] = True"
| "wf_table ((k, d) # t) = (k \<notin> fst ` set t \<and> wf_data d \<and> wf_table t)"

lemma find_set [simp]:
  "find_key1 t k \<noteq> None \<Longrightarrow> find_key1 (set_key1 t k d) k = Some d"
  "k \<noteq> k' \<Longrightarrow> find_key1 (set_key1 t k d) k' = find_key1 t k'"
  by (induction t) auto

lemma find_add [simp]:
  "find_key1 t k = None \<Longrightarrow> find_key1 (add_key t k d) k = Some d"
  "k \<noteq> k' \<Longrightarrow> find_key1 (add_key t k d) k' = find_key1 t k'"
  by (induction t) (auto simp: add_key_def)

lemma set_same: "find_key1 t k = Some d \<Longrightarrow> set_key1 t k d = t"
  by (induction t) auto

lemma find_None_iff: "find_key1 t k = None \<longleftrightarrow> k \<notin> fst ` set t"
proof (induction t)
  case (Cons e t)
  then show ?case by (cases e) auto
qed simp

lemma map_fst_set [simp]: "map fst (set_key1 t k d) = map fst t"
proof (induction t)
  case (Cons e t)
  then show ?case by (cases e) auto
qed simp

lemma set_keys [simp]: "fst ` set (set_key1 t k d) = fst ` set t"
  by (metis map_fst_set set_map)

lemma wf_set: "wf_table t \<Longrightarrow> wf_data d \<Longrightarrow> wf_table (set_key1 t k d)"
  by (induction t) auto

lemma wf_add: "wf_table t \<Longrightarrow> wf_data d \<Longrightarrow> find_key1 t k = None \<Longrightarrow> wf_table (add_key t k d)"
  by (induction t) (auto simp: add_key_def split: if_splits)

lemma wf_find: "wf_table t \<Longrightarrow> find_key1 t k = Some d \<Longrightarrow> wf_data d"
  by (induction t) (auto split: if_splits)

lemma wf_new_path: "wf_data d \<Longrightarrow> wf_data (new_path ks d)"
  by (induction ks) (auto simp: add_key_def newsym_def)

lemma put_path_wf: "wf_table t \<Longrightarrow> wf_data d \<Longrightarrow> put_path t ks d f = (r, t') \<Longrightarrow> wf_table t'"
proof (induction t ks d f arbitrary: r t' rule: put_path.induct)
  case (2 tab k ks d flags)
  show ?case
  proof (cases "find_key1 tab k")
    case None
    with 2(2-4) show ?thesis by (auto intro!: wf_add wf_new_path)
  next
    case (Some x)
    note x = Some wf_find [OF 2(2) Some]
    show ?thesis
    proof (cases "ks = []")
      case True
      with 2(2-4) x show ?thesis by (auto intro!: wf_set split: if_splits)
    next
      case False
      show ?thesis
      proof (cases x)
        case (Table sub)
        obtain r' sub' where p: "put_path sub ks d flags = (r', sub')" by (cases "put_path sub ks d flags")
        have "wf_table sub'" using 2(1) [OF Some False Table _ 2(3) p] x(2) Table by simp
        with 2(2,4) x False Table p show ?thesis by (auto intro!: wf_set)
      qed (use 2(2,4) x False in auto)
    qed
  qed
qed simp

lemma find_newsym [simp]: "find_key1 newsym k = None"
  by (simp add: newsym_def)

lemma get_path_enter: "find_key1 t k = Some (Table s) \<Longrightarrow> get_path t (k # k' # ks) = get_path s (k' # ks)"
  by (simp only: get_path.simps(2) [of t] option.case sdata.case list.distinct if_False)

lemma get_new_path:
  "find_key1 t k = None \<Longrightarrow> get_path (add_key t k (new_path ks d)) (k # ks) = Some d"
proof (induction ks arbitrary: t k)
  case (Cons k' ks)
  have "find_key1 (add_key t k (new_path (k' # ks) d)) k = Some (Table (add_key newsym k' (new_path ks d)))"
    using Cons.prems by simp
  from get_path_enter [OF this] Cons.IH [of newsym k'] show ?case by simp
qed simp

lemma get_put_same: "put_path t ks d f = (0, t') \<Longrightarrow> get_path t' ks = Some d"
proof (induction t ks d f arbitrary: t' rule: put_path.induct)
  case (2 tab k ks d flags)
  show ?case
  proof (cases "find_key1 tab k")
    case None
    with 2(2) get_new_path [OF None, of ks d] show ?thesis by simp
  next
    case (Some x)
    with 2 show ?thesis
      by (cases "ks = []"; cases x) (auto split: if_splits prod.splits)
  qed
qed simp

lemma get_new_other: "\<not> prefix ks ks' \<Longrightarrow> \<not> prefix ks' ks \<Longrightarrow> ks \<noteq> [] \<Longrightarrow> ks' \<noteq> [] \<Longrightarrow>
  (case new_path ks d of Table t \<Rightarrow> get_path t ks' | _ \<Rightarrow> None) = None"
proof (induction ks arbitrary: ks')
  case (Cons k ks)
  then obtain k' ks'' where k: "ks' = k' # ks''" by (cases ks') auto
  show ?case
  proof (cases "k = k'")
    case True
    with Cons.prems k have "\<not> prefix ks ks''" "\<not> prefix ks'' ks" by auto
    moreover from this have "ks \<noteq> []" "ks'' \<noteq> []" by auto
    ultimately have "(case new_path ks d of Table t \<Rightarrow> get_path t ks'' | _ \<Rightarrow> None) = None" by (rule Cons.IH)
    with True k \<open>ks'' \<noteq> []\<close> show ?thesis by (simp add: add_key_def newsym_def)
  next
    case False
    with k show ?thesis by (simp add: add_key_def newsym_def)
  qed
qed simp

lemma get_put_different:
  "put_path t ks d f = (0, t') \<Longrightarrow> \<not> prefix ks ks' \<Longrightarrow> \<not> prefix ks' ks \<Longrightarrow> get_path t' ks' = get_path t ks'"
proof (induction t ks d f arbitrary: t' ks' rule: put_path.induct)
  case (2 tab k ks d flags)
  from 2(3,4) obtain k' ks'' where k: "ks' = k' # ks''" by (cases ks') auto
  show ?case
  proof (cases "k = k'")
    case False
    with 2(2) k show ?thesis
      by (auto split: option.splits if_splits sdata.splits prod.splits)
  next
    case True
    with 2(3,4) k have p: "\<not> prefix ks ks''" "\<not> prefix ks'' ks" by auto
    then have ne: "ks \<noteq> []" "ks'' \<noteq> []" by auto
    show ?thesis
    proof (cases "find_key1 tab k")
      case None
      with 2(2) k True ne get_new_other [OF p ne, of d] show ?thesis by auto
    next
      case (Some x)
      with 2 k True p ne show ?thesis by (cases x) (auto split: prod.splits)
    qed
  qed
qed simp

lemma put_path_failed: "put_path t ks d f = (r, t') \<Longrightarrow> r \<noteq> 0 \<Longrightarrow> t' = t"
proof (induction t ks d f arbitrary: r t' rule: put_path.induct)
  case (2 tab k ks d flags)
  show ?case
  proof (cases "\<exists>sub. find_key1 tab k = Some (Table sub) \<and> ks \<noteq> []")
    case True
    then obtain sub where sub: "find_key1 tab k = Some (Table sub)" "ks \<noteq> []" by auto
    obtain r' sub' where p: "put_path sub ks d flags = (r', sub')" by (cases "put_path sub ks d flags")
    with 2(2) sub have r: "r' = r" "t' = set_key1 tab k (Table sub')" by auto
    with 2(1) [OF sub refl p] 2(3) sub(1) show ?thesis by (simp add: set_same)
  next
    case False
    with 2(2,3) show ?thesis by (auto split: option.splits sdata.splits if_splits)
  qed
qed simp


interpretation key_tree wf_table wf_data put_path get_path
  by unfold_locales (auto intro: put_path_wf get_put_same get_put_different put_path_failed)

text \<open>Which code \<open>put_path\<close> returns: whether a proper prefix of the key holds something that is not a table.\<close>

fun is_table :: "'a sdata \<Rightarrow> bool" where
  "is_table (Table t) = True"
| "is_table _ = False"

fun blocked :: "'a table \<Rightarrow> string list \<Rightarrow> bool" where
  "blocked t [] = False"
| "blocked t (k # ks) =
     (ks \<noteq> [] \<and> (case find_key1 t k of None \<Rightarrow> False | Some (Table s) \<Rightarrow> blocked s ks | Some _ \<Rightarrow> True))"

lemma blocked_prefix:
  "blocked t ks \<longleftrightarrow> (\<exists>n x. 0 < n \<and> n < length ks \<and> get_path t (take n ks) = Some x \<and> \<not> is_table x)"
proof (induction t ks rule: blocked.induct)
  case (2 t k ks)
  have split: "(\<exists>n x. 0 < n \<and> n < length (k # ks) \<and> get_path t (take n (k # ks)) = Some x \<and> \<not> is_table x) \<longleftrightarrow>
      (\<exists>n x. n < length ks \<and> get_path t (k # take n ks) = Some x \<and> \<not> is_table x)" (is "?L = ?R")
  proof
    assume ?L
    then obtain n x where "0 < n" "n < length (k # ks)" "get_path t (take n (k # ks)) = Some x" "\<not> is_table x" by blast
    then show ?R by (cases n) auto
  next
    assume ?R
    then obtain n x where "n < length ks" "get_path t (k # take n ks) = Some x" "\<not> is_table x" by blast
    then have "0 < Suc n \<and> Suc n < length (k # ks) \<and> get_path t (take (Suc n) (k # ks)) = Some x \<and> \<not> is_table x" by simp
    then show ?L by blast
  qed
  show ?case
  proof (cases "find_key1 t k")
    case None
    with split show ?thesis by simp
  next
    case (Some x)
    show ?thesis
    proof (cases "is_table x")
      case False
      with Some split show ?thesis
        by (cases x) (auto intro!: exI [of _ 0])
    next
      case True
      then obtain s where s: "x = Table s" by (cases x) auto
      have "(\<exists>n y. n < length ks \<and> get_path t (k # take n ks) = Some y \<and> \<not> is_table y) \<longleftrightarrow>
          (\<exists>n y. 0 < n \<and> n < length ks \<and> get_path s (take n ks) = Some y \<and> \<not> is_table y)"
        using Some s by (intro iff_exI) auto
      with split Some s 2 [OF Some] show ?thesis by auto
    qed
  qed
qed simp

lemma put_path_code:
  "ks \<noteq> [] \<Longrightarrow> fst (put_path t ks d f) =
     (if blocked t ks then SYM_ENOTDIR
      else if get_path t ks = None \<or> f = PUT_REPLACE then 0 else SYM_EEXIST)"
proof (induction t ks d f rule: put_path.induct)
  case (2 tab k ks d flags)
  show ?case
  proof (cases "\<exists>sub. find_key1 tab k = Some (Table sub) \<and> ks \<noteq> []")
    case True
    then obtain sub where sub: "find_key1 tab k = Some (Table sub)" "ks \<noteq> []" by auto
    with 2(1) [OF sub refl] show ?thesis by (simp add: case_prod_beta Let_def)
  next
    case False
    then show ?thesis by (auto split: option.splits sdata.splits)
  qed
qed simp


section \<open>Keys\<close>

lemma split_key_eq:
  "split_key key =
     (if strtok_all '','' key = [] then Some []
      else if hd key = CHR '','' then None else Some (strtok_all '','' key))"
proof -
  define ts where "ts = toks '','' (0, key)"
  obtain arr where arr: "splitstr True True (Some key) (Some '','') = Some (Some arr, length ts)"
    "length ts < length arr" "arr = ts @ replicate (length arr - length ts) Null"
    using splitstr_array [of "'',''" "Some '',''" key] by (auto simp: ts_def)
  have t: "map (the \<circ> cell_token) ts = strtok_all '','' key"
    using toks_tokens [of "'',''" "(0, key)", THEN arg_cong [where f = "map the"]] by (simp add: ts_def comp_def)
  have take: "take (length ts) arr = ts" by (subst arr(3)) simp
  show ?thesis
  proof (cases "ts = []")
    case True
    with arr(2) have "arr ! 0 = Null" by (subst arr(3)) simp
    with True arr(1,2) t show ?thesis by (auto simp: split_key_def splitstr_free_def buf_simps)
  next
    case False
    obtain x where x: "hd ts = Tok (length (takeWhile (\<lambda>c. c \<in> set '','') key)) x"
      using hd_toks [of "'',''" key] False by (auto simp: ts_def)
    have "arr ! 0 = hd ts" using False by (subst arr(3)) (simp add: hd_conv_nth nth_append)
    with x arr(2) have "buf_get arr 0 = Some (Tok (length (takeWhile (\<lambda>c. c = CHR '','') key)) x)"
      by (cases arr) (auto simp: buf_get_def)
    moreover have "key \<noteq> []" using False by (auto simp: ts_def toks.simps strtok_off_def strtok_def)
    ultimately show ?thesis
      using False arr(1,2) t take by (cases key) (auto simp: split_key_def splitstr_free_def buf_simps)
  qed
qed

lemma split_key_join:
  assumes "ks \<noteq> []" "\<forall>k \<in> set ks. k \<noteq> [] \<and> CHR '','' \<notin> set k"
  shows "split_key (join_with (CHR '','') ks) = Some ks"
proof -
  have ks: "strtok_all '','' (join_with (CHR '','') ks) = ks"
    using assms by (intro strtok_all_join) auto
  obtain k ks' where k: "ks = k # ks'" "k \<noteq> []" "CHR '','' \<notin> set k" using assms by (cases ks) auto
  then have "hd (join_with (CHR '','') ks) \<noteq> CHR '',''" by (cases ks'; cases k) auto
  with ks assms(1) show ?thesis by (simp add: split_key_eq)
qed


lemma sym_put_keys:
  assumes "sym_put (Some t) key d flags = Some (r, p)"
  obtains ks t' where "split_key key = Some ks" "put_path t ks d flags = (r, t')" "p = Some t'"
  using assms by (auto simp: sym_put_def Let_def split: prod.splits if_splits Option.bind_splits)

section \<open>Properties\<close>

text \<open>C40: a put into a symbol table keeps every table of the tree free of duplicate keys. The put of a
  key is \<open>ENOTDIR\<close> exactly when a proper prefix of the key holds something that is not a table, and
  \<open>EEXIST\<close> exactly when the key is there and the put does not replace; then the tree is left as it was.
  Otherwise it returns 0, a get of the key returns the data, and a get of every other key that is not a
  prefix or an extension of it is what it was.\<close>

theorem sym_put_get:
  assumes "sym_put (Some t) key d flags = Some (r, Some t')"
    and "split_key key = Some ks" and "ks \<noteq> []" and "wf_table t" and "wf_data d"
  shows "wf_table t' \<and>
    r = (if \<exists>n x. 0 < n \<and> n < length ks \<and> get_path t (take n ks) = Some x \<and> \<not> is_table x then SYM_ENOTDIR
         else if get_path t ks = None \<or> flags = PUT_REPLACE then 0 else SYM_EEXIST) \<and>
    (if r = 0
     then sym_get (Some t') key = Some d \<and>
       (\<forall>key' ks'. split_key key' = Some ks' \<and> \<not> prefix ks ks' \<and> \<not> prefix ks' ks \<longrightarrow>
          sym_get (Some t') key' = sym_get (Some t) key')
     else t' = t)"
proof -
  have p: "put_path t ks d flags = (r, t')"
    using assms(1,2) by (auto elim: sym_put_keys)
  have "r = (if blocked t ks then SYM_ENOTDIR else if get_path t ks = None \<or> flags = PUT_REPLACE then 0 else SYM_EEXIST)"
    using put_path_code [OF assms(3), of t d flags] p by simp
  moreover have "r = 0 \<Longrightarrow> sym_get (Some t') key = Some d"
    using get_put [of t ks d flags t'] p assms(2,3) by (simp add: sym_get_def)
  moreover have "r = 0 \<Longrightarrow> split_key key' = Some ks' \<Longrightarrow> \<not> prefix ks ks' \<Longrightarrow> \<not> prefix ks' ks \<Longrightarrow>
      sym_get (Some t') key' = sym_get (Some t) key'" for key' ks'
    using get_put_other [of t ks d flags t' ks'] p by (simp add: sym_get_def)
  ultimately show ?thesis
    using put_wf [OF assms(4,5) p] put_failed [OF p] unfolding blocked_prefix by auto
qed

definition demo_table :: "int table" where
  "demo_table = [(''a'', Table [(''b'', Datum 1)]), (''c'', Datum 2)]"

theorem sym_put_get_witness:
  "wf_table [(''a'', Table [(''b'', Datum 1), (''d'', Datum (3 :: int))]), (''c'', Datum 2)] \<and>
   sym_get (Some [(''a'', Table [(''b'', Datum 1), (''d'', Datum (3 :: int))]), (''c'', Datum 2)]) ''a,d'' =
     Some (Datum 3)"
proof -
  have "sym_put (Some demo_table) ''a,d'' (Datum 3) 0 =
      Some (0, Some [(''a'', Table [(''b'', Datum 1), (''d'', Datum 3)]), (''c'', Datum 2)])" by code_simp
  moreover have "split_key ''a,d'' = Some [''a'', ''d'']" by code_simp
  moreover have "wf_table demo_table" by code_simp
  ultimately show ?thesis using sym_put_get [of demo_table "''a,d''" "Datum 3" 0 0] by auto
qed

text \<open>What a caller of \<open>sym_seq\<close> does: one call that sets the cursor, then \<open>R_NEXT\<close> until the code is not 0.\<close>

fun next_all :: "nat \<Rightarrow> 'a symh \<Rightarrow> (string \<times> 'a sdata) list option" where
  "next_all 0 h = None"
| "next_all (Suc n) h = do {
     (r, e, h') \<leftarrow> sym_seq h [] R_NEXT;
     if r = 0 then do { x \<leftarrow> e; es \<leftarrow> next_all n h'; Some (x # es) } else Some [] }"

definition seq_all :: "nat \<Rightarrow> 'a symh \<Rightarrow> string \<Rightarrow> seq_flag \<Rightarrow> (string \<times> 'a sdata) list option" where
  "seq_all n h key flag = do {
     (r, e, h') \<leftarrow> sym_seq h key flag;
     if r = 0 then do { x \<leftarrow> e; es \<leftarrow> next_all n h'; Some (x # es) } else Some [] }"

lemma next_all_entries:
  assumes "table_at (sym_tab h) path = Some t" "cursor h = Some (path, i)" "i < length t" "length t \<le> n + i"
  shows "next_all n h = Some (drop (Suc i) t)"
  using assms
proof (induction n arbitrary: h i)
  case (Suc n)
  show ?case
  proof (cases "Suc i < length t")
    case True
    with Suc show ?thesis by (simp add: sym_seq_def seq_to_def Cons_nth_drop_Suc [symmetric])
  next
    case False
    with Suc.prems show ?thesis by (simp add: sym_seq_def seq_to_def)
  qed
qed simp

lemma seq_all_entries:
  assumes "table_at (sym_tab h) path = Some t" "length t \<le> n" "sym_seq h key flag = seq_to h path 0"
  shows "seq_all n h key flag = Some t"
proof (cases t)
  case Nil
  with assms show ?thesis by (simp add: seq_all_def seq_to_def)
next
  case (Cons e t')
  with assms have "next_all n (h\<lparr>cursor := Some (path, 0)\<rparr>) = Some t'"
    using next_all_entries [of "h\<lparr>cursor := Some (path, 0)\<rparr>" path t 0 n] by simp
  with assms Cons show ?thesis by (simp add: seq_all_def seq_to_def)
qed

fun put_strs :: "'a table \<Rightarrow> (string \<times> 'a sdata) list \<Rightarrow> 'a table option" where
  "put_strs t [] = Some t"
| "put_strs t ((k, d) # es) = do {
     (r, p) \<leftarrow> sym_put (Some t) k d 0;
     t' \<leftarrow> p;
     if r = 0 then put_strs t' es else None }"

lemma put_strs_appends:
  assumes "\<forall>(k, d) \<in> set es. k \<noteq> [] \<and> CHR '','' \<notin> set k" "distinct (map fst (t @ es))"
  shows "put_strs t es = Some (t @ es)"
  using assms
proof (induction t es rule: put_strs.induct)
  case (2 t k d es)
  then have k: "split_key k = Some [k]" "find_key1 t k = None"
    using split_key_join [of "[k]"] by (auto simp: find_None_iff)
  then have "sym_put (Some t) k d 0 = Some (0, Some (t @ [(k, d)]))"
    by (simp add: sym_put_def add_key_def)
  moreover have "put_strs (t @ [(k, d)]) es = Some ((t @ [(k, d)]) @ es)"
    using 2(2,3) by (intro 2(1) [OF _ refl refl]) (auto simp: calculation)
  ultimately show ?case by simp
qed simp

text \<open>Stepping through a table with \<open>sym_seq\<close> visits every entry once, in the order of insertion, and
  then ends: from \<open>R_FIRST\<close>, the entries that distinct keys put into a new table; from \<open>R_CURSOR\<close> with
  the key of a table inside, the entries of that table. One call more than there are entries is enough.\<close>

lemma sym_seq_visits_all:
  assumes "\<forall>(k, d) \<in> set es. k \<noteq> [] \<and> CHR '','' \<notin> set k" and "distinct (map fst es)" and "length es \<le> n"
  shows "\<exists>t. put_strs newsym es = Some t \<and>
    seq_all n \<lparr>sym_tab = t, cursor = c\<rparr> [] R_FIRST = Some es \<and>
    (\<forall>key s. sym_get (Some t) key = Some (Table s) \<and> length s \<le> n \<longrightarrow>
       seq_all n \<lparr>sym_tab = t, cursor = c\<rparr> key R_CURSOR = Some s)"
proof -
  let ?h = "\<lparr>sym_tab = es, cursor = c\<rparr>"
  have "seq_all n ?h [] R_FIRST = Some es"
    using seq_all_entries [of ?h "[]" es n "[]" R_FIRST] assms(3) by (simp add: table_at_def sym_seq_def)
  moreover have "seq_all n ?h key R_CURSOR = Some s" if s: "sym_get (Some es) key = Some (Table s)" "length s \<le> n" for key s
  proof -
    obtain path where p: "split_key key = Some path" "path \<noteq> []" "get_path es path = Some (Table s)"
      using s(1) by (auto simp: sym_get_def split: Option.bind_splits if_splits option.splits)
    then show ?thesis
      using seq_all_entries [of ?h path s n key R_CURSOR] s by (simp add: table_at_def sym_seq_def)
  qed
  ultimately show ?thesis using put_strs_appends [of es newsym] assms(1,2) by (simp add: newsym_def)
qed

lemma sym_seq_visits_all_witness:
  "seq_all 2 \<lparr>sym_tab = demo_table, cursor = None\<rparr> [] R_FIRST = Some demo_table \<and>
   seq_all 2 \<lparr>sym_tab = demo_table, cursor = None\<rparr> ''a'' R_CURSOR = Some [(''b'', Datum 1)]"
proof -
  have "put_strs newsym demo_table = Some demo_table" by code_simp
  moreover have "sym_get (Some demo_table) ''a'' = Some (Table [(''b'', Datum 1)])" by code_simp
  moreover have "distinct (map fst demo_table)" by code_simp
  moreover have "\<forall>(k, d) \<in> set demo_table. k \<noteq> [] \<and> CHR '','' \<notin> set k" by code_simp
  moreover have "length demo_table = 2" by code_simp
  ultimately show ?thesis using sym_seq_visits_all [of demo_table 2 None] by auto
qed

end
