(* ===== verification/Symbol_Memory.thy ===== *)
theory Symbol_Memory
  imports Symbol
begin

text \<open>
  \<open>sym_rm\<close> of \<^verbatim>\<open>pan/symbol.c\<close> on an explicit store: the objects of a table have addresses, 0 is \<open>NULL\<close>. A use of an object
  that is not allocated, and a second \<open>free\<close>, are \<open>None\<close>. The relation \<open>holds_data\<close> ties the objects to the tables of
  \<open>Symbol\<close>.
\<close>

section \<open>The model\<close>

type_synonym addr = nat

text \<open>The header of a table (its first entry), an entry (next, key, data), a string. A header is told from a string by its
  magic number.\<close>

datatype mem_cell = Header addr | Node addr addr addr | Str string

type_synonym heap = "addr \<Rightarrow> mem_cell option"

definition free :: "addr \<Rightarrow> heap \<Rightarrow> heap option" where
  "free p h = (if p = 0 then Some h else if h p = None then None else Some (h(p := None)))"

definition RM_KEY :: int where "RM_KEY = 1"
definition RM_DATA :: int where "RM_DATA = 2"

definition free_if :: "bool \<Rightarrow> addr \<Rightarrow> heap \<Rightarrow> heap option" where
  "free_if b p h = (if b then free p h else Some h)"

text \<open>\<open>sym_rm\<close> of a table or of data, and its loop over the entries: \<open>Inl\<close> is a call with a table, \<open>Inr\<close> the loop at \<open>se\<close>.\<close>

partial_function (option) sym_rm_at :: "int \<Rightarrow> addr + addr \<Rightarrow> heap \<Rightarrow> heap option" where
  "sym_rm_at flags p h =
     (case p of
        Inl tab \<Rightarrow>
          if tab = 0 then Some h
          else (case h tab of
                  None \<Rightarrow> None
                | Some (Node _ _ _) \<Rightarrow> None
                | Some (Str _) \<Rightarrow> free_if (flags AND RM_DATA = 0) tab h
                | Some (Header se) \<Rightarrow> do {
                    h \<leftarrow> sym_rm_at flags (Inr se) h;
                    free_if (flags AND RM_DATA = 0) tab h })
      | Inr se \<Rightarrow>
          if se = 0 then Some h
          else (case h se of
                  Some (Node _ _ data) \<Rightarrow> do {
                    h \<leftarrow> sym_rm_at flags (Inl data) h;
                    (case h se of
                       Some (Node nse key data) \<Rightarrow> do {
                         h \<leftarrow> free_if (flags AND RM_KEY \<noteq> 0) key h;
                         h \<leftarrow> free_if (flags AND RM_DATA \<noteq> 0) data h;
                         h \<leftarrow> free se h;
                         sym_rm_at flags (Inr nse) h }
                     | _ \<Rightarrow> None) }
                | _ \<Rightarrow> None))"

definition sym_rm :: "addr \<Rightarrow> int \<Rightarrow> heap \<Rightarrow> heap option" where
  "sym_rm p flags h = sym_rm_at flags (Inl p) h"

section \<open>Tables in the store\<close>

text \<open>\<open>holds_data h p v os ks\<close>: the object at \<open>p\<close> is the data \<open>v\<close>; \<open>os\<close> are the addresses of the objects that belong to it,
  without the keys, and \<open>ks\<close> those of the keys.\<close>

inductive holds_data :: "heap \<Rightarrow> addr \<Rightarrow> string sdata \<Rightarrow> addr list \<Rightarrow> addr list \<Rightarrow> bool"
  and holds_list :: "heap \<Rightarrow> addr \<Rightarrow> string table \<Rightarrow> addr list \<Rightarrow> addr list \<Rightarrow> bool"
  for h :: heap
where
  null: "holds_data h 0 Nul [] []"
| datum: "p \<noteq> 0 \<Longrightarrow> h p = Some (Str s) \<Longrightarrow> holds_data h p (Datum s) [p] []"
| table: "p \<noteq> 0 \<Longrightarrow> h p = Some (Header e) \<Longrightarrow> holds_list h e es os ks \<Longrightarrow> holds_data h p (Table es) (p # os) ks"
| nil: "holds_list h 0 [] [] []"
| cons: "e \<noteq> 0 \<Longrightarrow> h e = Some (Node nse k d) \<Longrightarrow> k \<noteq> 0 \<Longrightarrow> h k = Some (Str key) \<Longrightarrow>
    holds_data h d v os ks \<Longrightarrow> holds_list h nse es os' ks' \<Longrightarrow>
    holds_list h e ((key, v) # es) (e # os @ os') (k # ks @ ks')"

text \<open>What a call frees of data, and of a list of entries.\<close>

definition freed_list :: "int \<Rightarrow> addr list \<Rightarrow> addr list \<Rightarrow> addr set" where
  "freed_list flags os ks = set os \<union> (if flags AND RM_KEY \<noteq> 0 then set ks else {})"

definition freed_data :: "int \<Rightarrow> addr \<Rightarrow> addr list \<Rightarrow> addr list \<Rightarrow> addr set" where
  "freed_data flags p os ks = freed_list flags os ks - (if flags AND RM_DATA \<noteq> 0 then {p} else {})"

lemma free_Some: "p \<noteq> 0 \<Longrightarrow> h p \<noteq> None \<Longrightarrow> free p h = Some (h |` (- {p}))"
  by (auto simp: free_def restrict_map_def fun_eq_iff)

lemma restrict_UNIV [simp]: "h |` UNIV = (h :: 'a \<Rightarrow> 'b option)"
  by (simp add: restrict_map_def)

lemma restrict_restrict: "(h |` A) |` B = h |` (A \<inter> B)"
  by (auto simp: restrict_map_def fun_eq_iff)

lemma free_if_Some: "b \<longrightarrow> p \<noteq> 0 \<and> h p \<noteq> None \<Longrightarrow> free_if b p h = Some (h |` (- (if b then {p} else {})))"
  by (auto simp: free_if_def free_Some)

lemma holds_data_top: "holds_data h p v os ks \<Longrightarrow> (p = 0 \<and> os = []) \<or> (p \<noteq> 0 \<and> (\<exists>r. os = p # r))"
  by (erule holds_data.cases) auto

lemma holds_allocated:
  "holds_data h p v os ks \<Longrightarrow> \<forall>a \<in> set os \<union> set ks. a \<noteq> 0 \<and> h a \<noteq> None"
  "holds_list h e es os ks \<Longrightarrow> \<forall>a \<in> set os \<union> set ks. a \<noteq> 0 \<and> h a \<noteq> None"
  by (induction rule: holds_data_holds_list.inducts) auto

text \<open>A store that agrees on the objects of the table: it may have lost others.\<close>

definition agree :: "heap \<Rightarrow> heap \<Rightarrow> addr list \<Rightarrow> addr list \<Rightarrow> bool" where
  "agree h h' os ks \<longleftrightarrow> (\<forall>a \<in> set os \<union> set ks. h' a = h a)"

lemma sym_rm_entry:
  assumes "e \<noteq> 0" "h' e = Some (Node nse k d)"
    and data: "sym_rm_at flags (Inl d) h' = Some (h' |` (- freed_data flags d os ks))"
    and dist: "e \<notin> set os \<union> set ks \<union> {k, d}" "k \<notin> set os \<union> set ks" "distinct (os @ ks)"
    and alloc: "0 \<notin> set ks" "k \<noteq> 0" "h' k \<noteq> None" "d = 0 \<and> os = [] \<or> d \<in> set os \<and> d \<noteq> 0 \<and> h' d \<noteq> None"
  shows "sym_rm_at flags (Inr e) h' = sym_rm_at flags (Inr nse) (h' |` (- ({e} \<union> freed_list flags os (k # ks))))"
proof -
  let ?h1 = "h' |` (- freed_data flags d os ks)"
  let ?h2 = "?h1 |` (- (if flags AND RM_KEY \<noteq> 0 then {k} else {}))"
  let ?h3 = "h' |` (- freed_list flags os (k # ks))"
  have "?h1 e = Some (Node nse k d)" "?h1 k \<noteq> None"
    using assms by (auto simp: freed_data_def freed_list_def)
  moreover have "free_if (flags AND RM_KEY \<noteq> 0) k ?h1 = Some ?h2"
    using calculation(2) alloc by (simp add: free_if_Some)
  moreover have "free_if (flags AND RM_DATA \<noteq> 0) d ?h2 = Some ?h3"
  proof (cases "d = 0")
    case True
    then show ?thesis
      using alloc(1,4) by (auto simp: free_if_def free_def freed_data_def freed_list_def restrict_restrict Int_Un_distrib2 intro!: arg_cong2 [where f = restrict_map])
  next
    case False
    then have "d \<noteq> k" using alloc dist by auto
    then have "?h2 d \<noteq> None" if "flags AND RM_DATA \<noteq> 0"
      using that False alloc dist by (auto simp: freed_data_def freed_list_def restrict_map_def)
    then show ?thesis
      using False \<open>d \<noteq> k\<close> alloc dist
      by (subst free_if_Some) (auto simp: freed_data_def freed_list_def restrict_restrict intro!: arg_cong2 [where f = restrict_map])
  qed
  moreover have "free e ?h3 = Some (h' |` (- ({e} \<union> freed_list flags os (k # ks))))"
    using assms(1,2) dist by (subst free_Some) (auto simp: freed_list_def restrict_restrict intro!: arg_cong2 [where f = restrict_map])
  ultimately show ?thesis
    using assms(1,2) data by (subst sym_rm_at.simps) simp
qed

lemma sym_rm_data:
  "holds_data h p v os ks \<Longrightarrow> distinct (os @ ks) \<Longrightarrow> agree h h' os ks \<Longrightarrow>
     sym_rm_at flags (Inl p) h' = Some (h' |` (- freed_data flags p os ks))"
  "holds_list h e es os ks \<Longrightarrow> distinct (os @ ks) \<Longrightarrow> agree h h' os ks \<Longrightarrow>
     sym_rm_at flags (Inr e) h' = Some (h' |` (- freed_list flags os ks))"
proof (induction arbitrary: h' and h' rule: holds_data_holds_list.inducts)
  case null
  then show ?case by (subst sym_rm_at.simps) (simp add: freed_data_def freed_list_def)
next
  case (datum p s)
  then have p: "h' p = Some (Str s)" "p \<noteq> 0" by (auto simp: agree_def)
  then show ?case
    by (subst sym_rm_at.simps)
      (auto simp: free_if_Some freed_data_def freed_list_def restrict_map_def fun_eq_iff)
next
  case (table p e es os ks)
  then have p: "h' p = Some (Header e)" by (auto simp: agree_def)
  have IH: "sym_rm_at flags (Inr e) h' = Some (h' |` (- freed_list flags os ks))"
    using table by (intro table(4)) (auto simp: agree_def)
  have "(h' |` (- freed_list flags os ks)) p \<noteq> None"
    using p table by (auto simp: freed_list_def)
  then show ?case
    using p table IH
    by (subst sym_rm_at.simps)
      (auto simp: free_if_Some freed_data_def freed_list_def restrict_restrict intro!: arg_cong2 [where f = restrict_map])
next
  case nil
  then show ?case by (subst sym_rm_at.simps) (simp add: freed_list_def)
next
  case (cons e nse k d key v os ks es os' ks')
  then have e: "h' e = Some (Node nse k d)" "h' k \<noteq> None" by (auto simp: agree_def)
  have data: "sym_rm_at flags (Inl d) h' = Some (h' |` (- freed_data flags d os ks))"
    using cons by (intro cons(6)) (auto simp: agree_def)
  have d: "d = 0 \<and> os = [] \<or> d \<in> set os \<and> d \<noteq> 0 \<and> h' d \<noteq> None" "0 \<notin> set ks"
    using holds_data_top [OF cons(5)] holds_allocated(1) [OF cons(5)] cons.prems(2) by (auto simp: agree_def)
  have dist: "e \<notin> set os \<union> set ks \<union> {k, d}" "k \<notin> set os \<union> set ks" "distinct (os @ ks)"
    using cons.prems(1) d cons(1,2) by auto
  let ?h = "h' |` (- ({e} \<union> freed_list flags os (k # ks)))"
  have "sym_rm_at flags (Inr nse) ?h = Some (?h |` (- freed_list flags os' ks'))"
    using cons.prems by (intro cons(8)) (auto simp: agree_def freed_list_def restrict_map_def)
  then show ?case
    unfolding sym_rm_entry [OF cons(1) e(1) data dist d(2) cons(2) e(2) d(1)]
    by (auto simp: freed_list_def restrict_restrict intro!: arg_cong2 [where f = restrict_map])
qed

section \<open>What is freed\<close>

text \<open>C26: the removal of a table whose objects are all different returns, uses and frees no object that is already freed, and
  frees every object of the table once: entries, inner tables and strings, with \<open>RM_DATA\<close> or without; the keys only with
  \<open>RM_KEY\<close>. The header of the table itself is freed without \<open>RM_DATA\<close>, and is left with it, and nothing else changes.
\<close>

theorem sym_rm_frees:
  assumes "holds_data h p v os ks" "distinct (os @ ks)"
  shows "sym_rm p flags h =
    Some (h |` (- ((if flags AND RM_DATA \<noteq> 0 then set os - {p} else set os) \<union> (if flags AND RM_KEY \<noteq> 0 then set ks else {}))))"
proof -
  have "p \<notin> set ks"
    using assms holds_data_top [OF assms(1)] holds_allocated(1) [OF assms(1)] by auto
  then have "freed_data flags p os ks =
      (if flags AND RM_DATA \<noteq> 0 then set os - {p} else set os) \<union> (if flags AND RM_KEY \<noteq> 0 then set ks else {})"
    by (auto simp: freed_data_def freed_list_def)
  then show ?thesis
    using sym_rm_data(1) [OF assms, of h flags] by (simp add: sym_rm_def agree_def)
qed

text \<open>A table with one string, removed as the scanner does it: its header stays.\<close>

definition demo_heap :: heap where
  "demo_heap = [1 \<mapsto> Header 2, 2 \<mapsto> Node 0 3 4, 3 \<mapsto> Str ''tag'', 4 \<mapsto> Str ''fork01'']"

theorem sym_rm_frees_witness:
  "sym_rm 1 (RM_KEY OR RM_DATA) demo_heap = Some [1 \<mapsto> Header 2]"
proof -
  have "holds_data demo_heap 4 (Datum ''fork01'') [4] []" by (rule holds_data_holds_list.datum) (simp_all add: demo_heap_def)
  moreover have "holds_list demo_heap 0 [] [] []" by (rule holds_data_holds_list.nil)
  ultimately have "holds_list demo_heap 2 [(''tag'', Datum ''fork01'')] [2, 4] [3]"
    using holds_data_holds_list.cons [of 2 demo_heap 0 3 4 "''tag''" _ "[4]" "[]" "[]" "[]" "[]"] by (simp add: demo_heap_def)
  then have "holds_data demo_heap 1 (Table [(''tag'', Datum ''fork01'')]) [1, 2, 4] [3]"
    by (intro holds_data_holds_list.table [where e = 2]) (simp_all add: demo_heap_def)
  from sym_rm_frees [OF this, of "RM_KEY OR RM_DATA"] show ?thesis
    by (simp add: RM_KEY_def RM_DATA_def) (auto simp: demo_heap_def restrict_map_def fun_eq_iff)
qed

end
