(* ===== verification/Search_Path.thy ===== *)
theory Search_Path
  imports Prelude
begin

text \<open>
  \<^verbatim>\<open>lib/search_path.c\<close> and \<^verbatim>\<open>lib/get_path.c\<close>: two searches of the directories of \<open>$PATH\<close>. The answers of \<open>access\<close>, \<open>stat\<close>,
  \<open>getcwd\<close> and \<open>getenv\<close> are arguments. \<open>search_path\<close> scans with indices into \<open>$PATH\<close> and may run for ever, so its loop is a
  partial function; \<open>tst_get_path\<close> always returns.
\<close>

definition PATH_MAX :: nat where "PATH_MAX = 4096"

abbreviation (input) SLASH :: char where "SLASH \<equiv> CHR ''/''"
abbreviation (input) COLON :: char where "COLON \<equiv> CHR '':''"

section \<open>\<open>search_path\<close>\<close>

text \<open>The answer of \<open>getcwd (curpath, PATH_MAX)\<close>: it fails for a directory whose name does not fit.\<close>

definition get_cwd :: "string option \<Rightarrow> string option" where
  "get_cwd cwd = (case cwd of None \<Rightarrow> None | Some d \<Rightarrow> if length d < PATH_MAX then Some d else None)"

text \<open>The caller's array \<open>res_path\<close> has \<open>PATH_MAX\<close> bytes; a longer string is stored outside of it.\<close>

definition put_res :: "int \<Rightarrow> string \<Rightarrow> (int \<times> string) option" where
  "put_res ret s = (if length s < PATH_MAX then Some (ret, s) else None)"

text \<open>A command with a slash. When \<open>getcwd\<close> fails, an array that was never set is copied.\<close>

definition search_direct :: "(string \<Rightarrow> bool) \<Rightarrow> string option \<Rightarrow> string \<Rightarrow> (int \<times> string) option" where
  "search_direct access cwd cmd =
     (if access cmd
      then if hd cmd \<noteq> SLASH
           then (case get_cwd cwd of
                   None \<Rightarrow> None
                 | Some curpath \<Rightarrow>
                     if PATH_MAX < length curpath + length cmd + 1
                     then put_res (-1) (''cmd (as relative path) and cwd is longer than '' @ show_nat PATH_MAX)
                     else put_res 0 (curpath @ [SLASH] @ cmd))
           else put_res 0 cmd
      else put_res (-1) (''file '' @ cmd @ '' not found''))"

text \<open>The end of the element of \<open>pathenv\<close> that starts at index \<open>i\<close>.\<close>

definition elem_end :: "string \<Rightarrow> nat \<Rightarrow> nat" where
  "elem_end pathenv i = i + length (takeWhile (\<lambda>c. c \<noteq> COLON) (drop i pathenv))"

text \<open>The file to test for one element, copied to \<open>tmppath\<close>, and the new \<open>curpath\<close>: \<open>Inr\<close> is that it is too long.\<close>

definition search_name ::
  "string option \<Rightarrow> string \<Rightarrow> bool \<Rightarrow> string \<Rightarrow> string \<Rightarrow> ((string + unit) \<times> string) option" where
  "search_name cwd cmd fullpath curpath tmppath =
     (if PATH_MAX < length tmppath + length cmd + 2 then Some (Inr (), curpath)
      else (let res = tmppath @ [SLASH] @ cmd
            in if fullpath \<and> hd res \<noteq> SLASH
               then do {
                 cur \<leftarrow> (if curpath = [] then get_cwd cwd else Some curpath);
                 Some (if PATH_MAX < length cur + length res + 2 then (Inr (), cur) else (Inl (cur @ [SLASH] @ res), cur)) }
               else Some (Inl res, curpath)))"

definition not_found :: "int \<Rightarrow> (int \<times> string) option" where
  "not_found toolong =
     put_res 1 (if toolong \<noteq> 0
                then ''Unable to find file, '' @ show_int toolong @ '' path/file strings were too long''
                else ''Unable to find file'')"

text \<open>The loop over the elements: \<open>cp\<close> and \<open>path\<close> are indices into \<open>pathenv\<close>, and \<open>tmppath\<close> has \<open>PATH_MAX\<close> bytes. The
  pointer \<open>cp\<close> moves past the separator only if it is not at the start of \<open>pathenv\<close>.\<close>

partial_function (option) search_loop ::
  "(string \<Rightarrow> bool) \<Rightarrow> string option \<Rightarrow> string \<Rightarrow> bool \<Rightarrow> string \<Rightarrow> nat \<Rightarrow> nat \<Rightarrow> bool \<Rightarrow> string \<Rightarrow> int \<Rightarrow> (int \<times> string) option"
where
  "search_loop access cwd cmd fullpath pathenv cp path lastpath curpath toolong =
     (if lastpath then not_found toolong
      else (let path = (if cp \<noteq> 0 then cp + 1 else path);
                cp = elem_end pathenv (if cp \<noteq> 0 then cp + 1 else cp);
                lastpath = (cp = length pathenv)
            in if PATH_MAX \<le> cp - path then None
               else do {
                 (r, curpath) \<leftarrow> search_name cwd cmd fullpath curpath (take (cp - path) (drop path pathenv));
                 (case r of
                    Inr _ \<Rightarrow> do {
                      toolong \<leftarrow> checked 32 (toolong + 1);
                      search_loop access cwd cmd fullpath pathenv cp path lastpath curpath toolong }
                  | Inl res \<Rightarrow>
                      if access res then Some (0, res)
                      else search_loop access cwd cmd fullpath pathenv cp path lastpath curpath toolong) }))"

text \<open>\<open>access\<close> is the call with the caller's mode.\<close>

definition search_path ::
  "(string \<Rightarrow> bool) \<Rightarrow> string option \<Rightarrow> string option \<Rightarrow> string \<Rightarrow> bool \<Rightarrow> (int \<times> string) option" where
  "search_path access cwd env cmd fullpath =
     (if SLASH \<in> set cmd then search_direct access cwd cmd
      else (case env of
              None \<Rightarrow> put_res (-1) ''Unable to get PATH env. variable''
            | Some pathenv \<Rightarrow> search_loop access cwd cmd fullpath pathenv 0 0 False [] 0))"

section \<open>\<open>tst_get_path\<close>\<close>

text \<open>\<open>snprintf\<close> with a buffer of \<open>n\<close> bytes: what the buffer holds.\<close>

definition snprintf :: "nat \<Rightarrow> string \<Rightarrow> string" where
  "snprintf n s = take (n - 1) s"

definition file_exist :: "(string \<Rightarrow> bool) \<Rightarrow> (string \<Rightarrow> bool) \<Rightarrow> string \<Rightarrow> bool" where
  "file_exist readable regular path \<longleftrightarrow> readable path \<and> regular path"

text \<open>The buffer after the element \<open>elem\<close> at the start of \<open>start\<close> is copied; an empty element is the working directory.\<close>

definition path_buf :: "nat \<Rightarrow> string \<Rightarrow> string \<Rightarrow> bool \<Rightarrow> string" where
  "path_buf buf_len start elem more =
     (let buf = (if more then snprintf (min buf_len (length elem + 1)) start else snprintf buf_len start)
      in if buf = [] then snprintf buf_len ''.'' else buf)"

text \<open>The scan of \<open>$PATH\<close> from \<open>start\<close>. A buffer without room for a character is read before its first byte.\<close>

function get_path_loop :: "(string \<Rightarrow> bool) \<Rightarrow> string \<Rightarrow> nat \<Rightarrow> string \<Rightarrow> (int \<times> string) option" where
  "get_path_loop exists prog_name buf_len start =
     (let (elem, rest) = cut_at COLON start;
          buf = path_buf buf_len start elem (rest \<noteq> None)
      in if buf = [] then None
         else (let s = (if last buf \<noteq> SLASH then SLASH # prog_name else prog_name);
                   buf' = buf @ snprintf (buf_len - length buf) s
               in if length s < buf_len - length buf \<and> exists buf' then Some (0, buf')
                  else (case rest of None \<Rightarrow> Some (-1, buf') | Some start \<Rightarrow> get_path_loop exists prog_name buf_len start)))"
  by pat_completeness auto
termination
  by (relation "measure (\<lambda>(e, p, b, s). length s)") (auto dest: cut_at_shrinks [OF sym])

declare get_path_loop.simps [simp del]

definition tst_get_path ::
  "(string \<Rightarrow> bool) \<Rightarrow> (string \<Rightarrow> bool) \<Rightarrow> string option \<Rightarrow> string \<Rightarrow> nat \<Rightarrow> (int \<times> string option) option" where
  "tst_get_path readable regular env prog_name buf_len =
     (case env of
        None \<Rightarrow> Some (-1, None)
      | Some path \<Rightarrow>
          map_option (apsnd Some) (get_path_loop (file_exist readable regular) prog_name buf_len path))"

section \<open>The elements of a path\<close>

definition path_ok :: "string list \<Rightarrow> bool" where
  "path_ok es \<longleftrightarrow> es \<noteq> [] \<and> (\<forall>e \<in> set es. COLON \<notin> set e)"

lemma path_ok_Cons: "path_ok (e # es) \<longleftrightarrow> COLON \<notin> set e \<and> (es \<noteq> [] \<longrightarrow> path_ok es)"
  by (auto simp: path_ok_def)

lemma elem_scan:
  assumes "drop p env = join_with COLON (e # es)" "p \<le> length env" "path_ok (e # es)"
  shows "elem_end env p = p + length e"
    and "take (length e) (drop p env) = e"
    and "p + length e = length env \<longleftrightarrow> es = []"
    and "es \<noteq> [] \<Longrightarrow> drop (Suc (p + length e)) env = join_with COLON es \<and> p + length e < length env"
proof -
  have len: "length env = p + length (join_with COLON (e # es))"
    using arg_cong [OF assms(1), of length] assms(2) by simp
  have e: "COLON \<notin> set e" using assms(3) by (simp add: path_ok_Cons)
  then have tw: "takeWhile (\<lambda>c. c \<noteq> COLON) (e @ COLON # r) = e" for r
    by (subst takeWhile_append2) auto
  from e have te: "takeWhile (\<lambda>c. c \<noteq> COLON) e = e" by (auto simp: takeWhile_eq_all_conv)
  show "elem_end env p = p + length e"
    using assms(1) by (cases es) (simp_all add: elem_end_def tw te)
  show "take (length e) (drop p env) = e" using assms(1) by (cases es) simp_all
  show "p + length e = length env \<longleftrightarrow> es = []" using len by (cases es) simp_all
  assume "es \<noteq> []"
  then have "drop p env = e @ COLON # join_with COLON es" using assms(1) by (cases es) simp_all
  then have "drop (Suc (length e)) (drop p env) = join_with COLON es" by simp
  then show "drop (Suc (p + length e)) env = join_with COLON es \<and> p + length e < length env"
    using len \<open>es \<noteq> []\<close> by (cases es) (simp_all add: add.commute)
qed

section \<open>What the search finds\<close>

text \<open>The name that is tried for an element when the working directory is \<open>d\<close>, unless it is too long.\<close>

definition path_cand :: "string \<Rightarrow> string \<Rightarrow> bool \<Rightarrow> string \<Rightarrow> string option" where
  "path_cand d cmd fullpath e =
     (let r = e @ [SLASH] @ cmd;
          full = (if fullpath \<and> hd r \<noteq> SLASH then d @ [SLASH] @ r else r)
      in if length r < PATH_MAX \<and> length full < PATH_MAX then Some full else None)"

definition path_hit :: "(string \<Rightarrow> bool) \<Rightarrow> string \<Rightarrow> string \<Rightarrow> bool \<Rightarrow> string \<Rightarrow> bool" where
  "path_hit access d cmd fullpath e \<longleftrightarrow> (case path_cand d cmd fullpath e of None \<Rightarrow> False | Some p \<Rightarrow> access p)"

text \<open>The result of the search of the elements \<open>es\<close>, when \<open>n\<close> names have been too long before.\<close>

definition path_result :: "(string \<Rightarrow> bool) \<Rightarrow> string \<Rightarrow> string \<Rightarrow> bool \<Rightarrow> string list \<Rightarrow> int \<Rightarrow> (int \<times> string) option" where
  "path_result access d cmd fullpath es n =
     (case find (path_hit access d cmd fullpath) es of
        Some e \<Rightarrow> Some (0, the (path_cand d cmd fullpath e))
      | None \<Rightarrow> not_found (n + int (length (filter (\<lambda>e. path_cand d cmd fullpath e = None) es))))"

lemma search_name_cand:
  assumes "length d < PATH_MAX" "cur = [] \<or> cur = d"
  shows "\<exists>cur'. (cur' = [] \<or> cur' = d) \<and>
    search_name (Some d) cmd fullpath cur e =
      Some (case path_cand d cmd fullpath e of None \<Rightarrow> Inr () | Some p \<Rightarrow> Inl p, cur')"
proof -
  have cwd: "(if cur = [] then get_cwd (Some d) else Some cur) = Some d"
    using assms by (auto simp: get_cwd_def)
  show ?thesis
  proof (cases "PATH_MAX < length e + length cmd + 2")
    case True
    then show ?thesis using assms(2) by (auto simp: search_name_def path_cand_def Let_def)
  next
    case False
    then show ?thesis
      using assms by (cases "fullpath \<and> hd (e @ [SLASH] @ cmd) \<noteq> SLASH")
        (auto simp: search_name_def path_cand_def Let_def cwd simp del: split_paired_Ex)
  qed
qed

text \<open>One round of the loop: the start \<open>p\<close> of the element is the one that the code computes.\<close>

lemma search_loop_round:
  assumes "drop p env = join_with COLON (e # es)" "p \<le> length env" "path_ok (e # es)" "length e < PATH_MAX"
    and "length d < PATH_MAX" "cur = [] \<or> cur = d"
    and p: "(if cp \<noteq> 0 then cp + 1 else q) = p" "(if cp \<noteq> 0 then cp + 1 else cp) = p"
  shows "\<exists>cur'. (cur' = [] \<or> cur' = d) \<and>
    search_loop access (Some d) cmd fullpath env cp q False cur n =
      (if path_hit access d cmd fullpath e then Some (0, the (path_cand d cmd fullpath e))
       else do {
         n' \<leftarrow> (if path_cand d cmd fullpath e = None then checked 32 (n + 1) else Some n);
         search_loop access (Some d) cmd fullpath env (p + length e) p (es = []) cur' n' })"
proof -
  note scan = elem_scan [OF assms(1-3)]
  obtain cur' where cur': "cur' = [] \<or> cur' = d"
    and name: "search_name (Some d) cmd fullpath cur e =
      Some (case path_cand d cmd fullpath e of None \<Rightarrow> Inr () | Some p \<Rightarrow> Inl p, cur')"
    using search_name_cand [OF assms(5,6)] by blast
  have "search_loop access (Some d) cmd fullpath env cp q False cur n =
      (if path_hit access d cmd fullpath e then Some (0, the (path_cand d cmd fullpath e))
       else do {
         n' \<leftarrow> (if path_cand d cmd fullpath e = None then checked 32 (n + 1) else Some n);
         search_loop access (Some d) cmd fullpath env (p + length e) p (es = []) cur' n' })"
    using assms(4)
    by (subst search_loop.simps, simp only: Let_def p, cases "path_cand d cmd fullpath e")
      (simp_all add: scan(1-3) name path_hit_def)
  with cur' show ?thesis by blast
qed

lemma search_loop_last: "search_loop access cwd cmd fullpath env cp q True cur n = not_found n"
  by (subst search_loop.simps) simp

lemma path_result_Cons:
  "path_result access d cmd fullpath (e # es) n =
     (if path_hit access d cmd fullpath e then Some (0, the (path_cand d cmd fullpath e))
      else path_result access d cmd fullpath es (if path_cand d cmd fullpath e = None then n + 1 else n))"
  by (cases "find (path_hit access d cmd fullpath) es") (simp_all add: path_result_def ac_simps)

lemma search_loop_result:
  assumes "drop p env = join_with COLON ts" "p \<le> length env" "path_ok ts" "\<forall>e \<in> set ts. length e < PATH_MAX"
    and "length d < PATH_MAX" "cur = [] \<or> cur = d" "0 \<le> n" "n + int (length ts) < 2 ^ 31"
    and "(if cp \<noteq> 0 then cp + 1 else q) = p" "(if cp \<noteq> 0 then cp + 1 else cp) = p"
    and "p = 0 \<Longrightarrow> hd ts \<noteq> [] \<or> tl ts = []"
  shows "search_loop access (Some d) cmd fullpath env cp q False cur n = path_result access d cmd fullpath ts n"
  using assms
proof (induction ts arbitrary: p cp q cur n)
  case Nil
  then show ?case by (simp add: path_ok_def)
next
  case (Cons e es)
  obtain cur' where cur': "cur' = [] \<or> cur' = d"
    and round: "search_loop access (Some d) cmd fullpath env cp q False cur n =
      (if path_hit access d cmd fullpath e then Some (0, the (path_cand d cmd fullpath e))
       else do {
         n' \<leftarrow> (if path_cand d cmd fullpath e = None then checked 32 (n + 1) else Some n);
         search_loop access (Some d) cmd fullpath env (p + length e) p (es = []) cur' n' })"
    using search_loop_round [OF Cons.prems(1-3) _ Cons.prems(5,6,9,10), of access cmd fullpath n] Cons.prems(4)
    by auto
  define n1 where "n1 = (if path_cand d cmd fullpath e = None then n + 1 else n)"
  have n1: "(if path_cand d cmd fullpath e = None then checked 32 (n + 1) else Some n) = Some n1"
    using Cons.prems(7,8) by (simp add: n1_def int_fits_def)
  have rest: "search_loop access (Some d) cmd fullpath env (p + length e) p (es = []) cur' n1 =
      path_result access d cmd fullpath es n1"
  proof (cases "es = []")
    case True
    then show ?thesis by (simp add: search_loop_last path_result_def)
  next
    case False
    have scan: "drop (Suc (p + length e)) env = join_with COLON es" "p + length e < length env"
      using elem_scan(4) [OF Cons.prems(1-3) False] by auto
    have "p + length e \<noteq> 0" using Cons.prems(11) False by auto
    then have "search_loop access (Some d) cmd fullpath env (p + length e) p False cur' n1 =
        path_result access d cmd fullpath es n1"
      using scan Cons.prems(3-8) False cur'
      by (intro Cons.IH [where p = "Suc (p + length e)"]) (simp_all add: path_ok_Cons n1_def)
    with False show ?thesis by simp
  qed
  show ?case unfolding path_result_Cons round n1 using rest by (simp add: n1_def)
qed



lemma search_loop_stuck:
  assumes "search_loop access cwd cmd fullpath env cp q lastpath cur n = Some r"
  shows "\<not> (env = COLON # s \<and> cp = 0 \<and> q = 0 \<and> \<not> lastpath \<and>
    \<not> (length cmd + 1 < PATH_MAX \<and> access (SLASH # cmd)))"
proof (induction rule: search_loop.raw_induct [OF _ assms])
  case (1 rec access cwd cmd fullpath env cp q lastpath cur n r)
  have "elem_end (COLON # s) 0 = 0" by (simp add: elem_end_def)
  with 1(2) show ?case
    by (auto simp: Let_def search_name_def bind_eq_Some_conv not_less split: if_splits sum.splits dest!: 1(1))
qed

text \<open>When \<open>$PATH\<close> starts with a colon, the loop never moves past its empty first element: \<open>search_path\<close> returns only
  if the command is found in the root directory, and runs for ever if not, whatever the other directories hold.
\<close>

lemma search_path_leading_colon:
  assumes "SLASH \<notin> set cmd"
  shows "search_path access cwd (Some (COLON # s)) cmd fullpath =
    (if length cmd + 1 < PATH_MAX \<and> access (SLASH # cmd) then Some (0, SLASH # cmd) else None)"
proof (cases "length cmd + 1 < PATH_MAX \<and> access (SLASH # cmd)")
  case True
  have "elem_end (COLON # s) 0 = 0" by (simp add: elem_end_def)
  with True assms show ?thesis
    by (simp add: search_path_def search_name_def PATH_MAX_def) (subst search_loop.simps, simp add: search_name_def PATH_MAX_def)
next
  case False
  then show ?thesis
    using assms search_loop_stuck [of access cwd cmd fullpath "COLON # s" 0 0 False "[]" 0]
    by (cases "search_loop access cwd cmd fullpath (COLON # s) 0 0 False [] 0") (auto simp: search_path_def)
qed

lemma search_path_leading_colon_witness:
  "search_path (\<lambda>f. f = ''/bin/sh'') (Some ''/home'') (Some '':/bin'') ''sh'' True = None"
  using search_path_leading_colon [of "''sh''" "\<lambda>f. f = ''/bin/sh''" "Some ''/home''" "''/bin''" True] by simp

section \<open>Commands with a slash\<close>

text \<open>The check of the length of a relative command leaves no room for the final NUL: a name of exactly \<open>PATH_MAX\<close> characters
  is stored, with its NUL outside of the caller's array.\<close>

lemma search_direct_relative:
  assumes "SLASH \<in> set cmd" "hd cmd \<noteq> SLASH" "access cmd" "length d < PATH_MAX"
  shows "search_path access (Some d) env cmd fullpath =
    (if length d + length cmd + 1 < PATH_MAX then Some (0, d @ [SLASH] @ cmd)
     else if length d + length cmd + 1 = PATH_MAX then None
     else Some (-1, ''cmd (as relative path) and cwd is longer than '' @ show_nat PATH_MAX))"
proof -
  have "length (show_nat PATH_MAX) \<le> Suc 3" by (rule show_nat_length) (simp add: PATH_MAX_def)
  then show ?thesis using assms by (auto simp: search_path_def search_direct_def get_cwd_def put_res_def PATH_MAX_def)
qed

section \<open>What \<open>tst_get_path\<close> finds\<close>

text \<open>The name that is tried for an element: an empty element is the working directory.\<close>

definition get_cand :: "string \<Rightarrow> string \<Rightarrow> string" where
  "get_cand prog_name e =
     (let dir = (if e = [] then ''.'' else e) in dir @ (if last dir \<noteq> SLASH then [SLASH] else []) @ prog_name)"

definition get_hit :: "(string \<Rightarrow> bool) \<Rightarrow> string \<Rightarrow> nat \<Rightarrow> string \<Rightarrow> bool" where
  "get_hit exists prog_name buf_len e \<longleftrightarrow>
     length (get_cand prog_name e) < buf_len \<and> exists (get_cand prog_name e)"

text \<open>One round: the element may have been cut to the size of the buffer, and then no name fits.\<close>

lemma get_path_round:
  assumes "COLON \<notin> set e" "2 \<le> buf_len" "prog_name \<noteq> []" "s = e @ r" "r = [] \<or> hd r = COLON"
  shows "\<exists>buf. get_path_loop exists prog_name buf_len s =
    (if get_hit exists prog_name buf_len e then Some (0, get_cand prog_name e)
     else if r = [] then Some (-1, buf) else get_path_loop exists prog_name buf_len (tl r))"
proof -
  have cut: "cut_at COLON s = (e, if r = [] then None else Some (tl r))"
    using assms(1,4,5) by (cases r) (simp_all add: cut_at_none cut_at_append)
  define buf where "buf = (if take (buf_len - 1) e = [] then ''.'' else take (buf_len - 1) e)"
  have buf: "path_buf buf_len s e (r \<noteq> []) = buf"
    using assms(2,4) by (cases "buf_len \<le> length e") (auto simp: path_buf_def buf_def snprintf_def min_def Let_def)
  define rest where "rest = (if last buf \<noteq> SLASH then SLASH # prog_name else prog_name)"
  have room: "length rest < buf_len - length buf \<longleftrightarrow> length (get_cand prog_name e) < buf_len"
    using assms(2,3) by (auto simp: rest_def buf_def get_cand_def Let_def min_def)
  have name: "length (get_cand prog_name e) < buf_len \<Longrightarrow>
      buf @ snprintf (buf_len - length buf) rest = get_cand prog_name e"
    using assms(2) by (auto simp: rest_def buf_def get_cand_def Let_def snprintf_def min_def)
  have "buf \<noteq> []" by (simp add: buf_def)
  then show ?thesis
    using room name buf
    by (subst get_path_loop.simps, cases "r = []")
      (auto simp: cut rest_def [symmetric] get_hit_def Let_def)
qed

lemma get_path_loop_first:
  assumes "path_ok es" "2 \<le> buf_len" "prog_name \<noteq> []"
  shows "\<exists>buf. get_path_loop exists prog_name buf_len (join_with COLON es) =
    Some (case find (get_hit exists prog_name buf_len) es of
      Some e \<Rightarrow> (0, get_cand prog_name e) | None \<Rightarrow> (-1, buf))"
  using assms(1)
proof (induction es)
  case Nil
  then show ?case by (simp add: path_ok_def)
next
  case (Cons e es)
  then have e: "COLON \<notin> set e" by (simp add: path_ok_Cons)
  define r where "r = (if es = [] then [] else COLON # join_with COLON es)"
  have r: "join_with COLON (e # es) = e @ r" "r = [] \<or> hd r = COLON" "r = [] \<longleftrightarrow> es = []" "es \<noteq> [] \<Longrightarrow> tl r = join_with COLON es"
    by (cases es; simp add: r_def)+
  from get_path_round [OF e assms(2,3) r(1,2)] show ?case
  proof
    fix buf
    assume round: "get_path_loop exists prog_name buf_len (join_with COLON (e # es)) =
      (if get_hit exists prog_name buf_len e then Some (0, get_cand prog_name e)
       else if r = [] then Some (-1, buf) else get_path_loop exists prog_name buf_len (tl r))"
    show ?case
      unfolding round using Cons r(3,4) by (cases "es = []") (auto simp: path_ok_Cons)
  qed
qed

text \<open>\<open>tst_get_path\<close> returns 0 and the name made of the first element of \<open>$PATH\<close>, in order, whose name fits into the buffer
  and is a regular file that can be read; an empty element stands for the working directory, wherever it is. It returns -1 if
  there is none, and it always returns.
\<close>

lemma get_path_first:
  assumes "path_ok es" "2 \<le> buf_len" "prog_name \<noteq> []"
  shows "\<exists>buf. tst_get_path readable regular (Some (join_with COLON es)) prog_name buf_len =
    Some (case find (get_hit (file_exist readable regular) prog_name buf_len) es of
      Some e \<Rightarrow> (0, Some (get_cand prog_name e)) | None \<Rightarrow> (-1, Some buf))"
  using get_path_loop_first [OF assms, of "file_exist readable regular"]
  by (auto simp: tst_get_path_def split: option.split)

lemma get_path_first_witness:
  "tst_get_path (\<lambda>f. True) (\<lambda>f. f = ''./sh'') (Some '':/bin'') ''sh'' 16 = Some (0, Some ''./sh'')"
  using get_path_first [of "['''', ''/bin'']" 16 "''sh''" "\<lambda>f. True" "\<lambda>f. f = ''./sh''"]
  by (simp add: path_ok_def get_hit_def get_cand_def file_exist_def)

end
