(* ===== verification/Forker.thy ===== *)
theory Forker
  imports Prelude
begin

text \<open>
  \<^verbatim>\<open>lib/forker.c\<close>: a process makes copies of itself. Every value of the loop counter belongs to one call of \<open>fork\<close>, in
  the first process (mode 0) or in the newest one (mode 1), so the answers of the kernel are a function of the counter. The
  result is the list of all processes that return from the call, each with its own copy of the variables.
\<close>

section \<open>The model\<close>

definition FORKER_MAX_PIDS :: nat where "FORKER_MAX_PIDS = 4098"

text \<open>A process with the global variables, the value that it returns, and the message that it prints: prefix and \<open>errno\<close>.\<close>

record fproc =
  fk_pid :: int
  Forker_pids :: "int list"
  Forker_npids :: int
  fk_ret :: int
  fk_err :: "(string \<times> int) option"

definition store_pid :: "int \<Rightarrow> fproc \<Rightarrow> fproc option" where
  "store_pid pid p = do {
     n \<leftarrow> checked 32 (Forker_npids p + 1);
     pids \<leftarrow> (if n < int FORKER_MAX_PIDS
              then if 0 < n then buf_set (Forker_pids p) (nat (n - 1)) pid else None
              else Some (Forker_pids p));
     Some (p\<lparr>Forker_npids := n, Forker_pids := pids\<rparr>) }"

text \<open>After a \<open>fork\<close> that succeeds both processes store the pid of the child, which \<open>getpid\<close> and \<open>fork\<close> tell them.\<close>

function forker_loop :: "(int \<Rightarrow> int + int) \<Rightarrow> int \<Rightarrow> string option \<Rightarrow> int \<Rightarrow> int \<Rightarrow> fproc \<Rightarrow> fproc list option" where
  "forker_loop fork mode prefix ncopies cnt p =
     (if cnt < ncopies
      then (case fork cnt of
              Inl errno \<Rightarrow>
                Some [p\<lparr>fk_ret := (if mode = 1 then 0 else cnt - 1), fk_err := map_option (\<lambda>s. (s, errno)) prefix\<rparr>]
            | Inr pid \<Rightarrow> do {
                q \<leftarrow> store_pid pid p;
                if mode = 1
                then do {
                  ps \<leftarrow> forker_loop fork mode prefix ncopies (cnt + 1) (q\<lparr>fk_pid := pid\<rparr>);
                  Some (q\<lparr>fk_ret := cnt - 1\<rparr> # ps) }
                else do {
                  ps \<leftarrow> forker_loop fork mode prefix ncopies (cnt + 1) q;
                  Some (q\<lparr>fk_pid := pid, fk_ret := cnt\<rparr> # ps) } })
      else do {
        pids \<leftarrow> (if Forker_npids p < int FORKER_MAX_PIDS
                 then if 0 \<le> Forker_npids p then buf_set (Forker_pids p) (nat (Forker_npids p)) 0 else None
                 else Some (Forker_pids p));
        Some [p\<lparr>Forker_pids := pids, fk_ret := cnt - 1\<rparr>] })"
  by pat_completeness auto
termination
  by (relation "measure (\<lambda>(f, m, pre, n, cnt, p). nat (n - cnt))") auto

declare forker_loop.simps [simp del]

definition forker :: "(int \<Rightarrow> int + int) \<Rightarrow> int \<Rightarrow> int \<Rightarrow> string option \<Rightarrow> fproc \<Rightarrow> fproc list option" where
  "forker fork ncopies mode prefix p = do {
     pids \<leftarrow> buf_set (Forker_pids p) 0 0;
     forker_loop fork mode prefix ncopies 1 (p\<lparr>Forker_pids := pids\<rparr>) }"

text \<open>\<open>background\<close>: the parent's exit status, or \<open>errno\<close> when there is no child; and the value that the child returns.\<close>

definition background :: "int + int \<Rightarrow> string option \<Rightarrow> int \<times> (string \<times> int) option \<times> int option" where
  "background fork prefix =
     (case fork of
        Inl errno \<Rightarrow> (errno, map_option (\<lambda>s. (s, errno)) prefix, None)
      | Inr pid \<Rightarrow> (0, None, Some 0))"

section \<open>The family of processes\<close>

text \<open>A process that has not forked yet.\<close>

definition fresh_proc :: "fproc \<Rightarrow> bool" where
  "fresh_proc p \<longleftrightarrow> length (Forker_pids p) = FORKER_MAX_PIDS \<and> Forker_npids p = 0 \<and> fk_err p = None"

text \<open>What the process knows: the pids up to the count, which are as many as fit into the array.\<close>

definition known_pids :: "fproc \<Rightarrow> int list" where
  "known_pids p = take (min (nat (Forker_npids p)) (FORKER_MAX_PIDS - 1)) (Forker_pids p)"

definition child_pid :: "(int \<Rightarrow> int + int) \<Rightarrow> nat \<Rightarrow> int" where
  "child_pid fork k = (case fork (int k) of Inr pid \<Rightarrow> pid | Inl _ \<Rightarrow> -1)"

text \<open>The answers to the calls \<open>1, ..., n - 1\<close> are pids, and then the loop ends: all copies are made or a call fails.\<close>

definition forks :: "(int \<Rightarrow> int + int) \<Rightarrow> int \<Rightarrow> nat \<Rightarrow> bool" where
  "forks fork ncopies n \<longleftrightarrow> 1 \<le> n \<and> int n \<le> max 1 ncopies \<and> (\<forall>k. 1 \<le> k \<and> k < n \<longrightarrow> (\<exists>pid. fork (int k) = Inr pid)) \<and>
     (int n < ncopies \<longrightarrow> (\<exists>errno. fork (int n) = Inl errno))"

text \<open>What matters of a returning process: its pid, the value it returns, what it knows, its message.\<close>

definition view :: "fproc \<Rightarrow> int \<times> int \<times> int list \<times> (string \<times> int) option" where
  "view p = (fk_pid p, fk_ret p, known_pids p, fk_err p)"

definition fork_msg :: "(int \<Rightarrow> int + int) \<Rightarrow> int \<Rightarrow> nat \<Rightarrow> string option \<Rightarrow> (string \<times> int) option" where
  "fork_msg fork ncopies n prefix =
     (if int n < ncopies then map_option (\<lambda>s. (s, case fork (int n) of Inl e \<Rightarrow> e | Inr _ \<Rightarrow> 0)) prefix else None)"

text \<open>The pids of the first \<open>i\<close> children, as many as the array can hold.\<close>

definition pids_upto :: "(int \<Rightarrow> int + int) \<Rightarrow> nat \<Rightarrow> int list" where
  "pids_upto fork i = take (FORKER_MAX_PIDS - 1) (map (child_pid fork) [1..<Suc i])"

text \<open>The state of the process that makes the call with the counter \<open>k\<close>.\<close>

definition at_fork :: "(int \<Rightarrow> int + int) \<Rightarrow> nat \<Rightarrow> fproc \<Rightarrow> bool" where
  "at_fork fork k p \<longleftrightarrow> 1 \<le> k \<and> length (Forker_pids p) = FORKER_MAX_PIDS \<and> Forker_npids p = int (k - 1) \<and>
     fk_err p = None \<and> known_pids p = pids_upto fork (k - 1)"

lemma at_fork_store:
  assumes "at_fork fork k p" "fork (int k) = Inr pid" "k < 2 ^ 31"
  shows "\<exists>q. store_pid pid p = Some q \<and> at_fork fork (Suc k) q \<and> fk_pid q = fk_pid p \<and> fk_err q = None"
proof -
  have k: "1 \<le> k" "Forker_npids p = int (k - 1)" "length (Forker_pids p) = 4098"
    using assms(1) by (auto simp: at_fork_def FORKER_MAX_PIDS_def)
  have "int k < 2 ^ 31" using assms(3) by (metis of_nat_less_iff of_nat_numeral of_nat_power)
  then have c: "checked 32 (Forker_npids p + 1) = Some (int k)"
    using k by (simp add: int_fits_def of_nat_diff)
  have known: "take (min (k - 1) 4097) (Forker_pids p) = take 4097 (map (child_pid fork) [1..<k])"
    using assms(1) k(1,2) by (simp add: at_fork_def known_pids_def pids_upto_def FORKER_MAX_PIDS_def nat_diff_distrib del: upt_Suc)
  have pid: "child_pid fork k = pid" using assms(2) by (simp add: child_pid_def)
  have upt: "map (child_pid fork) [1..<Suc k] = map (child_pid fork) [1..<k] @ [pid]"
    using k(1) pid by simp
  show ?thesis
  proof (cases "k < 4098")
    case True
    then have "take k ((Forker_pids p)[k - 1 := pid]) = take (k - 1) (Forker_pids p) @ [pid]"
      using k take_Suc_conv_app_nth [of "k - 1" "(Forker_pids p)[k - 1 := pid]"] by simp
    moreover have "k - 1 \<le> 4097" "min (k - 1) 4097 = k - 1" using True by auto
    with known have "take (k - 1) (Forker_pids p) = map (child_pid fork) [1..<k]" by simp
    ultimately show ?thesis
      using True c k upt assms(1)
      by (simp add: store_pid_def FORKER_MAX_PIDS_def at_fork_def buf_simps known_pids_def pids_upto_def nat_diff_distrib min_def)
  next
    case False
    then show ?thesis
      using c k known upt assms(1)
      by (simp add: store_pid_def FORKER_MAX_PIDS_def at_fork_def known_pids_def pids_upto_def)
  qed
qed

lemma at_fork_end:
  assumes "at_fork fork k p" "k < 2 ^ 31"
  shows "\<exists>pids. (if Forker_npids p < int FORKER_MAX_PIDS
      then if 0 \<le> Forker_npids p then buf_set (Forker_pids p) (nat (Forker_npids p)) 0 else None
      else Some (Forker_pids p)) = Some pids \<and> known_pids (p\<lparr>Forker_pids := pids, fk_ret := r\<rparr>) = pids_upto fork (k - 1)"
  using assms by (auto simp: at_fork_def buf_simps known_pids_def FORKER_MAX_PIDS_def)

lemma at_fork_fields [simp]:
  "at_fork fork k (p\<lparr>fk_pid := i\<rparr>) = at_fork fork k p"
  by (simp add: at_fork_def known_pids_def)

lemma known_pids_fields [simp]:
  "known_pids (p\<lparr>fk_pid := i\<rparr>) = known_pids p"
  "known_pids (p\<lparr>fk_ret := r\<rparr>) = known_pids p"
  "known_pids (p\<lparr>fk_err := e\<rparr>) = known_pids p"
  by (simp_all add: known_pids_def)

lemma at_fork_view:
  assumes "at_fork fork (Suc k) q"
  shows "view (q\<lparr>fk_ret := r\<rparr>) = (fk_pid q, r, pids_upto fork k, None)"
    and "view (q\<lparr>fk_pid := i, fk_ret := r\<rparr>) = (i, r, pids_upto fork k, None)"
  using assms by (simp_all add: view_def at_fork_def)

text \<open>The end of the loop: the last process, with its message if a call has failed.\<close>

lemma forker_loop_end:
  assumes "at_fork fork n p" "forks fork ncopies n" "n < 2 ^ 31"
  shows "\<exists>q. forker_loop fork mode prefix ncopies (int n) p = Some [q] \<and>
    view q = (fk_pid p, if int n < ncopies \<and> mode = 1 then 0 else int n - 1, pids_upto fork (n - 1),
      fork_msg fork ncopies n prefix)"
proof (cases "int n < ncopies")
  case True
  then obtain errno where "fork (int n) = Inl errno" using assms(2) by (auto simp: forks_def)
  with True show ?thesis
    using assms(1) by (subst forker_loop.simps) (simp add: view_def at_fork_def fork_msg_def)
next
  case False
  obtain pids where "(if Forker_npids p < int FORKER_MAX_PIDS
      then if 0 \<le> Forker_npids p then buf_set (Forker_pids p) (nat (Forker_npids p)) 0 else None
      else Some (Forker_pids p)) = Some pids"
    "known_pids (p\<lparr>Forker_pids := pids, fk_ret := int n - 1\<rparr>) = pids_upto fork (n - 1)"
    using at_fork_end [OF assms(1,3), of "int n - 1"] by blast
  with False show ?thesis
    using assms(1) by (subst forker_loop.simps) (simp add: view_def at_fork_def fork_msg_def)
qed

lemma forker_loop_star:
  assumes "at_fork fork k p" "forks fork ncopies n" "k \<le> n" "n < 2 ^ 31" "mode \<noteq> 1"
  shows "\<exists>ps. forker_loop fork mode prefix ncopies (int k) p = Some ps \<and>
    map view ps = map (\<lambda>i. (child_pid fork i, int i, pids_upto fork i, None)) [k..<n]
      @ [(fk_pid p, int n - 1, pids_upto fork (n - 1), fork_msg fork ncopies n prefix)]"
  using assms
proof (induction "n - k" arbitrary: k p)
  case 0
  then show ?case using forker_loop_end [of fork n p ncopies mode prefix] by auto
next
  case (Suc m)
  then have k: "k < n" "1 \<le> k" "int k < ncopies" by (auto simp: forks_def at_fork_def)
  then obtain pid where pid: "fork (int k) = Inr pid" using Suc.prems(2) by (auto simp: forks_def)
  have m: "m = n - Suc k" using Suc.hyps(2) by simp
  obtain q where q: "store_pid pid p = Some q" "at_fork fork (Suc k) q" "fk_pid q = fk_pid p"
    using at_fork_store [OF Suc.prems(1) pid] Suc.prems(4) k by auto
  obtain ps where ps: "forker_loop fork mode prefix ncopies (int (Suc k)) q = Some ps"
    "map view ps = map (\<lambda>i. (child_pid fork i, int i, pids_upto fork i, None)) [Suc k..<n]
      @ [(fk_pid p, int n - 1, pids_upto fork (n - 1), fork_msg fork ncopies n prefix)]"
    using Suc.hyps(1) [OF m q(2) Suc.prems(2) Suc_leI [OF k(1)] Suc.prems(4,5)] unfolding q(3) by blast
  have "[k..<n] = k # [Suc k..<n]" using k by (simp add: upt_conv_Cons)
  then show ?case
    using k pid q ps at_fork_view(2) [OF q(2)] Suc.prems(5)
    by (subst forker_loop.simps) (simp add: child_pid_def add.commute)
qed

lemma forker_loop_chain:
  assumes "at_fork fork k p" "forks fork ncopies n" "k \<le> n" "n < 2 ^ 31"
  shows "\<exists>ps. forker_loop fork 1 prefix ncopies (int k) p = Some ps \<and>
    map view ps = map (\<lambda>i. (if i = k then fk_pid p else child_pid fork (i - 1), int i - 1, pids_upto fork i, None)) [k..<n]
      @ [(if k = n then fk_pid p else child_pid fork (n - 1), if int n < ncopies then 0 else int n - 1,
          pids_upto fork (n - 1), fork_msg fork ncopies n prefix)]"
  using assms
proof (induction "n - k" arbitrary: k p)
  case 0
  then show ?case using forker_loop_end [of fork n p ncopies 1 prefix] by auto
next
  case (Suc m)
  then have k: "k < n" "1 \<le> k" "int k < ncopies" by (auto simp: forks_def at_fork_def)
  then obtain pid where pid: "fork (int k) = Inr pid" using Suc.prems(2) by (auto simp: forks_def)
  have m: "m = n - Suc k" using Suc.hyps(2) by simp
  obtain q where q: "store_pid pid p = Some q" "at_fork fork (Suc k) q" "fk_pid q = fk_pid p"
    using at_fork_store [OF Suc.prems(1) pid] Suc.prems(4) k by auto
  have new: "at_fork fork (Suc k) (q\<lparr>fk_pid := pid\<rparr>)" and new_pid: "fk_pid (q\<lparr>fk_pid := pid\<rparr>) = pid"
    using q(2) by simp_all
  obtain ps where ps: "forker_loop fork 1 prefix ncopies (int (Suc k)) (q\<lparr>fk_pid := pid\<rparr>) = Some ps"
    "map view ps = map (\<lambda>i. (if i = Suc k then pid else child_pid fork (i - 1), int i - 1, pids_upto fork i, None)) [Suc k..<n]
      @ [(if Suc k = n then pid else child_pid fork (n - 1), if int n < ncopies then 0 else int n - 1,
          pids_upto fork (n - 1), fork_msg fork ncopies n prefix)]"
    using Suc.hyps(1) [OF m new Suc.prems(2) Suc_leI [OF k(1)] Suc.prems(4)] unfolding new_pid by blast
  have upt: "[k..<n] = k # [Suc k..<n]" using k by (simp add: upt_conv_Cons)
  have "child_pid fork k = pid" using pid by (simp add: child_pid_def)
  then have "map view ps =
      map (\<lambda>i. (if i = k then fk_pid p else child_pid fork (i - 1), int i - 1, pids_upto fork i, None)) [Suc k..<n]
      @ [(child_pid fork (n - 1), if int n < ncopies then 0 else int n - 1, pids_upto fork (n - 1), fork_msg fork ncopies n prefix)]"
    unfolding ps(2) by auto
  then show ?case
    using k pid q ps(1) at_fork_view(1) [OF q(2)] upt
    by (subst forker_loop.simps) (simp add: add.commute)
qed

section \<open>What a call gives\<close>

lemma at_fork_first:
  assumes "fresh_proc p"
  shows "\<exists>pids. buf_set (Forker_pids p) 0 0 = Some pids \<and> at_fork fork 1 (p\<lparr>Forker_pids := pids\<rparr>)"
  using assms
  by (auto simp: fresh_proc_def at_fork_def buf_simps FORKER_MAX_PIDS_def known_pids_def pids_upto_def)

text \<open>C28: whatever the kernel answers, a call of \<open>forker\<close> ends in as many processes as calls of \<open>fork\<close> succeeded, and the caller. In
  mode 0 the \<open>i\<close>th child returns \<open>i\<close> and knows the pids of the children up to itself, and the caller returns the number of its
  children and knows all. In mode 1 the processes are a chain: the \<open>i\<close>th one returns \<open>i - 1\<close>, so the caller 0, and knows the
  next one too; the last one knows all and returns the number of copies, but 0 after a failed call.
\<close>

theorem forker_family:
  assumes "fresh_proc p" "forks fork ncopies n" "n < 2 ^ 31"
  shows "\<exists>ps. forker fork ncopies mode prefix p = Some ps \<and>
    map view ps =
      (if mode = 1
       then map (\<lambda>i. (if i = 1 then fk_pid p else child_pid fork (i - 1), int i - 1, pids_upto fork i, None)) [1..<n]
         @ [(if n = 1 then fk_pid p else child_pid fork (n - 1), if int n < ncopies then 0 else int n - 1,
             pids_upto fork (n - 1), fork_msg fork ncopies n prefix)]
       else map (\<lambda>i. (child_pid fork i, int i, pids_upto fork i, None)) [1..<n]
         @ [(fk_pid p, int n - 1, pids_upto fork (n - 1), fork_msg fork ncopies n prefix)])"
proof -
  obtain pids where pids: "buf_set (Forker_pids p) 0 0 = Some pids" "at_fork fork 1 (p\<lparr>Forker_pids := pids\<rparr>)"
    using at_fork_first [OF assms(1)] by blast
  have n: "1 \<le> n" using assms(2) by (simp add: forks_def)
  have call: "forker fork ncopies mode prefix p = forker_loop fork mode prefix ncopies (int 1) (p\<lparr>Forker_pids := pids\<rparr>)"
    using pids(1) by (simp add: forker_def)
  have pid: "fk_pid (p\<lparr>Forker_pids := pids\<rparr>) = fk_pid p" by simp
  show ?thesis
  proof (cases "mode = 1")
    case True
    show ?thesis
      unfolding call if_P [OF True] using forker_loop_chain [OF pids(2) assms(2) n assms(3), of prefix]
      unfolding pid True eq_commute [of 1 n] by blast
  next
    case False
    show ?thesis
      unfolding call if_not_P [OF False]
      using forker_loop_star [OF pids(2) assms(2) n assms(3) False, of prefix] unfolding pid by blast
  qed
qed

theorem forker_family_witness:
  "\<exists>ps. forker (\<lambda>k. if k < 3 then Inr (100 + k) else Inl 11) 5 1 (Some ''growfiles'')
      \<lparr>fk_pid = 100, Forker_pids = replicate FORKER_MAX_PIDS 0, Forker_npids = 0, fk_ret = 0, fk_err = None\<rparr> = Some ps \<and>
    map view ps = [(100, 0, [101], None), (101, 1, [101, 102], None), (102, 0, [101, 102], Some (''growfiles'', 11))]"
proof -
  have fork: "forks (\<lambda>k. if k < 3 then Inr (100 + k) else Inl 11) 5 3" by (auto simp: forks_def)
  have f: "fresh_proc \<lparr>fk_pid = 100, Forker_pids = replicate FORKER_MAX_PIDS 0, Forker_npids = 0, fk_ret = 0, fk_err = None\<rparr>"
    by (simp add: fresh_proc_def)
  have u: "[1..<3] = [1, 2::nat]" "[1..<2] = [1::nat]" "[1..<Suc 2] = [1, 2]" by (simp_all add: upt_rec)
  show ?thesis
    using forker_family [OF f fork, of 1 "Some ''growfiles''"]
    by (simp add: u child_pid_def pids_upto_def FORKER_MAX_PIDS_def fork_msg_def del: upt_Suc One_nat_def)
qed

text \<open>A second call sets the first pid to 0 and goes on counting: the process loses its first child.\<close>

lemma forker_again:
  assumes "1 \<le> Forker_npids p" "length (Forker_pids p) = FORKER_MAX_PIDS" "fork 1 = Inl errno" "1 < ncopies"
  shows "\<exists>q. forker fork ncopies mode prefix p = Some [q] \<and> hd (known_pids q) = 0 \<and> Forker_npids q = Forker_npids p"
proof -
  have "Forker_pids p \<noteq> []" using assms(2) by (auto simp: FORKER_MAX_PIDS_def)
  then have "hd ((Forker_pids p)[0 := 0]) = 0" by (cases "Forker_pids p") auto
  moreover have "0 < min (nat (Forker_npids p)) (FORKER_MAX_PIDS - 1)" using assms(1) by (simp add: FORKER_MAX_PIDS_def)
  ultimately show ?thesis
    using assms by (simp add: forker_def forker_loop.simps [of fork] buf_simps FORKER_MAX_PIDS_def known_pids_def)
qed

end
