(* ===== verification/Write_Log.thy ===== *)
theory Write_Log
  imports Prelude
begin

text \<open>
  \<^verbatim>\<open>lib/write_log.c\<close>: the log of write requests, a file of variable length records that is appended to,
  overlaid in place, and scanned backward with the help of the two bytes of length behind each record.
  A record on disk is a \<open>struct wlog_rec_disk\<close> with the bit fields laid out as gcc does on a little-endian
  machine (a field does not straddle a word: 28 bytes), then path, host and pattern. Whether \<open>char\<close> is
  signed, as on x86, or not, as on ARM, is an argument of the scan. The texts put into
  \<open>Wlog_Error_String\<close> are left out.
\<close>

definition WLOG_MAX_PATH :: nat where "WLOG_MAX_PATH = 128"
definition WLOG_MAX_PATTERN :: nat where "WLOG_MAX_PATTERN = 64"
definition WLOG_MAX_HOST :: nat where "WLOG_MAX_HOST = 8"

text \<open>\<open>sizeof (struct wlog_rec)\<close> is 248.\<close>

definition WLOG_REC_MAX_SIZE :: nat where
  "WLOG_REC_MAX_SIZE = 248 + WLOG_MAX_PATH + WLOG_MAX_PATTERN + WLOG_MAX_HOST + 2"

lemmas wlog_sizes = WLOG_MAX_PATH_def WLOG_MAX_PATTERN_def WLOG_MAX_HOST_def WLOG_REC_MAX_SIZE_def

record wlog_rec =
  w_pid :: "32 word"
  w_offset :: "32 word"
  w_nbytes :: "32 word"
  w_oflags :: "32 word"
  w_done :: "32 word"
  w_async :: "32 word"
  w_host :: "byte list"
  w_hostlen :: "32 word"
  w_path :: "byte list"
  w_pathlen :: "32 word"
  w_pattern :: "byte list"
  w_patternlen :: "32 word"

section \<open>Words in a buffer\<close>

definition bytes32 :: "32 word \<Rightarrow> byte list" where
  "bytes32 w = map (\<lambda>k. ucast (drop_bit (8 * k) w)) [0, 1, 2, 3]"

definition load32 :: "byte list \<Rightarrow> nat \<Rightarrow> 32 word option" where
  "load32 buf off =
     (if off + 4 \<le> length buf
      then Some (ucast (buf ! off) OR push_bit 8 (ucast (buf ! (off + 1))) OR
        push_bit 16 (ucast (buf ! (off + 2))) OR push_bit 24 (ucast (buf ! (off + 3))))
      else None)"

definition store32 :: "byte list \<Rightarrow> nat \<Rightarrow> 32 word \<Rightarrow> byte list option" where
  "store32 buf off w = mem_cpy buf off (bytes32 w) 0 4"

text \<open>A bit field of \<open>n\<close> bits at \<open>pos\<close>: reading it, and storing the low bits of a value into it.\<close>

definition get_bits :: "nat \<Rightarrow> nat \<Rightarrow> 32 word \<Rightarrow> 32 word" where
  "get_bits pos n w = take_bit n (drop_bit pos w)"

definition put_bits :: "nat \<Rightarrow> nat \<Rightarrow> 32 word \<Rightarrow> 32 word \<Rightarrow> 32 word" where
  "put_bits pos n v w = (w AND NOT (push_bit pos (mask n))) OR push_bit pos (take_bit n v)"

section \<open>Packing\<close>

definition DISK_SIZE :: nat where "DISK_SIZE = 28"

definition positive :: "32 word \<Rightarrow> 32 word" where
  "positive n = (if 0 <s n then n else 0)"

definition wlog_rec_pack :: "wlog_rec \<Rightarrow> byte list \<Rightarrow> bool \<Rightarrow> (nat \<times> byte list) option" where
  "wlog_rec_pack wrec buf flag = do {
     buf \<leftarrow> store32 buf 0 (w_offset wrec);
     buf \<leftarrow> store32 buf 8 (w_nbytes wrec);
     buf \<leftarrow> store32 buf 12 (w_oflags wrec);
     w4 \<leftarrow> load32 buf 16;
     buf \<leftarrow> store32 buf 16
       (put_bits 24 6 (positive (w_patternlen wrec))
         (put_bits 17 7 (positive (w_pathlen wrec)) (put_bits 0 17 (w_pid wrec) w4)));
     w5 \<leftarrow> load32 buf 20;
     buf \<leftarrow> store32 buf 20
       (put_bits 5 1 (w_async wrec) (put_bits 4 1 (w_done wrec) (put_bits 0 4 (positive (w_hostlen wrec)) w5)));
     w4 \<leftarrow> load32 buf 16;
     w5 \<leftarrow> load32 buf 20;
     let pathlen = unat (get_bits 17 7 w4);
     let hostlen = unat (get_bits 0 4 w5);
     let patternlen = unat (get_bits 24 6 w4);
     if flag
     then do {
       buf \<leftarrow> (if 0 < pathlen then mem_cpy buf DISK_SIZE (w_path wrec) 0 pathlen else Some buf);
       buf \<leftarrow> (if 0 < hostlen then mem_cpy buf (DISK_SIZE + pathlen) (w_host wrec) 0 hostlen else Some buf);
       buf \<leftarrow> (if 0 < patternlen
              then mem_cpy buf (DISK_SIZE + pathlen + hostlen) (w_pattern wrec) 0 patternlen else Some buf);
       Some (DISK_SIZE + pathlen + hostlen + patternlen, buf) }
     else Some (DISK_SIZE, buf) }"

definition wlog_rec_unpack :: "byte list \<Rightarrow> wlog_rec option" where
  "wlog_rec_unpack buf = do {
     offset \<leftarrow> load32 buf 0;
     nbytes \<leftarrow> load32 buf 8;
     oflags \<leftarrow> load32 buf 12;
     w4 \<leftarrow> load32 buf 16;
     w5 \<leftarrow> load32 buf 20;
     let pathlen = unat (get_bits 17 7 w4);
     let hostlen = unat (get_bits 0 4 w5);
     let patternlen = unat (get_bits 24 6 w4);
     path \<leftarrow> mem_cpy (replicate (WLOG_MAX_PATH + 1) 0) 0 buf DISK_SIZE pathlen;
     host \<leftarrow> mem_cpy (replicate (WLOG_MAX_HOST + 1) 0) 0 buf (DISK_SIZE + pathlen) hostlen;
     pattern \<leftarrow> mem_cpy (replicate (WLOG_MAX_PATTERN + 1) 0) 0 buf (DISK_SIZE + pathlen + hostlen) patternlen;
     Some \<lparr>w_pid = get_bits 0 17 w4, w_offset = offset, w_nbytes = nbytes, w_oflags = oflags,
       w_done = get_bits 4 1 w5, w_async = get_bits 5 1 w5, w_host = host, w_hostlen = get_bits 0 4 w5,
       w_path = path, w_pathlen = get_bits 17 7 w4, w_pattern = pattern, w_patternlen = get_bits 24 6 w4\<rparr> }"

section \<open>Writing\<close>

definition int32 :: "int \<Rightarrow> int" where
  "int32 x = sint (word_of_int x :: 32 word)"

text \<open>What a \<open>write\<close> of bytes at an offset does to a file (a gap is filled with zeros).\<close>

definition write_bytes :: "byte list \<Rightarrow> nat \<Rightarrow> byte list \<Rightarrow> byte list" where
  "write_bytes content off xs = take off (content @ replicate (off - length content) 0) @ xs @ drop (off + length xs) content"

text \<open>\<open>w_ans\<close> is the answer of \<open>write\<close> (\<open>-1\<close>, or how many bytes it wrote), \<open>seek_ok\<close> that of \<open>lseek\<close>.\<close>

definition wlog_record_write ::
  "int \<Rightarrow> bool \<Rightarrow> byte list \<Rightarrow> wlog_rec \<Rightarrow> int \<Rightarrow> byte list \<Rightarrow> (int \<times> byte list) option" where
  "wlog_record_write w_ans seek_ok wbuf wrec offset content = do {
     (reclen, wbuf) \<leftarrow> wlog_rec_pack wrec wbuf (offset < 0);
     if offset < 0
     then do {
       wbuf \<leftarrow> buf_set wbuf reclen (of_nat (reclen div 256));
       wbuf \<leftarrow> buf_set wbuf (reclen + 1) (of_nat (reclen mod 256));
       let reclen = reclen + 2;
       if w_ans = -1 then Some (-1, content)
       else do {
         let content = content @ take (nat w_ans) (take reclen wbuf);
         let offset = (if seek_ok then int (length content) else -1) - int reclen;
         Some (if offset = -1 then -1 else int32 offset, content) } }
     else if \<not> seek_ok then Some (-1, content)
     else if w_ans = -1 then Some (-1, content)
     else Some (int32 offset, write_bytes content (nat offset) (take (nat w_ans) (take reclen wbuf))) }"

text \<open>\<open>open\<close> answers with a descriptor or \<open>-1\<close>; a descriptor that was closed again is \<open>-1\<close> in the structure.\<close>

definition wlog_open :: "bool \<Rightarrow> int \<Rightarrow> int \<Rightarrow> byte list option \<Rightarrow> int \<times> (int \<times> int) option \<times> byte list option" where
  "wlog_open trunc afd rfd content =
     (if afd = -1 then (-1, None, content)
      else (let content = (case content of None \<Rightarrow> Some [] | Some f \<Rightarrow> Some (if trunc then [] else f))
            in if rfd = -1 then (-1, Some (-1, -1), content) else (0, Some (afd, rfd), content)))"

section \<open>Scanning\<close>

definition char_val :: "bool \<Rightarrow> byte \<Rightarrow> int" where
  "char_val char_signed b = (if char_signed then sint b else uint b)"

text \<open>\<open>memcpy (bufend - n, bufstart, n)\<close>, which must not overlap.\<close>

definition keep_leftover :: "byte list \<Rightarrow> nat \<Rightarrow> nat \<Rightarrow> byte list option" where
  "keep_leftover buf bufstart n =
     (if n = 0 \<or> bufstart + n \<le> length buf - n then mem_cpy buf (length buf - n) buf bufstart n else None)"

text \<open>The inner loop, with \<open>bufstart\<close> and \<open>cp\<close> as offsets in \<open>buf\<close>. The result has \<open>leftover\<close>, the buffers, the
  number of records and the state of the caller's function. A negative length is undefined in \<open>memcpy\<close>.\<close>

function scan_records ::
  "bool \<Rightarrow> (wlog_rec \<Rightarrow> 'd \<Rightarrow> int \<times> 'd) \<Rightarrow> int \<Rightarrow> nat \<Rightarrow> nat \<Rightarrow> byte list \<Rightarrow> byte list \<Rightarrow> int \<Rightarrow> 'd \<Rightarrow>
   (nat \<times> byte list \<times> byte list \<times> int \<times> 'd) option" where
  "scan_records cs func nrecs bufstart cp buf albuf recnum d =
     (if cp < bufstart then Some (0, buf, albuf, recnum, d)
      else if cp - bufstart < 2
      then do { buf \<leftarrow> keep_leftover buf bufstart (cp - bufstart); Some (cp - bufstart, buf, albuf, recnum, d) }
      else do {
        hi \<leftarrow> buf_get buf (cp - 2);
        lo \<leftarrow> buf_get buf (cp - 1);
        let reclen = char_val cs hi * 256 + char_val cs lo;
        if int (cp - bufstart) < reclen + 2
        then do { buf \<leftarrow> keep_leftover buf bufstart (cp - bufstart); Some (cp - bufstart, buf, albuf, recnum, d) }
        else if reclen < 0 then None
        else do {
          albuf \<leftarrow> mem_cpy albuf 0 buf (cp - (nat reclen + 2)) (nat reclen);
          wrec \<leftarrow> wlog_rec_unpack albuf;
          let (rval, d) = func wrec d;
          if rval = 0 then Some (0, buf, albuf, recnum, d)
          else if nrecs \<noteq> 0 \<and> nrecs \<le> recnum + 1 then Some (0, buf, albuf, recnum + 1, d)
          else scan_records cs func nrecs bufstart (cp - (nat reclen + 2)) buf albuf (recnum + 1) d } })"
  by pat_completeness auto
termination
  by (relation "measure (\<lambda>(cs, func, nrecs, s, cp, rest). cp)") auto

declare scan_records.simps [simp del]

text \<open>The outer loop: \<open>ok n\<close> is whether the call number \<open>n\<close> of \<open>lseek\<close> or \<open>read\<close> succeeds.\<close>

partial_function (option) scan_blocks ::
  "bool \<Rightarrow> (nat \<Rightarrow> bool) \<Rightarrow> (wlog_rec \<Rightarrow> 'd \<Rightarrow> int \<times> 'd) \<Rightarrow> int \<Rightarrow> byte list \<Rightarrow> nat \<Rightarrow> nat \<Rightarrow> nat \<Rightarrow> nat \<Rightarrow>
   byte list \<Rightarrow> byte list \<Rightarrow> int \<Rightarrow> 'd \<Rightarrow> (int \<times> 'd) option" where
  "scan_blocks cs ok func nrecs content calls offset leftover bufstart buf albuf recnum d =
     (if (nrecs = 0 \<or> recnum < nrecs) \<and> 0 < offset
      then (let (bufstart, offset) =
                  (if offset + leftover < length buf then (length buf - (offset + leftover), 0)
                   else (bufstart, offset - (length buf - leftover)))
            in if \<not> ok calls then Some (-1, d)
               else if \<not> ok (calls + 1) then Some (-1, d)
               else do {
                 buf \<leftarrow> mem_cpy buf bufstart content offset (min (length buf - bufstart - leftover) (length content - offset));
                 (leftover, buf, albuf, recnum, d) \<leftarrow> scan_records cs func nrecs bufstart (length buf) buf albuf recnum d;
                 scan_blocks cs ok func nrecs content (calls + 2) offset leftover bufstart buf albuf recnum d })
      else Some (0, d))"

definition wlog_scan_backward ::
  "bool \<Rightarrow> (nat \<Rightarrow> bool) \<Rightarrow> byte list \<Rightarrow> byte list \<Rightarrow> byte list \<Rightarrow> int \<Rightarrow> (wlog_rec \<Rightarrow> 'd \<Rightarrow> int \<times> 'd) \<Rightarrow> 'd \<Rightarrow> (int \<times> 'd) option" where
  "wlog_scan_backward cs ok buf albuf content nrecs func d =
     (if \<not> ok 0 then Some (-1, d)
      else (let offset = (if ok 1 then int32 (int (length content)) else -1)
            in if offset = -1 then Some (-1, d)
               else scan_blocks cs ok func nrecs content 2 (nat offset) 0 0 buf albuf 0 d))"

section \<open>Bit fields\<close>

lemma bytes32_simps [simp]: "length (bytes32 w) = 4"
  "bytes32 w ! 0 = ucast w" "bytes32 w ! Suc 0 = ucast (drop_bit 8 w)"
  "bytes32 w ! 2 = ucast (drop_bit 16 w)" "bytes32 w ! 3 = ucast (drop_bit 24 w)"
  by (simp_all add: bytes32_def)

lemma bytes32_word: "((ucast (ucast w :: byte) :: 32 word) OR push_bit 8 (ucast (ucast (drop_bit 8 w) :: byte)) OR
    push_bit 16 (ucast (ucast (drop_bit 16 w) :: byte)) OR push_bit 24 (ucast (ucast (drop_bit 24 w) :: byte))) = w"
  for w :: "32 word"
proof (rule bit_word_eqI)
  fix n assume "n < LENGTH(32)"
  then consider "n < 8" | "8 \<le> n" "n < 16" | "16 \<le> n" "n < 24" | "24 \<le> n" "n < 32" by fastforce
  then show "bit ((ucast (ucast w :: byte) :: 32 word) OR push_bit 8 (ucast (ucast (drop_bit 8 w) :: byte)) OR
    push_bit 16 (ucast (ucast (drop_bit 16 w) :: byte)) OR push_bit 24 (ucast (ucast (drop_bit 24 w) :: byte))) n =
    bit w n" by cases (auto simp: bit_simps)
qed

lemma get_put_bits: "pos + n \<le> 32 \<Longrightarrow> get_bits pos n (put_bits pos n v w) = take_bit n v"
  by (rule bit_word_eqI) (auto simp: get_bits_def put_bits_def bit_simps)

lemma get_put_other:
  "pos + n \<le> 32 \<Longrightarrow> pos + n \<le> pos' \<or> pos' + n' \<le> pos \<Longrightarrow> get_bits pos n (put_bits pos' n' v w) = get_bits pos n w"
  by (rule bit_word_eqI) (auto simp: get_bits_def put_bits_def bit_simps)

lemma unat_get_bits: "n < 32 \<Longrightarrow> unat (get_bits pos n w) < 2 ^ n"
  by (simp add: get_bits_def unsigned_take_bit_eq)


lemma store32_Some: "off + 4 \<le> length buf \<Longrightarrow>
    store32 buf off w = Some (take off buf @ bytes32 w @ drop (off + 4) buf)"
  by (simp add: store32_def buf_simps)

lemma load32_store32: "store32 buf off w = Some b \<Longrightarrow> load32 b off = Some w"
proof -
  assume s: "store32 buf off w = Some b"
  then have l: "off + 4 \<le> length buf" "length b = length buf"
    by (auto simp: store32_def mem_cpy_def split: if_splits)
  have "b ! (off + k) = bytes32 w ! k" if "k < 4" for k
    using mem_cpy_nth [of buf off "bytes32 w" 0 4 b "off + k"] s l that by (simp add: store32_def)
  from this [of 0] this [of 1] this [of 2] this [of 3] show ?thesis
    using l by (simp add: load32_def bytes32_word)
qed

lemma load32_store32_other:
  "store32 buf off w = Some b \<Longrightarrow> off' + 4 \<le> off \<or> off + 4 \<le> off' \<Longrightarrow> load32 b off' = load32 buf off'"
proof -
  assume s: "store32 buf off w = Some b" and d: "off' + 4 \<le> off \<or> off + 4 \<le> off'"
  then have l: "length b = length buf" by (auto simp: store32_def dest: mem_cpy_length)
  have "b ! (off' + k) = buf ! (off' + k)" if "k < 4" "off' + 4 \<le> length buf" for k
    using mem_cpy_nth [of buf off "bytes32 w" 0 4 b "off' + k"] s d that by (auto simp: store32_def)
  from this [of 0] this [of 1] this [of 2] this [of 3] show ?thesis
    using l by (simp add: load32_def)
qed

lemma store32_frame: "store32 buf off w = Some b \<Longrightarrow> length b = length buf \<and> drop (off + 4) b = drop (off + 4) buf"
  by (auto simp: store32_def mem_cpy_def split: if_splits)

lemma load32_append: "off + 4 \<le> length a \<Longrightarrow> load32 (a @ b) off = load32 a off"
  by (simp add: load32_def nth_append)

lemma load32_take: "off + 4 \<le> n \<Longrightarrow> n \<le> length b \<Longrightarrow> load32 (take n b) off = load32 b off"
  by (simp add: load32_def)

section \<open>What a packed record holds\<close>

text \<open>The lengths as the bit fields keep them.\<close>

definition disk_pathlen :: "wlog_rec \<Rightarrow> nat" where
  "disk_pathlen r = unat (take_bit 7 (positive (w_pathlen r)))"

definition disk_hostlen :: "wlog_rec \<Rightarrow> nat" where
  "disk_hostlen r = unat (take_bit 4 (positive (w_hostlen r)))"

definition disk_patternlen :: "wlog_rec \<Rightarrow> nat" where
  "disk_patternlen r = unat (take_bit 6 (positive (w_patternlen r)))"

definition disk_len :: "wlog_rec \<Rightarrow> nat" where
  "disk_len r = DISK_SIZE + disk_pathlen r + disk_hostlen r + disk_patternlen r"

text \<open>What a reader gets back of a record: the fields cut to their widths, the strings to their lengths.\<close>

definition clip :: "nat \<Rightarrow> nat \<Rightarrow> byte list \<Rightarrow> byte list" where
  "clip n sz xs = take n xs @ replicate (sz - n) 0"

definition wlog_seen :: "wlog_rec \<Rightarrow> wlog_rec" where
  "wlog_seen r = \<lparr>w_pid = take_bit 17 (w_pid r), w_offset = w_offset r, w_nbytes = w_nbytes r, w_oflags = w_oflags r,
     w_done = take_bit 1 (w_done r), w_async = take_bit 1 (w_async r),
     w_host = clip (disk_hostlen r) (WLOG_MAX_HOST + 1) (w_host r), w_hostlen = of_nat (disk_hostlen r),
     w_path = clip (disk_pathlen r) (WLOG_MAX_PATH + 1) (w_path r), w_pathlen = of_nat (disk_pathlen r),
     w_pattern = clip (disk_patternlen r) (WLOG_MAX_PATTERN + 1) (w_pattern r),
     w_patternlen = of_nat (disk_patternlen r)\<rparr>"

text \<open>The arrays of the structure have their sizes, and the host name fits in its one.\<close>

definition rec_ok :: "wlog_rec \<Rightarrow> bool" where
  "rec_ok r \<longleftrightarrow> length (w_host r) = WLOG_MAX_HOST + 1 \<and> length (w_path r) = WLOG_MAX_PATH + 1 \<and>
     length (w_pattern r) = WLOG_MAX_PATTERN + 1 \<and> disk_hostlen r \<le> WLOG_MAX_HOST + 1"

definition fixed_image :: "wlog_rec \<Rightarrow> byte list \<Rightarrow> bool" where
  "fixed_image r b \<longleftrightarrow> DISK_SIZE \<le> length b \<and> load32 b 0 = Some (w_offset r) \<and> load32 b 8 = Some (w_nbytes r) \<and>
     load32 b 12 = Some (w_oflags r) \<and>
     (\<exists>w4 w5. load32 b 16 = Some w4 \<and> load32 b 20 = Some w5 \<and>
        get_bits 0 17 w4 = take_bit 17 (w_pid r) \<and> get_bits 17 7 w4 = of_nat (disk_pathlen r) \<and>
        get_bits 24 6 w4 = of_nat (disk_patternlen r) \<and> get_bits 0 4 w5 = of_nat (disk_hostlen r) \<and>
        get_bits 4 1 w5 = take_bit 1 (w_done r) \<and> get_bits 5 1 w5 = take_bit 1 (w_async r))"

definition var_image :: "wlog_rec \<Rightarrow> byte list" where
  "var_image r = take (disk_pathlen r) (w_path r) @ take (disk_hostlen r) (w_host r) @ take (disk_patternlen r) (w_pattern r)"

definition disk_image :: "wlog_rec \<Rightarrow> byte list \<Rightarrow> bool" where
  "disk_image r b \<longleftrightarrow> length b = disk_len r \<and> fixed_image r b \<and> drop DISK_SIZE b = var_image r"

lemma disk_bounds: "disk_pathlen r < 128" "disk_hostlen r < 16" "disk_patternlen r < 64"
  using take_bit_nat_less_exp [of 7] take_bit_nat_less_exp [of 4] take_bit_nat_less_exp [of 6]
  by (simp_all add: disk_pathlen_def disk_hostlen_def disk_patternlen_def unsigned_take_bit_eq)

lemma unat_disk [simp]:
  "unat (of_nat (disk_pathlen r) :: 32 word) = disk_pathlen r"
  "unat (of_nat (disk_hostlen r) :: 32 word) = disk_hostlen r"
  "unat (of_nat (disk_patternlen r) :: 32 word) = disk_patternlen r"
  by (simp_all add: disk_pathlen_def disk_hostlen_def disk_patternlen_def)

lemma disk_len_bounds: "DISK_SIZE \<le> disk_len r" "disk_len r < 256"
  using disk_bounds [of r] by (auto simp: disk_len_def DISK_SIZE_def)


lemma store32_ex:
  assumes "off + 4 \<le> length buf"
  shows "\<exists>b. store32 buf off w = Some b \<and> length b = length buf \<and> load32 b off = Some w \<and>
    (\<forall>m \<ge> off + 4. drop m b = drop m buf) \<and>
    (\<forall>off'. off' + 4 \<le> off \<or> off + 4 \<le> off' \<longrightarrow> load32 b off' = load32 buf off')"
proof -
  obtain b where b: "store32 buf off w = Some b" using assms by (simp add: store32_Some)
  note f = store32_frame [OF b]
  have "drop m b = drop m buf" if "off + 4 \<le> m" for m
  proof -
    have "m = m - (off + 4) + (off + 4)" using that by simp
    then show ?thesis using f by (metis drop_drop)
  qed
  with b f load32_store32 [OF b] load32_store32_other [OF b] show ?thesis by blast
qed

text \<open>The fixed part, stored word by word.\<close>

definition pack_fixed :: "wlog_rec \<Rightarrow> byte list \<Rightarrow> byte list option" where
  "pack_fixed wrec buf = do {
     buf \<leftarrow> store32 buf 0 (w_offset wrec);
     buf \<leftarrow> store32 buf 8 (w_nbytes wrec);
     buf \<leftarrow> store32 buf 12 (w_oflags wrec);
     w4 \<leftarrow> load32 buf 16;
     buf \<leftarrow> store32 buf 16
       (put_bits 24 6 (positive (w_patternlen wrec))
         (put_bits 17 7 (positive (w_pathlen wrec)) (put_bits 0 17 (w_pid wrec) w4)));
     w5 \<leftarrow> load32 buf 20;
     store32 buf 20
       (put_bits 5 1 (w_async wrec) (put_bits 4 1 (w_done wrec) (put_bits 0 4 (positive (w_hostlen wrec)) w5))) }"

lemma pack_fixed_image:
  assumes "DISK_SIZE \<le> length buf"
  shows "\<exists>b. pack_fixed r buf = Some b \<and> length b = length buf \<and> fixed_image r b \<and> drop DISK_SIZE b = drop DISK_SIZE buf"
proof -
  have l: "28 \<le> length buf" using assms by (simp add: DISK_SIZE_def)
  obtain b1 where b1: "store32 buf 0 (w_offset r) = Some b1" "length b1 = length buf" "load32 b1 0 = Some (w_offset r)"
    "\<forall>m \<ge> 4. drop m b1 = drop m buf"
    using store32_ex [of 0 buf "w_offset r"] l by auto
  obtain b2 where b2: "store32 b1 8 (w_nbytes r) = Some b2" "length b2 = length b1" "load32 b2 8 = Some (w_nbytes r)"
    "\<forall>m \<ge> 12. drop m b2 = drop m b1" "\<forall>o'. o' + 4 \<le> 8 \<or> 12 \<le> o' \<longrightarrow> load32 b2 o' = load32 b1 o'"
    using store32_ex [of 8 b1 "w_nbytes r"] l b1(2) by auto
  obtain b3 where b3: "store32 b2 12 (w_oflags r) = Some b3" "length b3 = length b2" "load32 b3 12 = Some (w_oflags r)"
    "\<forall>m \<ge> 16. drop m b3 = drop m b2" "\<forall>o'. o' + 4 \<le> 12 \<or> 16 \<le> o' \<longrightarrow> load32 b3 o' = load32 b2 o'"
    using store32_ex [of 12 b2 "w_oflags r"] l b1(2) b2(2) by auto
  obtain w4 where w4: "load32 b3 16 = Some w4" using l b1(2) b2(2) b3(2) by (simp add: load32_def)
  define x4 where "x4 = put_bits 24 6 (positive (w_patternlen r)) (put_bits 17 7 (positive (w_pathlen r)) (put_bits 0 17 (w_pid r) w4))"
  obtain b4 where b4: "store32 b3 16 x4 = Some b4" "length b4 = length b3" "load32 b4 16 = Some x4"
    "\<forall>m \<ge> 20. drop m b4 = drop m b3" "\<forall>o'. o' + 4 \<le> 16 \<or> 20 \<le> o' \<longrightarrow> load32 b4 o' = load32 b3 o'"
    using store32_ex [of 16 b3 x4] l b1(2) b2(2) b3(2) by auto
  obtain w5 where w5: "load32 b4 20 = Some w5" using l b1(2) b2(2) b3(2) b4(2) by (simp add: load32_def)
  define x5 where "x5 = put_bits 5 1 (w_async r) (put_bits 4 1 (w_done r) (put_bits 0 4 (positive (w_hostlen r)) w5))"
  obtain b5 where b5: "store32 b4 20 x5 = Some b5" "length b5 = length b4" "load32 b5 20 = Some x5"
    "\<forall>m \<ge> 24. drop m b5 = drop m b4" "\<forall>o'. o' + 4 \<le> 20 \<or> 24 \<le> o' \<longrightarrow> load32 b5 o' = load32 b4 o'"
    using store32_ex [of 20 b4 x5] l b1(2) b2(2) b3(2) b4(2) by auto
  have p: "pack_fixed r buf = Some b5"
    using b1(1) b2(1) b3(1) w4 b4(1) w5 b5(1) by (simp add: pack_fixed_def x4_def x5_def)
  have x: "get_bits 0 17 x4 = take_bit 17 (w_pid r)" "get_bits 17 7 x4 = of_nat (disk_pathlen r)"
    "get_bits 24 6 x4 = of_nat (disk_patternlen r)" "get_bits 0 4 x5 = of_nat (disk_hostlen r)"
    "get_bits 4 1 x5 = take_bit 1 (w_done r)" "get_bits 5 1 x5 = take_bit 1 (w_async r)"
    by (simp_all add: x4_def x5_def get_put_bits get_put_other disk_pathlen_def disk_patternlen_def disk_hostlen_def)
  have "load32 b5 0 = Some (w_offset r)" "load32 b5 8 = Some (w_nbytes r)" "load32 b5 12 = Some (w_oflags r)"
    "load32 b5 16 = Some x4" "load32 b5 20 = Some x5"
    using b1(3) b2(3,5) b3(3,5) b4(3,5) b5(3,5) by simp_all
  with x have "fixed_image r b5"
    using l b1(2) b2(2) b3(2) b4(2) b5(2) by (simp add: fixed_image_def DISK_SIZE_def)
  moreover have "drop 28 b5 = drop 28 buf" using b1(4) b2(4) b3(4) b4(4) b5(4) by simp
  ultimately show ?thesis using p b1(2) b2(2) b3(2) b4(2) b5(2) by (simp add: DISK_SIZE_def)
qed

lemma wlog_rec_pack_eq:
  "wlog_rec_pack r buf flag = do {
     buf \<leftarrow> pack_fixed r buf;
     w4 \<leftarrow> load32 buf 16;
     w5 \<leftarrow> load32 buf 20;
     let pathlen = unat (get_bits 17 7 w4);
     let hostlen = unat (get_bits 0 4 w5);
     let patternlen = unat (get_bits 24 6 w4);
     if flag
     then do {
       buf \<leftarrow> (if 0 < pathlen then mem_cpy buf DISK_SIZE (w_path r) 0 pathlen else Some buf);
       buf \<leftarrow> (if 0 < hostlen then mem_cpy buf (DISK_SIZE + pathlen) (w_host r) 0 hostlen else Some buf);
       buf \<leftarrow> (if 0 < patternlen
              then mem_cpy buf (DISK_SIZE + pathlen + hostlen) (w_pattern r) 0 patternlen else Some buf);
       Some (DISK_SIZE + pathlen + hostlen + patternlen, buf) }
     else Some (DISK_SIZE, buf) }"
  by (simp add: wlog_rec_pack_def pack_fixed_def)


lemma fixed_image_loads:
  assumes "fixed_image r b"
  obtains w4 w5 where "load32 b 16 = Some w4" "load32 b 20 = Some w5"
    "unat (get_bits 17 7 w4) = disk_pathlen r" "unat (get_bits 0 4 w5) = disk_hostlen r"
    "unat (get_bits 24 6 w4) = disk_patternlen r"
  using assms by (auto simp: fixed_image_def)

lemma fixed_image_cong:
  "fixed_image r b \<Longrightarrow> take DISK_SIZE b' = take DISK_SIZE b \<Longrightarrow> DISK_SIZE \<le> length b' \<Longrightarrow> fixed_image r b'"
proof -
  assume i: "fixed_image r b" and t: "take DISK_SIZE b' = take DISK_SIZE b" "DISK_SIZE \<le> length b'"
  have "load32 b' off = load32 b off" if "off + 4 \<le> 28" for off
    using t i that load32_take [of off 28 b] load32_take [of off 28 b'] by (simp add: fixed_image_def DISK_SIZE_def)
  with i t(2) show ?thesis by (simp add: fixed_image_def)
qed

lemma mem_cpy_opt:
  "i + n \<le> length b \<Longrightarrow> n \<le> length s \<Longrightarrow>
   (if 0 < n then mem_cpy b i s 0 n else Some b) = Some (take i b @ take n s @ drop (i + n) b)"
  by (simp add: buf_simps)

lemma pack_fixed_part:
  assumes "DISK_SIZE \<le> length buf"
  shows "\<exists>b. wlog_rec_pack r buf False = Some (DISK_SIZE, b) \<and> length b = length buf \<and> fixed_image r b \<and>
    drop DISK_SIZE b = drop DISK_SIZE buf"
proof -
  obtain b where b: "pack_fixed r buf = Some b" "length b = length buf" "fixed_image r b"
    "drop DISK_SIZE b = drop DISK_SIZE buf" using pack_fixed_image [OF assms] by blast
  obtain w4 w5 where "load32 b 16 = Some w4" "load32 b 20 = Some w5" using fixed_image_loads [OF b(3)] .
  with b show ?thesis by (simp add: wlog_rec_pack_eq)
qed

lemma mem_cpy_middle:
  "length y = n \<Longrightarrow> n \<le> length s \<Longrightarrow> mem_cpy (x @ y @ z) (length x) s 0 n = Some (x @ take n s @ z)"
  by (simp add: buf_simps)

lemma split_at: "n \<le> length xs \<Longrightarrow> \<exists>a b. xs = a @ b \<and> length a = n"
  by (intro exI [of _ "take n xs"] exI [of _ "drop n xs"]) simp

lemma pack_strings:
  fixes b f g k :: "byte list"
  assumes "DISK_SIZE + p + h + t \<le> length b" "p \<le> length f" "h \<le> length g" "t \<le> length k"
  shows "do {
       b \<leftarrow> (if 0 < p then mem_cpy b DISK_SIZE f 0 p else Some b);
       b \<leftarrow> (if 0 < h then mem_cpy b (DISK_SIZE + p) g 0 h else Some b);
       b \<leftarrow> (if 0 < t then mem_cpy b (DISK_SIZE + p + h) k 0 t else Some b);
       Some (n, b) } = Some (n, take DISK_SIZE b @ (take p f @ take h g @ take t k) @ drop (DISK_SIZE + p + h + t) b)"
proof -
  obtain x1 r1 where 1: "b = x1 @ r1" "length x1 = DISK_SIZE" using split_at [of DISK_SIZE b] assms(1) by auto
  obtain x2 r2 where 2: "r1 = x2 @ r2" "length x2 = p" using split_at [of p r1] assms(1) 1 by auto
  obtain x3 r3 where 3: "r2 = x3 @ r3" "length x3 = h" using split_at [of h r2] assms(1) 1 2 by auto
  obtain x4 r4 where 4: "r3 = x4 @ r4" "length x4 = t" using split_at [of t r3] assms(1) 1 2 3 by auto
  have cpy: "(if 0 < m then mem_cpy (x @ y @ z) i s 0 m else Some (x @ y @ z)) = Some (x @ take m s @ z)"
    if "length y = m" "i = length x" "m \<le> length s" for x y z s :: "byte list" and m i
    using that mem_cpy_middle [of y m s x z] by (cases "m = 0") auto
  have "(if 0 < p then mem_cpy b DISK_SIZE f 0 p else Some b) = Some (x1 @ take p f @ x3 @ x4 @ r4)"
    unfolding 1(1) 2(1) 3(1) 4(1) by (rule cpy) (use assms 1(2) 2(2) in auto)
  moreover have "(if 0 < h then mem_cpy (x1 @ take p f @ x3 @ x4 @ r4) (DISK_SIZE + p) g 0 h else Some (x1 @ take p f @ x3 @ x4 @ r4)) =
      Some (x1 @ take p f @ take h g @ x4 @ r4)"
    by (rule cpy [of x3 h "DISK_SIZE + p" "x1 @ take p f" g "x4 @ r4", unfolded append_assoc]) (use assms 1(2) 3(2) in auto)
  moreover have "(if 0 < t then mem_cpy (x1 @ take p f @ take h g @ x4 @ r4) (DISK_SIZE + p + h) k 0 t
        else Some (x1 @ take p f @ take h g @ x4 @ r4)) =
      Some (x1 @ take p f @ take h g @ take t k @ r4)"
    by (rule cpy [of x4 t "DISK_SIZE + p + h" "x1 @ take p f @ take h g" k r4, unfolded append_assoc]) (use assms 1(2) 4(2) in auto)
  moreover have "take DISK_SIZE b = x1" "drop (DISK_SIZE + p + h + t) b = r4" using 1 2 3 4 by simp_all
  ultimately show ?thesis by (simp only: Option.bind.simps append_assoc)
qed

lemma pack_whole:
  assumes "rec_ok r" "disk_len r \<le> length buf"
  shows "\<exists>b. wlog_rec_pack r buf True = Some (disk_len r, b) \<and> length b = length buf \<and>
    disk_image r (take (disk_len r) b) \<and> drop (disk_len r) b = drop (disk_len r) buf"
proof -
  obtain b where b: "pack_fixed r buf = Some b" "length b = length buf" "fixed_image r b"
    "drop DISK_SIZE b = drop DISK_SIZE buf"
    using pack_fixed_image [of buf r] assms(2) disk_len_bounds(1) [of r] by auto
  obtain w4 w5 where w: "load32 b 16 = Some w4" "load32 b 20 = Some w5" "unat (get_bits 17 7 w4) = disk_pathlen r"
    "unat (get_bits 0 4 w5) = disk_hostlen r" "unat (get_bits 24 6 w4) = disk_patternlen r"
    using fixed_image_loads [OF b(3)] .
  have l: "disk_pathlen r \<le> length (w_path r)" "disk_hostlen r \<le> length (w_host r)" "disk_patternlen r \<le> length (w_pattern r)"
    using assms(1) disk_bounds [of r] by (auto simp: rec_ok_def wlog_sizes)
  have n: "disk_len r \<le> length b" using assms(2) b(2) by simp
  define b3 where "b3 = take DISK_SIZE b @ var_image r @ drop (disk_len r) b"
  have "wlog_rec_pack r buf True = Some (disk_len r, b3)"
    using n pack_strings [OF _ l, of b "disk_len r"] unfolding wlog_rec_pack_eq b(1) b3_def var_image_def disk_len_def
    by (simp only: Option.bind.simps w Let_def if_True)
  moreover have v: "length (var_image r) = disk_len r - DISK_SIZE" using l by (simp add: var_image_def disk_len_def)
  moreover have "length (take DISK_SIZE b @ var_image r) = disk_len r" using v n disk_len_bounds(1) [of r] by simp
  moreover from this have t: "take (disk_len r) b3 = take DISK_SIZE b @ var_image r" "drop (disk_len r) b3 = drop (disk_len r) b"
    unfolding b3_def append_assoc [symmetric] by (metis append_eq_conv_conj)+
  moreover have t': "length b3 = length b" using n v disk_len_bounds(1) [of r] by (simp add: b3_def)
  moreover have "fixed_image r (take (disk_len r) b3)"
  proof (rule fixed_image_cong [OF b(3)])
    show "take DISK_SIZE (take (disk_len r) b3) = take DISK_SIZE b"
      using disk_len_bounds(1) [of r] n by (simp only: t(1)) simp
    show "DISK_SIZE \<le> length (take (disk_len r) b3)" using disk_len_bounds(1) [of r] n t' by simp
  qed
  moreover have "drop (disk_len r) b = drop (disk_len r) buf"
    using b(4) disk_len_bounds(1) [of r] by (metis drop_drop le_add_diff_inverse2)
  ultimately show ?thesis using b(2) n disk_len_bounds(1) [of r] by (auto simp: disk_image_def)
qed

text \<open>Unpacking what was packed, with any bytes behind it.\<close>

lemma clip_cpy: "n \<le> sz \<Longrightarrow> n \<le> length xs \<Longrightarrow> length a = i \<Longrightarrow>
    mem_cpy (replicate sz 0) 0 (a @ take n xs @ b) i n = Some (clip n sz xs)"
  by (simp add: mem_cpy_def clip_def)

lemma unpack_image:
  assumes "rec_ok r" "disk_image r p"
  shows "wlog_rec_unpack (p @ rest) = Some (wlog_seen r)"
proof -
  have f: "fixed_image r (p @ rest)"
  proof (rule fixed_image_cong)
    show "fixed_image r p" using assms(2) by (simp only: disk_image_def)
    have "DISK_SIZE \<le> length p" using assms(2) disk_len_bounds(1) [of r] by (simp only: disk_image_def)
    then show "take DISK_SIZE (p @ rest) = take DISK_SIZE p" "DISK_SIZE \<le> length (p @ rest)" by simp_all
  qed
  have l: "disk_pathlen r \<le> length (w_path r)" "disk_hostlen r \<le> length (w_host r)" "disk_patternlen r \<le> length (w_pattern r)"
    "disk_pathlen r \<le> WLOG_MAX_PATH + 1" "disk_hostlen r \<le> WLOG_MAX_HOST + 1" "disk_patternlen r \<le> WLOG_MAX_PATTERN + 1"
    using assms(1) disk_bounds [of r] by (auto simp: rec_ok_def wlog_sizes)
  define a where "a = take DISK_SIZE p"
  have a: "length a = DISK_SIZE" "p @ rest = a @ take (disk_pathlen r) (w_path r) @ take (disk_hostlen r) (w_host r) @
      take (disk_patternlen r) (w_pattern r) @ rest"
    using assms(2) append_take_drop_id [of DISK_SIZE p] by (auto simp: a_def disk_image_def disk_len_def var_image_def)
  have "mem_cpy (replicate (WLOG_MAX_PATH + 1) 0) 0 (p @ rest) DISK_SIZE (disk_pathlen r) =
      Some (clip (disk_pathlen r) (WLOG_MAX_PATH + 1) (w_path r))"
    "mem_cpy (replicate (WLOG_MAX_HOST + 1) 0) 0 (p @ rest) (DISK_SIZE + disk_pathlen r) (disk_hostlen r) =
      Some (clip (disk_hostlen r) (WLOG_MAX_HOST + 1) (w_host r))"
    "mem_cpy (replicate (WLOG_MAX_PATTERN + 1) 0) 0 (p @ rest) (DISK_SIZE + disk_pathlen r + disk_hostlen r) (disk_patternlen r) =
      Some (clip (disk_patternlen r) (WLOG_MAX_PATTERN + 1) (w_pattern r))"
    unfolding a(2)
    using clip_cpy [OF l(4,1) a(1)]
      clip_cpy [OF l(5,2), of "a @ take (disk_pathlen r) (w_path r)" "DISK_SIZE + disk_pathlen r"]
      clip_cpy [OF l(6,3), of "a @ take (disk_pathlen r) (w_path r) @ take (disk_hostlen r) (w_host r)"
        "DISK_SIZE + disk_pathlen r + disk_hostlen r"] l(1-3) a(1) by simp_all
  note cpy = this
  obtain w4 w5 where w: "load32 (p @ rest) 16 = Some w4" "load32 (p @ rest) 20 = Some w5"
    "get_bits 0 17 w4 = take_bit 17 (w_pid r)" "get_bits 17 7 w4 = of_nat (disk_pathlen r)"
    "get_bits 24 6 w4 = of_nat (disk_patternlen r)" "get_bits 0 4 w5 = of_nat (disk_hostlen r)"
    "get_bits 4 1 w5 = take_bit 1 (w_done r)" "get_bits 5 1 w5 = take_bit 1 (w_async r)"
    and o: "load32 (p @ rest) 0 = Some (w_offset r)" "load32 (p @ rest) 8 = Some (w_nbytes r)"
    "load32 (p @ rest) 12 = Some (w_oflags r)"
    using f unfolding fixed_image_def by blast
  show ?thesis
    unfolding wlog_rec_unpack_def o w Option.bind.simps Let_def unat_disk cpy wlog_seen_def ..
qed


section \<open>The log as a list of records\<close>

text \<open>A record as it is framed in the file, and the files that hold a list of records: every piece is read
  as its record, and its length is one that the scan can tell from the two bytes behind it.\<close>

definition framed :: "byte list \<Rightarrow> byte list" where
  "framed p = p @ [of_nat (length p div 256), of_nat (length p mod 256)]"

definition log_bytes :: "byte list list \<Rightarrow> byte list" where
  "log_bytes ps = concat (map framed ps)"

definition holds :: "bool \<Rightarrow> byte list \<Rightarrow> wlog_rec \<Rightarrow> bool" where
  "holds cs p r \<longleftrightarrow> length p < (if cs then 128 else 256) \<and> (\<forall>rest. wlog_rec_unpack (p @ rest) = Some r)"

definition log_holds :: "bool \<Rightarrow> byte list \<Rightarrow> wlog_rec list \<Rightarrow> bool" where
  "log_holds cs content rs \<longleftrightarrow> (\<exists>ps. content = log_bytes ps \<and> list_all2 (holds cs) ps rs)"

lemma framed_length [simp]: "length (framed p) = length p + 2"
  by (simp add: framed_def)

lemma log_bytes_simps [simp]:
  "log_bytes [] = []" "log_bytes (p # ps) = framed p @ log_bytes ps" "log_bytes (ps @ qs) = log_bytes ps @ log_bytes qs"
  by (simp_all add: log_bytes_def)

lemma holds_length: "holds cs p r \<Longrightarrow> length p < 256"
  by (simp add: holds_def split: if_splits)

lemma length_read:
  assumes "holds cs p r"
  shows "char_val cs (of_nat (length p div 256)) * 256 + char_val cs (of_nat (length p mod 256)) = int (length p)"
proof (cases cs)
  case True
  with assms have l: "length p < 128" by (simp add: holds_def)
  then have "sint (of_nat (length p) :: byte) = int (length p)"
    by (simp add: signed_of_nat signed_take_bit_int_eq_self)
  with l True show ?thesis by (simp add: char_val_def)
next
  case False
  with holds_length [OF assms] show ?thesis
    by (simp add: char_val_def unsigned_of_nat take_bit_nat_eq_self)
qed

text \<open>The number of records that a scan still has to deliver.\<close>

definition quota :: "int \<Rightarrow> int \<Rightarrow> nat \<Rightarrow> nat" where
  "quota nrecs recnum n = (if nrecs = 0 then n else min n (nat (nrecs - recnum)))"

definition deliver :: "(wlog_rec \<Rightarrow> 'd \<Rightarrow> int \<times> 'd) \<Rightarrow> wlog_rec list \<Rightarrow> 'd \<Rightarrow> 'd" where
  "deliver func rs d = fold (\<lambda>r d. snd (func r d)) rs d"

lemma deliver_append: "deliver func (rs @ rs') d = deliver func rs' (deliver func rs d)"
  by (simp add: deliver_def)

lemma keep_leftover_Some:
  assumes "n = 0 \<or> bufstart + 2 * n \<le> length buf" "take n (drop bufstart buf) = q" "length q = n" "bufstart + n \<le> length buf"
  shows "\<exists>b. keep_leftover buf bufstart n = Some b \<and> length b = length buf \<and> drop (length buf - n) b = q"
  using assms by (auto simp: keep_leftover_def buf_simps)

lemma window_tail:
  assumes "take (cp - s) (drop s buf) = x @ [a, b]" "s \<le> cp" "cp \<le> length buf"
  shows "2 \<le> cp - s" "buf_get buf (cp - 2) = Some a" "buf_get buf (cp - 1) = Some b" "length x = cp - s - 2"
proof -
  have l: "cp - s = length x + 2" using arg_cong [OF assms(1), of length] assms(2,3) by simp
  then show "2 \<le> cp - s" "length x = cp - s - 2" by simp_all
  have nth: "buf ! (s + i) = (x @ [a, b]) ! i" if "i < cp - s" for i
    using that assms nth_take [of i "cp - s" "drop s buf"] by simp
  have "s + length x = cp - 2" "s + (length x + 1) = cp - 1" using l assms(2) by simp_all
  with nth [of "length x"] nth [of "length x + 1"] l have "buf ! (cp - 2) = a" "buf ! (cp - 1) = b"
    by (simp_all add: nth_append)
  then show "buf_get buf (cp - 2) = Some a" "buf_get buf (cp - 1) = Some b"
    using l assms(2,3) by (simp_all add: buf_get_def)
qed

lemma scan_step_part:
  assumes "take (cp - s) (drop s buf) = x @ [of_nat (length p div 256), of_nat (length p mod 256)]" "holds cs p r"
    and "s \<le> cp" "cp \<le> length buf" "length x < length p"
  shows "scan_records cs func nrecs s cp buf albuf recnum d =
    do { b \<leftarrow> keep_leftover buf s (cp - s); Some (cp - s, b, albuf, recnum, d) }"
proof -
  note w = window_tail [OF assms(1,3,4)]
  have "int (cp - s) < int (length p) + 2" using w(1,4) assms(5) by simp
  with w assms(3) show ?thesis
    by (subst scan_records.simps) (simp add: length_read [OF assms(2)] Let_def del: of_nat_diff)
qed

lemma scan_step_record:
  assumes "take (cp - s) (drop s buf) = x @ framed p" "holds cs p r"
    and "s \<le> cp" "cp \<le> length buf" "256 \<le> length albuf" "func r d = (v, d')" "v \<noteq> 0"
  shows "\<exists>ab. length ab = length albuf \<and> scan_records cs func nrecs s cp buf albuf recnum d =
    (if nrecs \<noteq> 0 \<and> nrecs \<le> recnum + 1 then Some (0, buf, ab, recnum + 1, d')
     else scan_records cs func nrecs s (cp - (length p + 2)) buf ab (recnum + 1) d')"
proof -
  have win: "take (cp - s) (drop s buf) = (x @ p) @ [of_nat (length p div 256), of_nat (length p mod 256)]"
    using assms(1) by (simp add: framed_def)
  note w = window_tail [OF win assms(3,4)]
  have l: "length x + length p + 2 = cp - s" using w(1,4) by simp
  have "take (length p) (drop (cp - (length p + 2)) buf) = p"
  proof -
    have "drop (length x) (take (cp - s) (drop s buf)) = framed p" using assms(1) by simp
    then have "take (cp - s - length x) (drop (s + length x) buf) = framed p" by (simp add: drop_take add.commute)
    moreover have "s + length x = cp - (length p + 2)" "cp - s - length x = length p + 2" using l assms(3) by simp_all
    ultimately have "take (length p + 2) (drop (cp - (length p + 2)) buf) = framed p" by simp
    then have "take (length p) (take (length p + 2) (drop (cp - (length p + 2)) buf)) = p" by (simp add: framed_def)
    then show ?thesis by (simp add: min_def)
  qed
  then have cpy: "mem_cpy albuf 0 buf (cp - (length p + 2)) (length p) = Some (p @ drop (length p) albuf)"
    using l assms(3-5) holds_length [OF assms(2)] by (simp add: mem_cpy_def)
  have u: "wlog_rec_unpack (p @ drop (length p) albuf) = Some r" using assms(2) by (simp add: holds_def)
  have "\<not> int (cp - s) < int (length p) + 2" using l by simp
  with w assms(3,6,7) cpy u have "scan_records cs func nrecs s cp buf albuf recnum d =
    (if nrecs \<noteq> 0 \<and> nrecs \<le> recnum + 1 then Some (0, buf, p @ drop (length p) albuf, recnum + 1, d')
     else scan_records cs func nrecs s (cp - (length p + 2)) buf (p @ drop (length p) albuf) (recnum + 1) d')"
    by (subst scan_records.simps) (simp add: length_read [OF assms(2)] Let_def del: of_nat_diff)
  moreover have "length (p @ drop (length p) albuf) = length albuf"
    using assms(5) holds_length [OF assms(2)] by simp
  ultimately show ?thesis by blast
qed

text \<open>The inner loop on a window that has the end \<open>q\<close> of a record and then whole records.\<close>

lemma scan_records_window:
  assumes "list_all2 (holds cs) ps rs" "take (cp - s) (drop s buf) = q @ log_bytes ps" "s \<le> cp" "cp \<le> length buf"
    and "q = [] \<or> s + 2 * length q \<le> length buf \<and> (\<exists>q0 p r. q0 \<noteq> [] \<and> framed p = q0 @ q \<and> holds cs p r)"
    and "256 \<le> length albuf" "\<forall>r d. fst (func r d) \<noteq> 0" "nrecs = 0 \<or> recnum < nrecs"
  shows "\<exists>l b ab. scan_records cs func nrecs s cp buf albuf recnum d =
      Some (l, b, ab, recnum + int (quota nrecs recnum (length rs)), deliver func (take (quota nrecs recnum (length rs)) (rev rs)) d) \<and>
    length b = length buf \<and> length ab = length albuf \<and>
    (nrecs = 0 \<or> recnum + int (length rs) < nrecs \<longrightarrow> l = length q \<and> drop (length buf - l) b = q)"
  using assms
proof (induction rs arbitrary: ps cp albuf recnum d rule: rev_induct)
  case Nil
  then have ps: "ps = []" by simp
  with Nil.prems have q: "take (cp - s) (drop s buf) = q" "length q = cp - s" by auto
  obtain b where b: "keep_leftover buf s (cp - s) = Some b" "length b = length buf" "drop (length buf - (cp - s)) b = q"
    using keep_leftover_Some [of "cp - s" s buf q] Nil.prems(3-5) q by auto
  have "scan_records cs func nrecs s cp buf albuf recnum d =
      do { b \<leftarrow> keep_leftover buf s (cp - s); Some (cp - s, b, albuf, recnum, d) }"
  proof (cases "cp - s < 2")
    case True
    with Nil.prems(3) show ?thesis by (subst scan_records.simps) simp
  next
    case False
    with q Nil.prems(5) obtain q0 p r where f: "q0 \<noteq> []" "framed p = q0 @ q" "holds cs p r" by auto
    obtain q1 where q1: "q = q1 @ [of_nat (length p div 256), of_nat (length p mod 256)]"
      using f(2) False q(2) by (cases q rule: rev_cases; cases "butlast q" rule: rev_cases) (auto simp: framed_def)
    have "length q1 < length p" using f(1) arg_cong [OF f(2), of length] q1 by (cases q0) auto
    then show ?thesis using q(1) unfolding q1 by (rule scan_step_part [OF _ f(3) Nil.prems(3,4), rotated])
  qed
  with b q show ?case by (auto simp: quota_def deliver_def)
next
  case (snoc r rs)
  from snoc.prems(1) obtain ps' p where ps: "ps = ps' @ [p]" "list_all2 (holds cs) ps' rs" "holds cs p r"
    by (auto simp: list_all2_append2 list_all2_Cons2)
  have win: "take (cp - s) (drop s buf) = (q @ log_bytes ps') @ framed p" using snoc.prems(2) ps by simp
  obtain v d' where f: "func r d = (v, d')" "v \<noteq> 0" using snoc.prems(7) by (cases "func r d") (metis fst_conv)
  obtain ab where ab: "length ab = length albuf" "scan_records cs func nrecs s cp buf albuf recnum d =
    (if nrecs \<noteq> 0 \<and> nrecs \<le> recnum + 1 then Some (0, buf, ab, recnum + 1, d')
     else scan_records cs func nrecs s (cp - (length p + 2)) buf ab (recnum + 1) d')"
    using scan_step_record [where func = func and r = r and d = d, OF win ps(3) snoc.prems(3,4,6) f] by blast
  have l: "cp - s = length q + length (log_bytes ps') + length p + 2"
    using arg_cong [OF win, of length] snoc.prems(3,4) by simp
  show ?case
  proof (cases "nrecs \<noteq> 0 \<and> nrecs \<le> recnum + 1")
    case True
    with snoc.prems(8) have "nrecs = recnum + 1" by auto
    with True ab f show ?thesis by (simp add: quota_def deliver_def)
  next
    case False
    have win': "take (cp - (length p + 2) - s) (drop s buf) = q @ log_bytes ps'"
      using arg_cong [OF win, of "take (cp - (length p + 2) - s)"] l snoc.prems(3) by simp
    have rest: "nrecs = 0 \<or> recnum + 1 < nrecs" using False by auto
    have c: "s \<le> cp - (length p + 2)" "cp - (length p + 2) \<le> length buf" "256 \<le> length ab"
      using l snoc.prems(3,4,6) ab(1) by auto
    obtain m b ab' where m: "scan_records cs func nrecs s (cp - (length p + 2)) buf ab (recnum + 1) d' =
      Some (m, b, ab', recnum + 1 + int (quota nrecs (recnum + 1) (length rs)),
        deliver func (take (quota nrecs (recnum + 1) (length rs)) (rev rs)) d')"
      "length b = length buf" "length ab' = length ab"
      "nrecs = 0 \<or> recnum + 1 + int (length rs) < nrecs \<longrightarrow> m = length q \<and> drop (length buf - m) b = q"
      using snoc.IH [where d = d', OF ps(2) win' c(1,2) snoc.prems(5) c(3) snoc.prems(7) rest] by blast
    have "quota nrecs recnum (length (rs @ [r])) = Suc (quota nrecs (recnum + 1) (length rs))"
      using rest by (auto simp: quota_def min_def)
    with m ab False f show ?thesis by (auto simp: deliver_def)
  qed
qed


text \<open>A suffix of the log: the end of one record, then whole records.\<close>

lemma log_suffix:
  "\<exists>ps1 ps2 q. ps = ps1 @ ps2 \<and> drop k (log_bytes ps) = q @ log_bytes ps2 \<and> take k (log_bytes ps) @ q = log_bytes ps1 \<and>
     (q = [] \<or> 0 < k \<and> (\<exists>q0 p. q0 \<noteq> [] \<and> p \<in> set ps \<and> framed p = q0 @ q))"
proof (induction ps arbitrary: k)
  case (Cons p ps)
  consider "k = 0" | "0 < k" "k < length (framed p)" | "length (framed p) \<le> k" by linarith
  then show ?case
  proof cases
    case 1
    then show ?thesis by (intro exI [of _ "[]"] exI [of _ "p # ps"]) simp
  next
    case 2
    then have "take k (framed p) \<noteq> []" by (cases p) (auto simp: framed_def)
    then have "\<exists>q0 p'. q0 \<noteq> [] \<and> p' \<in> set (p # ps) \<and> framed p' = q0 @ drop k (framed p)"
      by (intro exI [of _ "take k (framed p)"] exI [of _ p]) simp
    with 2 show ?thesis by (intro exI [of _ "[p]"] exI [of _ ps] exI [of _ "drop k (framed p)"]) simp
  next
    case 3
    obtain ps1 ps2 q where q: "ps = ps1 @ ps2" "drop (k - length (framed p)) (log_bytes ps) = q @ log_bytes ps2"
      "take (k - length (framed p)) (log_bytes ps) @ q = log_bytes ps1"
      "q = [] \<or> 0 < k \<and> (\<exists>q0 p. q0 \<noteq> [] \<and> p \<in> set ps \<and> framed p = q0 @ q)"
      using Cons.IH [of "k - length (framed p)"] by fastforce
    with 3 show ?thesis by (intro exI [of _ "p # ps1"] exI [of _ ps2] exI [of _ q]) auto
  qed
qed simp

lemma scan_blocks_end: "offset = 0 \<or> nrecs \<noteq> 0 \<and> nrecs \<le> recnum \<Longrightarrow>
    scan_blocks cs ok func nrecs content calls offset leftover s buf albuf recnum d = Some (0, d)"
  by (subst scan_blocks.simps) auto

text \<open>One round: the bytes that are read go in front of those that were kept.\<close>

lemma scan_blocks_round:
  assumes "nrecs = 0 \<or> recnum < nrecs" "0 < offset" "\<forall>n. ok n" "offset \<le> length content" "drop (length buf - leftover) buf = q"
    and "length q = leftover" "leftover \<le> length buf"
    and "(s, off) = (if offset + leftover < length buf then (length buf - (offset + leftover), 0)
                   else (0, offset - (length buf - leftover)))"
  shows "\<exists>b. length b = length buf \<and> take (length b - s) (drop s b) = drop off (take offset content @ q) \<and>
    scan_blocks cs ok func nrecs content calls offset leftover 0 buf albuf recnum d = do {
       (leftover, buf, albuf, recnum, d) \<leftarrow> scan_records cs func nrecs s (length b) b albuf recnum d;
       scan_blocks cs ok func nrecs content (calls + 2) off leftover s buf albuf recnum d }"
proof -
  define n where "n = length buf - s - leftover"
  have n: "s + n + leftover = length buf" "off + n = offset" using assms(2,7,8) by (auto simp: n_def split: if_splits)
  then have m: "min (length buf - s - leftover) (length content - off) = n" using assms(4) by (simp add: n_def)
  define b where "b = take s buf @ take n (drop off content) @ q"
  have b: "mem_cpy buf s content off n = Some b"
    using n assms(4,5) by (simp add: mem_cpy_def b_def) (metis add_diff_cancel_right')
  have "length b = length buf" using mem_cpy_length [OF b] .
  moreover have "drop s b = drop off (take offset content @ q)"
    using n(1) n(2) [symmetric] assms(4) by (simp add: b_def drop_take)
  moreover have "scan_blocks cs ok func nrecs content calls offset leftover 0 buf albuf recnum d = do {
       (leftover, buf, albuf, recnum, d) \<leftarrow> scan_records cs func nrecs s (length b) b albuf recnum d;
       scan_blocks cs ok func nrecs content (calls + 2) off leftover s buf albuf recnum d }"
    by (subst scan_blocks.simps) (use assms(1-3) b m \<open>length b = length buf\<close> in \<open>simp add: assms(8) [symmetric]\<close>)
  moreover have "take (length b - s) (drop s b) = drop s b" by simp
  ultimately show ?thesis by metis
qed

text \<open>The outer loop, with the end \<open>q\<close> of a record at the end of the buffer.\<close>

lemma scan_blocks_log:
  assumes "list_all2 (holds cs) ps rs" "take offset content @ q = log_bytes ps" "length q = leftover" "leftover < 258"
    and "drop (length buf - leftover) buf = q" "offset \<le> length content" "516 \<le> length buf" "256 \<le> length albuf"
    and "\<forall>r d. fst (func r d) \<noteq> 0" "\<forall>n. ok n" "offset = 0 \<Longrightarrow> q = []" "nrecs = 0 \<or> recnum < nrecs"
  shows "scan_blocks cs ok func nrecs content calls offset leftover 0 buf albuf recnum d =
    Some (0, deliver func (take (quota nrecs recnum (length rs)) (rev rs)) d)"
  using assms
proof (induction offset arbitrary: ps rs q leftover buf albuf recnum d calls rule: less_induct)
  case (less offset)
  show ?case
  proof (cases "offset = 0")
    case True
    with less.prems(2,11) have "ps = []" by (cases ps) (auto simp: framed_def)
    with less.prems(1) True show ?thesis by (simp add: scan_blocks_end quota_def deliver_def)
  next
    case False
    have pos: "0 < offset" "leftover \<le> length buf" using False less.prems(4,7) by auto
    note lb = pos(2) and pos = pos(1)
    obtain s off where so: "(s, off) = (if offset + leftover < length buf then (length buf - (offset + leftover), 0)
                   else (0, offset - (length buf - leftover)))" by (metis surj_pair)
    obtain b where b: "length b = length buf" "take (length b - s) (drop s b) = drop off (take offset content @ q)"
      "scan_blocks cs ok func nrecs content calls offset leftover 0 buf albuf recnum d = do {
         (leftover, buf, albuf, recnum, d) \<leftarrow> scan_records cs func nrecs s (length b) b albuf recnum d;
         scan_blocks cs ok func nrecs content (calls + 2) off leftover s buf albuf recnum d }"
      using scan_blocks_round [where cs = cs and func = func and albuf = albuf and d = d and calls = calls,
          OF less.prems(12) pos less.prems(10,6,5,3) lb so] by blast
    obtain ps1 ps2 q' where q': "ps = ps1 @ ps2" "drop off (log_bytes ps) = q' @ log_bytes ps2"
      "take off (log_bytes ps) @ q' = log_bytes ps1"
      "q' = [] \<or> 0 < off \<and> (\<exists>q0 p. q0 \<noteq> [] \<and> p \<in> set ps \<and> framed p = q0 @ q')" using log_suffix [of ps off] by blast
    obtain rs1 rs2 where rs: "rs = rs1 @ rs2" "list_all2 (holds cs) ps1 rs1" "list_all2 (holds cs) ps2 rs2"
      using less.prems(1) q'(1) by (auto simp: list_all2_append1)
    have hold: "\<exists>r. holds cs p r" if "p \<in> set ps" for p
      using less.prems(1) that by (metis list_all2_conv_all_nth in_set_conv_nth)
    have lq: "length q' < 258"
      using q'(4) hold holds_length by (auto dest!: arg_cong [of "framed _" _ length]) fastforce
    have q'': "q' = [] \<or> s + 2 * length q' \<le> length b \<and> (\<exists>q0 p r. q0 \<noteq> [] \<and> framed p = q0 @ q' \<and> holds cs p r)"
      using q'(4) hold so lq less.prems(7) b(1) by (fastforce split: if_splits)
    have win: "take (length b - s) (drop s b) = q' @ log_bytes ps2" unfolding b(2) less.prems(2) by (rule q'(2))
    have s: "s \<le> length b" using so b(1) by (auto split: if_splits)
    let ?m = "quota nrecs recnum (length rs2)"
    obtain l b' ab where l: "scan_records cs func nrecs s (length b) b albuf recnum d =
        Some (l, b', ab, recnum + int ?m, deliver func (take ?m (rev rs2)) d)"
      "length b' = length b" "length ab = length albuf"
      "nrecs = 0 \<or> recnum + int (length rs2) < nrecs \<Longrightarrow> l = length q' \<and> drop (length b - l) b' = q'"
      using scan_records_window [OF rs(3) win s order_refl q'' less.prems(8,9,12), of d] by auto
    show ?thesis
    proof (cases "nrecs = 0 \<or> recnum + int (length rs2) < nrecs")
      case False
      then have "nrecs \<noteq> 0" "nat (nrecs - recnum) \<le> length rs2" "recnum < nrecs" using less.prems(12) by auto
      then have m: "?m = nat (nrecs - recnum)" "quota nrecs recnum (length rs) = ?m" "nrecs \<le> recnum + int ?m"
        using rs(1) by (simp_all add: quota_def min_absorb2)
      then have "take (quota nrecs recnum (length rs)) (rev rs) = take ?m (rev rs2)"
        using rs(1) False by (simp add: quota_def)
      with b(3) l(1) m False show ?thesis by (simp add: scan_blocks_end)
    next
      case True
      note more = this
      then have m: "?m = length rs2" "quota nrecs recnum (length rs) = length rs2 + quota nrecs (recnum + int (length rs2)) (length rs1)"
        using rs(1) by (auto simp: quota_def min_def)
      have "scan_blocks cs ok func nrecs content (calls + 2) off (length q') s b' ab (recnum + int (length rs2)) (deliver func (rev rs2) d) =
          Some (0, deliver func (take (quota nrecs (recnum + int (length rs2)) (length rs1)) (rev rs1)) (deliver func (rev rs2) d))"
      proof (cases "off = 0")
        case True
        with q'(3,4) have "ps1 = []" by (cases ps1) (auto simp: framed_def)
        with True rs(2) show ?thesis by (simp add: scan_blocks_end quota_def deliver_def)
      next
        case False
        with so have s0: "s = 0" "off < offset" "off \<le> length content"
          using less.prems(3,4,6,7) \<open>offset \<noteq> 0\<close> by (auto split: if_splits)
        have "take off (log_bytes ps) = take off content"
          unfolding less.prems(2) [symmetric] using s0 less.prems(6) by simp
        then have "take off content @ q' = log_bytes ps1" using q'(3) by simp
        note ih = less.IH [OF s0(2) rs(2) this refl lq]
        have "drop (length b' - length q') b' = q'" "516 \<le> length b'" "256 \<le> length ab"
          using l(2,3) l(4) [OF more] b(1) less.prems(7,8) by auto
        moreover have "off = 0 \<Longrightarrow> q' = []" using False by simp
        ultimately show ?thesis unfolding s0(1) using ih s0(3) less.prems(9,10) more by blast
      qed
      moreover have "take (quota nrecs recnum (length rs)) (rev rs) =
          rev rs2 @ take (quota nrecs (recnum + int (length rs2)) (length rs1)) (rev rs1)"
        using m(2) rs(1) by simp
      ultimately show ?thesis using b(3) l(1,4) m(1) True by (simp add: deliver_append)
    qed
  qed
qed


lemma int32_small: "0 \<le> x \<Longrightarrow> x < 2 ^ 31 \<Longrightarrow> int32 x = x"
  by (simp add: int32_def signed_of_int signed_take_bit_int_eq_self)

lemma scan_backward_log:
  assumes "log_holds cs content rs" "length content < 2 ^ 31" "516 \<le> length buf" "256 \<le> length albuf"
    and "\<forall>r d. fst (func r d) \<noteq> 0" "\<forall>n. ok n" "0 \<le> nrecs"
  shows "wlog_scan_backward cs ok buf albuf content nrecs func d =
    Some (0, deliver func (take (quota nrecs 0 (length rs)) (rev rs)) d)"
proof -
  obtain ps where ps: "content = log_bytes ps" "list_all2 (holds cs) ps rs" using assms(1) by (auto simp: log_holds_def)
  have off: "int32 (int (length content)) = int (length content)"
    using assms(2) by (simp add: int32_small)
  have "scan_blocks cs ok func nrecs content 2 (length content) 0 0 buf albuf 0 d =
      Some (0, deliver func (take (quota nrecs 0 (length rs)) (rev rs)) d)"
    by (rule scan_blocks_log [where q = "[]", OF ps(2)]) (use ps(1) assms in auto)
  with assms(6) off show ?thesis by (simp add: wlog_scan_backward_def)
qed

section \<open>The log as the list of what was written\<close>

definition log_file :: "byte list \<Rightarrow> wlog_rec list \<Rightarrow> bool" where
  "log_file content rs \<longleftrightarrow> (\<exists>ps. content = log_bytes ps \<and> list_all2 (\<lambda>p r. rec_ok r \<and> disk_image r p) ps rs)"

text \<open>Record \<open>i\<close> starts at \<open>off\<close>.\<close>

definition starts_at :: "wlog_rec list \<Rightarrow> nat \<Rightarrow> nat" where
  "starts_at rs i = sum_list (map (\<lambda>r. disk_len r + 2) (take i rs))"

definition len_ok :: "bool \<Rightarrow> wlog_rec \<Rightarrow> bool" where
  "len_ok cs r \<longleftrightarrow> disk_len r < (if cs then 128 else 256)"

lemma image_holds: "rec_ok r \<Longrightarrow> disk_image r p \<Longrightarrow> len_ok cs r \<Longrightarrow> holds cs p (wlog_seen r)"
  using unpack_image by (auto simp: holds_def len_ok_def disk_image_def)

lemma log_file_holds: "log_file content rs \<Longrightarrow> \<forall>r \<in> set rs. len_ok cs r \<Longrightarrow> log_holds cs content (map wlog_seen rs)"
  unfolding log_file_def log_holds_def
  by (auto simp: list.rel_map intro!: image_holds elim!: list.rel_mono_strong)

lemma log_bytes_starts: "list_all2 (\<lambda>p r. rec_ok r \<and> disk_image r p) ps rs \<Longrightarrow> length (log_bytes ps) = starts_at rs (length rs)"
  by (induction ps rs rule: list_all2_induct) (auto simp: starts_at_def disk_image_def)

lemma log_file_length: "log_file content rs \<Longrightarrow> length content = starts_at rs (length rs)"
  by (auto simp: log_file_def log_bytes_starts)

lemma record_append:
  assumes "log_file content rs" "rec_ok r" "length wbuf = WLOG_REC_MAX_SIZE + 2" "length content + disk_len r + 2 < 2 ^ 31"
  shows "\<exists>content'. wlog_record_write (int (disk_len r + 2)) True wbuf r (-1) content = Some (int (length content), content') \<and>
    log_file content' (rs @ [r])"
proof -
  have n: "disk_len r + 2 \<le> length wbuf" using disk_len_bounds(2) [of r] assms(3) by (simp add: wlog_sizes)
  obtain b where b: "wlog_rec_pack r wbuf True = Some (disk_len r, b)" "length b = length wbuf"
    "disk_image r (take (disk_len r) b)" using pack_whole [OF assms(2), of wbuf] n by auto
  obtain ps where ps: "content = log_bytes ps" "list_all2 (\<lambda>p r. rec_ok r \<and> disk_image r p) ps rs"
    using assms(1) by (auto simp: log_file_def)
  define p where "p = take (disk_len r) b"
  have lp: "length p = disk_len r" using b(2) n by (simp add: p_def)
  have "take (disk_len r + 2) (b[disk_len r := of_nat (disk_len r div 256), disk_len r + 1 := of_nat (disk_len r mod 256)]) = framed p"
    using b(2) n by (simp add: framed_def p_def lp [unfolded p_def] take_Suc_conv_app_nth flip: Suc_eq_plus1)
  moreover have "int32 (int (length content)) = int (length content)"
    using assms(4) by (simp add: int32_small)
  ultimately have "wlog_record_write (int (disk_len r + 2)) True wbuf r (-1) content = Some (int (length content), content @ framed p)"
    using b(1,2) n by (simp add: wlog_record_write_def buf_simps Let_def lp nat_add_distrib)
  moreover have "log_file (content @ framed p) (rs @ [r])"
    unfolding log_file_def using ps assms(2) b(3)
    by (intro exI [of _ "ps @ [p]"]) (simp add: p_def list_all2_appendI)
  ultimately show ?thesis by blast
qed


text \<open>An overlay has the strings of the record that it replaces.\<close>

definition same_strings :: "wlog_rec \<Rightarrow> wlog_rec \<Rightarrow> bool" where
  "same_strings r' r \<longleftrightarrow> disk_pathlen r' = disk_pathlen r \<and> disk_hostlen r' = disk_hostlen r \<and>
     disk_patternlen r' = disk_patternlen r \<and> var_image r' = var_image r"

lemma same_strings_len: "same_strings r' r \<Longrightarrow> disk_len r' = disk_len r"
  by (simp add: same_strings_def disk_len_def)

lemma record_overlay:
  assumes "log_file content rs" "rec_ok r'" "i < length rs" "same_strings r' (rs ! i)" "DISK_SIZE \<le> length wbuf" "length content < 2 ^ 31"
  shows "\<exists>content'. wlog_record_write (int DISK_SIZE) True wbuf r' (int (starts_at rs i)) content = Some (int (starts_at rs i), content') \<and>
    log_file content' (rs[i := r']) \<and> length content' = length content"
proof -
  obtain ps where ps: "content = log_bytes ps" "list_all2 (\<lambda>p r. rec_ok r \<and> disk_image r p) ps rs"
    using assms(1) by (auto simp: log_file_def)
  have len: "length ps = length rs" using ps(2) by (rule list_all2_lengthD)
  define A p B where "A = log_bytes (take i ps)" and "p = ps ! i" and "B = log_bytes (drop (Suc i) ps)"
  have content: "content = A @ framed p @ B"
    using assms(3) len unfolding ps(1) A_def p_def B_def
    by (metis log_bytes_simps(2,3) id_take_nth_drop)
  have im: "disk_image (rs ! i) p" using ps(2) assms(3) len by (simp add: p_def list_all2_conv_all_nth)
  have lA: "length A = starts_at rs i"
    using log_bytes_starts [of "take i ps" "take i rs"] ps(2) assms(3) by (simp add: A_def starts_at_def list_all2_takeI)
  have lp: "length p = disk_len r'" using im same_strings_len [OF assms(4)] by (simp add: disk_image_def)
  obtain b where b: "wlog_rec_pack r' wbuf False = Some (DISK_SIZE, b)" "length b = length wbuf" "fixed_image r' b"
    using pack_fixed_part [OF assms(5)] by blast
  define p' where "p' = take DISK_SIZE b @ drop DISK_SIZE p"
  have lb: "DISK_SIZE \<le> length b" "DISK_SIZE \<le> length p"
    using assms(5) b(2) lp disk_len_bounds(1) [of r'] by simp_all
  have im': "disk_image r' p'"
    unfolding disk_image_def
  proof (intro conjI)
    show "length p' = disk_len r'" using lb lp by (simp add: p'_def)
    show "fixed_image r' p'" using lb by (intro fixed_image_cong [OF b(3)]) (simp_all add: p'_def)
    show "drop DISK_SIZE p' = var_image r'"
      using lb im assms(4) by (simp add: p'_def disk_image_def same_strings_def)
  qed
  have lp': "length p' = length p" using lb by (simp add: p'_def)
  have "write_bytes content (starts_at rs i) (take DISK_SIZE b) = A @ framed p' @ B"
    using lA lb lp' by (simp add: write_bytes_def content framed_def p'_def)
  moreover have "starts_at rs i \<le> length content" using lA by (simp add: content)
  ultimately have "wlog_record_write (int DISK_SIZE) True wbuf r' (int (starts_at rs i)) content =
      Some (int (starts_at rs i), A @ framed p' @ B)"
    using b(1) assms(6) by (simp add: wlog_record_write_def Let_def int32_small)
  moreover have "A @ framed p' @ B = log_bytes (ps[i := p'])"
    using assms(3) len by (simp add: A_def B_def upd_conv_take_nth_drop)
  moreover have "list_all2 (\<lambda>p r. rec_ok r \<and> disk_image r p) (ps[i := p']) (rs[i := r'])"
    using ps(2) assms(2) im' by (simp add: list_all2_update_cong)
  moreover have "length (A @ framed p' @ B) = length content" using lp' by (simp add: content)
  ultimately show ?thesis unfolding log_file_def by blast
qed

section \<open>Histories of a log\<close>

datatype wlog_op = Append "byte list" wlog_rec | Update nat "byte list" wlog_rec

text \<open>A program that appends records, keeps their offsets, and overlays them later; every \<open>write\<close> is whole.
  The first component of an operation's buffer is the garbage that \<open>wbuf\<close> starts with.\<close>

fun wlog_run :: "wlog_op list \<Rightarrow> int list \<Rightarrow> byte list \<Rightarrow> (int list \<times> byte list) option" where
  "wlog_run [] offs content = Some (offs, content)"
| "wlog_run (Append wbuf r # ops) offs content = do {
     (off, content) \<leftarrow> wlog_record_write (int (disk_len r + 2)) True wbuf r (-1) content;
     wlog_run ops (offs @ [off]) content }"
| "wlog_run (Update i wbuf r # ops) offs content = do {
     off \<leftarrow> buf_get offs i;
     (off', content) \<leftarrow> wlog_record_write (int DISK_SIZE) True wbuf r off content;
     wlog_run ops offs content }"

text \<open>The specification: a list of records.\<close>

fun list_run :: "wlog_op list \<Rightarrow> wlog_rec list \<Rightarrow> wlog_rec list" where
  "list_run [] rs = rs"
| "list_run (Append wbuf r # ops) rs = list_run ops (rs @ [r])"
| "list_run (Update i wbuf r # ops) rs = list_run ops (rs[i := r])"

fun ops_ok :: "bool \<Rightarrow> wlog_op list \<Rightarrow> wlog_rec list \<Rightarrow> bool" where
  "ops_ok cs [] rs = True"
| "ops_ok cs (Append wbuf r # ops) rs =
     (rec_ok r \<and> len_ok cs r \<and> length wbuf = WLOG_REC_MAX_SIZE + 2 \<and> ops_ok cs ops (rs @ [r]))"
| "ops_ok cs (Update i wbuf r # ops) rs =
     (rec_ok r \<and> i < length rs \<and> same_strings r (rs ! i) \<and> length wbuf = WLOG_REC_MAX_SIZE + 2 \<and> ops_ok cs ops (rs[i := r]))"


lemma starts_at_append: "i \<le> length rs \<Longrightarrow> starts_at (rs @ rs') i = starts_at rs i"
  by (simp add: starts_at_def)

lemma starts_at_update: "same_strings r (rs ! i) \<Longrightarrow> i < length rs \<Longrightarrow> starts_at (rs[i := r]) j = starts_at rs j"
  by (simp add: starts_at_def take_map [symmetric] map_update same_strings_len list_update_id [of "map _ _", symmetric])
    (metis list_update_id nth_map same_strings_len)

lemma list_run_length: "length rs \<le> length (list_run ops rs)"
  by (induction ops rs rule: list_run.induct) simp_all

lemma starts_at_mono: "starts_at rs (length rs) \<le> starts_at (list_run ops rs) (length (list_run ops rs))" if "ops_ok cs ops rs"
  using that
proof (induction ops rs rule: list_run.induct)
  case (2 wbuf r ops rs)
  then show ?case by (simp add: starts_at_def) 
next
  case (3 i wbuf r ops rs)
  then show ?case using starts_at_update [of r rs i "length rs"] by simp
qed simp

lemma ops_ok_lens: "ops_ok cs ops rs \<Longrightarrow> \<forall>r \<in> set rs. len_ok cs r \<Longrightarrow> \<forall>r \<in> set (list_run ops rs). len_ok cs r"
proof (induction cs ops rs rule: ops_ok.induct)
  case (3 cs i wbuf r ops rs)
  then have "len_ok cs r" using same_strings_len [of r "rs ! i"] by (simp add: len_ok_def)
  with 3 show ?case by (auto dest!: set_update_subset_insert [THEN subsetD])
qed simp_all

lemma wlog_run_log:
  assumes "ops_ok cs ops rs" "log_file content rs" "offs = map (\<lambda>i. int (starts_at rs i)) [0..<length rs]"
    and "starts_at (list_run ops rs) (length (list_run ops rs)) < 2 ^ 31"
  shows "\<exists>offs' content'. wlog_run ops offs content = Some (offs', content') \<and> log_file content' (list_run ops rs)"
  using assms
proof (induction ops rs arbitrary: content offs rule: list_run.induct)
  case (2 wbuf r ops rs)
  have "starts_at (rs @ [r]) (length (rs @ [r])) < 2 ^ 31"
    using starts_at_mono [of cs ops "rs @ [r]"] 2(2,5) by simp
  then have "length content + disk_len r + 2 < 2 ^ 31"
    using log_file_length [OF 2(3)] by (simp add: starts_at_def)
  with record_append [OF 2(3), of r wbuf] 2(2) obtain content' where
    c: "wlog_record_write (int (disk_len r + 2)) True wbuf r (-1) content = Some (int (length content), content')"
    "log_file content' (rs @ [r])" by auto
  have "offs @ [int (length content)] = map (\<lambda>i. int (starts_at (rs @ [r]) i)) [0..<length (rs @ [r])]"
    using 2(4) log_file_length [OF 2(3)] by (simp add: starts_at_append)
  from 2(1) [OF _ c(2) this] 2(2,5) c(1) show ?case by simp
next
  case (3 i wbuf r ops rs)
  have i: "i < length rs" "same_strings r (rs ! i)" "rec_ok r" "length wbuf = WLOG_REC_MAX_SIZE + 2" using 3(2) by simp_all
  have "starts_at (rs[i := r]) (length (rs[i := r])) < 2 ^ 31"
    using starts_at_mono [of cs ops "rs[i := r]"] 3(2,5) by simp
  then have "length content < 2 ^ 31" using log_file_length [OF 3(3)] starts_at_update [OF i(2,1)] by simp
  with record_overlay [OF 3(3) i(3,1,2), of wbuf] i(4) obtain content' where
    c: "wlog_record_write (int DISK_SIZE) True wbuf r (int (starts_at rs i)) content = Some (int (starts_at rs i), content')"
    "log_file content' (rs[i := r])" by (auto simp: wlog_sizes DISK_SIZE_def)
  have "offs = map (\<lambda>j. int (starts_at (rs[i := r]) j)) [0..<length (rs[i := r])]"
    using 3(4) starts_at_update [OF i(2,1)] by simp
  from 3(1) [OF _ c(2) this] 3(2,4,5) c(1) i show ?case by (simp add: buf_simps)
qed auto

section \<open>Properties\<close>

text \<open>The records that the bit fields of the file can hold.\<close>

definition rec_fits :: "wlog_rec \<Rightarrow> bool" where
  "rec_fits r \<longleftrightarrow> w_pid r < 2 ^ 17 \<and> w_done r < 2 \<and> w_async r < 2 \<and>
     w_pathlen r < 128 \<and> w_hostlen r < 16 \<and> w_patternlen r < 64 \<and>
     drop (disk_pathlen r) (w_path r) = replicate (WLOG_MAX_PATH + 1 - disk_pathlen r) 0 \<and>
     drop (disk_hostlen r) (w_host r) = replicate (WLOG_MAX_HOST + 1 - disk_hostlen r) 0 \<and>
     drop (disk_patternlen r) (w_pattern r) = replicate (WLOG_MAX_PATTERN + 1 - disk_patternlen r) 0"

lemma unat_2p: "n < 32 \<Longrightarrow> unat (2 ^ n :: 32 word) = 2 ^ n"
proof -
  assume n: "n < 32"
  then have "(2 :: nat) ^ n < 2 ^ 32" by (intro power_strict_increasing) simp_all
  then have "unat (of_nat (2 ^ n) :: 32 word) = 2 ^ n" unfolding unsigned_of_nat using n by (simp add: take_bit_nat_eq_self)
  then show ?thesis by (simp only: of_nat_power of_nat_numeral)
qed

lemma take_bit_less: "n < 32 \<Longrightarrow> take_bit n w < 2 ^ n" for w :: "32 word"
  by (simp add: word_less_nat_alt unsigned_take_bit_eq unat_2p)

lemma take_bit_eq_small: "n < 32 \<Longrightarrow> take_bit n w = w \<longleftrightarrow> w < 2 ^ n" for w :: "32 word"
proof
  assume n: "n < 32" and "w < 2 ^ n"
  then have "unat w < 2 ^ n" by (simp add: word_less_nat_alt unat_2p)
  then show "take_bit n w = w" by (simp add: word_unat_eq_iff unsigned_take_bit_eq take_bit_nat_eq_self)
qed (metis take_bit_less)

lemma positive_len:
  "n < 31 \<Longrightarrow> of_nat (unat (take_bit n (positive w))) = w \<longleftrightarrow> w < 2 ^ n" for w :: "32 word"
proof
  assume n: "n < 31" and w: "w < 2 ^ n"
  have "(2 :: nat) ^ n < 2 ^ 31" using n by (intro power_strict_increasing) simp_all
  then have "unat w < 2 ^ 31" using w n by (simp add: word_less_nat_alt unat_2p)
  then have "int (unat w) < 2 ^ 31" by (metis of_nat_less_iff of_nat_numeral of_nat_power)
  then have "uint w < 2 ^ 31" unfolding uint_nat .
  moreover have "- (2 ^ 31) \<le> uint w" by (rule order_trans [OF _ unsigned_greater_eq]) simp
  ultimately have "signed_take_bit 31 (uint w) = uint w" by (intro signed_take_bit_int_eq_self)
  then have "sint w = uint w" by (simp add: sint_uint)
  moreover have "uint w \<le> 0 \<Longrightarrow> w = 0" by (metis order.antisym unsigned_greater_eq uint_0_iff)
  ultimately have "positive w = w" by (auto simp: positive_def word_sless_alt not_less)
  with n w show "of_nat (unat (take_bit n (positive w))) = w" by (simp add: take_bit_eq_small)
next
  assume n: "n < 31" and "of_nat (unat (take_bit n (positive w))) = w"
  then have "take_bit n (positive w) = w" by simp
  with take_bit_less [of n "positive w"] n show "w < 2 ^ n" by simp
qed

lemma seen_eq_iff: "rec_ok r \<Longrightarrow> wlog_seen r = r \<longleftrightarrow> rec_fits r"
proof -
  assume "rec_ok r"
  then have l: "disk_pathlen r \<le> length (w_path r)" "disk_hostlen r \<le> length (w_host r)" "disk_patternlen r \<le> length (w_pattern r)"
    using disk_bounds [of r] by (auto simp: rec_ok_def wlog_sizes)
  have clip: "clip n sz xs = xs \<longleftrightarrow> drop n xs = replicate (sz - n) 0" if "n \<le> length xs" for n sz xs
    using that by (metis append_take_drop_id clip_def same_append_eq)
  have "(of_nat (disk_pathlen r) = w_pathlen r) = (w_pathlen r < 128)"
    "(of_nat (disk_hostlen r) = w_hostlen r) = (w_hostlen r < 16)"
    "(of_nat (disk_patternlen r) = w_patternlen r) = (w_patternlen r < 64)"
    using positive_len [of 7] positive_len [of 4] positive_len [of 6]
    by (simp_all add: disk_pathlen_def disk_hostlen_def disk_patternlen_def)
  moreover have "(take_bit 17 (w_pid r) = w_pid r) = (w_pid r < 2 ^ 17)" "(take_bit 1 (w_done r) = w_done r) = (w_done r < 2)"
    "(take_bit 1 (w_async r) = w_async r) = (w_async r < 2)"
    using take_bit_eq_small [of 17] take_bit_eq_small [of 1] by simp_all
  moreover have "wlog_seen r = r \<longleftrightarrow> take_bit 17 (w_pid r) = w_pid r \<and> take_bit 1 (w_done r) = w_done r \<and>
      take_bit 1 (w_async r) = w_async r \<and> clip (disk_hostlen r) (WLOG_MAX_HOST + 1) (w_host r) = w_host r \<and>
      of_nat (disk_hostlen r) = w_hostlen r \<and> clip (disk_pathlen r) (WLOG_MAX_PATH + 1) (w_path r) = w_path r \<and>
      of_nat (disk_pathlen r) = w_pathlen r \<and> clip (disk_patternlen r) (WLOG_MAX_PATTERN + 1) (w_pattern r) = w_pattern r \<and>
      of_nat (disk_patternlen r) = w_patternlen r"
    by (cases r) (simp add: wlog_seen_def)
  ultimately show ?thesis by (auto simp: rec_fits_def clip [OF l(1)] clip [OF l(2)] clip [OF l(3)])
qed


text \<open>Packing a record writes only the bytes of its length, and unpacking them (whatever follows) gives
  the record with every field cut to its bit field. This is the record itself exactly when the pid
  has 17 bits, the flags one, and the lengths of path, host and pattern 7, 4 and 6 bits: a path of the
  documented maximum of 128 bytes, or a pattern of 64, is lost.\<close>

lemma wlog_pack_roundtrip:
  assumes "rec_ok r" "length buf = WLOG_REC_MAX_SIZE + 2"
  shows "\<exists>b. wlog_rec_pack r buf True = Some (disk_len r, b) \<and> length b = length buf \<and>
    drop (disk_len r) b = drop (disk_len r) buf \<and>
    (\<forall>rest. wlog_rec_unpack (take (disk_len r) b @ rest) = Some (wlog_seen r)) \<and> (wlog_seen r = r \<longleftrightarrow> rec_fits r)"
proof -
  have "disk_len r \<le> length buf" using disk_len_bounds(2) [of r] assms(2) by (simp add: wlog_sizes)
  from pack_whole [OF assms(1) this] unpack_image [OF assms(1)] seen_eq_iff [OF assms(1)] show ?thesis by blast
qed

definition demo_rec :: "32 word \<Rightarrow> nat \<Rightarrow> wlog_rec" where
  "demo_rec done n = \<lparr>w_pid = 77, w_offset = 4096, w_nbytes = 512, w_oflags = 1, w_done = done, w_async = 1,
     w_host = [109, 120] @ replicate 7 0, w_hostlen = 2, w_path = replicate n 47 @ replicate (129 - n) 0, w_pathlen = of_nat n,
     w_pattern = [42] @ replicate 64 0, w_patternlen = 1\<rparr>"

lemma demo_rec_ok: "rec_ok (demo_rec 0 3)" "rec_ok (demo_rec 1 3)" "rec_fits (demo_rec 0 3)" "disk_len (demo_rec 0 3) = 34"
  "same_strings (demo_rec 1 3) (demo_rec 0 3)" "wlog_seen (demo_rec 1 3) = demo_rec 1 3"
  by code_simp+

lemma wlog_pack_roundtrip_witness:
  "\<exists>b. wlog_rec_pack (demo_rec 0 3) (replicate 452 255) True = Some (34, b) \<and>
     wlog_rec_unpack (take 34 b) = Some (demo_rec 0 3)"
proof -
  have "length (replicate 452 (255 :: byte)) = WLOG_REC_MAX_SIZE + 2" by (simp add: wlog_sizes)
  from wlog_pack_roundtrip [OF demo_rec_ok(1) this] show ?thesis
    using demo_rec_ok(3,4) by (metis append_Nil2)
qed

text \<open>C8: a log is a list of records. For every sequence of appends and of overlays at the offsets that the
  appends returned (with the strings unchanged, as for a write that has completed), whatever garbage is on the stack, the
  file that results is scanned backward as that list: the caller's function gets the last records
  first, each with the values it was last given, \<open>nrecs\<close> of them or all when \<open>nrecs\<close> is 0. This holds for records below
  256 bytes where \<open>char\<close> is unsigned and below 128 bytes where it is signed, however the records fall
  on the blocks that the scan reads.\<close>

theorem wlog_refines_list:
  assumes "ops_ok cs ops []" "rs = list_run ops []" "sum_list (map (\<lambda>r. disk_len r + 2) rs) < 2 ^ 31"
    and "516 \<le> length buf" "length albuf = WLOG_REC_MAX_SIZE" "\<forall>n. ok n" "\<forall>r d. fst (func r d) \<noteq> 0" "0 \<le> nrecs"
  shows "\<exists>offs content. wlog_run ops [] [] = Some (offs, content) \<and>
    length content = sum_list (map (\<lambda>r. disk_len r + 2) rs) \<and>
    wlog_scan_backward cs ok buf albuf content nrecs func d =
      Some (0, deliver func (take (if nrecs = 0 then length rs else nat nrecs) (map wlog_seen (rev rs))) d)"
proof -
  have "log_file [] []" by (auto simp: log_file_def intro: exI [of _ "[]"])
  moreover have s: "starts_at rs (length rs) = sum_list (map (\<lambda>r. disk_len r + 2) rs)" by (simp add: starts_at_def)
  ultimately obtain offs content where c: "wlog_run ops [] [] = Some (offs, content)" "log_file content rs"
    using wlog_run_log [OF assms(1), of "[]" "[]"] assms(2,3) by auto
  have "\<forall>r \<in> set rs. len_ok cs r" using ops_ok_lens [OF assms(1)] assms(2) by simp
  with c(2) have h: "log_holds cs content (map wlog_seen rs)" by (rule log_file_holds)
  have len: "length content = sum_list (map (\<lambda>r. disk_len r + 2) rs)" using log_file_length [OF c(2)] s by simp
  have "wlog_scan_backward cs ok buf albuf content nrecs func d =
      Some (0, deliver func (take (quota nrecs 0 (length rs)) (rev (map wlog_seen rs))) d)"
    using scan_backward_log [where d = d, OF h _ assms(4) _ assms(7,6,8)] len assms(3,5) by (simp add: wlog_sizes)
  moreover have "take (quota nrecs 0 (length rs)) (rev (map wlog_seen rs)) =
      take (if nrecs = 0 then length rs else nat nrecs) (map wlog_seen (rev rs))"
    by (simp add: quota_def rev_map min_def)
  ultimately show ?thesis using c(1) len by metis
qed

theorem wlog_refines_list_witness:
  "\<exists>offs content.
     wlog_run [Append (replicate 452 255) (demo_rec 0 3), Append (replicate 452 7) (demo_rec 0 3),
       Update 0 (replicate 452 1) (demo_rec 1 3)] [] [] = Some (offs, content) \<and>
     wlog_scan_backward True (\<lambda>_. True) (replicate 516 0) (replicate 450 0) content 0 (\<lambda>r ds. (1, ds @ [w_done r])) [] =
       Some (0, [0, 1])"
proof -
  let ?ops = "[Append (replicate 452 255) (demo_rec 0 3), Append (replicate 452 7) (demo_rec 0 3),
       Update 0 (replicate 452 1) (demo_rec 1 3)]"
  have len: "disk_len (demo_rec 1 3) = 34" by code_simp
  have ok: "ops_ok True ?ops []" using demo_rec_ok by (simp add: len_ok_def wlog_sizes)
  have seen: "wlog_seen (demo_rec 0 3) = demo_rec 0 3" using demo_rec_ok(1,3) by (simp add: seen_eq_iff)
  have dn: "w_done (demo_rec 0 3) = 0" "w_done (demo_rec 1 3) = 1" by (simp_all add: demo_rec_def)
  show ?thesis
    using wlog_refines_list [where d = "[]" and func = "\<lambda>r ds. (1, ds @ [w_done r])" and nrecs = 0, OF ok refl _ _ _ _ _ order_refl,
        of "replicate 516 0" "replicate 450 0" "\<lambda>_. True"] len demo_rec_ok(4,6) seen dn
    by (simp add: wlog_sizes deliver_def) blast
qed


text \<open>Where \<open>char\<close> is signed, a record of 128 bytes or more (a path of 100 characters is enough) is
  written without complaint, and then the log cannot be scanned: its length is read back as a
  negative number, with which the scan calls \<open>memcpy\<close>.\<close>

lemma wlog_long_record_unreadable:
  assumes "log_file content rs" "rec_ok r" "128 \<le> disk_len r" "length wbuf = WLOG_REC_MAX_SIZE + 2"
    and "length content + disk_len r + 2 < 2 ^ 31" "516 \<le> length buf" "\<forall>n. ok n" "0 \<le> nrecs"
  shows "\<exists>content'. wlog_record_write (int (disk_len r + 2)) True wbuf r (-1) content = Some (int (length content), content') \<and>
    wlog_scan_backward True ok buf albuf content' nrecs func d = None"
proof -
  obtain content' where c: "wlog_record_write (int (disk_len r + 2)) True wbuf r (-1) content = Some (int (length content), content')"
    "log_file content' (rs @ [r])" using record_append [OF assms(1,2,4,5)] by blast
  then obtain ps p where p: "content' = log_bytes ps @ framed p" "length p = disk_len r"
    by (auto simp: log_file_def list_all2_append2 list_all2_Cons2 disk_image_def)
  define q where "q = log_bytes ps @ p"
  have content': "content' = q @ [0, of_nat (disk_len r)]"
    using p disk_len_bounds(2) [of r] by (simp add: q_def framed_def)
  have len: "0 < length content'" "length content' < 2 ^ 31"
    using log_file_length [OF c(2)] log_file_length [OF assms(1)] assms(5) by (simp_all add: content' starts_at_def)
  obtain s off where so: "(s, off) = (if length content' + 0 < length buf then (length buf - (length content' + 0), 0)
                   else (0, length content' - (length buf - 0)))" by (metis surj_pair)
  have more: "nrecs = 0 \<or> 0 < nrecs" using assms(8) by auto
  obtain b where b: "length b = length buf" "take (length b - s) (drop s b) = drop off (take (length content') content' @ [])"
    "scan_blocks True ok func nrecs content' 2 (length content') 0 0 buf albuf 0 d = do {
       (leftover, buf, albuf, recnum, d) \<leftarrow> scan_records True func nrecs s (length b) b albuf 0 d;
       scan_blocks True ok func nrecs content' 4 off leftover s buf albuf recnum d }"
    using scan_blocks_round [where cs = True and func = func and albuf = albuf and d = d and calls = 2 and q = "[]",
        OF more len(1) assms(7) order_refl _ _ _ so] by auto
  have "off \<le> length q"
    using so assms(6) by (auto simp: content' split: if_splits)
  then have win: "take (length b - s) (drop s b) = drop off q @ [0, of_nat (disk_len r)]" unfolding b(2) by (simp add: content')
  have s: "s \<le> length b" using so b(1) by (auto split: if_splits)
  note w = window_tail [OF win s order_refl]
  have "sint (of_nat (disk_len r) :: byte) = int (disk_len r) - 256"
  proof -
    define k where "k = disk_len r - 128"
    have k: "disk_len r = 128 + k" "k < 128" using assms(3) disk_len_bounds(2) [of r] by (auto simp: k_def)
    have "(of_nat (disk_len r) :: byte) = word_of_int (int (disk_len r) - 256)" by simp
    then show ?thesis using k by (simp only: signed_of_int) (simp add: signed_take_bit_int_eq_self)
  qed
  then have "char_val True 0 * 256 + char_val True (of_nat (disk_len r)) = int (disk_len r) - 256" by (simp add: char_val_def)
  with w disk_len_bounds(2) [of r] s have "scan_records True func nrecs s (length b) b albuf 0 d = None"
    by (subst scan_records.simps) (simp add: Let_def del: of_nat_diff)
  moreover have "int32 (int (length content')) = int (length content')" using len(2) by (simp add: int32_small)
  ultimately have "wlog_scan_backward True ok buf albuf content' nrecs func d = None"
    using b(3) assms(7) by (simp add: wlog_scan_backward_def)
  with c(1) show ?thesis by blast
qed

lemma wlog_long_record_unreadable_witness:
  "\<exists>content. wlog_record_write 133 True (replicate 452 0) (demo_rec 0 100) (-1) [] = Some (0, content) \<and>
     wlog_scan_backward True (\<lambda>_. True) (replicate 516 0) [] content 0 (\<lambda>r n. (1, n + 1)) 0 = None"
proof -
  have "log_file [] []" by (auto simp: log_file_def intro: exI [of _ "[]"])
  moreover have "rec_ok (demo_rec 0 100)" "disk_len (demo_rec 0 100) = 131" by code_simp+
  ultimately show ?thesis
    using wlog_long_record_unreadable [of "[]" "[]" "demo_rec 0 100" "replicate 452 0" "replicate 516 0" "\<lambda>_. True" 0 "[]"
        "\<lambda>r n. (1, n + 1)" 0] by (simp add: wlog_sizes)
qed

end
