(* ===== verification/Tlibio.thy ===== *)
theory Tlibio
  imports Random_Range
begin

text \<open>
  \<^verbatim>\<open>lib/tlibio.c\<close> in its Linux configuration: the io methods that the file-system exercisers choose from
  by a bit mask, the parsers of their names, the random choice, and \<open>lio_write_buffer\<close> and
  \<open>lio_read_buffer\<close>, which perform one transfer by the method. What the kernel answers is a record of
  functions; the state has the signals that are blocked, the signals that have the library's handler,
  and the bytes that were moved by \<open>write\<close> or \<open>read\<close>. Debug output and error texts are left out.
\<close>

section \<open>Strides\<close>

text \<open>The number of bytes, and the bounds. A signed overflow is undefined.\<close>

definition stride_bounds :: "int \<Rightarrow> int \<Rightarrow> int \<Rightarrow> int \<Rightarrow> (int \<times> (int \<times> int) option) option" where
  "stride_bounds offset stride nstrides bytes_per_stride =
     (if nstrides < 0 \<or> bytes_per_stride < 0 then Some (-1, None)
      else do {
        let stride = (if stride = 0 then bytes_per_stride else stride);
        a \<leftarrow> checked 32 \<bar>stride\<bar>;
        m \<leftarrow> checked 32 (a * (nstrides - 1));
        nbytes \<leftarrow> checked 32 (m + bytes_per_stride);
        if stride < 0
        then do {
          t \<leftarrow> checked 32 (offset + bytes_per_stride);
          max_byte \<leftarrow> checked 32 (t - 1);
          t \<leftarrow> checked 32 (max_byte - nbytes);
          min_byte \<leftarrow> checked 32 (t + 1);
          Some (nbytes, Some (min_byte, max_byte)) }
        else do {
          t \<leftarrow> checked 32 (offset + nbytes);
          max_byte \<leftarrow> checked 32 (t - 1);
          Some (nbytes, Some (offset, max_byte)) } })"

section \<open>Method bits\<close>

definition LIO_IO_SYNC :: "32 word" where "LIO_IO_SYNC = 0x1"
definition LIO_IO_ASYNC :: "32 word" where "LIO_IO_ASYNC = 0x2"
definition LIO_IO_SLISTIO :: "32 word" where "LIO_IO_SLISTIO = 0x4"
definition LIO_IO_ALISTIO :: "32 word" where "LIO_IO_ALISTIO = 0x8"
definition LIO_IO_SYNCV :: "32 word" where "LIO_IO_SYNCV = 0x10"
definition LIO_IO_SYNCP :: "32 word" where "LIO_IO_SYNCP = 0x20"
definition LIO_IO_TYPES :: "32 word" where "LIO_IO_TYPES = 0x31"
definition LIO_IO_ATYPES :: "32 word" where "LIO_IO_ATYPES = 0x3F"
definition LIO_WAIT_NONE :: "32 word" where "LIO_WAIT_NONE = 0x1000"
definition LIO_WAIT_ACTIVE :: "32 word" where "LIO_WAIT_ACTIVE = 0x2000"
definition LIO_WAIT_RECALL :: "32 word" where "LIO_WAIT_RECALL = 0x4000"
definition LIO_WAIT_SIGPAUSE :: "32 word" where "LIO_WAIT_SIGPAUSE = 0x8000"
definition LIO_WAIT_SIGACTIVE :: "32 word" where "LIO_WAIT_SIGACTIVE = 0x10000"
definition LIO_WAIT_CBSUSPEND :: "32 word" where "LIO_WAIT_CBSUSPEND = 0x20000"
definition LIO_WAIT_SIGSUSPEND :: "32 word" where "LIO_WAIT_SIGSUSPEND = 0x40000"
definition LIO_WAIT_ATYPES :: "32 word" where "LIO_WAIT_ATYPES = 0x7E000"
definition LIO_WAIT_TYPES :: "32 word" where "LIO_WAIT_TYPES = 0x2000"
definition LIO_WAIT_CBTYPES :: "32 word" where "LIO_WAIT_CBTYPES = LIO_WAIT_CBSUSPEND"
definition LIO_WAIT_SIGTYPES :: "32 word" where
  "LIO_WAIT_SIGTYPES = LIO_WAIT_SIGPAUSE OR LIO_WAIT_SIGACTIVE OR LIO_WAIT_SIGSUSPEND"
definition LIO_RANDOM :: "32 word" where "LIO_RANDOM = 0x200000"
definition LIO_USE_SIGNAL :: "32 word" where "LIO_USE_SIGNAL = 0x400000"

lemmas lio_bits = LIO_IO_SYNC_def LIO_IO_ASYNC_def LIO_IO_SLISTIO_def LIO_IO_ALISTIO_def LIO_IO_SYNCV_def
  LIO_IO_SYNCP_def LIO_IO_TYPES_def LIO_IO_ATYPES_def LIO_WAIT_NONE_def LIO_WAIT_ACTIVE_def LIO_WAIT_RECALL_def
  LIO_WAIT_SIGPAUSE_def LIO_WAIT_SIGACTIVE_def LIO_WAIT_CBSUSPEND_def LIO_WAIT_SIGSUSPEND_def LIO_WAIT_ATYPES_def
  LIO_WAIT_TYPES_def LIO_WAIT_CBTYPES_def LIO_WAIT_SIGTYPES_def LIO_RANDOM_def LIO_USE_SIGNAL_def

definition has :: "32 word \<Rightarrow> 32 word \<Rightarrow> bool" where
  "has m b \<longleftrightarrow> m AND b \<noteq> 0"

section \<open>Names of methods\<close>

definition Lio_info1 :: "(string \<times> 32 word) list" where
  "Lio_info1 =
     [(''s'', LIO_IO_SYNC), (''p'', LIO_IO_ASYNC OR LIO_WAIT_SIGACTIVE), (''b'', LIO_IO_ASYNC OR LIO_WAIT_SIGPAUSE),
      (''a'', LIO_IO_ASYNC OR LIO_WAIT_RECALL), (''r'', LIO_RANDOM OR LIO_IO_TYPES OR LIO_WAIT_TYPES),
      (''R'', LIO_RANDOM OR LIO_IO_ATYPES OR LIO_WAIT_ATYPES), (''l'', LIO_IO_SLISTIO OR LIO_WAIT_RECALL),
      (''L'', LIO_IO_ALISTIO OR LIO_WAIT_RECALL), (''X'', LIO_IO_ALISTIO OR LIO_WAIT_SIGPAUSE),
      (''v'', LIO_IO_SYNCV), (''P'', LIO_IO_SYNCP)]"

definition Lio_info2 :: "(string \<times> 32 word) list" where
  "Lio_info2 =
     [(''sync'', LIO_IO_SYNC), (''async'', LIO_IO_ASYNC), (''slistio'', LIO_IO_SLISTIO), (''alistio'', LIO_IO_ALISTIO),
      (''syncv'', LIO_IO_SYNCV), (''syncp'', LIO_IO_SYNCP), (''active'', LIO_WAIT_ACTIVE), (''recall'', LIO_WAIT_RECALL),
      (''sigactive'', LIO_WAIT_SIGACTIVE), (''sigpause'', LIO_WAIT_SIGPAUSE), (''random'', LIO_RANDOM),
      (''randomall'', LIO_RANDOM OR LIO_IO_TYPES OR LIO_WAIT_TYPES)]"

definition lio_parse_io_arg1 :: "string \<Rightarrow> 32 word" where
  "lio_parse_io_arg1 s = (case map_of Lio_info1 s of None \<Rightarrow> -1 | Some bits \<Rightarrow> bits)"

text \<open>One token: a name, or a number of which \<open>sscanf (token, "%i%c", ...)\<close> leaves nothing.\<close>

definition arg2_token :: "string \<Rightarrow> 32 word option" where
  "arg2_token token =
     (case map_of Lio_info2 token of
        Some bits \<Rightarrow> Some bits
      | None \<Rightarrow> (case scan_int token of Some (v, []) \<Rightarrow> Some (word_of_int v) | _ \<Rightarrow> None))"

text \<open>\<open>-1\<close> is returned for a bad token, and \<open>*badtoken\<close> points to it.\<close>

definition lio_parse_io_arg2 :: "string option \<Rightarrow> 32 word \<times> string option" where
  "lio_parse_io_arg2 s =
     (case s of
        None \<Rightarrow> (-1, None)
      | Some s \<Rightarrow> (case comma_loop arg2_token s 0 of Inl bad \<Rightarrow> (-1, Some bad) | Inr msk \<Rightarrow> (msk, None)))"

section \<open>Choosing a method\<close>

definition lio_random_methods :: "('s \<Rightarrow> int \<times> 's) \<Rightarrow> 64 word \<Rightarrow> 's \<Rightarrow> (32 word \<times> 's) option" where
  "lio_random_methods rnd curr_mask s = do {
     let msk = ucast curr_mask AND NOT (LIO_IO_TYPES OR LIO_WAIT_TYPES OR LIO_RANDOM);
     (a, s) \<leftarrow> random_bit rnd (curr_mask AND ucast LIO_IO_TYPES) s;
     (b, s) \<leftarrow> random_bit rnd (curr_mask AND ucast LIO_WAIT_TYPES) s;
     Some (msk OR ucast a OR ucast b, s) }"

datatype io_kind = K_sync | K_async | K_slistio | K_alistio | K_syncv | K_syncp | K_no_method

definition io_kind_of :: "32 word \<Rightarrow> io_kind" where
  "io_kind_of method =
     (if has method LIO_IO_SYNC \<or> \<not> has method (LIO_IO_TYPES OR LIO_IO_ATYPES) then K_sync
      else if has method LIO_IO_ASYNC then K_async
      else if has method LIO_IO_SLISTIO then K_slistio
      else if has method LIO_IO_ALISTIO then K_alistio
      else if has method LIO_IO_SYNCV then K_syncv
      else if has method LIO_IO_SYNCP then K_syncp
      else K_no_method)"


section \<open>Transfers\<close>

definition EAGAIN :: int where "EAGAIN = 11"
definition ESPIPE :: int where "ESPIPE = 29"
definition EINPROGRESS :: int where "EINPROGRESS = 115"

text \<open>The kernel's answers: \<open>lseek\<close>; the return value and \<open>errno\<close> of the \<open>n\<close>-th transfer of \<open>k\<close> bytes; the
  start of an asynchronous transfer; \<open>aio_suspend\<close>; the \<open>n\<close>-th \<open>aio_error\<close>; \<open>aio_return\<close>; whether the
  signal has come when its counter is read for the \<open>n\<close>-th time.\<close>

record lio_env =
  lseek_ans :: "int \<times> int"
  io_ans :: "nat \<Rightarrow> nat \<Rightarrow> int \<times> int"
  submit_ans :: "int \<times> int"
  suspend_ans :: "int \<times> int"
  aio_err :: "nat \<Rightarrow> int"
  aio_ret :: int
  sig_came :: "nat \<Rightarrow> bool"

record 's lio =
  rng :: 's
  held :: "int set"
  handled :: "int set"
  moved :: "byte list"

datatype notify = Sig_none | Sig_signal int | Sig_thread

text \<open>The loops of the synchronous methods. An answer above the size is not one that the kernel gives.\<close>

partial_function (option) write_loop ::
  "(nat \<Rightarrow> nat \<Rightarrow> int \<times> int) \<Rightarrow> nat \<Rightarrow> byte list \<Rightarrow> nat \<Rightarrow> byte list \<Rightarrow> (int \<times> byte list) option" where
  "write_loop ans n buffer sz sent =
     (let (ret, err) = ans n sz
      in if ret = -1 \<and> err \<noteq> EAGAIN \<and> err \<noteq> EINTR then Some (- err, sent)
         else if ret = -1 then write_loop ans (n + 1) buffer sz sent
         else if int sz < ret \<or> length buffer < nat ret then None
         else if ret \<noteq> int sz
         then write_loop ans (n + 1) (drop (nat ret) buffer) (sz - nat ret) (sent @ take (nat ret) buffer)
         else Some (ret, sent @ take (nat ret) buffer))"

text \<open>\<open>src\<close> is what the descriptor has to read.\<close>

partial_function (option) read_loop ::
  "(nat \<Rightarrow> nat \<Rightarrow> int \<times> int) \<Rightarrow> nat \<Rightarrow> byte list \<Rightarrow> nat \<Rightarrow> byte list \<Rightarrow> (int \<times> byte list) option" where
  "read_loop ans n src sz got =
     (let (ret, err) = ans n sz
      in if ret = -1 \<and> err \<noteq> EINTR \<and> err \<noteq> EAGAIN then Some (- err, got)
         else if ret = 0 then Some (0, got)
         else if ret = -1 then read_loop ans (n + 1) src sz got
         else if int sz < ret \<or> length src < nat ret then None
         else if ret \<noteq> int sz
         then read_loop ans (n + 1) (drop (nat ret) src) (sz - nat ret) (got @ take (nat ret) src)
         else Some (ret, got @ take (nat ret) src))"

text \<open>\<open>pwrite\<close>, \<open>writev\<close> and their readers: one call.\<close>

definition one_transfer :: "lio_env \<Rightarrow> byte list \<Rightarrow> nat \<Rightarrow> (int \<times> byte list) option" where
  "one_transfer env buffer sz =
     (let (ret, err) = io_ans env 0 sz
      in if ret = -1 then Some (- err, [])
         else if int sz < ret \<or> length buffer < nat ret then None
         else Some (ret, take (nat ret) buffer))"

section \<open>Asynchronous transfers\<close>

partial_function (option) aio_spin :: "(nat \<Rightarrow> int) \<Rightarrow> nat \<Rightarrow> (int \<times> nat) option" where
  "aio_spin errs n = (if errs n = EINPROGRESS then aio_spin errs (n + 1) else Some (errs n, n + 1))"

partial_function (option) sig_spin :: "(nat \<Rightarrow> bool) \<Rightarrow> nat \<Rightarrow> unit option" where
  "sig_spin came n = (if came n then Some () else sig_spin came (n + 1))"

declare write_loop.simps [code] read_loop.simps [code] aio_spin.simps [code] sig_spin.simps [code]

definition release :: "notify \<Rightarrow> 's lio \<Rightarrow> 's lio" where
  "release nfy st = (case nfy of Sig_signal sig \<Rightarrow> st\<lparr>held := held st - {sig}\<rparr> | _ \<Rightarrow> st)"

text \<open>The result: the return value, and the number of \<open>aio_error\<close> calls that were made.\<close>

definition lio_wait4asyncio :: "32 word \<Rightarrow> notify \<Rightarrow> lio_env \<Rightarrow> 's lio \<Rightarrow> (int \<times> nat \<times> 's lio) option" where
  "lio_wait4asyncio method nfy env st =
     (if has method LIO_WAIT_RECALL \<or> has method LIO_WAIT_CBSUSPEND \<or> has method LIO_WAIT_SIGSUSPEND \<or>
         \<not> has method LIO_WAIT_TYPES
      then (let (ret, err) = suspend_ans env
            in Some (if ret = -1 \<and> err = EINTR then (case nfy of Sig_signal _ \<Rightarrow> 0 | _ \<Rightarrow> - err)
                     else if ret \<noteq> 0 then - err else 0, 0, st))
      else if has method LIO_WAIT_ACTIVE
      then do { (ret, n) \<leftarrow> aio_spin (aio_err env) 0; Some (0, n, st) }
      else if has method LIO_WAIT_SIGPAUSE then Some (0, 0, st)
      else if has method LIO_WAIT_SIGACTIVE
      then (case nfy of
              Sig_signal sig \<Rightarrow> do { sig_spin (sig_came env) 0; Some (0, 0, release nfy st) }
            | _ \<Rightarrow> Some (-1, 0, st))
      else if has method LIO_WAIT_NONE then Some (-1, 0, st)
      else Some (-1, 0, st))"

definition lio_check_asyncio :: "notify \<Rightarrow> lio_env \<Rightarrow> nat \<Rightarrow> 's lio \<Rightarrow> (int \<times> 's lio) option" where
  "lio_check_asyncio nfy env n st = do {
     let st = release nfy st;
     (ret, n') \<leftarrow> aio_spin (aio_err env) n;
     Some (if 1 < n' - n then - ret else if ret \<noteq> 0 then - ret else aio_ret env, st) }"

text \<open>After a transfer was started: wait for it, then check it.\<close>

definition lio_complete :: "32 word \<Rightarrow> nat \<Rightarrow> notify \<Rightarrow> lio_env \<Rightarrow> 's lio \<Rightarrow> (int \<times> 's lio) option" where
  "lio_complete method sz nfy env st = do {
     (ret, n, st) \<leftarrow> lio_wait4asyncio method nfy env st;
     if ret < 0 then Some (ret, st)
     else if ret = 1 then Some (int sz, st)
     else lio_check_asyncio nfy env n st }"

text \<open>\<open>sighold\<close>, then the start of the transfer, which releases the signal when it fails.\<close>

definition lio_start :: "int \<Rightarrow> lio_env \<Rightarrow> 's lio \<Rightarrow> ('s lio \<Rightarrow> (int \<times> 's lio) option) \<Rightarrow> (int \<times> 's lio) option" where
  "lio_start sig env st k =
     (let st' = (if sig \<noteq> 0 then st\<lparr>held := insert sig (held st)\<rparr> else st);
          (ret, err) = submit_ans env
      in if ret = -1 then Some (- err, if sig \<noteq> 0 then st'\<lparr>held := held st' - {sig}\<rparr> else st') else k st')"

section \<open>The method that is used\<close>

text \<open>After the random choice: a pipe cannot be used with \<open>pwrite\<close>, so a random choice of it is changed.\<close>

definition fifo_method :: "32 word \<Rightarrow> int \<times> int \<Rightarrow> 32 word \<Rightarrow> 32 word" where
  "fifo_method omethod seek method =
     (if fst seek = -1 \<and> has method LIO_IO_SYNCP \<and> has omethod LIO_RANDOM
      then (method AND NOT LIO_IO_SYNCP) OR LIO_IO_SYNC else method)"

definition used_signal :: "32 word \<Rightarrow> int \<Rightarrow> int" where
  "used_signal method sig =
     (let sig = (if sig \<noteq> 0 \<and> \<not> has method LIO_USE_SIGNAL \<and> \<not> has method LIO_WAIT_SIGTYPES then 0 else sig)
      in if sig \<noteq> 0 \<and> has method LIO_WAIT_CBTYPES then 0 else sig)"

definition notify_of :: "32 word \<Rightarrow> int \<Rightarrow> notify" where
  "notify_of method sig =
     (if sig \<noteq> 0 \<and> has method LIO_WAIT_SIGTYPES then Sig_signal sig
      else if has method LIO_WAIT_CBTYPES then Sig_thread else Sig_none)"

text \<open>\<open>sigset\<close> also takes the signal out of the mask.\<close>

definition lio_setup ::
  "('s \<Rightarrow> int \<times> 's) \<Rightarrow> lio_env \<Rightarrow> 32 word \<Rightarrow> int \<Rightarrow> 's lio \<Rightarrow> ((int + 32 word \<times> int \<times> notify) \<times> 's lio) option" where
  "lio_setup rnd env omethod sig st = do {
     (method, st) \<leftarrow> (if has omethod LIO_RANDOM
        then do { (m, s) \<leftarrow> lio_random_methods rnd (scast omethod) (rng st); Some (m, st\<lparr>rng := s\<rparr>) }
        else Some (omethod, st));
     if fst (lseek_ans env) = -1 \<and> snd (lseek_ans env) \<noteq> ESPIPE then Some (Inl (- snd (lseek_ans env)), st)
     else do {
       let method = fifo_method omethod (lseek_ans env) method;
       let sig = used_signal method sig;
       let nfy = notify_of method sig;
       let st = (case nfy of Sig_signal s \<Rightarrow> st\<lparr>handled := insert s (handled st), held := held st - {s}\<rparr> | _ \<Rightarrow> st);
       Some (Inr (method, sig, nfy), st) } }"

definition lio_write_buffer ::
  "('s \<Rightarrow> int \<times> 's) \<Rightarrow> lio_env \<Rightarrow> 32 word \<Rightarrow> byte list \<Rightarrow> nat \<Rightarrow> int \<Rightarrow> 's lio \<Rightarrow> (int \<times> 's lio) option" where
  "lio_write_buffer rnd env omethod buffer sz sig st = do {
     (r, st) \<leftarrow> lio_setup rnd env omethod sig st;
     (case r of
        Inl ret \<Rightarrow> Some (ret, st)
      | Inr (method, sig, nfy) \<Rightarrow>
          (case io_kind_of method of
             K_sync \<Rightarrow> do {
               (ret, bytes) \<leftarrow> write_loop (io_ans env) 0 buffer sz [];
               Some (ret, st\<lparr>moved := moved st @ bytes\<rparr>) }
           | K_async \<Rightarrow> lio_start sig env st (lio_complete method sz nfy env)
           | K_slistio \<Rightarrow> lio_start sig env st (lio_check_asyncio nfy env 0)
           | K_alistio \<Rightarrow> lio_start sig env st (lio_complete method sz nfy env)
           | K_syncv \<Rightarrow> do { (ret, bytes) \<leftarrow> one_transfer env buffer sz; Some (ret, st\<lparr>moved := moved st @ bytes\<rparr>) }
           | K_syncp \<Rightarrow> do { (ret, bytes) \<leftarrow> one_transfer env buffer sz; Some (ret, st\<lparr>moved := moved st @ bytes\<rparr>) }
           | K_no_method \<Rightarrow> Some (-1, st))) }"

definition lio_read_buffer ::
  "('s \<Rightarrow> int \<times> 's) \<Rightarrow> lio_env \<Rightarrow> 32 word \<Rightarrow> byte list \<Rightarrow> nat \<Rightarrow> int \<Rightarrow> 's lio \<Rightarrow> (int \<times> 's lio) option" where
  "lio_read_buffer rnd env omethod src sz sig st = do {
     (r, st) \<leftarrow> lio_setup rnd env omethod sig st;
     (case r of
        Inl ret \<Rightarrow> Some (ret, st)
      | Inr (method, sig, nfy) \<Rightarrow>
          (case io_kind_of method of
             K_sync \<Rightarrow> do {
               (ret, bytes) \<leftarrow> read_loop (io_ans env) 0 src sz [];
               Some (ret, st\<lparr>moved := moved st @ bytes\<rparr>) }
           | K_async \<Rightarrow> lio_start sig env st (lio_complete method sz nfy env)
           | K_slistio \<Rightarrow> lio_start sig env st (lio_check_asyncio nfy env 0)
           | K_alistio \<Rightarrow> lio_start sig env st (lio_complete method sz nfy env)
           | K_syncv \<Rightarrow> do { (ret, bytes) \<leftarrow> one_transfer env src sz; Some (ret, st\<lparr>moved := moved st @ bytes\<rparr>) }
           | K_syncp \<Rightarrow> do { (ret, bytes) \<leftarrow> one_transfer env src sz; Some (ret, st\<lparr>moved := moved st @ bytes\<rparr>) }
           | K_no_method \<Rightarrow> Some (-1, st))) }"


section \<open>Synchronous transfers\<close>

definition kernel_ok :: "(nat \<Rightarrow> nat \<Rightarrow> int \<times> int) \<Rightarrow> bool" where
  "kernel_ok ans \<longleftrightarrow> (\<forall>n k. fst (ans n k) = -1 \<and> (snd (ans n k) = EAGAIN \<or> snd (ans n k) = EINTR) \<or>
     0 \<le> fst (ans n k) \<and> fst (ans n k) \<le> int k)"

definition keeps_moving :: "(nat \<Rightarrow> nat \<Rightarrow> int \<times> int) \<Rightarrow> bool" where
  "keeps_moving ans \<longleftrightarrow> (\<forall>n. \<exists>m \<ge> n. \<forall>k > 0. 0 < fst (ans m k))"

text \<open>The first answer that moves bytes moves all of them.\<close>

definition whole_at_once :: "(nat \<Rightarrow> nat \<Rightarrow> int \<times> int) \<Rightarrow> nat \<Rightarrow> nat \<Rightarrow> bool" where
  "whole_at_once ans n sz \<longleftrightarrow> (\<exists>m \<ge> n. fst (ans m sz) = int sz \<and> (\<forall>j. n \<le> j \<and> j < m \<longrightarrow> fst (ans j sz) \<le> 0))"

lemma kernel_okD: "kernel_ok ans \<Longrightarrow> fst (ans n k) = -1 \<and> (snd (ans n k) = EAGAIN \<or> snd (ans n k) = EINTR) \<or>
     0 \<le> fst (ans n k) \<and> fst (ans n k) \<le> int k"
  by (simp add: kernel_ok_def)

lemma whole_step: "fst (ans n sz) \<le> 0 \<Longrightarrow> 0 < sz \<Longrightarrow> whole_at_once ans n sz \<longleftrightarrow> whole_at_once ans (Suc n) sz"
  unfolding whole_at_once_def
proof safe
  fix m assume "fst (ans n sz) \<le> 0" "0 < sz" "n \<le> m" "fst (ans m sz) = int sz" "\<forall>j. n \<le> j \<and> j < m \<longrightarrow> fst (ans j sz) \<le> 0"
  then show "\<exists>m\<ge>Suc n. fst (ans m sz) = int sz \<and> (\<forall>j. Suc n \<le> j \<and> j < m \<longrightarrow> fst (ans j sz) \<le> 0)"
    by (intro exI [of _ m]) (cases "m = n"; auto)
next
  fix m assume "fst (ans n sz) \<le> 0" "Suc n \<le> m" "fst (ans m sz) = int sz" "\<forall>j. Suc n \<le> j \<and> j < m \<longrightarrow> fst (ans j sz) \<le> 0"
  then show "\<exists>m\<ge>n. fst (ans m sz) = int sz \<and> (\<forall>j. n \<le> j \<and> j < m \<longrightarrow> fst (ans j sz) \<le> 0)"
    by (intro exI [of _ m]) (auto simp: le_Suc_eq not_less_eq_eq dest: le_neq_implies_less)
qed

lemma whole_now: "0 < fst (ans n sz) \<Longrightarrow> whole_at_once ans n sz \<longleftrightarrow> fst (ans n sz) = int sz"
  unfolding whole_at_once_def by (metis le_neq_implies_less not_less order_refl)

lemma write_loop_moves:
  assumes "kernel_ok ans" "keeps_moving ans" "0 < sz" "sz \<le> length buffer"
  shows "\<exists>r. write_loop ans n buffer sz sent = Some (r, sent @ take sz buffer) \<and> 0 < r \<and> r \<le> int sz \<and>
    (r = int sz \<longleftrightarrow> whole_at_once ans n sz)"
  using assms(3,4)
proof (induction sz arbitrary: n buffer sent rule: less_induct)
  case (less sz)
  have now: "\<exists>r. write_loop ans n buffer sz sent = Some (r, sent @ take sz buffer) \<and> 0 < r \<and> r \<le> int sz \<and>
    (r = int sz \<longleftrightarrow> whole_at_once ans n sz)" if "0 < fst (ans n sz)" for n
  proof -
    obtain ret err where r: "ans n sz = (ret, err)" by (cases "ans n sz")
    have ret: "0 < ret" "ret \<le> int sz" using kernel_okD [OF assms(1), of n sz] that r by auto
    show ?thesis
    proof (cases "ret = int sz")
      case True
      with r ret less.prems show ?thesis
        by (subst write_loop.simps) (auto simp: whole_now [of ans n])
    next
      case False
      with ret have lt: "sz - nat ret < sz" "0 < sz - nat ret" by auto
      have l: "sz - nat ret \<le> length (drop (nat ret) buffer)" using less.prems(2) by simp
      obtain r' where r': "write_loop ans (n + 1) (drop (nat ret) buffer) (sz - nat ret) (sent @ take (nat ret) buffer) =
          Some (r', (sent @ take (nat ret) buffer) @ take (sz - nat ret) (drop (nat ret) buffer))" "0 < r'" "r' \<le> int (sz - nat ret)"
        using less.IH [OF lt l] by blast
      have "take (nat ret) buffer @ take (sz - nat ret) (drop (nat ret) buffer) = take sz buffer"
        using lt by (simp flip: take_add)
      then have "write_loop ans n buffer sz sent = Some (r', sent @ take sz buffer)"
        using r r'(1) ret False less.prems(2) by (subst write_loop.simps) (auto simp: Let_def)
      moreover have "r' < int sz" using r'(3) lt(1) by linarith
      ultimately show ?thesis using r'(2) whole_now [of ans n sz] r ret False by auto
    qed
  qed
  obtain m where m: "n \<le> m" "0 < fst (ans m sz)" using assms(2) less.prems(1) by (auto simp: keeps_moving_def)
  from m show ?case
  proof (induction "m - n" arbitrary: n)
    case 0
    then show ?case using now [of n] by simp
  next
    case (Suc d)
    show ?case
    proof (cases "0 < fst (ans n sz)")
      case False
      obtain ret err where r: "ans n sz = (ret, err)" by (cases "ans n sz")
      with False assms(1) have "ret = -1 \<and> (err = EAGAIN \<or> err = EINTR) \<or> ret = 0"
        unfolding kernel_ok_def by (metis fst_conv snd_conv antisym_conv not_less)
      then have "write_loop ans n buffer sz sent = write_loop ans (n + 1) buffer sz sent"
        using r less.prems(1) by (subst write_loop.simps) auto
      moreover have "Suc n \<le> m" using Suc.hyps(2) by simp
      ultimately show ?thesis
        using Suc.hyps(1) [of "Suc n"] Suc.hyps(2) Suc.prems(2) whole_step [of ans n sz] False less.prems(1) by simp
    qed (rule now)
  qed
qed

lemma setup_plain:
  assumes "\<not> has m LIO_RANDOM" "fst (lseek_ans env) \<noteq> -1"
  shows "\<exists>g nfy st'. lio_setup rnd env m sig st = Some (Inr (m, g, nfy), st') \<and> moved st' = moved st"
  using assms by (simp add: lio_setup_def fifo_method_def Let_def split: notify.splits)


definition two_pieces :: "lio_env" where
  "two_pieces = \<lparr>lseek_ans = (0, 0), io_ans = (\<lambda>n k. if n = 0 then (-1, EINTR) else (int (min k 3), 0)),
     submit_ans = (0, 0), suspend_ans = (0, 0), aio_err = (\<lambda>_. 0), aio_ret = 5, sig_came = (\<lambda>_. True)\<rparr>"

definition idle_lio :: "nat lio" where
  "idle_lio = \<lparr>rng = 1, held = {}, handled = {}, moved = []\<rparr>"


text \<open>A reader that meets the end of the file after some pieces.\<close>

lemma read_loop_eof:
  assumes "\<forall>i < length ps. 0 < ps ! i \<and> fst (ans (n + i) (sz - sum_list (take i ps))) = int (ps ! i)"
    and "sum_list ps < sz" "sum_list ps \<le> length src" "fst (ans (n + length ps) (sz - sum_list ps)) = 0"
  shows "read_loop ans n src sz got = Some (0, got @ take (sum_list ps) src)"
  using assms
proof (induction ps arbitrary: n src sz got)
  case Nil
  then show ?case by (subst read_loop.simps) (auto split: prod.splits)
next
  case (Cons p ps)
  obtain err where a: "ans n sz = (int p, err)" "0 < p"
    using Cons.prems(1) by (cases "ans n sz") force
  have "read_loop ans n src sz got = read_loop ans (n + 1) (drop p src) (sz - p) (got @ take p src)"
    using a Cons.prems(2,3) by (subst read_loop.simps) auto
  also have "\<dots> = Some (0, (got @ take p src) @ take (sum_list ps) (drop p src))"
  proof (rule Cons.IH)
    show "\<forall>i<length ps. 0 < ps ! i \<and> fst (ans (n + 1 + i) (sz - p - sum_list (take i ps))) = int (ps ! i)"
    proof (intro allI impI)
      fix i assume "i < length ps"
      then show "0 < ps ! i \<and> fst (ans (n + 1 + i) (sz - p - sum_list (take i ps))) = int (ps ! i)"
        using Cons.prems(1) [rule_format, of "Suc i"] by (simp add: diff_diff_left)
    qed
  qed (use Cons.prems in auto)
  finally show ?case by (simp add: take_add)
qed

text \<open>A read that meets the end of the file before it has all that was asked returns 0, and the bytes of
  the pieces that came before are in the buffer.\<close>

lemma lio_read_at_eof:
  assumes "io_kind_of m = K_sync" "\<not> has m LIO_RANDOM" "fst (lseek_ans env) \<noteq> -1"
    and "\<forall>i < length ps. 0 < ps ! i \<and> fst (io_ans env i (sz - sum_list (take i ps))) = int (ps ! i)"
    and "sum_list ps < sz" "length src = sum_list ps" "fst (io_ans env (length ps) (sz - sum_list ps)) = 0"
  shows "\<exists>st'. lio_read_buffer rnd env m src sz sig st = Some (0, st') \<and> moved st' = moved st @ src"
proof -
  obtain g nfy st' where s: "lio_setup rnd env m sig st = Some (Inr (m, g, nfy), st')" "moved st' = moved st"
    using setup_plain [OF assms(2,3)] by blast
  have "read_loop (io_ans env) 0 src sz [] = Some (0, src)"
    using read_loop_eof [of ps "io_ans env" 0 sz src "[]"] assms(4-7) by simp
  then show ?thesis using s assms(1) by (simp add: lio_read_buffer_def)
qed

lemma lio_read_at_eof_witness:
  "\<exists>st'. lio_read_buffer lrand48 (two_pieces\<lparr>io_ans := \<lambda>n k. if n = 0 then (2, 0) else (0, 0)\<rparr>) LIO_IO_SYNC [7, 8] 5 0 idle_lio = Some (0, st')
    \<and> moved st' = [7, 8]"
  using lio_read_at_eof [of LIO_IO_SYNC "two_pieces\<lparr>io_ans := \<lambda>n k. if n = 0 then (2, 0) else (0, 0)\<rparr>" "[2]" 5 "[7, 8]" lrand48 0 idle_lio]
  by (simp add: io_kind_of_def has_def lio_bits two_pieces_def idle_lio_def)

section \<open>Random methods\<close>

definition LIO_CHOSEN :: "32 word" where
  "LIO_CHOSEN = LIO_IO_TYPES OR LIO_WAIT_TYPES OR LIO_RANDOM"

text \<open>What \<open>random_bit\<close> gives for a mask that is part of a positive 32-bit constant.\<close>

definition one_of :: "32 word \<Rightarrow> 32 word \<Rightarrow> bool" where
  "one_of offer b \<longleftrightarrow> (if offer = 0 then b = 0 else \<exists>i < 31. bit offer i \<and> b = push_bit i 1)"

lemma random_bit_one_of:
  assumes "drop_bit 31 t = (0 :: 32 word)"
  shows "\<exists>b s'. random_bit lrand48 (msk AND ucast t :: 64 word) s = Some (b, s') \<and>
    one_of (ucast msk AND t) (ucast b)"
proof (cases "msk AND ucast t = 0")
  case True
  then have "ucast (msk AND ucast t) = (0 :: 32 word)" by simp
  moreover have "ucast (msk AND ucast t) = (ucast msk AND t :: 32 word)"
    by (rule bit_eqI) (simp add: bit_simps)
  ultimately show ?thesis using True by (simp add: random_bit_def one_of_def)
next
  case False
  then obtain i where i: "i < 64" "bit (msk AND ucast t) i" "random_bit lrand48 (msk AND ucast t) s = Some (push_bit i 1, snd (lrand48 s))"
    using rand48.random_bit_value [of "msk AND ucast t" s] by auto
  have "bit t i" using i(2) by (simp add: bit_simps)
  then have "i < 32" using bit_imp_le_length by fastforce
  moreover have "\<not> bit t 31" using arg_cong [OF assms, of "\<lambda>w. bit w 0"] by (simp add: bit_simps)
  ultimately have lt: "i < 31" using \<open>bit t i\<close> by (cases "i = 31") auto
  have "ucast (push_bit i 1 :: 64 word) = (push_bit i 1 :: 32 word)"
    by (rule bit_eqI) (auto simp: bit_simps)
  moreover have "bit (ucast msk AND t) i" using i(2) lt by (simp add: bit_simps)
  ultimately show ?thesis using i(3) lt by (auto simp: one_of_def)
qed

lemma one_of_sub: "one_of (x AND t) b \<Longrightarrow> bit b n \<Longrightarrow> bit t n"
  by (auto simp: one_of_def bit_simps split: if_splits)

lemma and_zero_bits: "v AND w = 0 \<Longrightarrow> bit v n \<Longrightarrow> \<not> bit (w :: 32 word) n"
  by (metis bit_and_iff bit_0_eq bot_apply bot_bool_def)

text \<open>Replacing two disjoint fields of a mask and clearing a third.\<close>

lemma merge_fields:
  fixes a b x I W R :: "32 word"
  assumes "\<And>n. bit a n \<Longrightarrow> bit I n" "\<And>n. bit b n \<Longrightarrow> bit W n" "I AND W = 0" "I AND R = 0" "W AND R = 0"
  defines "m \<equiv> (x AND NOT (I OR W OR R)) OR a OR b"
  shows "m AND I = a" "m AND W = b" "m AND R = 0" "m AND NOT (I OR W OR R) = x AND NOT (I OR W OR R)"
proof -
  have d: "\<not> (bit I n \<and> bit W n)" "\<not> (bit I n \<and> bit R n)" "\<not> (bit W n \<and> bit R n)" for n
    using and_zero_bits assms(3-5) by blast+
  have "bit (m AND I) n = bit a n" "bit (m AND W) n = bit b n" "bit (m AND R) n = bit 0 n"
      "bit (m AND NOT (I OR W OR R)) n = bit (x AND NOT (I OR W OR R)) n" if "n < 32" for n
    using d [of n] assms(1,2) [of n] that unfolding m_def by (simp_all add: bit_simps) blast+
  then show "m AND I = a" "m AND W = b" "m AND R = 0" "m AND NOT (I OR W OR R) = x AND NOT (I OR W OR R)"
    by (auto intro!: bit_word_eqI)
qed

text \<open>The choice is made field by field.\<close>

lemma random_methods_choice:
  "\<exists>m s'. lio_random_methods lrand48 msk s = Some (m, s') \<and>
    one_of (ucast msk AND LIO_IO_TYPES) (m AND LIO_IO_TYPES) \<and>
    one_of (ucast msk AND LIO_WAIT_TYPES) (m AND LIO_WAIT_TYPES) \<and>
    \<not> has m LIO_RANDOM \<and> m AND NOT LIO_CHOSEN = ucast msk AND NOT LIO_CHOSEN"
proof -
  obtain a s1 where a: "random_bit lrand48 (msk AND ucast LIO_IO_TYPES) s = Some (a, s1)" "one_of (ucast msk AND LIO_IO_TYPES) (ucast a)"
    using random_bit_one_of [of LIO_IO_TYPES msk s] by (auto simp: LIO_IO_TYPES_def)
  obtain b s2 where b: "random_bit lrand48 (msk AND ucast LIO_WAIT_TYPES) s1 = Some (b, s2)" "one_of (ucast msk AND LIO_WAIT_TYPES) (ucast b)"
    using random_bit_one_of [of LIO_WAIT_TYPES msk s1] by (auto simp: LIO_WAIT_TYPES_def)
  define m where "m = (ucast msk AND NOT LIO_CHOSEN) OR ucast a OR (ucast b :: 32 word)"
  have "lio_random_methods lrand48 msk s = Some (m, s2)"
    using a(1) b(1) by (simp add: lio_random_methods_def m_def LIO_CHOSEN_def)
  moreover have "LIO_IO_TYPES AND LIO_WAIT_TYPES = 0" "LIO_IO_TYPES AND LIO_RANDOM = 0" "LIO_WAIT_TYPES AND LIO_RANDOM = 0"
    by (simp_all add: lio_bits)
  from merge_fields [OF one_of_sub [OF a(2)] one_of_sub [OF b(2)] this]
  have "m AND LIO_IO_TYPES = ucast a" "m AND LIO_WAIT_TYPES = ucast b" "m AND LIO_RANDOM = 0"
      "m AND NOT LIO_CHOSEN = ucast msk AND NOT LIO_CHOSEN"
    by (simp_all add: m_def LIO_CHOSEN_def)
  ultimately show ?thesis using a(2) b(2) by (auto simp: has_def)
qed

text \<open>The random choice picks one of the io types and one of the wait methods that the mask offers (none
  where it offers none), each by one draw, clears \<open>LIO_RANDOM\<close>, and keeps every other bit.\<close>

lemma lio_random_choice:
  "\<exists>m s'. lio_random_methods lrand48 msk s = Some (m, s') \<and>
    one_of (ucast msk AND LIO_IO_TYPES) (m AND LIO_IO_TYPES) \<and>
    one_of (ucast msk AND LIO_WAIT_TYPES) (m AND LIO_WAIT_TYPES) \<and>
    \<not> has m LIO_RANDOM \<and> m AND NOT LIO_CHOSEN = ucast msk AND NOT LIO_CHOSEN"
  by (rule random_methods_choice)

lemma and_part: "b AND t = b \<Longrightarrow> m AND b = (m AND t) AND (b :: 32 word)"
  by (metis and.assoc and.commute [of t b])

lemma has_part: "m AND t = v \<Longrightarrow> b AND t = b \<Longrightarrow> has m b \<longleftrightarrow> v AND b \<noteq> 0"
  using and_part [of b t m] by (simp add: has_def)

lemma has_mono: "has m b \<Longrightarrow> b AND t = b \<Longrightarrow> has m t"
  using and_part [of b t m] by (auto simp: has_def)

lemma one_of_io_types:
  assumes "one_of LIO_IO_TYPES b"
  shows "b = LIO_IO_SYNC \<or> b = LIO_IO_SYNCV \<or> b = LIO_IO_SYNCP"
proof -
  obtain i where i: "i < 31" "bit LIO_IO_TYPES i" "b = push_bit i 1"
    using assms by (auto simp: one_of_def LIO_IO_TYPES_def)
  have "i \<in> set (filter (bit LIO_IO_TYPES) [0..<31])" using i(1,2) by simp
  also have "filter (bit LIO_IO_TYPES) [0..<31] = [0, 4, 5]" by code_simp
  finally show ?thesis using i(3) by (auto simp: lio_bits)
qed

text \<open>What is performed when the asynchronous types are offered together with the synchronous ones, and when
  they are not.\<close>

lemma kind_of_choice:
  assumes "one_of LIO_IO_TYPES (m AND LIO_IO_TYPES)"
  shows "has m LIO_IO_ASYNC \<Longrightarrow> io_kind_of m \<in> {K_sync, K_async}"
    and "\<not> has m LIO_IO_ASYNC \<Longrightarrow> \<not> has m LIO_IO_SLISTIO \<Longrightarrow> \<not> has m LIO_IO_ALISTIO \<Longrightarrow>
      io_kind_of m \<in> {K_sync, K_syncv, K_syncp}"
proof -
  have types: "LIO_IO_ASYNC AND (LIO_IO_TYPES OR LIO_IO_ATYPES) = LIO_IO_ASYNC" by (simp add: lio_bits)
  show "io_kind_of m \<in> {K_sync, K_async}" if "has m LIO_IO_ASYNC"
    using that has_mono [OF that types] by (simp add: io_kind_of_def)
  have "has m LIO_IO_SYNC \<or> has m LIO_IO_SYNCV \<or> has m LIO_IO_SYNCP"
    using one_of_io_types [OF assms]
    by (elim disjE) (simp_all add: has_part [of m LIO_IO_TYPES] lio_bits)
  then show "io_kind_of m \<in> {K_sync, K_syncv, K_syncp}"
    if "\<not> has m LIO_IO_ASYNC" "\<not> has m LIO_IO_SLISTIO" "\<not> has m LIO_IO_ALISTIO"
    using that by (auto simp: io_kind_of_def)
qed

text \<open>The letter \<open>r\<close> chooses among \<open>write\<close>, \<open>writev\<close> and \<open>pwrite\<close>; the letter \<open>R\<close> offers all six methods, but
  only \<open>write\<close> and \<open>aio_write\<close> are ever performed, because the bits of the three asynchronous types are left in
  the mask by the choice and the first of them that is tested wins.\<close>

lemma lio_random_kinds:
  "(\<exists>m s'. lio_random_methods lrand48 (scast (lio_parse_io_arg1 ''r'')) s = Some (m, s') \<and>
      io_kind_of m \<in> {K_sync, K_syncv, K_syncp}) \<and>
   (\<exists>m s'. lio_random_methods lrand48 (scast (lio_parse_io_arg1 ''R'')) s = Some (m, s') \<and>
      io_kind_of m \<in> {K_sync, K_async})"
proof
  obtain m s' where m: "lio_random_methods lrand48 (scast (lio_parse_io_arg1 ''r'')) s = Some (m, s')"
    "one_of LIO_IO_TYPES (m AND LIO_IO_TYPES)" "m AND NOT LIO_CHOSEN = 0"
    using random_methods_choice [of "scast (lio_parse_io_arg1 ''r'')" s]
    by (auto simp: lio_parse_io_arg1_def Lio_info1_def lio_bits LIO_CHOSEN_def)
  have "\<not> has m LIO_IO_ASYNC" "\<not> has m LIO_IO_SLISTIO" "\<not> has m LIO_IO_ALISTIO"
    by (simp_all add: has_part [OF m(3)] lio_bits LIO_CHOSEN_def)
  with kind_of_choice(2) [OF m(2)] m(1)
  show "\<exists>m s'. lio_random_methods lrand48 (scast (lio_parse_io_arg1 ''r'')) s = Some (m, s') \<and>
      io_kind_of m \<in> {K_sync, K_syncv, K_syncp}" by blast
next
  obtain m s' where m: "lio_random_methods lrand48 (scast (lio_parse_io_arg1 ''R'')) s = Some (m, s')"
    "one_of LIO_IO_TYPES (m AND LIO_IO_TYPES)" "m AND NOT LIO_CHOSEN = 0x7C00E"
    using random_methods_choice [of "scast (lio_parse_io_arg1 ''R'')" s]
    by (auto simp: lio_parse_io_arg1_def Lio_info1_def lio_bits LIO_CHOSEN_def)
  have "has m LIO_IO_ASYNC" by (simp add: has_part [OF m(3)] lio_bits LIO_CHOSEN_def)
  with kind_of_choice(1) [OF m(2)] m(1)
  show "\<exists>m s'. lio_random_methods lrand48 (scast (lio_parse_io_arg1 ''R'')) s = Some (m, s') \<and>
      io_kind_of m \<in> {K_sync, K_async}" by blast
qed

section \<open>Asynchronous results\<close>

definition waits_active :: "32 word \<Rightarrow> bool" where
  "waits_active m \<longleftrightarrow> has m LIO_WAIT_ACTIVE \<and>
     \<not> has m LIO_WAIT_RECALL \<and> \<not> has m LIO_WAIT_CBSUSPEND \<and> \<not> has m LIO_WAIT_SIGSUSPEND"

lemma wait_dispatch:
  "lio_wait4asyncio m nfy env st =
     (if waits_active m then map_option (\<lambda>(ret, n). (0, n, st)) (aio_spin (aio_err env) 0)
      else lio_wait4asyncio LIO_WAIT_RECALL nfy env st)"
  by (auto simp: lio_wait4asyncio_def waits_active_def has_def lio_bits map_option_case split: option.splits)

text \<open>There are two ways to wait for an asynchronous transfer: spinning on its status when
  \<open>LIO_WAIT_ACTIVE\<close> is asked for and none of the suspending methods is, and one \<open>aio_suspend\<close> for every other
  mask. \<open>LIO_WAIT_SIGPAUSE\<close>, \<open>LIO_WAIT_SIGACTIVE\<close> and \<open>LIO_WAIT_NONE\<close> have no effect on how the wait is done.\<close>

lemma lio_wait_methods:
  "lio_wait4asyncio m nfy env st =
     (if waits_active m then map_option (\<lambda>(ret, n). (0, n, st)) (aio_spin (aio_err env) 0)
      else lio_wait4asyncio LIO_WAIT_RECALL nfy env st) \<and>
   lio_wait4asyncio (m OR LIO_WAIT_SIGPAUSE OR LIO_WAIT_SIGACTIVE OR LIO_WAIT_NONE) nfy env st =
     lio_wait4asyncio m nfy env st"
proof -
  have "waits_active (m OR LIO_WAIT_SIGPAUSE OR LIO_WAIT_SIGACTIVE OR LIO_WAIT_NONE) = waits_active m"
    by (simp add: waits_active_def has_def bit.conj_disj_distrib2 lio_bits)
  then show ?thesis using wait_dispatch by metis
qed

lemma aio_spin_value:
  assumes "\<forall>i. k \<le> i \<and> i < n \<longrightarrow> errs i = EINPROGRESS" "errs n \<noteq> EINPROGRESS" "k \<le> n"
  shows "aio_spin errs k = Some (errs n, n + 1)"
  using assms
proof (induction "n - k" arbitrary: k)
  case 0
  then show ?case by (subst aio_spin.simps) simp
next
  case (Suc d)
  then have "errs k = EINPROGRESS" "aio_spin errs (k + 1) = Some (errs n, n + 1)" by auto
  then show ?case by (subst aio_spin.simps) simp
qed

text \<open>A transfer that is in progress for the first \<open>n\<close> questions and then has ended with \<open>e\<close>.\<close>

definition ends_with :: "(nat \<Rightarrow> int) \<Rightarrow> nat \<Rightarrow> int \<Rightarrow> bool" where
  "ends_with errs n e \<longleftrightarrow> (\<forall>i. errs i = (if i < n then EINPROGRESS else e)) \<and> e \<noteq> EINPROGRESS"

lemma check_asyncio_result:
  assumes "ends_with (aio_err env) n e"
  shows "lio_check_asyncio nfy env k st =
    Some (if e \<noteq> 0 then - e else if k < n then 0 else aio_ret env, release nfy st)"
proof -
  have "aio_spin (aio_err env) k = Some (e, max k n + 1)"
    using assms aio_spin_value [of k "max k n" "aio_err env"] by (auto simp: ends_with_def less_max_iff_disj)
  then show ?thesis by (auto simp: lio_check_asyncio_def)
qed

lemma complete_result:
  assumes "ends_with (aio_err env) n e" "fst (suspend_ans env) = 0"
  shows "lio_complete m sz nfy env st =
    Some (if e \<noteq> 0 then - e else if n = 0 \<or> waits_active m then aio_ret env else 0, release nfy st)"
proof (cases "waits_active m")
  case True
  have "aio_spin (aio_err env) 0 = Some (e, n + 1)"
    using assms(1) aio_spin_value [of 0 n "aio_err env"] by (auto simp: ends_with_def)
  with True show ?thesis
    by (simp add: lio_complete_def wait_dispatch [of m] check_asyncio_result [OF assms(1)])
next
  case False
  have "lio_wait4asyncio m nfy env st = Some (0, 0, st)"
    using assms(2) by (cases "suspend_ans env", subst wait_dispatch) (simp add: False lio_wait4asyncio_def has_def lio_bits)
  with False show ?thesis by (simp add: lio_complete_def check_asyncio_result [OF assms(1)])
qed

text \<open>The signals that are blocked afterwards.\<close>

definition held_after :: "32 word \<Rightarrow> int \<Rightarrow> int set \<Rightarrow> int set" where
  "held_after m sig h =
     (if used_signal m sig = 0 then h else if has m LIO_WAIT_SIGTYPES then h - {sig} else insert sig h)"

text \<open>C24: An asynchronous transfer that is started and waited for returns the negated error it ended with;
  without an error it returns the number of bytes, but 0 when the status was still \<open>EINPROGRESS\<close> after the
  wait. The signal that is blocked for the start is released when a signal wait method was given; with
  \<open>LIO_USE_SIGNAL\<close> alone it stays blocked.\<close>

theorem lio_async_result:
  assumes "io_kind_of m \<in> {K_async, K_alistio}" "\<not> has m LIO_RANDOM" "fst (lseek_ans env) \<noteq> -1"
    and "fst (submit_ans env) \<noteq> -1" "fst (suspend_ans env) = 0" "ends_with (aio_err env) n e"
  shows "\<exists>st'. lio_write_buffer rnd env m buffer sz sig st =
      Some (if e \<noteq> 0 then - e else if n = 0 \<or> waits_active m then aio_ret env else 0, st') \<and>
    held st' = held_after m sig (held st) \<and> moved st' = moved st"
proof -
  let ?g = "used_signal m sig" and ?r = "if e \<noteq> 0 then - e else if n = 0 \<or> waits_active m then aio_ret env else 0"
  let ?n = "notify_of m ?g"
  have s: "?g = sig \<or> ?g = 0" by (simp add: used_signal_def Let_def)
  have u: "?g \<noteq> 0 \<Longrightarrow> \<not> has m LIO_WAIT_CBTYPES" by (auto simp: used_signal_def Let_def split: if_splits)
  define st1 where "st1 = (case ?n of Sig_signal s \<Rightarrow> st\<lparr>handled := insert s (handled st), held := held st - {s}\<rparr> | _ \<Rightarrow> st)"
  define st2 where "st2 = (if ?g \<noteq> 0 then st1\<lparr>held := insert ?g (held st1)\<rparr> else st1)"
  have "lio_setup rnd env m sig st = Some (Inr (m, ?g, ?n), st1)"
    using assms(2,3) by (simp add: lio_setup_def fifo_method_def st1_def Let_def)
  moreover have "lio_start ?g env st1 (lio_complete m sz ?n env) = lio_complete m sz ?n env st2"
    using assms(4) by (auto simp: lio_start_def st2_def Let_def split: prod.splits)
  ultimately have "lio_write_buffer rnd env m buffer sz sig st = Some (?r, release ?n st2)"
    using assms(1) complete_result [OF assms(6,5), of m sz ?n st2] by (auto simp: lio_write_buffer_def)
  moreover have "held (release ?n st2) = held_after m sig (held st) \<and> moved (release ?n st2) = moved st"
    using s u by (auto simp: release_def st2_def st1_def notify_of_def held_after_def)
  ultimately show ?thesis by blast
qed

theorem lio_async_result_witness:
  "\<exists>st'. lio_write_buffer lrand48 two_pieces (LIO_IO_ASYNC OR LIO_USE_SIGNAL) [1, 2, 3, 4, 5] 5 10 idle_lio = Some (5, st') \<and> held st' = {10}"
proof -
  have "ends_with (aio_err two_pieces) 0 0" by (simp add: ends_with_def two_pieces_def EINPROGRESS_def)
  then show ?thesis
    using lio_async_result [of "LIO_IO_ASYNC OR LIO_USE_SIGNAL" two_pieces 0 0 lrand48 "[1, 2, 3, 4, 5]" 5 10 idle_lio]
    by (auto simp: io_kind_of_def has_def lio_bits two_pieces_def idle_lio_def held_after_def used_signal_def)
qed

section \<open>Bounds of a strided request\<close>

definition stride_used :: "int \<Rightarrow> int \<Rightarrow> int" where
  "stride_used stride bytes_per_stride = (if stride = 0 then bytes_per_stride else stride)"

definition stride_bytes :: "int \<Rightarrow> int \<Rightarrow> int \<Rightarrow> int \<Rightarrow> int set" where
  "stride_bytes offset stride n b = (\<Union>i \<in> {0..<n}. {offset + i * stride_used stride b..<offset + i * stride_used stride b + b})"

lemma stride_bounds_value:
  assumes "1 \<le> n" "1 \<le> b" "\<bar>offset\<bar> + (\<bar>stride\<bar> + b) * n < 2 ^ 31"
  defines "t \<equiv> stride_used stride b"
  shows "stride_bounds offset stride n b = Some (\<bar>t\<bar> * (n - 1) + b,
    Some (if t < 0 then (offset + t * (n - 1), offset + b - 1) else (offset, offset + t * (n - 1) + b - 1)))"
proof -
  define a where "a = \<bar>t\<bar>"
  define p where "p = a * (n - 1)"
  have a: "1 \<le> a" "a \<le> \<bar>stride\<bar> + b" using assms(2) by (auto simp: a_def t_def stride_used_def)
  have "p \<le> (\<bar>stride\<bar> + b) * (n - 1)" using a assms(1) unfolding p_def by (intro mult_right_mono) auto
  moreover have "(\<bar>stride\<bar> + b) * n = (\<bar>stride\<bar> + b) * (n - 1) + \<bar>stride\<bar> + b" by (simp add: algebra_simps)
  moreover have "0 \<le> p" using a assms(1) by (simp add: p_def)
  ultimately have b: "0 \<le> p" "\<bar>offset\<bar> + p + b < 2 ^ 31" "a < 2 ^ 31" using a assms by linarith+
  have t: "t * (n - 1) = (if t < 0 then - p else p)" by (simp add: p_def a_def)
  have fits: "checked 32 x = Some x" if "- (2 ^ 31) \<le> x" "x < 2 ^ 31" for x
    using that by (simp add: int_fits_def)
  show ?thesis
    using assms(1,2) a(1) b unfolding t stride_bounds_def stride_used_def [symmetric] t_def [symmetric] a_def [symmetric] Let_def
    by (simp add: fits p_def [symmetric])
qed

text \<open>C25: For at least one stride of at least one byte, and numbers that an \<open>int\<close> holds, \<open>stride_bounds\<close> gives the
  smallest and the largest byte that the request refers to, for strides in either direction, and the number of
  bytes from the one to the other.\<close>

theorem stride_bounds_exact:
  assumes "1 \<le> n" "1 \<le> b" "\<bar>offset\<bar> + (\<bar>stride\<bar> + b) * n < 2 ^ 31"
  defines "B \<equiv> stride_bytes offset stride n b"
  shows "stride_bounds offset stride n b = Some (Max B - Min B + 1, Some (Min B, Max B))"
proof -
  define t where "t = stride_used stride b"
  have fin: "finite B" by (simp add: B_def stride_bytes_def)
  have in0: "x \<in> B" if "offset \<le> x" "x < offset + b" for x
    using that assms(1) unfolding B_def stride_bytes_def by (intro UN_I [of 0]) auto
  have inl: "x \<in> B" if "offset + t * (n - 1) \<le> x" "x < offset + t * (n - 1) + b" for x
    using that assms(1) unfolding B_def stride_bytes_def by (intro UN_I [of "n - 1"]) (auto simp: t_def mult.commute)
  have range: "(if t < 0 then offset + t * (n - 1) else offset) \<le> x \<and> x < (if t < 0 then offset else offset + t * (n - 1)) + b"
    if "x \<in> B" for x
  proof -
    obtain i where i: "0 \<le> i" "i \<le> n - 1" "offset + i * t \<le> x" "x < offset + i * t + b"
      using \<open>x \<in> B\<close> by (auto simp: B_def stride_bytes_def t_def)
    show ?thesis
    proof (cases "t < 0")
      case True
      then have "(n - 1) * t \<le> i * t" "i * t \<le> 0" using i by (auto intro: mult_right_mono_neg mult_nonneg_nonpos)
      then show ?thesis using i mult.commute [of "n - 1" t] by (simp only: True if_True) linarith
    next
      case False
      then have "i * t \<le> (n - 1) * t" "0 \<le> i * t" using i by (auto intro: mult_right_mono)
      then show ?thesis using i mult.commute [of "n - 1" t] by (simp only: False if_False) linarith
    qed
  qed
  have "Min B = (if t < 0 then offset + t * (n - 1) else offset)"
    using range in0 inl assms(2) by (intro Min_eqI fin) (auto split: if_splits)
  moreover have "Max B = (if t < 0 then offset else offset + t * (n - 1)) + b - 1"
    using range in0 inl assms(2) by (intro Max_eqI fin) (auto split: if_splits)
  ultimately show ?thesis
    using stride_bounds_value [OF assms(1-3)] unfolding t_def [symmetric]
    by (cases "t < 0") (simp_all add: algebra_simps)
qed

theorem stride_bounds_exact_witness:
  "stride_bounds 100 (-20) 3 8 = Some (48, Some (60, 107)) \<and>
   Min (stride_bytes 100 (-20) 3 8) = 60 \<and> Max (stride_bytes 100 (-20) 3 8) = 107"
  using stride_bounds_exact [of 3 8 100 "-20"] by (simp add: stride_bounds_def int_fits_def)

section \<open>Lists of method names\<close>

text \<open>Parsing a comma-separated list gives the union of the bits of the names and numbers, and fails exactly
  when a token is neither; then \<open>badtoken\<close> points at the first such token and what follows it.\<close>

lemma lio_parse_tokens:
  assumes "ts \<noteq> []" "\<forall>tok \<in> set ts. CHR '','' \<notin> set tok"
  shows "lio_parse_io_arg2 (Some (join_with (CHR '','') ts)) =
    (if \<forall>tok \<in> set ts. arg2_token tok \<noteq> None then (bits_of arg2_token ts, None)
     else (-1, Some (join_with (CHR '','') (dropWhile (\<lambda>tok. arg2_token tok \<noteq> None) ts))))"
  using comma_loop_join [OF assms, of arg2_token 0] by (auto simp: lio_parse_io_arg2_def)

lemma lio_parse_tokens_witness:
  "lio_parse_io_arg2 (Some ''async,0x40,active'') = (0x2042, None) \<and>
   lio_parse_io_arg2 (Some ''sync,nowait,4'') = (-1, Some ''nowait,4'')"
proof -
  have scan: "scan_int ''0x40'' = Some (0x40, [])" "scan_int ''4'' = Some (4, [])" "scan_int ''nowait'' = None"
    by code_simp+
  have "arg2_token ''async'' = Some 2" "arg2_token ''0x40'' = Some 0x40" "arg2_token ''active'' = Some 0x2000"
    "arg2_token ''sync'' = Some 1" "arg2_token ''nowait'' = None"
    by (simp_all add: arg2_token_def Lio_info2_def scan lio_bits)
  then show ?thesis
    using lio_parse_tokens [of "[''async'', ''0x40'', ''active'']"] lio_parse_tokens [of "[''sync'', ''nowait'', ''4'']"]
    by (simp add: bits_of_def)
qed

end
