(* ===== verification/Tag_Report.thy ===== *)
theory Tag_Report
  imports Symbol
begin

text \<open>
  \<^verbatim>\<open>pan/tag_report.c\<close>, the report of \<open>ltp-scanner\<close>: the lines that are printed for a test from the tables that the
  scanner has filled. A printed line is an element of the result. The status strings are changed in place by
  \<open>test_result\<close> (blanks become underscores): for a string of a table the new string is written back, and for a string
  literal with a blank the change is undefined, \<open>None\<close>. So is a table, or a null pointer, where a string is read.
\<close>

type_synonym sym = "string table"

section \<open>Strings in tables\<close>

text \<open>A pointer that is read as a string: null, or the string.\<close>

fun str_of :: "string sdata \<Rightarrow> string option option" where
  "str_of Nul = Some None"
| "str_of (Datum s) = Some (Some s)"
| "str_of (Table t) = None"

definition get_str :: "sym option \<Rightarrow> string \<Rightarrow> string option option" where
  "get_str tab key = do { d \<leftarrow> sym_get tab key; str_of d }"

definition with_default :: "'a \<Rightarrow> 'a option \<Rightarrow> 'a" where
  "with_default d x = (case x of None \<Rightarrow> d | Some y \<Rightarrow> y)"

section \<open>One result\<close>

definition worst :: "string list" where
  "worst = [''FAIL'', ''BROK'', ''PASS'', ''CONF'', ''WARN'', ''INFO'']"

definition worst_rank :: "string \<Rightarrow> nat" where
  "worst_rank s = length (takeWhile (\<lambda>w. w \<noteq> s) worst)"

definition worst_case :: "string \<Rightarrow> string \<Rightarrow> string" where
  "worst_case t1 t2 = (if worst_rank t1 < worst_rank t2 then t1 else t2)"

definition field_left :: "nat \<Rightarrow> string \<Rightarrow> string" where
  "field_left n s = take n s @ replicate (n - length s) (CHR '' '')"

definition field_right :: "nat \<Rightarrow> string \<Rightarrow> string" where
  "field_right n s = replicate (n - length s) (CHR '' '') @ take n s"

definition test_line :: "string \<Rightarrow> string \<Rightarrow> string \<Rightarrow> string \<Rightarrow> string \<Rightarrow> string" where
  "test_line tag tcid tc result contact =
     field_left 20 tag @ '' '' @ field_left 15 tcid @ '' '' @ field_right 10 tc @ '' '' @ field_left 20 result @ '' '' @ contact"

definition underscored :: "string \<Rightarrow> string" where
  "underscored s = map (\<lambda>c. if c = CHR '' '' then CHR ''_'' else c) s"

text \<open>\<open>literal\<close>: the status is a string literal. The result has the lines and the status string afterwards. A null status is
  replaced by a literal with blanks.\<close>

definition test_result ::
  "string option \<Rightarrow> string option \<Rightarrow> string option \<Rightarrow> string option \<Rightarrow> bool \<Rightarrow> sym option \<Rightarrow> (string list \<times> string) option" where
  "test_result tag tcid tc result literal tags = do {
     let tcid = with_default ''-'' tcid;
     let tc = with_default ''-'' tc;
     let tag = with_default ''test_result: no tag'' tag;
     let literal = (literal \<or> result = None);
     let result = with_default ''(RESULT IS NULL)'' result;
     expert \<leftarrow> get_str tags ''contacts'';
     let expert = with_default ''UNKNOWN'' expert;
     changed \<leftarrow> (if CHR '' '' \<in> set result \<and> literal then None else Some (underscored result));
     let shown = (if changed = [] then ''?'' else changed);
     cont \<leftarrow> split_key expert;
     Some (map (test_line tag tcid tc shown) cont, changed) }"

section \<open>The CUTS report\<close>

definition KEYSIZE :: nat where "KEYSIZE = 255"

text \<open>The number after the colon of the analysis type.\<close>

definition cuts_count :: "string \<Rightarrow> int option" where
  "cuts_count at = do {
     (arr, n) \<leftarrow> splitstr True True (Some at) (Some '':'');
     cells \<leftarrow> arr;
     ant1 \<leftarrow> buf_get cells 1;
     _ \<leftarrow> splitstr_free arr;
     (case ant1 of Tok off t \<Rightarrow> Some (atoi t) | Null \<Rightarrow> Some 0 | Uninit \<Rightarrow> None) }"

text \<open>The loop that extracts the names, from the entry at the cursor on; the array that they are stored in grows with them.\<close>

partial_function (option) tcid_names :: "string symh \<Rightarrow> string \<Rightarrow> string list \<Rightarrow> (string list \<times> string symh) option" where
  "tcid_names h k names = do {
     let names = (if k = ''_keys'' then names else names @ [k]);
     (r, e, h) \<leftarrow> sym_seq h [] R_NEXT;
     (case e of
        None \<Rightarrow> Some (names, h)
      | Some (k, d) \<Rightarrow> tcid_names h k names) }"

text \<open>The loop over the test cases of one name.\<close>

partial_function (option) report_cases ::
  "string \<Rightarrow> string \<Rightarrow> sym option \<Rightarrow> string symh \<Rightarrow> string \<times> string sdata \<Rightarrow> string \<times> int \<times> string list \<Rightarrow>
   ((string \<times> int \<times> string list) \<times> string symh) option" where
  "report_cases tag tcid keys h entry acc = do {
     let (tc, d) = entry;
     let (result, tcnum, lines) = acc;
     s \<leftarrow> str_of d;
     s \<leftarrow> s;
     let result = worst_case result s;
     (ls, s') \<leftarrow> test_result (Some tag) (Some tcid) (Some tc) (Some s) False keys;
     let h = h\<lparr>sym_tab := snd (put_path (sym_tab h) [tcid, tc] (Datum s') PUT_REPLACE)\<rparr>;
     let acc = (result, if atoi tc \<noteq> 0 then tcnum + 1 else tcnum, lines @ ls);
     (r, e, h) \<leftarrow> sym_seq h [] R_NEXT;
     (case e of
        None \<Rightarrow> Some (acc, h)
      | Some entry \<Rightarrow> report_cases tag tcid keys h entry acc) }"

declare tcid_names.simps [code] report_cases.simps [code]

text \<open>A name whose entry is not a table with entries (the code would go on with the previous datum) is not modelled: \<open>None\<close>.\<close>

fun report_tcids ::
  "string \<Rightarrow> sym option \<Rightarrow> string list \<Rightarrow> string symh \<Rightarrow> string \<times> int \<times> string list \<Rightarrow>
   ((string \<times> int \<times> string list) \<times> string symh) option" where
  "report_tcids tag keys [] h acc = Some (acc, h)"
| "report_tcids tag keys (tcid # names) h acc =
     (if KEYSIZE \<le> length tcid then None
      else do {
        (r, e, h) \<leftarrow> sym_seq h tcid R_CURSOR;
        entry \<leftarrow> e;
        (acc, h) \<leftarrow> report_cases tag tcid keys h entry acc;
        report_tcids tag keys names h acc })"

definition cuts_report :: "sym \<Rightarrow> sym option \<Rightarrow> string \<Rightarrow> string \<Rightarrow> (string list \<times> sym) option" where
  "cuts_report tags keys at tag = do {
     tccount \<leftarrow> cuts_count at;
     (r, e, h) \<leftarrow> sym_seq \<lparr>sym_tab = tags, cursor = None\<rparr> [] R_FIRST;
     (k, d) \<leftarrow> e;
     (names, h) \<leftarrow> tcid_names h k [];
     ((result, tcnum, lines), h) \<leftarrow> report_tcids tag keys names h ([], 0, []);
     (all_line, _) \<leftarrow> test_result (Some tag) (Some ''*'') (Some ''*'') (Some result) False keys;
     (wrong, _) \<leftarrow> (if tccount \<noteq> 0 \<and> tccount \<noteq> tcnum
        then test_result (Some tag) (Some ''-'') (Some ''-'') (Some ''TC count wrong'') True keys
        else Some ([], []));
     Some (lines @ all_line @ wrong, sym_tab h) }"

section \<open>The report of a tag\<close>

text \<open>The fields of the extended line.\<close>

definition extended_line :: "string \<Rightarrow> string \<Rightarrow> sym \<Rightarrow> string option" where
  "extended_line tag is_str keys = do {
     ti \<leftarrow> get_str (Some keys) ''termination_id'';
     tt \<leftarrow> get_str (Some keys) ''termination_type'';
     duration \<leftarrow> get_str (Some keys) ''duration'';
     sl \<leftarrow> get_str (Some keys) ''_Start_line'';
     el \<leftarrow> get_str (Some keys) ''_End_line'';
     contact \<leftarrow> get_str (Some keys) ''contacts'';
     mystime \<leftarrow> get_str (Some keys) ''stime'';
     Some (concat (map (\<lambda>s. s @ [CHR 0x09])
       [tag, ''!'', ''!'', is_str, with_default ''No_Contacts'' contact, with_default ''No_stime'' mystime,
        with_default ''No_Duration'' duration, with_default ''No_Termination_ID'' ti,
        with_default ''No_Termination_Type'' tt, with_default ''No_Start_line'' sl, with_default ''No_End_line'' el])) }"

text \<open>A status of \<open>keys\<close> is printed, and changed in the table.\<close>

definition result_of_key :: "string \<Rightarrow> string \<Rightarrow> string \<Rightarrow> sym \<Rightarrow> (string list \<times> sym) option" where
  "result_of_key tag name s keys = do {
     (ls, s') \<leftarrow> test_result (Some tag) None None (Some s) False (Some keys);
     Some (ls, set_key1 keys name (Datum s')) }"

definition literal_result :: "string \<Rightarrow> string \<Rightarrow> sym \<Rightarrow> string list option" where
  "literal_result tag s keys = map_option fst (test_result (Some tag) None None (Some s) True (Some keys))"

text \<open>The report by the analysis type \<open>info\<close>, after the termination type \<open>tt\<close>.\<close>

definition analysis_report :: "sym \<Rightarrow> sym \<Rightarrow> string \<Rightarrow> string \<Rightarrow> string \<Rightarrow> string list option" where
  "analysis_report ctag keys tag tt info =
     (if take 4 info = ''none'' then literal_result tag ''pass'' keys
      else if take 4 info \<noteq> ''cuts''
      then (if tt \<noteq> ''timeout''
            then do {
              ti \<leftarrow> get_str (Some keys) ''termination_id'';
              (case ti of
                 None \<Rightarrow> literal_result tag ''no_Term_Id'' keys
               | Some ti \<Rightarrow> if ti \<noteq> ''0'' then literal_result tag ''fail'' keys else literal_result tag ''pass'' keys) }
            else Some [])
      else map_option fst (cuts_report ctag (Some keys) info tag))"

text \<open>The part for a test that was started. A result \<open>-1\<close> ends the report.\<close>

definition started_report :: "sym \<Rightarrow> sym \<Rightarrow> string \<Rightarrow> (int \<times> string list \<times> sym) option" where
  "started_report ctag keys tag = do {
     core \<leftarrow> get_str (Some keys) ''corefile'';
     l1 \<leftarrow> (case core of
              Some c \<Rightarrow> if c \<noteq> ''no'' then literal_result tag ''coredump'' keys else Some []
            | None \<Rightarrow> Some []);
     tt \<leftarrow> get_str (Some keys) ''termination_type'';
     (case tt of
        None \<Rightarrow> do { ls \<leftarrow> literal_result tag ''no Term Type'' keys; Some (-1, l1 @ ls, keys) }
      | Some tt \<Rightarrow> do {
          (l2, keys) \<leftarrow> (if tt \<noteq> ''exited'' then result_of_key tag ''termination_type'' tt keys else Some ([], keys));
          info \<leftarrow> get_str (Some keys) ''analysis'';
          (case info of
             None \<Rightarrow> do { ls \<leftarrow> literal_result tag ''no Analysis Type'' keys; Some (-1, l1 @ l2 @ ls, keys) }
           | Some info \<Rightarrow> do {
               l3 \<leftarrow> analysis_report ctag keys tag (if tt \<noteq> ''exited'' then underscored tt else tt) info;
               Some (0, l1 @ l2 @ l3, keys) }) }) }"

definition tag_report :: "bool \<Rightarrow> sym \<Rightarrow> sym \<Rightarrow> (int \<times> string list) option" where
  "tag_report extended ctag keys = do {
     tag \<leftarrow> get_str (Some keys) ''tag'';
     (case tag of
        None \<Rightarrow> Some (-1, [])
      | Some tag \<Rightarrow> do {
          is_str \<leftarrow> get_str (Some keys) ''initiation_status'';
          (case is_str of
             None \<Rightarrow> do { ls \<leftarrow> literal_result tag ''no init status'' keys; Some (-1, ls) }
           | Some is_str \<Rightarrow> do {
               (r, ls, keys) \<leftarrow>
                 (if is_str \<noteq> ''ok''
                  then do { (ls, keys) \<leftarrow> result_of_key tag ''initiation_status'' is_str keys; Some (0, ls, keys) }
                  else started_report ctag keys tag);
               if r \<noteq> 0 then Some (r, ls)
               else do {
                 ext \<leftarrow> (if extended
                   then map_option (\<lambda>l. [l]) (extended_line tag (if is_str \<noteq> ''ok'' then underscored is_str else is_str) keys)
                   else Some []);
                 Some (0, ls @ ext) } }) }) }"

section \<open>The header\<close>

text \<open>The lines of the table of system keywords, from an entry on.\<close>

partial_function (option) header_keys :: "string symh \<Rightarrow> string \<times> string sdata \<Rightarrow> string list option" where
  "header_keys h entry = do {
     let (k, d) = entry;
     l \<leftarrow> (if k = ''PATH'' then Some [] else do { s \<leftarrow> str_of d; s \<leftarrow> s; Some [field_left 20 k @ '' '' @ s] });
     (r, e, h) \<leftarrow> sym_seq h [] R_NEXT;
     (case e of
        None \<Rightarrow> Some l
      | Some entry \<Rightarrow> do { ls \<leftarrow> header_keys h entry; Some (l @ ls) }) }"

declare header_keys.simps [code]

definition print_header :: "sym \<Rightarrow> string list option" where
  "print_header tags = do {
     (r, e, h) \<leftarrow> sym_seq \<lparr>sym_tab = tags, cursor = None\<rparr> ''_RTS'' R_CURSOR;
     ls \<leftarrow> (case e of None \<Rightarrow> Some [] | Some entry \<Rightarrow> header_keys h entry);
     Some ([''System Configuration:''] @ ls @
       [[], test_line ''tag'' ''tcid'' ''testcase'' ''status'' ''contact'', replicate 79 (CHR ''-'')]) }"

section \<open>A test case record\<close>

text \<open>\<open>yytext\<close> is the line that the scanner has matched. Only the first three of at most six tokens are used.\<close>

definition cuts_testcase :: "string \<Rightarrow> sym option \<Rightarrow> sym option option" where
  "cuts_testcase yytext tag =
     (case take 6 (strtok_all [CHR 0x09, CHR '' ''] yytext) of
        tcid # tc # res # _ \<Rightarrow>
          (let key = tcid @ '','' @ tc
           in if KEYSIZE \<le> length key then None
              else do {
                old \<leftarrow> get_str tag key;
                (_, tag) \<leftarrow> (case old of
                     Some oldresult \<Rightarrow> sym_put tag key (Datum (worst_case oldresult res)) PUT_REPLACE
                   | None \<Rightarrow> sym_put tag key (Datum res) 0);
                Some tag })
      | _ \<Rightarrow> None)"

section \<open>Lemmas\<close>

definition contacts_of :: "sym option \<Rightarrow> string list option" where
  "contacts_of keys = do { e \<leftarrow> get_str keys ''contacts''; split_key (with_default ''UNKNOWN'' e) }"

definition shown :: "string \<Rightarrow> string" where "shown s = (if s = [] then ''?'' else s)"

lemma underscored_same [simp]: "CHR '' '' \<notin> set s \<Longrightarrow> underscored s = s"
  by (auto simp: underscored_def intro!: map_idI)

lemma test_result_plain:
  "contacts_of keys = Some cs \<Longrightarrow> CHR '' '' \<notin> set s \<Longrightarrow>
   test_result (Some tag) (Some tcid) (Some tc) (Some s) literal keys = Some (map (test_line tag tcid tc (shown s)) cs, s)"
  by (auto simp: test_result_def contacts_of_def with_default_def shown_def bind_eq_Some_conv)

lemma test_result_literal:
  "CHR '' '' \<in> set s \<Longrightarrow> test_result tag tcid tc (Some s) True keys = None"
  by (auto simp: test_result_def Let_def with_default_def split: Option.bind_splits)

lemma seq_next:
  "table_at (sym_tab h) path = Some t \<Longrightarrow> cursor h = Some (path, i) \<Longrightarrow>
   sym_seq h [] R_NEXT = Some (if Suc i < length t then (0, Some (t ! Suc i), h\<lparr>cursor := Some (path, Suc i)\<rparr>)
     else (1, None, h\<lparr>cursor := None\<rparr>))"
  by (simp add: sym_seq_def seq_to_def)

lemma tcid_names_eq:
  assumes "table_at (sym_tab h) path = Some t" "cursor h = Some (path, i)" "i < length t"
  shows "tcid_names h (fst (t ! i)) names =
    Some (names @ filter (\<lambda>k. k \<noteq> ''_keys'') (map fst (drop i t)), h\<lparr>cursor := None\<rparr>)"
  using assms
proof (induction "length t - i" arbitrary: h i names)
  case (Suc d)
  note next_i = seq_next [OF Suc.prems(1,2)]
  note drop_i = Cons_nth_drop_Suc [OF Suc.prems(3), symmetric]
  show ?case
  proof (cases "Suc i < length t")
    case True
    then have l: "d = length t - Suc i" using Suc.hyps(2) by simp
    have "tcid_names (h\<lparr>cursor := Some (path, Suc i)\<rparr>) (fst (t ! Suc i)) ns =
        Some (ns @ filter (\<lambda>k. k \<noteq> ''_keys'') (map fst (drop (Suc i) t)), h\<lparr>cursor := None\<rparr>)" for ns
      using Suc.hyps(1) [of "Suc i" "h\<lparr>cursor := Some (path, Suc i)\<rparr>"] Suc.prems True l by simp
    then show ?thesis
      using True by (subst tcid_names.simps) (simp add: next_i drop_i Let_def split_beta)
  next
    case False
    then have "drop (Suc i) t = []" by simp
    with False show ?thesis by (subst tcid_names.simps) (simp add: next_i drop_i)
  qed
qed simp

fun datum_str :: "string sdata \<Rightarrow> string" where
  "datum_str (Datum s) = s"
| "datum_str _ = []"

text \<open>A table of results by test case name and number: what \<open>cuts_testcase\<close> builds, with the keys beside.\<close>

definition plain_key :: "string \<Rightarrow> bool" where
  "plain_key k \<longleftrightarrow> k \<noteq> [] \<and> CHR '','' \<notin> set k"

definition status_table :: "sym \<Rightarrow> bool" where
  "status_table t \<longleftrightarrow> t \<noteq> [] \<and> distinct (map fst t) \<and> (\<forall>(tc, d) \<in> set t. plain_key tc \<and> (\<exists>s. d = Datum s \<and> CHR '' '' \<notin> set s))"

definition cuts_typed :: "sym \<Rightarrow> bool" where
  "cuts_typed tab \<longleftrightarrow> distinct (map fst tab) \<and>
     (\<forall>(k, d) \<in> set tab. k \<noteq> ''_keys'' \<longrightarrow> plain_key k \<and> length k < KEYSIZE \<and> (\<exists>t. d = Table t \<and> status_table t))"

fun sub_table :: "string sdata \<Rightarrow> sym" where
  "sub_table (Table t) = t"
| "sub_table _ = []"

text \<open>The results of such a table, in order.\<close>

definition results_of :: "sym \<Rightarrow> (string \<times> string \<times> string) list" where
  "results_of tab = concat (map (\<lambda>(k, d). map (\<lambda>(tc, x). (k, tc, datum_str x)) (sub_table d)) (filter (\<lambda>(k, d). k \<noteq> ''_keys'') tab))"

lemma find_key1_in: "distinct (map fst t) \<Longrightarrow> (k, d) \<in> set t \<Longrightarrow> find_key1 t k = Some d"
  by (induction t k rule: find_key1.induct) (auto intro: rev_image_eqI)

lemma put_path_same:
  "find_key1 tab k = Some (Table t) \<Longrightarrow> find_key1 t c = Some d \<Longrightarrow> snd (put_path tab [k, c] d PUT_REPLACE) = tab"
  by (simp add: set_same)

lemma report_cases_eq:
  assumes "find_key1 tab tcid = Some (Table t)" "status_table t" "contacts_of keys = Some cs" "i < length t"
  shows "report_cases tag tcid keys \<lparr>sym_tab = tab, cursor = Some ([tcid], i)\<rparr> (t ! i) (res, n, lines) =
    Some ((foldl worst_case res (map (datum_str \<circ> snd) (drop i t)),
           n + int (length (filter (\<lambda>(tc, d). atoi tc \<noteq> 0) (drop i t))),
           lines @ concat (map (\<lambda>(tc, d). map (test_line tag tcid tc (shown (datum_str d))) cs) (drop i t))),
          \<lparr>sym_tab = tab, cursor = None\<rparr>)"
  using assms(4)
proof (induction "length t - i" arbitrary: i res n lines)
  case (Suc d)
  obtain tc s where e: "t ! i = (tc, Datum s)" "CHR '' '' \<notin> set s"
    using assms(2) nth_mem [OF Suc.prems] by (cases "t ! i") (auto simp: status_table_def)
  have f: "find_key1 t tc = Some (Datum s)"
    using assms(2) find_key1_in [of t tc "Datum s"] nth_mem [OF Suc.prems] e by (simp add: status_table_def)
  have at: "table_at tab [tcid] = Some t" using assms(1) by (simp add: table_at_def)
  note next_i = seq_next [of "\<lparr>sym_tab = tab, cursor = Some ([tcid], i)\<rparr>" "[tcid]" t i, simplified, OF at]
  note put = put_path_same [OF assms(1) f]
  note drop_i = Cons_nth_drop_Suc [OF Suc.prems, symmetric]
  note res_i = test_result_plain [OF assms(3) e(2)]
  show ?case
  proof (cases "Suc i < length t")
    case True
    then have l: "d = length t - Suc i" using Suc.hyps(2) by simp
    show ?thesis using True
      by (subst report_cases.simps)
        (simp add: e res_i put next_i drop_i Suc.hyps(1) [OF l True] del: put_path.simps)
  next
    case False
    then have "drop (Suc i) t = []" by simp
    with False show ?thesis
      by (subst report_cases.simps) (simp add: e res_i put next_i drop_i del: put_path.simps)
  qed
qed simp

definition results_from :: "sym \<Rightarrow> string list \<Rightarrow> (string \<times> string \<times> string) list" where
  "results_from tab names = concat (map (\<lambda>k. map (\<lambda>(tc, x). (k, tc, datum_str x))
     (case find_key1 tab k of Some d \<Rightarrow> sub_table d | None \<Rightarrow> [])) names)"

definition cases_seen :: "(string \<times> string \<times> string) list \<Rightarrow> int" where
  "cases_seen rs = int (length (filter (\<lambda>(tcid, tc, s). atoi tc \<noteq> 0) rs))"

definition result_lines :: "string \<Rightarrow> string list \<Rightarrow> (string \<times> string \<times> string) list \<Rightarrow> string list" where
  "result_lines tag cs rs = concat (map (\<lambda>(tcid, tc, s). map (test_line tag tcid tc (shown s)) cs) rs)"

definition worst_from :: "string \<Rightarrow> (string \<times> string \<times> string) list \<Rightarrow> string" where
  "worst_from s rs = foldl worst_case s (map (snd \<circ> snd) rs)"

lemmas results_defs = cases_seen_def result_lines_def worst_from_def

lemma results_Cons [simp]:
  "results_from tab [] = []"
  "results_from tab (k # names) = map (\<lambda>(tc, x). (k, tc, datum_str x)) (case find_key1 tab k of Some d \<Rightarrow> sub_table d | None \<Rightarrow> []) @ results_from tab names"
  by (simp_all add: results_from_def)

lemma results_append [simp]:
  "cases_seen (rs @ rs') = cases_seen rs + cases_seen rs'" "result_lines tag cs (rs @ rs') = result_lines tag cs rs @ result_lines tag cs rs'"
  "worst_from s (rs @ rs') = worst_from (worst_from s rs) rs'" "cases_seen [] = 0" "result_lines tag cs [] = []" "worst_from s [] = s"
  by (simp_all add: results_defs)

lemma report_tcids_eq:
  assumes "\<forall>k \<in> set names. plain_key k \<and> length k < KEYSIZE \<and> (\<exists>t. find_key1 tab k = Some (Table t) \<and> status_table t)"
    and "contacts_of keys = Some cs"
  shows "\<exists>c'. report_tcids tag keys names \<lparr>sym_tab = tab, cursor = c\<rparr> (res, n, lines) =
    Some ((worst_from res (results_from tab names), n + cases_seen (results_from tab names),
      lines @ result_lines tag cs (results_from tab names)), \<lparr>sym_tab = tab, cursor = c'\<rparr>)"
  using assms(1)
proof (induction names arbitrary: c res n lines)
  case (Cons k names)
  then obtain t where k: "plain_key k" "length k < KEYSIZE" "find_key1 tab k = Some (Table t)" "status_table t" by auto
  then have "split_key k = Some [k]" using split_key_join [of "[k]"] by (simp add: plain_key_def)
  then have seq: "sym_seq \<lparr>sym_tab = tab, cursor = c\<rparr> k R_CURSOR = Some (0, Some (t ! 0), \<lparr>sym_tab = tab, cursor = Some ([k], 0)\<rparr>)"
    using k(3,4) by (simp add: sym_seq_def sym_get_def seq_to_def table_at_def status_table_def)
  let ?rs = "map (\<lambda>(tc, x). (k, tc, datum_str x)) t"
  have "report_cases tag k keys \<lparr>sym_tab = tab, cursor = Some ([k], 0)\<rparr> (t ! 0) (res, n, lines) =
      Some ((worst_from res ?rs, n + cases_seen ?rs, lines @ result_lines tag cs ?rs), \<lparr>sym_tab = tab, cursor = None\<rparr>)"
    using report_cases_eq [OF k(3,4) assms(2), of 0] k(4)
    by (simp add: status_table_def results_defs comp_def filter_map case_prod_unfold)
  moreover obtain c' where "report_tcids tag keys names \<lparr>sym_tab = tab, cursor = None\<rparr> (worst_from res ?rs, n + cases_seen ?rs, lines @ result_lines tag cs ?rs) =
      Some ((worst_from (worst_from res ?rs) (results_from tab names), (n + cases_seen ?rs) + cases_seen (results_from tab names),
        (lines @ result_lines tag cs ?rs) @ result_lines tag cs (results_from tab names)), \<lparr>sym_tab = tab, cursor = c'\<rparr>)"
    using Cons by fastforce
  ultimately show ?case using k seq by (simp add: add.assoc)
qed simp

lemma results_from_names:
  assumes "distinct (map fst tab)"
  shows "results_from tab (filter (\<lambda>k. k \<noteq> ''_keys'') (map fst tab)) = results_of tab"
  by (auto simp: results_from_def results_of_def filter_map comp_def case_prod_unfold find_key1_in [OF assms]
      intro!: arg_cong [where f = concat] map_cong)

lemma worst_from_least:
  "rs \<noteq> [] \<Longrightarrow> worst_from [] rs \<in> (snd \<circ> snd) ` set rs \<and> (\<forall>r \<in> set rs. worst_rank (worst_from [] rs) \<le> worst_rank (snd (snd r)))"
proof (induction rs rule: rev_induct)
  case (snoc r rs)
  have "worst_rank s \<le> 6" for s
    using length_takeWhile_le [of "\<lambda>w. w \<noteq> s" worst] by (simp add: worst_rank_def worst_def)
  moreover have "worst_rank [] = 6" by code_simp
  ultimately have "worst_case [] s = s" for s
    by (simp add: worst_case_def leD)
  then have step: "worst_from [] (rs @ [r]) = (if rs = [] then snd (snd r) else worst_case (worst_from [] rs) (snd (snd r)))"
    by (simp add: worst_from_def)
  show ?case
  proof (cases "rs = []")
    case False
    with snoc.IH have "worst_from [] rs \<in> (snd \<circ> snd) ` set rs"
      "\<forall>r \<in> set rs. worst_rank (worst_from [] rs) \<le> worst_rank (snd (snd r))" by auto
    with step False show ?thesis
      by (cases "worst_rank (worst_from [] rs) < worst_rank (snd (snd r))") (auto simp: worst_case_def)
  qed (use step in simp)
qed simp

lemma cuts_count_eq:
  assumes "pre \<noteq> []" "CHR '':'' \<notin> set pre"
  shows "cuts_count (pre @ CHR '':'' # show_nat n) = Some (int n)"
proof -
  let ?at = "pre @ CHR '':'' # show_nat n"
  have n: "set (show_nat n) \<inter> {CHR '':''} = {}" by (auto dest!: show_nat_digits) (metis digit_char_props(5))
  obtain c d where "pre = c # d" "c \<noteq> CHR '':''" using assms by (cases pre) auto
  then obtain q where s: "strtok_off '':'' (0, ?at) = Some (Tok 0 pre, q)" "snd q = show_nat n"
    using strtok_append [of pre "'':''" "CHR '':''" "show_nat n"] assms by (auto simp: strtok_off_def)
  have "strtok '':'' (show_nat n) = Some (show_nat n, [])"
    using strtok_last [of "show_nat n" "'':''"] n by simp
  then obtain j q' where "strtok_off '':'' q = Some (Tok j (show_nat n), q')" "snd q' = []"
    using s(2) by (auto simp: strtok_off_def)
  moreover have "strtok_off '':'' q' = None" if "snd q' = []" for q' using that by (simp add: strtok_off_def strtok_def)
  ultimately have t: "toks '':'' (0, ?at) = [Tok 0 pre, Tok j (show_nat n)]"
    using s(1) by (simp add: toks_step)
  then obtain arr where arr: "splitstr True True (Some ?at) (Some '':'') = Some (Some arr, 2)"
    "2 < length arr" "arr = [Tok 0 pre, Tok j (show_nat n)] @ replicate (length arr - 2) Null"
    using splitstr_array [of "'':''" "Some '':''" ?at] by auto
  have "arr ! 0 = Tok 0 pre" "arr ! 1 = Tok j (show_nat n)" by (subst arr(3), simp)+
  moreover have "atoi (show_nat n) = int n" using atoi_show_int [of "[]" "int n"] by (simp add: starts_digit_def show_int_def)
  ultimately show ?thesis
    using arr(1,2) by (auto simp: cuts_count_def splitstr_free_def buf_get_def)
qed

lemma tag_names_start:
  "tab \<noteq> [] \<Longrightarrow> sym_seq \<lparr>sym_tab = tab, cursor = None\<rparr> [] R_FIRST = Some (0, Some (tab ! 0), \<lparr>sym_tab = tab, cursor = Some ([], 0)\<rparr>)"
  by (simp add: sym_seq_def seq_to_def table_at_def)

lemma status_no_blank: "cuts_typed tab \<Longrightarrow> (tcid, tc, s) \<in> set (results_of tab) \<Longrightarrow> CHR '' '' \<notin> set s"
  by (fastforce simp: results_of_def cuts_typed_def status_table_def)

text \<open>The report of a CUTS test. From a table of results by test case name and number, with or without the keys
  beside them, the report has one line for every result and contact, in the order of the table, then a line for the whole tag with the
  worst status of all (one that occurs, of the least rank). With the analysis type \<open>cuts:n\<close>, where \<open>n\<close> is
  neither 0 nor the number of the results whose case number is not 0, the report is undefined: the message about the wrong count
  is a string literal, and its blanks are overwritten. The table is left as it was.\<close>

lemma cuts_report_lines:
  assumes "cuts_typed tab" and "tab \<noteq> []" and "contacts_of keys = Some cs" and "pre \<noteq> []" and "CHR '':'' \<notin> set pre"
  shows "let rs = results_of tab; whole = worst_from [] rs in
    cuts_report tab keys (pre @ CHR '':'' # show_nat n) tag =
      (if n \<noteq> 0 \<and> int n \<noteq> cases_seen rs then None
       else Some (result_lines tag cs rs @ map (test_line tag ''*'' ''*'' (shown whole)) cs, tab)) \<and>
    (if rs = [] then whole = [] else whole \<in> (snd \<circ> snd) ` set rs \<and> (\<forall>r \<in> set rs. worst_rank whole \<le> worst_rank (snd (snd r))))"
proof -
  let ?names = "filter (\<lambda>k. k \<noteq> ''_keys'') (map fst tab)" and ?rs = "results_of tab"
  have dist: "distinct (map fst tab)" using assms(1) by (simp add: cuts_typed_def)
  have "tcid_names \<lparr>sym_tab = tab, cursor = Some ([], 0)\<rparr> (fst (tab ! 0)) [] = Some (?names, \<lparr>sym_tab = tab, cursor = None\<rparr>)"
    using tcid_names_eq [of "\<lparr>sym_tab = tab, cursor = Some ([], 0)\<rparr>" "[]" tab 0 "[]"] assms(2) by (simp add: table_at_def)
  moreover have "\<forall>k \<in> set ?names. plain_key k \<and> length k < KEYSIZE \<and> (\<exists>t. find_key1 tab k = Some (Table t) \<and> status_table t)"
    using assms(1) by (fastforce simp: cuts_typed_def find_key1_in)
  then obtain c' where "report_tcids tag keys ?names \<lparr>sym_tab = tab, cursor = None\<rparr> ([], 0, []) =
      Some ((worst_from [] ?rs, cases_seen ?rs, result_lines tag cs ?rs), \<lparr>sym_tab = tab, cursor = c'\<rparr>)"
    using report_tcids_eq [OF _ assms(3), of ?names tab tag None "[]" 0 "[]"] results_from_names [OF dist] by auto
  moreover have "CHR '' '' \<notin> set (worst_from [] ?rs)"
    using worst_from_least [of ?rs] status_no_blank [OF assms(1)] by (cases "?rs = []") fastforce+
  ultimately show ?thesis
    using worst_from_least [of ?rs] tag_names_start [OF assms(2)]
    by (simp add: Let_def cuts_report_def cuts_count_eq assms(4,5) test_result_plain [OF assms(3)] test_result_literal split_beta)
qed

definition demo_results :: sym where
  "demo_results = [(''fc01'', Table [(''1'', Datum ''PASS''), (''2'', Datum ''FAIL'')]), (''_keys'', Table [])]"

lemma cuts_report_lines_witness:
  "cuts_report demo_results (Some []) ''cuts:3'' ''t'' = None \<and>
   cuts_report demo_results (Some []) ''cuts:2'' ''t'' =
     Some ([test_line ''t'' ''fc01'' ''1'' ''PASS'' ''UNKNOWN'', test_line ''t'' ''fc01'' ''2'' ''FAIL'' ''UNKNOWN'',
       test_line ''t'' ''*'' ''*'' ''FAIL'' ''UNKNOWN''], demo_results)"
proof -
  have "cuts_typed demo_results" by (simp add: cuts_typed_def demo_results_def status_table_def plain_key_def KEYSIZE_def)
  moreover have "demo_results \<noteq> []" by (simp add: demo_results_def)
  moreover have "contacts_of (Some []) = Some [''UNKNOWN'']" by code_simp
  moreover have "results_of demo_results = [(''fc01'', ''1'', ''PASS''), (''fc01'', ''2'', ''FAIL'')]" by code_simp
  moreover have "cases_seen [(''fc01'', ''1'', ''PASS''), (''fc01'', ''2'', ''FAIL'')] = 2" by code_simp
  moreover have "worst_from [] [(''fc01'', ''1'', ''PASS''), (''fc01'', ''2'', ''FAIL'')] = ''FAIL''" by code_simp
  moreover have "show_nat 3 = ''3''" "show_nat 2 = ''2''" by code_simp+
  ultimately show ?thesis
    using cuts_report_lines [of demo_results "Some []" "[''UNKNOWN'']" "''cuts''" 3 "''t''"]
      cuts_report_lines [of demo_results "Some []" "[''UNKNOWN'']" "''cuts''" 2 "''t''"]
    by (simp add: Let_def result_lines_def shown_def)
qed

section \<open>Records\<close>

text \<open>What a table of results means, and what a record does to it.\<close>

definition status_of :: "sym \<Rightarrow> string \<times> string \<Rightarrow> string option" where
  "status_of tab = (\<lambda>(tcid, tc). case get_path tab [tcid, tc] of Some (Datum s) \<Rightarrow> Some s | _ \<Rightarrow> None)"

lemma status_of_eq:
  "status_of tab (tcid, tc) = (case find_key1 tab tcid of
     Some (Table t) \<Rightarrow> (case find_key1 t tc of Some (Datum s) \<Rightarrow> Some s | _ \<Rightarrow> None) | _ \<Rightarrow> None)"
  by (auto simp: status_of_def split: option.splits sdata.splits)

lemma find_add_if: "find_key1 (add_key t k d) k' = (if k = k' \<and> find_key1 t k' = None then Some d else find_key1 t k')"
  by (induction t k' rule: find_key1.induct) (auto simp: add_key_def)

lemma find_set_if: "find_key1 (set_key1 t k d) k' = (if k = k' \<and> find_key1 t k \<noteq> None then Some d else find_key1 t k')"
  by (induction t k' rule: find_key1.induct) auto

definition record_result :: "string \<times> string \<times> string \<Rightarrow> (string \<times> string \<Rightarrow> string option) \<Rightarrow> string \<times> string \<Rightarrow> string option" where
  "record_result r m = (let (tcid, tc, s) = r
     in m((tcid, tc) \<mapsto> (case m (tcid, tc) of None \<Rightarrow> s | Some old \<Rightarrow> worst_case old s)))"

definition is_record :: "string \<Rightarrow> string \<times> string \<times> string \<Rightarrow> bool" where
  "is_record y r = (let (tcid, tc, s) = r
     in take 3 (strtok_all [CHR 0x09, CHR '' ''] y) = [tcid, tc, s] \<and> CHR '','' \<notin> set tcid \<and> CHR '','' \<notin> set tc \<and>
        length tcid + length tc + 1 < KEYSIZE)"

fun cuts_testcases :: "string list \<Rightarrow> sym option \<Rightarrow> sym option option" where
  "cuts_testcases [] tag = Some tag"
| "cuts_testcases (y # ys) tag = do { tag \<leftarrow> cuts_testcase y tag; cuts_testcases ys tag }"

text \<open>The type of the table before the keys are put beside the results.\<close>

definition results_typed :: "sym \<Rightarrow> bool" where
  "results_typed tab \<longleftrightarrow> distinct (map fst tab) \<and>
     (\<forall>(k, d) \<in> set tab. plain_key k \<and> length k < KEYSIZE \<and> (\<exists>t. d = Table t \<and> status_table t))"

lemma results_cuts_typed: "results_typed tab \<Longrightarrow> cuts_typed tab"
  by (auto simp: results_typed_def cuts_typed_def)

lemma map_fst_add [simp]: "map fst (add_key t k d) = map fst t @ [k]"
  by (simp add: add_key_def)

lemma in_set_key1: "(k', d') \<in> set (set_key1 t k d) \<Longrightarrow> (k', d') \<in> set t \<or> (k' = k \<and> d' = d)"
  by (induction t) (auto split: if_splits)

lemma set_key1_Nil [simp]: "set_key1 t k d = [] \<longleftrightarrow> t = []"
  by (cases t) (auto split: if_splits)

lemma status_table_put:
  assumes "t = [] \<or> status_table t" "plain_key tc" "CHR '' '' \<notin> set s"
  shows "find_key1 t tc = None \<Longrightarrow> status_table (add_key t tc (Datum s))" "t \<noteq> [] \<Longrightarrow> status_table (set_key1 t tc (Datum s))"
  using assms by (auto simp: status_table_def find_None_iff add_key_def dest!: in_set_key1)

lemma results_typed_put:
  assumes "results_typed tab" "plain_key k" "length k < KEYSIZE" "status_table t"
  shows "find_key1 tab k = None \<Longrightarrow> results_typed (add_key tab k (Table t))" "results_typed (set_key1 tab k (Table t))"
  using assms by (auto simp: results_typed_def find_None_iff add_key_def dest!: in_set_key1)

lemma find_key1_mem: "find_key1 t k = Some d \<Longrightarrow> (k, d) \<in> set t"
  by (induction t k rule: find_key1.induct) (auto split: if_splits)

lemma results_typed_find:
  assumes "results_typed tab" "find_key1 tab k = Some d"
  obtains t where "d = Table t" "status_table t"
  using assms find_key1_mem [of tab k d] by (auto simp: results_typed_def)

lemma status_table_find:
  assumes "status_table t" "find_key1 t tc = Some d"
  obtains s where "d = Datum s" "CHR '' '' \<notin> set s"
  using assms find_key1_mem [of t tc d] by (auto simp: status_table_def)

lemma worst_case_no_blank: "CHR '' '' \<notin> set s \<Longrightarrow> CHR '' '' \<notin> set s' \<Longrightarrow> CHR '' '' \<notin> set (worst_case s s')"
  by (simp add: worst_case_def)

lemma cuts_testcase_step:
  assumes "results_typed tab" "is_record y r"
  shows "\<exists>tab'. cuts_testcase y (Some tab) = Some (Some tab') \<and> results_typed tab' \<and> status_of tab' = record_result r (status_of tab)"
proof -
  obtain tcid tc s where r: "r = (tcid, tc, s)" by (cases r)
  define ts where "ts = strtok_all [CHR 0x09, CHR '' ''] y"
  have t3: "take 3 ts = [tcid, tc, s]" and rec: "CHR '','' \<notin> set tcid" "CHR '','' \<notin> set tc"
    "length tcid + length tc + 1 < KEYSIZE" using assms(2) by (auto simp: is_record_def r ts_def)
  have "\<And>x. x \<in> set (take 3 ts) \<Longrightarrow> x \<noteq> [] \<and> CHR '' '' \<notin> set x"
    using strtok_all_tokens [of _ "[CHR 0x09, CHR '' '']" y] by (fastforce simp: ts_def dest: in_set_takeD)
  then have ne: "tcid \<noteq> []" "tc \<noteq> []" "CHR '' '' \<notin> set s" unfolding t3 by auto
  have key: "split_key (tcid @ CHR '','' # tc) = Some [tcid, tc]"
    using split_key_join [of "[tcid, tc]"] rec ne by auto
  obtain more where more: "take 6 ts = tcid # tc # s # more"
    using t3 take_add [of 3 3 ts] by simp
  have plain: "plain_key tcid" "plain_key tc" using rec ne by (simp_all add: plain_key_def)
  have len: "length tcid < KEYSIZE" using rec by simp
  let ?new = "case status_of tab (tcid, tc) of None \<Rightarrow> s | Some old \<Rightarrow> worst_case old s"
  let ?fl = "case status_of tab (tcid, tc) of None \<Rightarrow> 0 | Some old \<Rightarrow> PUT_REPLACE"
  let ?tab = "snd (put_path tab [tcid, tc] (Datum ?new) ?fl)"
  have get: "get_str (Some tab) (tcid @ '','' @ tc) = Some (status_of tab (tcid, tc))"
  proof (cases "find_key1 tab tcid")
    case (Some d)
    then obtain t where "find_key1 tab tcid = Some (Table t)" "status_table t"
      using results_typed_find [OF assms(1)] by blast
    then show ?thesis
      by (cases "find_key1 t tc") (auto simp: get_str_def sym_get_def key status_of_eq elim: status_table_find)
  qed (simp add: get_str_def sym_get_def key status_of_eq)
  have "cuts_testcase y (Some tab) = Some (Some ?tab)"
    using more rec(3) get by (auto simp: cuts_testcase_def ts_def [symmetric] Let_def sym_put_def key split_beta simp del: put_path.simps split: option.splits)
  moreover have "results_typed ?tab \<and> status_of ?tab = record_result r (status_of tab)"
  proof (cases "find_key1 tab tcid")
    case None
    then have "?tab = add_key tab tcid (Table (add_key newsym tc (Datum s)))"
      by (simp add: status_of_eq)
    moreover have "status_table (add_key newsym tc (Datum s))"
      using status_table_put(1) [of newsym tc s] plain ne by (simp add: newsym_def)
    ultimately show ?thesis using results_typed_put(1) [OF assms(1) plain(1) len _ None] None
      by (auto simp: status_of_eq record_result_def r fun_eq_iff newsym_def find_add_if)
  next
    case (Some d)
    then obtain t where t: "find_key1 tab tcid = Some (Table t)" "status_table t"
      using results_typed_find [OF assms(1)] by blast
    show ?thesis
    proof (cases "find_key1 t tc")
      case None
      then show ?thesis using t results_typed_put(2) [OF assms(1) plain(1) len, of "add_key t tc (Datum s)"]
          status_table_put(1) [OF disjI2 [OF t(2)] plain(2) ne(3) None]
        by (auto simp: status_of_eq record_result_def r fun_eq_iff find_add_if find_set_if)
    next
      case (Some d)
      then obtain old where old: "find_key1 t tc = Some (Datum old)" "CHR '' '' \<notin> set old"
        using status_table_find [OF t(2)] by metis
      then show ?thesis using t results_typed_put(2) [OF assms(1) plain(1) len, of "set_key1 t tc (Datum (worst_case old s))"]
          status_table_put(2) [OF disjI2 [OF t(2)] plain(2) worst_case_no_blank [OF old(2) ne(3)]]
        by (auto simp: status_of_eq record_result_def r fun_eq_iff find_add_if find_set_if status_table_def)
    qed
  qed
  ultimately show ?thesis by blast
qed

lemma record_result_at:
  "record_result (a, b, c) m p = (if p = (a, b) then Some (case m (a, b) of None \<Rightarrow> c | Some old \<Rightarrow> worst_case old c) else m p)"
  by (simp add: record_result_def)

lemma record_result_least:
  assumes "m = fold record_result rs (\<lambda>_. None)"
  shows "m (tcid, tc) = None \<longleftrightarrow> (\<forall>s. (tcid, tc, s) \<notin> set rs)"
    and "m (tcid, tc) = Some s \<Longrightarrow> (tcid, tc, s) \<in> set rs \<and> (\<forall>s'. (tcid, tc, s') \<in> set rs \<longrightarrow> worst_rank s \<le> worst_rank s')"
  unfolding assms
proof (induction rs arbitrary: s rule: rev_induct)
  case (snoc r rs)
  obtain a b c where r: "r = (a, b, c)" by (cases r)
  case 1
  show ?case using snoc(1) by (auto simp: r record_result_at split: if_splits)
  case 2
  show ?case
  proof (cases "fold record_result rs (\<lambda>_. None) (tcid, tc)")
    case None
    with 2 snoc(1) show ?thesis by (auto simp: r record_result_at split: if_splits)
  next
    case (Some old)
    note old = snoc(2) [OF Some]
    show ?thesis
    proof (cases "(a, b) = (tcid, tc)")
      case True
      with 2 Some have "s = worst_case old c" by (simp add: r record_result_at)
      with old True show ?thesis by (auto simp: r worst_case_def)
    next
      case False
      with 2 Some old show ?thesis by (auto simp: r record_result_at)
    qed
  qed
qed simp_all

lemma cuts_testcases_refine:
  assumes "results_typed tab" "list_all2 is_record ys rs"
  shows "\<exists>tab'. cuts_testcases ys (Some tab) = Some (Some tab') \<and> results_typed tab' \<and> status_of tab' = fold record_result rs (status_of tab)"
  using assms(2,1)
proof (induction arbitrary: tab rule: list_all2_induct)
  case (Cons y ys r rs)
  then show ?case using cuts_testcase_step [of tab y r] by fastforce
qed simp

text \<open>C12: the records of a CUTS test refine a map. Each line that the scanner passes on, with a key that fits its array, acts on the table as on a map from names and numbers to statuses: a first status is stored, a later
  one is merged with the one that is there by \<open>worst_case\<close>. The table keeps the type that the report expects. At the end
  a case has a status exactly when there was a record of it, and it is one of the recorded
  statuses of the least rank, whatever the order of the records.\<close>

theorem cuts_records_worst:
  assumes "list_all2 is_record ys rs"
  shows "\<exists>tab. cuts_testcases ys (Some newsym) = Some (Some tab) \<and> results_typed tab \<and>
    status_of tab = fold record_result rs (\<lambda>_. None) \<and>
    (\<forall>tcid tc. case status_of tab (tcid, tc) of
        None \<Rightarrow> \<forall>s. (tcid, tc, s) \<notin> set rs
      | Some s \<Rightarrow> (tcid, tc, s) \<in> set rs \<and> (\<forall>s'. (tcid, tc, s') \<in> set rs \<longrightarrow> worst_rank s \<le> worst_rank s'))"
proof -
  have "results_typed newsym" by (simp add: results_typed_def newsym_def)
  then obtain tab where tab: "cuts_testcases ys (Some newsym) = Some (Some tab)" "results_typed tab"
    "status_of tab = fold record_result rs (status_of newsym)"
    using cuts_testcases_refine [OF _ assms] by blast
  moreover have "status_of newsym = (\<lambda>_. None)" by (simp add: fun_eq_iff status_of_eq)
  ultimately have "status_of tab = fold record_result rs (\<lambda>_. None)" by simp
  with tab record_result_least [OF this] show ?thesis by (auto split: option.split)
qed

theorem cuts_records_worst_witness:
  "\<exists>tab. cuts_testcases [''fc 1 PASS :'', ''fc 1 BROK :'', ''fc 1 INFO :''] (Some newsym) = Some (Some tab) \<and>
     status_of tab (''fc'', ''1'') = Some ''BROK'' \<and> status_of tab (''fc'', ''2'') = None"
proof -
  let ?rs = "[(''fc'', ''1'', ''PASS''), (''fc'', ''1'', ''BROK''), (''fc'', ''1'', ''INFO'')]"
  have "list_all2 is_record [''fc 1 PASS :'', ''fc 1 BROK :'', ''fc 1 INFO :''] ?rs"
  proof -
    have "strtok_all [CHR 0x09, CHR '' ''] ''fc 1 PASS :'' = [''fc'', ''1'', ''PASS'', '':'']"
      "strtok_all [CHR 0x09, CHR '' ''] ''fc 1 BROK :'' = [''fc'', ''1'', ''BROK'', '':'']"
      "strtok_all [CHR 0x09, CHR '' ''] ''fc 1 INFO :'' = [''fc'', ''1'', ''INFO'', '':'']" by code_simp+
    then show ?thesis by (simp add: is_record_def KEYSIZE_def)
  qed
  from cuts_records_worst [OF this] show ?thesis
    by (auto simp: record_result_def worst_case_def worst_rank_def worst_def)
qed

end
