(* ===== verification/Scanner.thy ===== *)
theory Scanner
  imports Tag_Report
begin

text \<open>
  \<^verbatim>\<open>pan/scan.l\<close>, \<^verbatim>\<open>pan/reporter.c\<close> and \<^verbatim>\<open>pan/ltp-scanner.c\<close>: the lexical rules that read the output of the
  driver, their actions, which fill the symbol tables, and the report. \<open>lex_next\<close> is what the rules mean: the longest match
  wins, the first rule among equals; the character after \<open>$\<close> counts for the length and stays in the input. \<open>yytext\<close> is the
  array that \<^verbatim>\<open>tag_report.c\<close> declares (the makefile asks for it by \<open>-l\<close>).
\<close>

abbreviation (input) NL :: char where "NL \<equiv> CHR 0x0A"
abbreviation (input) QUOTE :: char where "QUOTE \<equiv> CHR 0x22"
abbreviation (input) TAB :: char where "TAB \<equiv> CHR 0x09"

section \<open>The lexical rules\<close>

datatype start_cond = INITIAL | KEY | OUT | CUTS

datatype lex_rule = Rts_start | Rts_end | Start | Output | Status | End | Quoted | Keyword | Blanks | Text_line
  | Cuts_result | Cuts_range | Any_char | Newline

definition is_letter :: "char \<Rightarrow> bool" where
  "is_letter c \<longleftrightarrow> c \<in> set ''abcdefghijklmnopqrstuvwxyzABCDEFGHIJKLMNOPQRSTUVWXYZ''"

definition is_digit :: "char \<Rightarrow> bool" where "is_digit c \<longleftrightarrow> c \<in> set ''0123456789''"
definition is_key_char :: "char \<Rightarrow> bool" where "is_key_char c \<longleftrightarrow> is_letter c \<or> c \<in> set ''_-''"
definition is_word_char :: "char \<Rightarrow> bool" where "is_word_char c \<longleftrightarrow> is_key_char c \<or> is_digit c"
definition lex_space :: "char \<Rightarrow> bool" where "lex_space c \<longleftrightarrow> c = CHR '' '' \<or> c = TAB"

text \<open>Pieces of patterns: a string, and one or more characters of a class. The result is the rest of the input.\<close>

definition lit :: "string \<Rightarrow> string \<Rightarrow> string option" where
  "lit t s = (if take (length t) s = t then Some (drop (length t) s) else None)"

definition some_of :: "(char \<Rightarrow> bool) \<Rightarrow> string \<Rightarrow> string option" where
  "some_of P s = (if s \<noteq> [] \<and> P (hd s) then Some (dropWhile P s) else None)"

fun match_rest :: "lex_rule \<Rightarrow> string \<Rightarrow> string option" where
  "match_rest Rts_start s = lit ''<<<rts_keyword_start>>>'' s"
| "match_rest Rts_end s = lit ''<<<rts_keyword_end>>>'' s"
| "match_rest Start s = lit ''<<<test_start>>>'' s"
| "match_rest Output s = lit ''<<<test_output>>>'' s"
| "match_rest Status s = lit ''<<<execution_status>>>'' s"
| "match_rest End s = lit ''<<<test_end>>>'' s"
| "match_rest Quoted s = do {
     s \<leftarrow> some_of is_key_char s;
     s \<leftarrow> lit [CHR ''='', QUOTE] s;
     s \<leftarrow> some_of (\<lambda>c. c \<noteq> QUOTE \<and> c \<noteq> NL) s;
     lit [QUOTE] s }"
| "match_rest Keyword s = do {
     s \<leftarrow> some_of is_key_char s;
     s \<leftarrow> lit ''='' s;
     some_of (\<lambda>c. \<not> lex_space c \<and> c \<noteq> NL) s }"
| "match_rest Blanks s = Some (dropWhile (\<lambda>c. lex_space c \<or> c = NL) s)"
| "match_rest Text_line s = some_of (\<lambda>c. c \<noteq> NL) s"
| "match_rest Cuts_result s = do {
     s \<leftarrow> some_of is_word_char s;
     s \<leftarrow> some_of lex_space s;
     s \<leftarrow> some_of is_digit s;
     s \<leftarrow> some_of lex_space s;
     s \<leftarrow> some_of is_letter s;
     s \<leftarrow> some_of lex_space s;
     lit '':'' s }"
| "match_rest Cuts_range s = do {
     s \<leftarrow> some_of is_word_char s;
     s \<leftarrow> some_of lex_space s;
     s \<leftarrow> some_of is_digit s;
     s \<leftarrow> lit ''-'' s;
     s \<leftarrow> some_of is_digit s;
     s \<leftarrow> some_of lex_space s;
     s \<leftarrow> some_of is_letter s;
     s \<leftarrow> some_of lex_space s;
     lit '':'' s }"
| "match_rest Any_char s = (if s \<noteq> [] \<and> hd s \<noteq> NL then Some (tl s) else None)"
| "match_rest Newline s = lit [NL] s"

definition markers :: "lex_rule list" where
  "markers = [Rts_start, Rts_end, Start, Output, Status, End]"

definition at_bol :: "lex_rule \<Rightarrow> bool" where
  "at_bol r \<longleftrightarrow> r \<in> set (markers @ [Text_line, Cuts_result, Cuts_range])"

definition at_eol :: "lex_rule \<Rightarrow> bool" where
  "at_eol r \<longleftrightarrow> r \<in> set (markers @ [Text_line])"

definition lex_active :: "start_cond \<Rightarrow> lex_rule list" where
  "lex_active c = markers @
     (case c of
        INITIAL \<Rightarrow> []
      | KEY \<Rightarrow> [Quoted, Keyword, Blanks]
      | OUT \<Rightarrow> [Text_line]
      | CUTS \<Rightarrow> [Cuts_result, Cuts_range]) @ [Any_char, Newline]"

text \<open>The length that counts and the length of \<open>yytext\<close>.\<close>

definition match_rule :: "bool \<Rightarrow> string \<Rightarrow> lex_rule \<Rightarrow> (nat \<times> nat) option" where
  "match_rule bol s r =
     (if at_bol r \<and> \<not> bol then None
      else do {
        rest \<leftarrow> match_rest r s;
        let n = length s - length rest;
        if at_eol r then (if take 1 rest = [NL] then Some (n + 1, n) else None) else Some (n, n) })"

fun longest :: "(lex_rule \<Rightarrow> (nat \<times> nat) option) \<Rightarrow> lex_rule list \<Rightarrow> (lex_rule \<times> nat \<times> nat) option" where
  "longest m [] = None"
| "longest m (r # rs) =
     (case (m r, longest m rs) of
        (None, best) \<Rightarrow> best
      | (Some (n, k), None) \<Rightarrow> Some (r, n, k)
      | (Some (n, k), Some (r', n', k')) \<Rightarrow> if n' \<le> n then Some (r, n, k) else Some (r', n', k'))"

definition lex_next :: "start_cond \<Rightarrow> bool \<Rightarrow> string \<Rightarrow> (lex_rule \<times> string \<times> string) option" where
  "lex_next c bol s = map_option (\<lambda>(r, n, k). (r, take k s, drop k s)) (longest (match_rule bol s) (lex_active c))"

text \<open>Every match is shorter than the input, and there is one while there is input.\<close>

lemma lit_shorter: "lit t s = Some r \<Longrightarrow> length s = length t + length r"
proof -
  assume "lit t s = Some r"
  then have "take (length t) s = t" "r = drop (length t) s" by (auto simp: lit_def split: if_splits)
  then show ?thesis by (metis append_take_drop_id length_append)
qed

lemma some_of_shorter: "some_of P s = Some r \<Longrightarrow> length r < length s"
  by (cases s) (auto simp: some_of_def le_imp_less_Suc length_dropWhile_le split: if_splits)

lemma some_of_then: "some_of P s \<bind> f = Some r \<Longrightarrow> \<exists>s'. length s' < length s \<and> f s' = Some r"
  by (auto simp: bind_eq_Some_conv dest: some_of_shorter)

lemma lit_then: "lit t s \<bind> f = Some r \<Longrightarrow> \<exists>s'. length s' \<le> length s \<and> f s' = Some r"
  by (force simp: bind_eq_Some_conv dest: lit_shorter)

lemma match_rest_shorter: "match_rest r s = Some rest \<Longrightarrow> r \<noteq> Blanks \<Longrightarrow> length rest < length s"
proof (cases r)
  case Any_char
  then show "match_rest r s = Some rest \<Longrightarrow> length rest < length s" by (cases s) (auto split: if_splits)
qed (auto dest!: some_of_then lit_then dest: lit_shorter some_of_shorter)

lemma match_rule_pos: "match_rule bol s r = Some (n, k) \<Longrightarrow> r \<noteq> Blanks \<Longrightarrow> 0 < k \<and> k \<le> n"
  by (auto simp: match_rule_def Let_def dest: match_rest_shorter split: if_splits Option.bind_splits)

lemma longest_None: "longest m rs = None \<longleftrightarrow> (\<forall>r \<in> set rs. m r = None)"
  by (induction rs) (auto split: option.splits)

lemma longest_in:
  assumes "longest m rs = Some (r, n, k)"
  shows "r \<in> set rs \<and> m r = Some (n, k) \<and> (\<forall>r' \<in> set rs. \<forall>n' k'. m r' = Some (n', k') \<longrightarrow> n' \<le> n)"
  using assms
proof (induction rs arbitrary: r n k)
  case (Cons q rs)
  show ?case
  proof (cases "longest m rs")
    case None
    then have "\<forall>r' \<in> set rs. m r' = None" by (simp add: longest_None)
    with Cons.prems None show ?thesis by (cases "m q") auto
  next
    case (Some b)
    then obtain r' n' k' where b: "longest m rs = Some (r', n', k')" by (cases b) auto
    note Cons.IH [OF b]
    with Cons.prems b show ?thesis by (cases "m q") (fastforce split: if_splits)+
  qed
qed simp

lemma default_rule: "s \<noteq> [] \<Longrightarrow> match_rule bol s (if hd s = NL then Newline else Any_char) = Some (1, 1)"
  by (cases s) (auto simp: match_rule_def at_bol_def at_eol_def markers_def lit_def)

lemma lex_some:
  assumes "s \<noteq> []"
  obtains r y rest where "lex_next c bol s = Some (r, y, rest)" "s = y @ rest" "y \<noteq> []"
proof -
  let ?d = "if hd s = NL then Newline else Any_char"
  have d: "?d \<in> set (lex_active c)" by (simp add: lex_active_def)
  then obtain r n k where l: "longest (match_rule bol s) (lex_active c) = Some (r, n, k)"
    using default_rule [OF assms, of bol] longest_None [of "match_rule bol s" "lex_active c"] by (metis option.exhaust option.distinct(1) prod_cases3)
  then have m: "match_rule bol s r = Some (n, k)" "1 \<le> n"
    using longest_in [OF l] d default_rule [OF assms, of bol] by auto
  have "0 < k"
  proof (cases "r = Blanks")
    case True
    with m show ?thesis by (auto simp: match_rule_def at_bol_def at_eol_def markers_def Let_def)
  qed (use match_rule_pos m in blast)
  then have "take k s \<noteq> []" using assms by simp
  with l that [of r "take k s" "drop k s"] show thesis by (simp add: lex_next_def)
qed

section \<open>The state of the scanner\<close>

definition SCAN_OUTSIDE :: int where "SCAN_OUTSIDE = 10"
definition SCAN_RTSKEY :: int where "SCAN_RTSKEY = 20"
definition SCAN_TSTKEY :: int where "SCAN_TSTKEY = 21"
definition SCAN_OUTPUT :: int where "SCAN_OUTPUT = 30"

text \<open>The variables of \<^verbatim>\<open>scan.l\<close>, the counter of \<open>scanner_test_end\<close>, the options, and the lines that are printed.\<close>

record scan =
  sc_extended :: bool
  sc_iscan :: bool
  sc_start :: start_cond
  sc_mode :: int
  sc_lineno :: int
  sc_keys :: "sym option"
  sc_ctag :: "sym option"
  sc_tags :: sym
  sc_notag :: int
  sc_out :: "string list"
  sc_err :: "string list"

definition mode_name :: "int \<Rightarrow> string" where
  "mode_name m =
     (if m = SCAN_OUTSIDE then ''outside'' else if m = SCAN_RTSKEY then ''rts_keyword_start''
      else if m = SCAN_TSTKEY then ''test_start | execution_status'' else if m = SCAN_OUTPUT then ''test_output''
      else ''unknown'')"

definition check_mode :: "string \<Rightarrow> int list \<Rightarrow> scan \<Rightarrow> scan" where
  "check_mode yytext modes st =
     (if sc_mode st \<in> set modes then st
      else (let exp_mode = mode_name (hd modes) @ concat (map (\<lambda>m. '', '' @ mode_name m) (tl modes))
            in st\<lparr>sc_err := sc_err st @ [''PARSE ERROR -- Line '' @ show_int (sc_lineno st) @ '' found '' @ yytext @
                 '' in mode '' @ mode_name (sc_mode st) @ ''['' @ show_int (sc_mode st) @ ''] expected { '' @ exp_mode @ '' }'']\<rparr>))"

section \<open>The end of a test\<close>

text \<open>\<^verbatim>\<open>reporter.c\<close>. \<open>keys\<close> is put into the table of the tag by reference, so a tag that is made up is in there as well. The result
  has the code, the table of all tags, the counter and what is printed on the error output.\<close>

definition scanner_test_end ::
  "sym \<Rightarrow> sym option \<Rightarrow> sym option \<Rightarrow> int \<Rightarrow> (int \<times> sym \<times> int \<times> string list) option" where
  "scanner_test_end alltags ctag keys notag =
     (case (ctag, keys) of
        (Some c, Some k) \<Rightarrow> do {
          old \<leftarrow> get_str (Some k) ''tag'';
          (tag, k', notag, err) \<leftarrow> (case old of
             Some tag \<Rightarrow> Some (tag, Some k, notag, [])
           | None \<Rightarrow> (let tagname = ''no_tag_'' @ show_int notag
                      in do {
                        (_, k') \<leftarrow> sym_put (Some k) ''tag'' (Datum tagname) 0;
                        Some (tagname, k', notag + 1, [''No TAG key!  Using '' @ tagname]) }));
          k \<leftarrow> k';
          (_, c') \<leftarrow> sym_put (Some c) ''_keys'' (Table k) 0;
          c \<leftarrow> c';
          rm \<leftarrow> sym_get (Some alltags) tag;
          status \<leftarrow> get_str (Some k) ''initiation_status'';
          if rm \<noteq> Nul \<and> status \<noteq> Some ''ok'' then Some (1, alltags, notag, err)
          else do {
            (_, t) \<leftarrow> sym_put (Some alltags) tag (Table c) PUT_REPLACE;
            t \<leftarrow> t;
            Some (0, t, notag, err) } }
      | _ \<Rightarrow> Some (-1, alltags, notag, []))"

definition iscanner_test_end :: "bool \<Rightarrow> sym \<Rightarrow> sym option \<Rightarrow> sym option \<Rightarrow> (int \<times> string list) option" where
  "iscanner_test_end extended alltags ctag keys =
     (case (ctag, keys) of
        (Some c, Some k) \<Rightarrow> do {
          (_, c') \<leftarrow> sym_put (Some c) ''_keys'' (Table k) 0;
          c \<leftarrow> c';
          tag_report extended c k }
      | _ \<Rightarrow> Some (-1, []))"

definition test_end :: "scan \<Rightarrow> scan option" where
  "test_end st =
     (if sc_iscan st
      then do {
        (_, ls) \<leftarrow> iscanner_test_end (sc_extended st) (sc_tags st) (sc_ctag st) (sc_keys st);
        Some (st\<lparr>sc_out := sc_out st @ ls\<rparr>) }
      else do {
        (_, t, notag, err) \<leftarrow> scanner_test_end (sc_tags st) (sc_ctag st) (sc_keys st) (sc_notag st);
        Some (st\<lparr>sc_tags := t, sc_notag := notag, sc_err := sc_err st @ err\<rparr>) })"

section \<open>The actions\<close>

definition put_keyword :: "string \<Rightarrow> string \<Rightarrow> scan \<Rightarrow> scan option" where
  "put_keyword key cont st = do {
     (_, ks) \<leftarrow> sym_put (sc_keys st) key (Datum cont) 0;
     Some (st\<lparr>sc_keys := ks\<rparr>) }"

definition rts_start_action :: "string \<Rightarrow> scan \<Rightarrow> scan option" where
  "rts_start_action yytext st =
     (let st = check_mode yytext [SCAN_OUTSIDE] (st\<lparr>sc_start := KEY\<rparr>)
      in Some (st\<lparr>sc_mode := SCAN_RTSKEY, sc_keys := Some newsym\<rparr>))"

definition rts_end_action :: "string \<Rightarrow> scan \<Rightarrow> scan option" where
  "rts_end_action yytext st =
     (let st = check_mode yytext [SCAN_RTSKEY] (st\<lparr>sc_start := INITIAL\<rparr>)
      in do {
        (_, t) \<leftarrow> sym_put (Some (sc_tags st)) ''_RTS'' (case sc_keys st of None \<Rightarrow> Nul | Some k \<Rightarrow> Table k) PUT_REPLACE;
        t \<leftarrow> t;
        Some (st\<lparr>sc_mode := SCAN_OUTSIDE, sc_tags := t, sc_keys := None\<rparr>) })"

definition start_action :: "string \<Rightarrow> scan \<Rightarrow> scan option" where
  "start_action yytext st =
     (let st = check_mode yytext [SCAN_OUTSIDE] (st\<lparr>sc_start := KEY\<rparr>)
      in do {
        st \<leftarrow> put_keyword ''_Start_line'' (show_int (sc_lineno st)) (st\<lparr>sc_mode := SCAN_TSTKEY, sc_keys := Some newsym\<rparr>);
        Some (st\<lparr>sc_ctag := Some newsym\<rparr>) })"

text \<open>\<open>test_output\<close>: \<open>strncasecmp\<close> of the analysis type with \<open>cuts\<close>.\<close>

definition lower :: "char \<Rightarrow> char" where
  "lower c = (if c \<in> set ''ABCDEFGHIJKLMNOPQRSTUVWXYZ'' then char_of (of_char c + 32 :: nat) else c)"

definition test_output :: "sym option \<Rightarrow> bool option" where
  "test_output keys = do {
     at \<leftarrow> get_str keys ''analysis'';
     Some (case at of None \<Rightarrow> False | Some at \<Rightarrow> map lower (take 4 at) = ''cuts'') }"

definition output_action :: "string \<Rightarrow> scan \<Rightarrow> scan option" where
  "output_action yytext st =
     (let st = check_mode yytext [SCAN_TSTKEY] st
      in do {
        cuts \<leftarrow> test_output (sc_keys st);
        Some (st\<lparr>sc_mode := SCAN_OUTPUT, sc_start := if cuts then CUTS else OUT\<rparr>) })"

definition status_action :: "string \<Rightarrow> scan \<Rightarrow> scan option" where
  "status_action yytext st =
     (let st = check_mode yytext [SCAN_TSTKEY, SCAN_OUTPUT] (st\<lparr>sc_start := KEY\<rparr>)
      in Some (st\<lparr>sc_mode := SCAN_TSTKEY\<rparr>))"

definition end_action :: "string \<Rightarrow> scan \<Rightarrow> scan option" where
  "end_action yytext st =
     (let st = check_mode yytext [SCAN_TSTKEY] (st\<lparr>sc_start := INITIAL\<rparr>)
      in do {
        st \<leftarrow> put_keyword ''_End_line'' (show_int (sc_lineno st)) (st\<lparr>sc_mode := SCAN_OUTSIDE\<rparr>);
        st \<leftarrow> test_end st;
        Some (st\<lparr>sc_ctag := None, sc_keys := None\<rparr>) })"

text \<open>The text of a keyword is cut at the first \<open>=\<close>.\<close>

definition key_part :: "string \<Rightarrow> string" where "key_part y = takeWhile (\<lambda>c. c \<noteq> CHR ''='') y"
definition cont_part :: "string \<Rightarrow> string" where "cont_part y = tl (dropWhile (\<lambda>c. c \<noteq> CHR ''='') y)"

definition unquote :: "string \<Rightarrow> string" where
  "unquote s = (let s = (if s \<noteq> [] \<and> hd s = QUOTE then tl s else s)
                in if s \<noteq> [] \<and> last s = QUOTE then butlast s else s)"

fun lex_action :: "lex_rule \<Rightarrow> string \<Rightarrow> scan \<Rightarrow> scan option" where
  "lex_action Rts_start y st = rts_start_action y st"
| "lex_action Rts_end y st = rts_end_action y st"
| "lex_action Start y st = start_action y st"
| "lex_action Output y st = output_action y st"
| "lex_action Status y st = status_action y st"
| "lex_action End y st = end_action y st"
| "lex_action Quoted y st = put_keyword (key_part y) (unquote (cont_part y)) st"
| "lex_action Keyword y st = put_keyword (key_part y) (cont_part y) st"
| "lex_action Cuts_result y st = do { c \<leftarrow> cuts_testcase y (sc_ctag st); Some (st\<lparr>sc_ctag := c\<rparr>) }"
| "lex_action Cuts_range y st = do { c \<leftarrow> cuts_testcase y (sc_ctag st); Some (st\<lparr>sc_ctag := c\<rparr>) }"
| "lex_action Blanks y st = Some st"
| "lex_action Text_line y st = Some st"
| "lex_action Any_char y st = Some st"
| "lex_action Newline y st = Some st"

section \<open>Reading\<close>

text \<open>The line number counts the newlines that were matched.\<close>

definition lex_token :: "lex_rule \<Rightarrow> string \<Rightarrow> scan \<Rightarrow> scan option" where
  "lex_token r y st = lex_action r y (st\<lparr>sc_lineno := sc_lineno st + int (count_list y NL)\<rparr>)"

function scan_text :: "string \<Rightarrow> bool \<Rightarrow> scan \<Rightarrow> scan option" where
  "scan_text s bol st =
     (if s = [] then Some st
      else (case lex_next (sc_start st) bol s of
          None \<Rightarrow> None
        | Some (r, y, rest) \<Rightarrow> do { st \<leftarrow> lex_token r y st; scan_text rest (last y = NL) st }))"
  by pat_completeness auto
termination
proof (relation "measure (\<lambda>(s, bol, st). length s)")
  fix s bol and st st' :: scan and x and r :: lex_rule and yr y rest
  assume a: "s \<noteq> []" "lex_next (sc_start st) bol s = Some x" "(r, yr) = x" "(y, rest) = yr"
  obtain r' y' rest' where "lex_next (sc_start st) bol s = Some (r', y', rest')" "s = y' @ rest'" "y' \<noteq> []"
    using lex_some [OF a(1)] by metis
  with a show "((rest, last y = NL, st'), (s, bol, st)) \<in> measure (\<lambda>(s, bol, st). length s)" by auto
qed simp

declare scan_text.simps [simp del]

text \<open>\<open>lex_files\<close>, \<open>yywrap\<close>: a file has a name and its contents, \<open>None\<close> when it cannot be opened. A file
  that is not the first and cannot be opened ends the reading.\<close>

fun scan_files :: "(string \<times> string option) list \<Rightarrow> scan \<Rightarrow> scan option" where
  "scan_files [] st = Some st"
| "scan_files ((name, Some s) # fs) st = do {
     st \<leftarrow> scan_text s True (st\<lparr>sc_lineno := 1\<rparr>);
     scan_files fs st }"
| "scan_files ((name, None) # fs) st = Some (st\<lparr>sc_out := sc_out st @ [''Error opening '' @ name @ '' for reading'']\<rparr>)"

section \<open>The report of all tags\<close>

partial_function (option) tag_names :: "string symh \<Rightarrow> string \<Rightarrow> string list option" where
  "tag_names h k = do {
     (r, e, h) \<leftarrow> sym_seq h [] R_NEXT;
     (case e of
        None \<Rightarrow> Some [k]
      | Some (k', d) \<Rightarrow> do { ks \<leftarrow> tag_names h k'; Some (k # ks) }) }"

declare tag_names.simps [code]

text \<open>The first start time. The key is built in an array of \<open>KEYSIZE\<close> characters.\<close>

fun find_stime :: "sym \<Rightarrow> string list \<Rightarrow> string option option" where
  "find_stime tags [] = Some None"
| "find_stime tags (t # ts) =
     (if KEYSIZE \<le> length (t @ '',_keys,stime'') then None
      else do {
        info \<leftarrow> get_str (Some tags) (t @ '',_keys,stime'');
        (case info of None \<Rightarrow> find_stime tags ts | Some s \<Rightarrow> Some (Some s)) })"

text \<open>A tag without \<open>_keys\<close> ends the report.\<close>

fun report_tags :: "bool \<Rightarrow> sym \<Rightarrow> string list \<Rightarrow> string list option" where
  "report_tags extended tags [] = Some []"
| "report_tags extended tags (t # ts) =
     (if t = ''_RTS'' then report_tags extended tags ts
      else if KEYSIZE \<le> length (t @ '',_keys'') then None
      else do {
        d \<leftarrow> sym_get (Some tags) (t @ '',_keys'');
        (case d of
           Nul \<Rightarrow> Some []
         | Datum _ \<Rightarrow> None
         | Table k \<Rightarrow> do {
             c \<leftarrow> sym_get (Some tags) t;
             ls \<leftarrow> (case c of Nul \<Rightarrow> Some [] | Datum _ \<Rightarrow> None | Table c \<Rightarrow> map_option snd (tag_report extended c k));
             ls' \<leftarrow> report_tags extended tags ts;
             Some (ls @ ls') }) })"

text \<open>\<open>date_of\<close> is \<open>gmtime\<close> and \<open>strftime\<close> with \<open>%x\<close>. An empty table leaves the first name uninitialised. The result has the
  header, which goes to the error output with \<open>-e\<close>, and the lines of the tags.\<close>

definition scanner_reporter :: "(int \<Rightarrow> string) \<Rightarrow> bool \<Rightarrow> sym \<Rightarrow> (string list \<times> string list) option" where
  "scanner_reporter date_of extended tags = do {
     (r, e, h) \<leftarrow> sym_seq \<lparr>sym_tab = tags, cursor = None\<rparr> [] R_FIRST;
     (k, d) \<leftarrow> e;
     taglist \<leftarrow> tag_names h k;
     stime \<leftarrow> find_stime tags taglist;
     tags \<leftarrow> (case stime of
        None \<Rightarrow> Some tags
      | Some info \<Rightarrow> do {
          (_, t) \<leftarrow> sym_put (Some tags) ''_RTS,date'' (Datum (date_of (atoi info))) 0;
          t });
     header \<leftarrow> print_header tags;
     ls \<leftarrow> report_tags extended tags taglist;
     Some (header, ls) }"

section \<open>The program\<close>

definition scan_init :: "bool \<Rightarrow> bool \<Rightarrow> scan" where
  "scan_init extended iscan = \<lparr>sc_extended = extended, sc_iscan = iscan, sc_start = INITIAL, sc_mode = SCAN_OUTSIDE,
     sc_lineno = 1, sc_keys = None, sc_ctag = None, sc_tags = newsym, sc_notag = 0, sc_out = [], sc_err = []\<rparr>"

text \<open>\<open>main\<close> after the options. The result has the exit code, the lines on the output and on the error output.\<close>

definition ltp_scanner ::
  "(int \<Rightarrow> string) \<Rightarrow> bool \<Rightarrow> bool \<Rightarrow> string \<Rightarrow> (string \<times> string option) list \<Rightarrow> (int \<times> string list \<times> string list) option" where
  "ltp_scanner date_of extended iscan stdin files =
     (case files of
        (name, None) # _ \<Rightarrow> Some (1, [''Error opening '' @ name @ '' for reading''], [])
      | _ \<Rightarrow> do {
          st \<leftarrow> (if files = [] then scan_text stdin True (scan_init extended iscan)
                else scan_files files (scan_init extended iscan));
          if iscan then Some (0, sc_out st, sc_err st)
          else do {
            (header, ls) \<leftarrow> scanner_reporter date_of extended (sc_tags st);
            Some (0, sc_out st @ (if extended then [] else header) @ ls, sc_err st @ (if extended then header else [])) } })"

end
