(* ===== verification/Scanner_Lex.thy ===== *)
theory Scanner_Lex
  imports Scanner
begin

text \<open>
  What the lexical rules of \<^verbatim>\<open>scan.l\<close> match: one lemma for each kind of input, collected in \<open>lex_simps\<close>, and the steps of
  \<open>scan_text\<close> over markers, keywords and lines of output.
\<close>

named_theorems lex_simps \<open>matches of the lexical rules\<close>

definition marker_text :: "lex_rule \<Rightarrow> string" where
  "marker_text r =
     (case r of
        Rts_start \<Rightarrow> ''<<<rts_keyword_start>>>'' | Rts_end \<Rightarrow> ''<<<rts_keyword_end>>>''
      | Start \<Rightarrow> ''<<<test_start>>>'' | Output \<Rightarrow> ''<<<test_output>>>''
      | Status \<Rightarrow> ''<<<execution_status>>>'' | End \<Rightarrow> ''<<<test_end>>>'' | _ \<Rightarrow> [])"

lemma markers_set: "r \<in> set markers \<longleftrightarrow> r \<in> {Rts_start, Rts_end, Start, Output, Status, End}"
  by (simp add: markers_def)

lemma match_marker: "r \<in> set markers \<Longrightarrow> match_rest r s = lit (marker_text r) s"
  by (auto simp: markers_set marker_text_def)

lemma lit_append [lex_simps]: "lit t (t @ s) = Some s"
  by (simp add: lit_def)

lemma lit_Nil [lex_simps]: "lit [] s = Some s"
  by (simp add: lit_def)

lemma lit_Cons [lex_simps]: "lit (c # t) (d # s) = (if c = d then lit t s else None)"
  by (auto simp: lit_def)

lemma lit_Cons_Nil [lex_simps]: "lit (c # t) [] = None"
  by (simp add: lit_def)

lemma litE: "lit t s = Some r \<Longrightarrow> s = t @ r"
  by (metis append_take_drop_id lit_def option.distinct(1) option.inject)

lemma some_ofE:
  assumes "some_of P s = Some r"
  obtains w where "s = w @ r" "w \<noteq> []" "\<forall>c \<in> set w. P c" "r = [] \<or> \<not> P (hd r)"
proof
  from assms have s: "s \<noteq> []" "P (hd s)" "r = dropWhile P s" by (auto simp: some_of_def split: if_splits)
  show "s = takeWhile P s @ r" using s(3) by simp
  show "takeWhile P s \<noteq> []" using s(1,2) by (cases s) auto
  show "\<forall>c \<in> set (takeWhile P s). P c" by (auto dest: set_takeWhileD)
  show "r = [] \<or> \<not> P (hd r)" using s(3) hd_dropWhile by blast
qed

lemma some_of_append [lex_simps]:
  "w \<noteq> [] \<Longrightarrow> \<forall>c \<in> set w. P c \<Longrightarrow> r = [] \<or> \<not> P (hd r) \<Longrightarrow> some_of P (w @ r) = Some r"
  by (cases w; cases r) (auto simp: some_of_def dropWhile_append2)

lemma some_of_none [lex_simps]: "s = [] \<or> \<not> P (hd s) \<Longrightarrow> some_of P s = None"
  by (auto simp: some_of_def)

text \<open>Choosing the longest match.\<close>

lemma longest_append:
  "longest m (rs @ rs') =
     (case (longest m rs, longest m rs') of
        (None, b) \<Rightarrow> b | (a, None) \<Rightarrow> a
      | (Some (r, n, k), Some (r', n', k')) \<Rightarrow> if n' \<le> n then Some (r, n, k) else Some (r', n', k'))"
proof (induction rs)
  case (Cons r rs)
  show ?case
    by (cases "m r"; cases "longest m rs"; cases "longest m rs'") (auto simp: Cons split: if_splits)
qed simp

lemma longest_first:
  assumes "m r = Some (n, k)" "\<forall>r' \<in> set rs. m r' = None" "\<forall>r' \<in> set rs'. \<forall>n' k'. m r' = Some (n', k') \<longrightarrow> n' \<le> n"
  shows "longest m (rs @ r # rs') = Some (r, n, k)"
proof -
  have "longest m (r # rs') = Some (r, n, k)"
    using assms(1,3) longest_in [of m rs'] by (cases "longest m rs'") auto
  with assms(2) show ?thesis by (simp add: longest_append longest_None [THEN iffD2])
qed

text \<open>A rule that is the only long one wins whatever its place.\<close>

lemma longest_only:
  assumes "r \<in> set rs" "distinct rs" "m r = Some (n, k)" "\<forall>r' \<in> set rs. r' \<noteq> r \<longrightarrow> (\<forall>n' k'. m r' = Some (n', k') \<longrightarrow> n' < n)"
  shows "longest m rs = Some (r, n, k)"
proof -
  obtain b where b: "longest m rs = Some b" using assms(1,3) longest_None [of m rs] by fastforce
  obtain r' n' k' where "b = (r', n', k')" by (cases b)
  with b longest_in [of m rs r' n' k'] have "r' \<in> set rs" "m r' = Some (n', k')" "n \<le> n'" using assms(1,3) by auto
  with assms(3,4) have "r' = r" by fastforce
  with b \<open>b = _\<close> \<open>m r' = _\<close> assms(3) show ?thesis by auto
qed

lemma match_rule_plain: "\<not> at_bol r \<Longrightarrow> \<not> at_eol r \<Longrightarrow>
    match_rule bol s r = map_option (\<lambda>rest. (length s - length rest, length s - length rest)) (match_rest r s)"
  by (auto simp: match_rule_def Let_def map_option_case bind_eq_Some_conv split: option.split)

lemma no_marker:
  assumes "s = [] \<or> hd s \<noteq> CHR ''<'' \<or> \<not> bol" "r \<in> set markers"
  shows "match_rule bol s r = None"
proof -
  have "\<exists>t. marker_text r = CHR ''<'' # t" using assms(2) by (auto simp: markers_set marker_text_def)
  then have "lit (marker_text r) s = None \<or> \<not> bol" using assms(1) by (cases s) (auto simp: lex_simps)
  moreover have "at_bol r" using assms(2) by (simp add: at_bol_def)
  ultimately show ?thesis using match_marker [OF assms(2)] by (auto simp: match_rule_def)
qed

lemmas rule_kinds = at_bol_def at_eol_def markers_def

text \<open>The default rules.\<close>

lemma match_any: "match_rule bol s Any_char = (if s \<noteq> [] \<and> hd s \<noteq> NL then Some (1, 1) else None)"
  by (cases s) (auto simp: match_rule_plain rule_kinds)

lemma match_newline: "match_rule bol s Newline = (if s \<noteq> [] \<and> hd s = NL then Some (1, 1) else None)"
  by (cases s) (auto simp: match_rule_plain rule_kinds lex_simps)

lemma match_default:
  "match_rule bol s Any_char = Some (n, k) \<Longrightarrow> n = 1" "match_rule bol s Newline = Some (n, k) \<Longrightarrow> n = 1"
  by (auto simp: match_any match_newline split: if_splits)

section \<open>Matches\<close>

lemma other_marker:
  "r \<in> set markers \<Longrightarrow> r' \<in> set markers \<Longrightarrow> r' \<noteq> r \<Longrightarrow> match_rule bol (marker_text r @ NL # rest) r' = None"
  by (auto simp: markers_set marker_text_def match_rule_def match_marker lex_simps)

lemma marker_text_chars:
  assumes "r \<in> set markers"
  shows "NL \<notin> set (marker_text r)" "marker_text r \<noteq> []" "hd (marker_text r) = CHR ''<''"
  using assms by (auto simp: markers_set marker_text_def)

lemma not_key_char: "\<not> is_key_char CHR ''<''" "\<not> is_key_char NL" "\<not> is_key_char CHR '' ''" "\<not> is_key_char TAB" "\<not> is_key_char CHR ''=''"
  by (simp_all add: is_key_char_def is_letter_def)

lemma not_word_char: "\<not> is_word_char CHR ''<''" "\<not> is_word_char NL"
  by (simp_all add: is_word_char_def is_digit_def not_key_char)

lemma match_no_key:
  assumes "s = [] \<or> \<not> is_key_char (hd s)"
  shows "match_rule bol s Quoted = None" "match_rule bol s Keyword = None"
  using assms by (simp_all add: match_rule_def lex_simps)

lemma match_no_word:
  assumes "s = [] \<or> \<not> is_word_char (hd s)"
  shows "match_rule bol s Cuts_result = None" "match_rule bol s Cuts_range = None"
  using assms by (simp_all add: match_rule_def lex_simps)

lemma match_blanks: "match_rule bol s Blanks = (let n = length (takeWhile (\<lambda>c. lex_space c \<or> c = NL) s) in Some (n, n))"
proof -
  have "length s - length (dropWhile P s) = length (takeWhile P s)" for P
    by (metis add_diff_cancel_right' length_append takeWhile_dropWhile_id)
  then show ?thesis by (simp add: match_rule_plain rule_kinds Let_def)
qed

lemma match_text_line:
  "l \<noteq> [] \<Longrightarrow> NL \<notin> set l \<Longrightarrow> match_rule True (l @ NL # rest) Text_line = Some (length l + 1, length l)"
proof -
  assume "l \<noteq> []" "NL \<notin> set l"
  then have "match_rest Text_line (l @ NL # rest) = Some (NL # rest)"
    by (auto simp only: match_rest.simps list.sel intro!: some_of_append)
  then show ?thesis by (simp add: match_rule_def rule_kinds Let_def)
qed

lemma lex_marker:
  assumes "r \<in> set markers"
  shows "lex_next c True (marker_text r @ NL # rest) = Some (r, marker_text r, NL # rest)"
proof -
  let ?s = "marker_text r @ NL # rest" and ?n = "length (marker_text r)"
  obtain us vs where m: "markers = us @ r # vs" "r \<notin> set us" using split_list_first [OF assms] by auto
  have "distinct (us @ r # vs)" by (simp flip: m(1)) (simp add: markers_def)
  then have "r' \<in> set markers \<and> r' \<noteq> r" if "r' \<in> set us \<union> set vs" for r'
    using that by (auto simp: m(1))
  then have rest: "\<forall>r' \<in> set us \<union> set vs. match_rule True ?s r' = None"
    using other_marker [OF assms] by blast
  define ws where "ws = (case c of INITIAL \<Rightarrow> [] | KEY \<Rightarrow> [Quoted, Keyword, Blanks] | OUT \<Rightarrow> [Text_line] | CUTS \<Rightarrow> [Cuts_result, Cuts_range]) @ [Any_char, Newline]"
  have la: "lex_active c = us @ r # (vs @ ws)" by (simp add: lex_active_def m(1) ws_def)
  note hd_s = marker_text_chars [OF assms]
  then have s: "hd ?s = CHR ''<''" by simp
  have r: "match_rule True ?s r = Some (?n + 1, ?n)"
    using assms by (auto simp: match_rule_def match_marker [OF assms] lex_simps rule_kinds Let_def)
  have "n' \<le> ?n + 1" if "r' \<in> set ws" "match_rule True ?s r' = Some (n', k')" for r' n' k'
  proof -
    have "match_rule True ?s Blanks = Some (0, 0)"
      using hd_s(2) s by (cases "marker_text r") (auto simp: match_blanks lex_space_def)
    then show ?thesis
      using that match_no_key [of ?s True] match_no_word [of ?s True] s match_text_line [OF hd_s(2,1), of rest]
      by (cases c) (auto simp: ws_def not_key_char not_word_char dest: match_default)
  qed
  then have "longest (match_rule True ?s) (lex_active c) = Some (r, ?n + 1, ?n)"
    unfolding la using rest r by (intro longest_first) auto
  then show ?thesis by (simp add: lex_next_def)
qed

lemma lex_newline:
  assumes "c \<noteq> KEY"
  shows "lex_next c bol (NL # rest) = Some (Newline, [NL], rest)"
proof -
  let ?s = "NL # rest"
  have "match_rule bol ?s r' = None" if "r' \<in> set (lex_active c)" "r' \<noteq> Newline" for r'
    using that assms no_marker [of ?s bol r'] match_no_word [of ?s bol]
    by (cases c) (auto simp: lex_active_def not_word_char match_any match_rule_def lex_simps)
  moreover have "distinct (lex_active c)" "Newline \<in> set (lex_active c)"
    by (cases c; simp add: lex_active_def markers_def)+
  ultimately have "longest (match_rule bol ?s) (lex_active c) = Some (Newline, 1, 1)"
    by (intro longest_only) (auto simp: match_newline)
  then show ?thesis by (simp add: lex_next_def)
qed

lemma line_unique: "l @ x # a = m @ x # b \<Longrightarrow> x \<notin> set l \<Longrightarrow> x \<notin> set m \<Longrightarrow> l = m"
proof (induction l arbitrary: m)
  case Nil
  then show ?case by (cases m) auto
next
  case (Cons c l)
  then show ?case by (cases m) auto
qed

lemma lex_text_line:
  assumes "l \<noteq> []" "NL \<notin> set l" "l \<notin> marker_text ` set markers"
  shows "lex_next OUT True (l @ NL # rest) = Some (Text_line, l, NL # rest)"
proof -
  let ?s = "l @ NL # rest"
  have no: "match_rule True ?s r = None" if r: "r \<in> set markers" for r
  proof (rule ccontr)
    assume a: "match_rule True ?s r \<noteq> None"
    have e: "at_eol r" using r by (simp add: at_eol_def)
    obtain q where q: "lit (marker_text r) ?s = Some q"
      using a by (cases "lit (marker_text r) ?s") (simp_all add: match_rule_def match_marker [OF r])
    with a e have "take 1 q = [NL]"
      by (simp add: match_rule_def match_marker [OF r] Let_def split: if_splits)
    then obtain q' where "q = NL # q'" by (cases q) auto
    with litE [OF q] have "l @ NL # rest = marker_text r @ NL # q'" by simp
    then have "l = marker_text r"
      using assms(2) marker_text_chars(1) [OF r] by (rule line_unique)
    with assms(3) r show False by blast
  qed
  have less: "n' < length l + 1" if "r' \<in> set (lex_active OUT)" "r' \<noteq> Text_line" "match_rule True ?s r' = Some (n', k')" for r' n' k'
  proof -
    from that no [of r'] have "r' \<in> {Any_char, Newline}" by (auto simp: lex_active_def)
    with that(3) have "n' = 1" by (auto dest: match_default)
    with assms(1) show ?thesis by (cases l) auto
  qed
  have "longest (match_rule True ?s) (lex_active OUT) = Some (Text_line, length l + 1, length l)"
  proof (rule longest_only)
    show "Text_line \<in> set (lex_active OUT)" "distinct (lex_active OUT)" by (simp_all add: lex_active_def markers_def)
    show "match_rule True ?s Text_line = Some (length l + 1, length l)" by (rule match_text_line [OF assms(1,2)])
  qed (use less in blast)
  then show ?thesis by (simp add: lex_next_def)
qed

text \<open>The key state.\<close>

definition is_gap :: "char \<Rightarrow> bool" where "is_gap c \<longleftrightarrow> lex_space c \<or> c = NL"

lemma gap_chars: "is_gap NL" "is_gap CHR '' ''" "is_gap TAB"
  by (simp_all add: is_gap_def lex_space_def)

lemma key_not_gap: "is_key_char c \<Longrightarrow> \<not> is_gap c \<and> c \<noteq> CHR ''<'' \<and> c \<noteq> CHR ''=''"
  using not_key_char by (auto simp: is_gap_def lex_space_def)

lemma lex_gap:
  assumes "w \<noteq> []" "\<forall>c \<in> set w. is_gap c" "rest = [] \<or> \<not> is_gap (hd rest)"
  shows "lex_next KEY bol (w @ rest) = Some (Blanks, w, rest)"
proof -
  let ?m = "match_rule bol (w @ rest)"
  have hd: "is_gap (hd (w @ rest))" using assms(1,2) by (cases w) auto
  have "takeWhile is_gap (w @ rest) = w" using assms(2,3) by (cases rest) auto
  then have b: "?m Blanks = Some (length w, length w)" by (simp add: match_blanks is_gap_def [abs_def] Let_def)
  have "longest ?m ((markers @ [Quoted, Keyword]) @ Blanks # [Any_char, Newline]) = Some (Blanks, length w, length w)"
  proof (rule longest_first)
    have "\<not> is_key_char (hd (w @ rest))" "hd (w @ rest) \<noteq> CHR ''<''"
      using hd key_not_gap by (auto simp: is_gap_def lex_space_def)
    then show "\<forall>r' \<in> set (markers @ [Quoted, Keyword]). ?m r' = None"
      using no_marker [of "w @ rest" bol] match_no_key [of "w @ rest" bol] by auto
    have "1 \<le> length w" using assms(1) by (cases w) auto
    then show "\<forall>r' \<in> set [Any_char, Newline]. \<forall>n' k'. ?m r' = Some (n', k') \<longrightarrow> n' \<le> length w"
      by (auto dest: match_default)
  qed (rule b)
  then show ?thesis by (simp add: lex_next_def lex_active_def)
qed

lemma match_keyword:
  assumes "k \<noteq> []" "\<forall>c \<in> set k. is_key_char c"
  shows "match_rule bol (k @ CHR ''='' # x) Keyword =
      (if x \<noteq> [] \<and> \<not> is_gap (hd x) then (let n = length k + 1 + length (takeWhile (\<lambda>c. \<not> is_gap c) x) in Some (n, n)) else None)"
    and "match_rest Quoted (k @ CHR ''='' # x) =
      (if x \<noteq> [] \<and> hd x = QUOTE then some_of (\<lambda>c. c \<noteq> QUOTE \<and> c \<noteq> NL) (tl x) \<bind> lit [QUOTE] else None)"
proof -
  have k: "some_of is_key_char (k @ CHR ''='' # x) = Some (CHR ''='' # x)"
    using assms by (intro some_of_append) (auto simp: not_key_char)
  have "length x = length (takeWhile P x) + length (dropWhile P x)" for P
    by (metis length_append takeWhile_dropWhile_id)
  from this [of "\<lambda>c. \<not> is_gap c"] show "match_rule bol (k @ CHR ''='' # x) Keyword =
      (if x \<noteq> [] \<and> \<not> is_gap (hd x) then (let n = length k + 1 + length (takeWhile (\<lambda>c. \<not> is_gap c) x) in Some (n, n)) else None)"
    using k by (auto simp: match_rule_plain rule_kinds lex_simps some_of_def is_gap_def Let_def)
  show "match_rest Quoted (k @ CHR ''='' # x) =
      (if x \<noteq> [] \<and> hd x = QUOTE then some_of (\<lambda>c. c \<noteq> QUOTE \<and> c \<noteq> NL) (tl x) \<bind> lit [QUOTE] else None)"
    using k by (cases x) (auto simp: lex_simps)
qed

lemma lex_keyword:
  assumes "k \<noteq> []" "\<forall>c \<in> set k. is_key_char c" "v \<noteq> []" "\<forall>c \<in> set v. \<not> is_gap c"
    and "hd v = QUOTE \<longrightarrow> tl v \<noteq> [] \<and> hd (tl v) = QUOTE" "rest = [] \<or> is_gap (hd rest)"
  shows "lex_next KEY bol (k @ CHR ''='' # v @ rest) = Some (Keyword, k @ CHR ''='' # v, rest)"
proof -
  let ?s = "k @ CHR ''='' # v @ rest" and ?n = "length k + 1 + length v"
  let ?m = "match_rule bol ?s"
  obtain c k' where k: "k = c # k'" "is_key_char c" using assms(1,2) by (cases k) auto
  obtain d v' where v: "v = d # v'" "\<not> is_gap d" using assms(3,4) by (cases v) auto
  have "takeWhile (\<lambda>c. \<not> is_gap c) (v @ rest) = v" using assms(4,6) by (cases rest) auto
  then have m: "?m Keyword = Some (?n, ?n)"
    using match_keyword(1) [OF assms(1,2), of bol "v @ rest"] v by (simp add: Let_def)
  have q: "?m Quoted = None"
    using match_keyword(2) [OF assms(1,2), of "v @ rest"] assms(5) v by (auto simp: match_rule_def lex_simps)
  have "longest ?m ((markers @ [Quoted]) @ Keyword # [Blanks, Any_char, Newline]) = Some (Keyword, ?n, ?n)"
  proof (rule longest_first)
    show "\<forall>r' \<in> set (markers @ [Quoted]). ?m r' = None"
      using q no_marker [of ?s bol] k key_not_gap by auto
    have "?m Blanks = Some (0, 0)" using k key_not_gap by (auto simp: match_blanks is_gap_def [symmetric])
    then show "\<forall>r' \<in> set [Blanks, Any_char, Newline]. \<forall>n' k'. ?m r' = Some (n', k') \<longrightarrow> n' \<le> ?n"
      by (auto dest: match_default)
  qed (rule m)
  then show ?thesis by (simp add: lex_next_def lex_active_def)
qed

lemma lex_quoted:
  assumes "k \<noteq> []" "\<forall>c \<in> set k. is_key_char c" "v \<noteq> []" "QUOTE \<notin> set v" "NL \<notin> set v" "rest = [] \<or> is_gap (hd rest)"
  shows "lex_next KEY bol (k @ CHR ''='' # QUOTE # v @ QUOTE # rest) = Some (Quoted, k @ CHR ''='' # QUOTE # v @ [QUOTE], rest)"
proof -
  let ?s = "k @ CHR ''='' # QUOTE # v @ QUOTE # rest" and ?n = "length k + length v + 3"
  let ?m = "match_rule bol ?s"
  obtain c k' where k: "k = c # k'" "is_key_char c" using assms(1,2) by (cases k) auto
  have "some_of (\<lambda>c. c \<noteq> QUOTE \<and> c \<noteq> NL) (v @ QUOTE # rest) = Some (QUOTE # rest)"
    using assms(3-5) by (intro some_of_append) auto
  note v = this
  have "match_rest Quoted ?s = Some rest"
    by (subst match_keyword(2) [OF assms(1,2)]) (simp add: v lex_simps)
  then have m: "?m Quoted = Some (?n, ?n)" by (simp add: match_rule_plain rule_kinds)
  have "longest ?m (markers @ Quoted # [Keyword, Blanks, Any_char, Newline]) = Some (Quoted, ?n, ?n)"
  proof (rule longest_first)
    show "\<forall>r' \<in> set markers. ?m r' = None" using no_marker [of ?s bol] k key_not_gap by auto
    have b: "?m Blanks = Some (0, 0)" using k key_not_gap by (auto simp: match_blanks is_gap_def [symmetric])
    have "length (takeWhile (\<lambda>c. \<not> is_gap c) (u @ rest)) \<le> length u" for u
      using assms(6) by (induction u) (cases rest, auto)
    from this [of "QUOTE # v @ [QUOTE]"] have "n' \<le> ?n" if "?m Keyword = Some (n', j)" for n' j
      using that match_keyword(1) [OF assms(1,2), of bol "QUOTE # v @ QUOTE # rest"]
      by (auto simp: Let_def split: if_splits)
    with b show "\<forall>r' \<in> set [Keyword, Blanks, Any_char, Newline]. \<forall>n' k'. ?m r' = Some (n', k') \<longrightarrow> n' \<le> ?n"
      by (auto dest: match_default)
  qed (rule m)
  moreover have "take ?n ?s = k @ CHR ''='' # QUOTE # v @ [QUOTE]" "drop ?n ?s = rest" by (simp_all add: numeral_3_eq_3)
  ultimately show ?thesis by (simp add: lex_next_def lex_active_def)
qed

section \<open>Steps of the scanner\<close>

named_theorems scan_simps \<open>steps of scan_text\<close>

lemma scan_step:
  "lex_next (sc_start st) bol s = Some (r, y, rest) \<Longrightarrow> s \<noteq> [] \<Longrightarrow>
   scan_text s bol st = lex_token r y st \<bind> scan_text rest (last y = NL)"
  by (subst scan_text.simps) (simp add: Let_def)

lemma scan_Nil [scan_simps]: "scan_text [] bol st = Some st"
  by (simp add: scan_text.simps)

lemma no_newline: "NL \<notin> set y \<Longrightarrow> count_list y NL = 0"
  by simp

lemma scan_marker:
  assumes "r \<in> set markers"
  shows "scan_text (marker_text r @ NL # rest) True st = lex_action r (marker_text r) st \<bind> scan_text (NL # rest) False"
proof -
  have "last (marker_text r) \<noteq> NL"
    using marker_text_chars [OF assms] last_in_set [of "marker_text r"] by metis
  then show ?thesis
    using scan_step [of st True] lex_marker [OF assms, of "sc_start st" rest] marker_text_chars [OF assms]
    by (simp add: lex_token_def)
qed

lemma scan_newline:
  assumes "sc_start st = KEY \<longrightarrow> rest = [] \<or> \<not> is_gap (hd rest)"
  shows "scan_text (NL # rest) bol st = scan_text rest True (st\<lparr>sc_lineno := sc_lineno st + 1\<rparr>)"
proof (cases "sc_start st = KEY")
  case True
  with scan_step [of st bol "NL # rest" Blanks "[NL]" rest] lex_gap [of "[NL]" rest bol] assms
  show ?thesis by (simp add: gap_chars lex_token_def)
next
  case False
  with scan_step [of st bol "NL # rest" Newline "[NL]" rest] lex_newline [of "sc_start st" bol rest] show ?thesis by (simp add: lex_token_def)
qed

lemma scan_blank:
  assumes "sc_start st = KEY" "rest = [] \<or> \<not> is_gap (hd rest)"
  shows "scan_text (CHR '' '' # rest) bol st = scan_text rest False st"
  using scan_step [of st bol "CHR '' '' # rest" Blanks "'' ''" rest] lex_gap [of "'' ''" rest bol] assms
  by (simp add: gap_chars lex_token_def)

lemma key_cont:
  assumes "\<forall>c \<in> set k. is_key_char c"
  shows "key_part (k @ CHR ''='' # v) = k" "cont_part (k @ CHR ''='' # v) = v"
proof -
  have "\<forall>c \<in> set k. c \<noteq> CHR ''=''" using assms key_not_gap by blast
  then show "key_part (k @ CHR ''='' # v) = k" "cont_part (k @ CHR ''='' # v) = v"
    by (induction k) (auto simp: key_part_def cont_part_def)
qed

lemma key_no_newline: "\<forall>c \<in> set k. is_key_char c \<Longrightarrow> NL \<notin> set k"
  using not_key_char by blast

lemma scan_keyword:
  assumes "sc_start st = KEY" "k \<noteq> []" "\<forall>c \<in> set k. is_key_char c" "v \<noteq> []" "\<forall>c \<in> set v. \<not> is_gap c"
    and "hd v = QUOTE \<longrightarrow> tl v \<noteq> [] \<and> hd (tl v) = QUOTE" "rest = [] \<or> is_gap (hd rest)"
  shows "scan_text (k @ CHR ''='' # v @ rest) bol st = put_keyword k v st \<bind> scan_text rest False"
proof -
  have "NL \<notin> set v" using assms(5) gap_chars by blast
  moreover from this have "last v \<noteq> NL" using assms(4) last_in_set by metis
  ultimately show ?thesis
    using scan_step [of st bol] lex_keyword [OF assms(2-7), of bol] assms(1,4) key_no_newline [OF assms(3)]
    by (simp add: lex_token_def key_cont [OF assms(3)])
qed

lemma scan_quoted:
  assumes "sc_start st = KEY" "k \<noteq> []" "\<forall>c \<in> set k. is_key_char c" "v \<noteq> []" "QUOTE \<notin> set v" "NL \<notin> set v"
    and "rest = [] \<or> is_gap (hd rest)"
  shows "scan_text (k @ CHR ''='' # QUOTE # v @ QUOTE # rest) bol st = put_keyword k v st \<bind> scan_text rest False"
proof -
  have "unquote (QUOTE # v @ [QUOTE]) = v" by (simp add: unquote_def)
  then show ?thesis
    using scan_step [of st bol] lex_quoted [OF assms(2-7), of bol] assms(1,6) key_no_newline [OF assms(3)]
    by (simp add: lex_token_def key_cont [OF assms(3)])
qed

lemma put_keyword_new:
  assumes "sc_keys st = Some t" "plain_key k" "k \<notin> fst ` set t"
  shows "put_keyword k v st = Some (st\<lparr>sc_keys := Some (t @ [(k, Datum v)])\<rparr>)"
proof -
  have "split_key k = Some [k]" using split_key_join [of "[k]"] assms(2) by (simp add: plain_key_def)
  then show ?thesis using assms(1,3) by (simp add: put_keyword_def sym_put_def find_None_iff [symmetric] add_key_def)
qed

text \<open>Lines of output that are not markers change nothing but the line number.\<close>

definition plain_line :: "string \<Rightarrow> bool" where
  "plain_line l \<longleftrightarrow> NL \<notin> set l \<and> l \<notin> marker_text ` set markers"

lemma scan_output:
  assumes "\<forall>l \<in> set ls. plain_line l" "sc_start st = OUT"
  shows "scan_text (concat (map (\<lambda>l. l @ [NL]) ls) @ rest) True st = scan_text rest True (st\<lparr>sc_lineno := sc_lineno st + int (length ls)\<rparr>)"
  using assms
proof (induction ls arbitrary: st)
  case (Cons l ls)
  let ?rest = "concat (map (\<lambda>l. l @ [NL]) ls) @ rest"
  have "scan_text (l @ NL # ?rest) True st = scan_text (NL # ?rest) (l = []) st"
  proof (cases "l = []")
    case False
    then have "last l \<noteq> NL" using Cons.prems(1) last_in_set [of l] by (metis list.set_intros(1) plain_line_def)
    then show ?thesis
      using False Cons.prems scan_step [of st True "l @ NL # ?rest"] lex_text_line [of l ?rest]
      by (simp add: plain_line_def lex_token_def)
  qed simp
  also have "\<dots> = scan_text ?rest True (st\<lparr>sc_lineno := sc_lineno st + 1\<rparr>)"
    using Cons.prems(2) by (intro scan_newline) simp
  finally show ?case using Cons.IH [of "st\<lparr>sc_lineno := sc_lineno st + 1\<rparr>"] Cons.prems by (simp add: algebra_simps)
qed simp

end
