(* ===== verification/Scanner_Props.thy ===== *)
theory Scanner_Props
  imports Scanner_Lex Pan_Props
begin

text \<open>
  Properties of the scanner: the type of its state, the map that the table of tags refines, and the round trip of
  the driver's report through the scanner.
\<close>

section \<open>The report of the driver as text\<close>

text \<open>What \<open>write_test_start\<close> and \<open>write_test_end\<close> of \<^verbatim>\<open>ltp-pan.c\<close> print for the lines that the model of the driver keeps.\<close>

definition status_text :: "status \<Rightarrow> string" where
  "status_text s =
     (case s of Signaled \<Rightarrow> ''signaled'' | Exited \<Rightarrow> ''exited'' | Stopped \<Rightarrow> ''stopped''
      | Unknown \<Rightarrow> ''unknown'' | Driver_interrupt \<Rightarrow> ''driver_interrupt'')"

fun print_report :: "report_line \<Rightarrow> string" where
  "print_report (Test_start name mystime cmdline) =
     ''<<<test_start>>>'' @ [NL] @
     ''tag='' @ name @ '' stime='' @ show_int mystime @ [NL] @
     ''cmdline='' @ [QUOTE] @ cmdline @ [QUOTE, NL] @
     ''contacts='' @ [QUOTE, QUOTE, NL] @
     ''analysis=exit'' @ [NL] @
     ''<<<test_output>>>'' @ [NL]"
| "print_report (Test_output s) = s"
| "print_report (Test_end init_status duration term_type term_id core cu cs) =
     ''<<<execution_status>>>'' @ [NL] @
     ''initiation_status='' @ [QUOTE] @ init_status @ [QUOTE, NL] @
     ''duration='' @ show_int duration @ '' termination_type='' @ status_text term_type @
     '' termination_id='' @ show_int term_id @ '' corefile='' @ (if core then ''yes'' else ''no'') @ [NL] @
     ''cutime='' @ show_int cu @ '' cstime='' @ show_int cs @ [NL] @
     ''<<<test_end>>>'' @ [NL]"

section \<open>Scanning a block\<close>

lemma show_int_word: "\<forall>c \<in> set (show_int i). \<not> is_gap c" "hd (show_int i) \<noteq> QUOTE"
proof -
  have d: "d < 10 \<Longrightarrow> \<not> is_gap (digit_char d) \<and> digit_char d \<noteq> QUOTE" for d
    by (simp add: is_gap_def lex_space_def digit_char_def of_char_eq_iff [symmetric, where 'a = nat] del: of_char_eq_iff)
  show "\<forall>c \<in> set (show_int i). \<not> is_gap c"
    using d by (auto dest!: show_int_chars) (auto simp: is_gap_def lex_space_def)
  have "hd (show_int i) \<in> set (show_int i)" by simp
  from show_int_chars [OF this] show "hd (show_int i) \<noteq> QUOTE" using d by auto
qed

lemma status_text_word: "status_text s \<noteq> []" "\<forall>c \<in> set (status_text s). \<not> is_gap c" "hd (status_text s) \<noteq> QUOTE" "CHR '' '' \<notin> set (status_text s)"
  by (cases s; simp add: status_text_def is_gap_def lex_space_def)+

text \<open>Names of keywords as the pattern has them.\<close>

definition keyword_name :: "string \<Rightarrow> bool" where
  "keyword_name k \<longleftrightarrow> k \<noteq> [] \<and> (\<forall>c \<in> set k. is_key_char c)"

lemma keyword_plain: "keyword_name k \<Longrightarrow> plain_key k"
proof -
  have "\<not> is_key_char CHR '',''" by (simp add: is_key_char_def is_letter_def)
  then show "keyword_name k \<Longrightarrow> plain_key k" by (auto simp: keyword_name_def plain_key_def)
qed

lemma scan_new_keyword:
  assumes "sc_start st = KEY" "keyword_name k" "v \<noteq> []" "\<forall>c \<in> set v. \<not> is_gap c" "hd v \<noteq> QUOTE \<or> v = [QUOTE, QUOTE]"
    and "rest = [] \<or> is_gap (hd rest)" "sc_keys st = Some t" "k \<notin> fst ` set t"
  shows "scan_text (k @ CHR ''='' # v @ rest) bol st = scan_text rest False (st\<lparr>sc_keys := Some (t @ [(k, Datum v)])\<rparr>)"
  using scan_keyword [of st k v rest bol] put_keyword_new [of st t k v] assms keyword_plain [OF assms(2)]
  by (auto simp: keyword_name_def)

lemma scan_new_quoted:
  assumes "sc_start st = KEY" "keyword_name k" "v \<noteq> []" "QUOTE \<notin> set v" "NL \<notin> set v"
    and "rest = [] \<or> is_gap (hd rest)" "sc_keys st = Some t" "k \<notin> fst ` set t"
  shows "scan_text (k @ CHR ''='' # QUOTE # v @ QUOTE # rest) bol st = scan_text rest False (st\<lparr>sc_keys := Some (t @ [(k, Datum v)])\<rparr>)"
  using scan_quoted [of st k v rest bol] put_keyword_new [of st t k v] assms keyword_plain [OF assms(2)]
  by (auto simp: keyword_name_def)

definition block_keys :: "string \<Rightarrow> int \<Rightarrow> string \<Rightarrow> string \<Rightarrow> int \<Rightarrow> status \<Rightarrow> int \<Rightarrow> bool \<Rightarrow> int \<Rightarrow> int \<Rightarrow> int \<Rightarrow> int \<Rightarrow> sym" where
  "block_keys name mystime cmdline init_status duration term_type term_id core cu cs first_line last_line =
     [(''_Start_line'', Datum (show_int first_line)), (''tag'', Datum name), (''stime'', Datum (show_int mystime)),
      (''cmdline'', Datum cmdline), (''contacts'', Datum [QUOTE, QUOTE]), (''analysis'', Datum ''exit''),
      (''initiation_status'', Datum init_status), (''duration'', Datum (show_int duration)),
      (''termination_type'', Datum (status_text term_type)), (''termination_id'', Datum (show_int term_id)),
      (''corefile'', Datum (if core then ''yes'' else ''no'')), (''cutime'', Datum (show_int cu)),
      (''cstime'', Datum (show_int cs)), (''_End_line'', Datum (show_int last_line))]"

text \<open>A tag and a command line that the lexical rules read back.\<close>

definition scan_name :: "string \<Rightarrow> bool" where
  "scan_name name \<longleftrightarrow> name \<noteq> [] \<and> (\<forall>c \<in> set name. \<not> is_gap c) \<and> hd name \<noteq> QUOTE"

definition scan_command :: "string \<Rightarrow> bool" where
  "scan_command c \<longleftrightarrow> c \<noteq> [] \<and> QUOTE \<notin> set c \<and> NL \<notin> set c"

lemma keyword_names:
  "keyword_name ''tag''" "keyword_name ''stime''" "keyword_name ''cmdline''" "keyword_name ''contacts''" "keyword_name ''analysis''"
  "keyword_name ''initiation_status''" "keyword_name ''duration''" "keyword_name ''termination_type''" "keyword_name ''termination_id''"
  "keyword_name ''corefile''" "keyword_name ''cutime''" "keyword_name ''cstime''" "keyword_name ''_Start_line''" "keyword_name ''_End_line''"
  by (simp_all add: keyword_name_def is_key_char_def is_letter_def)

lemma Start_text: "''<<<test_start>>>'' = marker_text Start" and Output_text: "''<<<test_output>>>'' = marker_text Output"
  and Status_text: "''<<<execution_status>>>'' = marker_text Status" and End_text: "''<<<test_end>>>'' = marker_text End"
  by (simp_all add: marker_text_def)

lemma start_markers: "Start \<in> set markers" "Output \<in> set markers" "Status \<in> set markers" "End \<in> set markers"
  by (simp_all add: markers_def)

lemma gap_char_simps [simp]: "is_gap NL" "is_gap CHR '' ''" "\<not> is_gap CHR ''<''"
  by (simp_all add: gap_chars) (simp add: is_gap_def lex_space_def)

lemma key_first [simp]:
  "\<not> is_gap CHR ''t''" "\<not> is_gap CHR ''c''" "\<not> is_gap CHR ''a''" "\<not> is_gap CHR ''s''" "\<not> is_gap CHR ''i''" "\<not> is_gap CHR ''d''"
  "\<not> is_gap QUOTE" "\<not> is_gap CHR ''e''" "\<not> is_gap CHR ''x''" "\<not> is_gap CHR ''y''" "\<not> is_gap CHR ''n''" "\<not> is_gap CHR ''o''"
  by (simp_all add: is_gap_def lex_space_def)

lemma marker_hd: "r \<in> set markers \<Longrightarrow> \<not> is_gap (hd (marker_text r @ x))"
  using marker_text_chars [of r] by simp

lemmas scan_keywords =
  scan_new_keyword [OF _ keyword_names(1), simplified] scan_new_keyword [OF _ keyword_names(2), simplified]
  scan_new_quoted [OF _ keyword_names(3), simplified] scan_new_keyword [OF _ keyword_names(4), where v = "[QUOTE, QUOTE]", simplified]
  scan_new_keyword [OF _ keyword_names(5), where v = "''exit''", simplified]

lemma get_str_key: "plain_key k \<Longrightarrow> get_str (Some t) k = (case find_key1 t k of None \<Rightarrow> Some None | Some d \<Rightarrow> str_of d)"
proof -
  assume k: "plain_key k"
  then have "split_key k = Some [k]" using split_key_join [of "[k]"] by (simp add: plain_key_def)
  then show ?thesis by (simp add: get_str_def sym_get_def split: option.split)
qed

lemmas block_simps = scan_marker start_markers check_mode_def put_keyword_new keyword_plain keyword_names
  scan_newline scan_blank scan_keywords show_int_word newsym_def get_str_key marker_hd

lemma scan_start:
  assumes "sc_mode st = SCAN_OUTSIDE" "scan_name name" "scan_command cmdline"
  shows "scan_text (print_report (Test_start name mystime cmdline) @ rest) True st =
    scan_text rest True (st\<lparr>sc_ctag := Some newsym,
      sc_keys := Some (take 6 (block_keys name mystime cmdline i d tt ti core cu cs (sc_lineno st) e)),
      sc_mode := SCAN_OUTPUT, sc_start := OUT, sc_lineno := 6 + sc_lineno st\<rparr>)"
  using assms
  by (simp add: Start_text Output_text start_action_def output_action_def test_output_def lower_def block_simps scan_name_def scan_command_def
      block_keys_def SCAN_TSTKEY_def)

lemmas scan_status_keywords =
  scan_new_quoted [OF _ keyword_names(6), simplified] scan_new_keyword [OF _ keyword_names(7), simplified]
  scan_new_keyword [OF _ keyword_names(8), simplified] scan_new_keyword [OF _ keyword_names(9), simplified]
  scan_new_keyword [OF _ keyword_names(10), where v = "''yes''", simplified] scan_new_keyword [OF _ keyword_names(10), where v = "''no''", simplified]
  scan_new_keyword [OF _ keyword_names(11), simplified] scan_new_keyword [OF _ keyword_names(12), simplified]

lemma scan_end:
  assumes "sc_mode st = SCAN_OUTPUT" "scan_command init_status"
    and "sc_keys st = Some (take 6 (block_keys name mystime cmdline init_status d tt ti core cu cs first_line (4 + sc_lineno st)))"
  shows "scan_text (print_report (Test_end init_status d tt ti core cu cs) @ rest) True st =
    do { st \<leftarrow> test_end (st\<lparr>sc_lineno := 4 + sc_lineno st, sc_start := INITIAL, sc_mode := SCAN_OUTSIDE,
           sc_keys := Some (block_keys name mystime cmdline init_status d tt ti core cu cs first_line (4 + sc_lineno st))\<rparr>);
         scan_text (NL # rest) False (st\<lparr>sc_ctag := None, sc_keys := None\<rparr>) }"
  using assms
  by (simp add: Status_text End_text status_action_def end_action_def block_simps scan_status_keywords scan_command_def
      block_keys_def SCAN_TSTKEY_def SCAN_OUTPUT_def SCAN_RTSKEY_def SCAN_OUTSIDE_def status_text_word)

section \<open>The end of a test\<close>

text \<open>What the keys of a test say: its tag, and whether it was started.\<close>

definition keys_ok :: "sym \<Rightarrow> bool" where
  "keys_ok k \<longleftrightarrow> (\<exists>name. get_str (Some k) ''tag'' = Some (Some name) \<and> plain_key name) \<and> get_str (Some k) ''initiation_status'' \<noteq> None"

definition tag_of :: "sym \<Rightarrow> string" where
  "tag_of k = (case get_str (Some k) ''tag'' of Some (Some name) \<Rightarrow> name | _ \<Rightarrow> [])"

definition started :: "sym \<Rightarrow> bool" where
  "started k \<longleftrightarrow> get_str (Some k) ''initiation_status'' = Some (Some ''ok'')"

definition with_keys :: "sym \<times> sym \<Rightarrow> sym" where
  "with_keys b = fst b @ [(''_keys'', Table (snd b))]"

lemma plain_split: "plain_key k \<Longrightarrow> split_key k = Some [k]"
  using split_key_join [of "[k]"] by (simp add: plain_key_def)

lemma sym_put_plain:
  "plain_key k \<Longrightarrow> sym_put (Some t) k d f = Some (let (r, t') = put_path t [k] d f in (r, Some t'))"
  by (simp add: sym_put_def plain_split Let_def split_beta del: put_path.simps)

lemma sym_get_plain: "plain_key k \<Longrightarrow> sym_get (Some t) k = Some (case find_key1 t k of None \<Rightarrow> Nul | Some d \<Rightarrow> d)"
  by (simp add: sym_get_def plain_split split: option.split)

lemma put_replace1: "put_path t [k] d PUT_REPLACE = (0, if find_key1 t k = None then add_key t k d else set_key1 t k d)"
  by (simp split: option.split)

lemma plain_keys: "plain_key ''_keys''" "plain_key ''_RTS''"
  by (simp_all add: plain_key_def)

lemma scanner_test_end_eq:
  assumes "keys_ok k" "find_key1 c ''_keys'' = None" "\<forall>d. find_key1 tags (tag_of k) = Some d \<longrightarrow> d \<noteq> Nul"
  shows "scanner_test_end tags (Some c) (Some k) n =
    (if find_key1 tags (tag_of k) \<noteq> None \<and> \<not> started k then Some (1, tags, n, [])
     else Some (0, if find_key1 tags (tag_of k) = None then add_key tags (tag_of k) (Table (with_keys (c, k)))
                   else set_key1 tags (tag_of k) (Table (with_keys (c, k))), n, []))"
proof -
  obtain name where name: "get_str (Some k) ''tag'' = Some (Some name)" "plain_key name" using assms(1) by (auto simp: keys_ok_def)
  then have t: "tag_of k = name" by (simp add: tag_of_def)
  obtain s where s: "get_str (Some k) ''initiation_status'' = Some s" using assms(1) by (auto simp: keys_ok_def)
  have "put_path c [''_keys''] (Table k) 0 = (0, with_keys (c, k))"
    using assms(2) by (simp add: with_keys_def add_key_def)
  then show ?thesis using assms(3) name s t
    by (cases "find_key1 tags name")
      (auto simp: scanner_test_end_def sym_get_plain sym_put_plain plain_keys started_def put_replace1 simp del: put_path.simps(2) split: prod.splits)
qed

fun test_ends :: "(sym \<times> sym) list \<Rightarrow> sym \<Rightarrow> sym option" where
  "test_ends [] tags = Some tags"
| "test_ends ((c, k) # bs) tags = do {
     (r, tags, n, err) \<leftarrow> scanner_test_end tags (Some c) (Some k) 0;
     test_ends bs tags }"

lemma test_ends_append: "test_ends (bs @ bs') tags = test_ends bs tags \<bind> test_ends bs'"
proof (induction bs tags rule: test_ends.induct)
  case (2 c k bs tags)
  then show ?case by (cases "scanner_test_end tags (Some c) (Some k) 0") auto
qed simp

text \<open>The test that a tag stands for: its first one, or the last later one that was started.\<close>

definition kept_test :: "string \<Rightarrow> (sym \<times> sym) list \<Rightarrow> (sym \<times> sym) option" where
  "kept_test name bs =
     (case filter (\<lambda>b. tag_of (snd b) = name) bs of
        [] \<Rightarrow> None
      | b # later \<Rightarrow> Some (last (b # filter (\<lambda>b. started (snd b)) later)))"

lemma kept_test_snoc:
  "kept_test name (bs @ [b]) =
     (if tag_of (snd b) = name \<and> (kept_test name bs = None \<or> started (snd b)) then Some b else kept_test name bs)"
  by (auto simp: kept_test_def split: list.splits)

text \<open>C11: the table of all tags refines a map of kept tests. Blocks that end with \<open>scanner_test_end\<close>, each with a tag and without
  a test case named \<open>_keys\<close>, never make the scanner undefined; afterwards every tag stands for its first block, unless later blocks of the
  same tag were started: then for the last of these, and a later block that was not started is thrown away. Each tag is there once, with the
  results of the kept block and its keywords.\<close>

theorem test_ends_keep:
  assumes "\<forall>(c, k) \<in> set bs. keys_ok k \<and> find_key1 c ''_keys'' = None"
  shows "\<exists>tags. test_ends bs newsym = Some tags \<and> distinct (map fst tags) \<and>
    (\<forall>name. find_key1 tags name = map_option (\<lambda>b. Table (with_keys b)) (kept_test name bs))"
  using assms
proof (induction bs rule: rev_induct)
  case Nil
  show ?case by (simp add: kept_test_def newsym_def)
next
  case (snoc b bs)
  obtain c k where b: "b = (c, k)" by (cases b)
  obtain tags where tags: "test_ends bs newsym = Some tags" "distinct (map fst tags)"
    "\<And>name. find_key1 tags name = map_option (\<lambda>b. Table (with_keys b)) (kept_test name bs)"
    using snoc by auto
  have ok: "keys_ok k" "find_key1 c ''_keys'' = None" using snoc.prems b by auto
  have "\<forall>d. find_key1 tags (tag_of k) = Some d \<longrightarrow> d \<noteq> Nul" by (auto simp: tags(3))
  from scanner_test_end_eq [OF ok this, of 0] show ?case
    using tags(1,2) b
    by (auto simp: test_ends_append kept_test_snoc tags(3) find_add_if find_set_if find_None_iff [symmetric])
qed

theorem test_ends_keep_witness:
  "\<exists>tags. test_ends [(newsym, [(''tag'', Datum ''a''), (''initiation_status'', Datum ''ok''), (''n'', Datum ''1'')]),
        (newsym, [(''tag'', Datum ''a'')])] newsym = Some tags \<and>
     find_key1 tags ''a'' = Some (Table [(''_keys'', Table [(''tag'', Datum ''a''), (''initiation_status'', Datum ''ok''), (''n'', Datum ''1'')])])"
proof -
  let ?k1 = "[(''tag'', Datum ''a''), (''initiation_status'', Datum ''ok''), (''n'', Datum ''1'')]" and ?k2 = "[(''tag'', Datum ''a'')]"
  have p: "plain_key ''tag''" "plain_key ''initiation_status''" "plain_key ''a''" by (simp_all add: plain_key_def)
  then have "\<forall>(c, k) \<in> set [(newsym, ?k1), (newsym, ?k2)]. keys_ok k \<and> find_key1 c ''_keys'' = None"
    by (simp add: keys_ok_def get_str_key)
  from test_ends_keep [OF this] show ?thesis
    by (auto simp: kept_test_def with_keys_def newsym_def tag_of_def started_def get_str_key p)
qed

section \<open>The report of the driver, scanned\<close>

lemma test_result_tag:
  "contacts_of keys = Some cs \<Longrightarrow> CHR '' '' \<notin> set s \<Longrightarrow>
   test_result (Some tag) None None (Some s) literal keys = Some (map (test_line tag ''-'' ''-'' (shown s)) cs, s)"
  by (auto simp: test_result_def contacts_of_def with_default_def shown_def bind_eq_Some_conv)

text \<open>The lines for a test: a core dump, an end that is not an exit, and the verdict by the termination id.\<close>

definition verdict_lines :: "string \<Rightarrow> status \<Rightarrow> int \<Rightarrow> bool \<Rightarrow> string list" where
  "verdict_lines name term_type term_id core =
     (let line = (\<lambda>s. test_line name ''-'' ''-'' s [QUOTE, QUOTE])
      in (if core then [line ''coredump''] else []) @ (if term_type = Exited then [] else [line (status_text term_type)]) @
         [line (if term_id = 0 then ''pass'' else ''fail'')])"

lemma show_int_zero: "show_int i = ''0'' \<longleftrightarrow> i = 0"
proof -
  have "atoi (show_int j) = j" for j using atoi_show_int [of "[]" j] by (simp add: starts_digit_def)
  then have "show_int i = show_int 0 \<longleftrightarrow> i = 0" by metis
  moreover have "show_int 0 = ''0''" by code_simp
  ultimately show ?thesis by simp
qed

lemma tag_report_block:
  "tag_report False c (block_keys name mystime cmdline ''ok'' d tt ti core cu cs l1 l2) = Some (0, verdict_lines name tt ti core)"
proof -
  define k where "k = block_keys name mystime cmdline ''ok'' d tt ti core cu cs l1 l2"
  have cont: "contacts_of (Some k) = Some [[QUOTE, QUOTE]]"
    using plain_split [of "[QUOTE, QUOTE]"]
    by (simp add: contacts_of_def get_str_key keyword_plain keyword_names k_def block_keys_def with_default_def plain_key_def)
  note res = test_result_tag [OF cont]
  have get: "get_str (Some k) ''tag'' = Some (Some name)" "get_str (Some k) ''initiation_status'' = Some (Some ''ok'')"
    "get_str (Some k) ''corefile'' = Some (Some (if core then ''yes'' else ''no''))" "get_str (Some k) ''analysis'' = Some (Some ''exit'')"
    "get_str (Some k) ''termination_type'' = Some (Some (status_text tt))" "get_str (Some k) ''termination_id'' = Some (Some (show_int ti))"
    by (simp_all add: get_str_key keyword_plain keyword_names k_def block_keys_def)
  have same: "set_key1 k ''termination_type'' (Datum (status_text tt)) = k" by (rule set_same) (simp add: k_def block_keys_def)
  have lit: "literal_result name s k = Some [test_line name ''-'' ''-'' s [QUOTE, QUOTE]]" if "s \<in> {''coredump'', ''pass'', ''fail''}" for s
    using that by (auto simp: literal_result_def res shown_def)
  have tt: "status_text tt = ''exited'' \<longleftrightarrow> tt = Exited" "\<And>t. status_text t \<noteq> ''timeout''" "underscored (status_text tt) = status_text tt"
    using status_text_word(4) [of tt] by (auto simp: status_text_def split: status.splits)
  have term_type: "result_of_key name ''termination_type'' (status_text tt) k =
      Some ([test_line name ''-'' ''-'' (status_text tt) [QUOTE, QUOTE]], k)"
    using status_text_word(1,4) [of tt] by (simp add: result_of_key_def res shown_def same)
  have "analysis_report c k name (status_text t) ''exit'' =
      Some [test_line name ''-'' ''-'' (if ti = 0 then ''pass'' else ''fail'') [QUOTE, QUOTE]]" for t
    using tt by (cases "ti = 0") (simp_all add: analysis_report_def get lit show_int_zero)
  then have "started_report c k name = Some (0, verdict_lines name tt ti core, k)"
    using tt by (simp add: started_report_def get lit term_type verdict_lines_def Let_def)
  then show ?thesis by (simp add: tag_report_def get flip: k_def)
qed

text \<open>The lines of an output, with the newline that \<open>copy_buffered_output\<close> adds.\<close>

fun text_lines :: "string \<Rightarrow> string list" where
  "text_lines [] = []"
| "text_lines (c # s) =
     (if c = NL then [] # text_lines s else (case text_lines s of [] \<Rightarrow> [[c]] | l # ls \<Rightarrow> (c # l) # ls))"

lemma text_lines_Nil [simp]: "text_lines s = [] \<longleftrightarrow> s = []"
  by (cases s) (auto split: list.split)

lemma text_lines_NL: "l \<in> set (text_lines s) \<Longrightarrow> NL \<notin> set l"
  by (induction s arbitrary: l) (auto split: if_splits list.splits)

lemma text_lines_join:
  "s \<noteq> [] \<Longrightarrow> concat (map (\<lambda>l. l @ [NL]) (text_lines s)) = (if last s = NL then s else s @ [NL])"
proof (induction s)
  case (Cons c s)
  then show ?case by (cases "s = []") (auto split: list.split)
qed simp

text \<open>A test that ended: its slot, the clock, what its buffer file holds, the wait status, and what \<open>wait_decode\<close> made of it.\<close>

type_synonym ended = "tag_pgrp \<times> clock_vals \<times> string \<times> nat \<times> int \<times> status"

fun report_tests :: "pan_conf \<Rightarrow> ended list \<Rightarrow> pan \<Rightarrow> pan option" where
  "report_tests cf [] p = Some p"
| "report_tests cf ((s, clk, out, stat, w, term_type) # ts) p = do {
     p \<leftarrow> report_end cf clk (Some out) stat s w term_type p;
     report_tests cf ts p }"

definition ended_name :: "ended \<Rightarrow> string" where
  "ended_name t = (case t of (s, clk, out, stat, w, term_type) \<Rightarrow> (case tp_cmd s of None \<Rightarrow> [] | Some e \<Rightarrow> ce_name e))"

definition ended_cmdline :: "ended \<Rightarrow> string" where
  "ended_cmdline t = (case t of (s, clk, out, stat, w, term_type) \<Rightarrow> (case tp_cmd s of None \<Rightarrow> [] | Some e \<Rightarrow> ce_cmdline e))"

definition ended_type :: "ended \<Rightarrow> status" where
  "ended_type t = (case t of (s, clk, out, stat, w, term_type) \<Rightarrow> if tp_stopping s then Driver_interrupt else term_type)"

definition readable_test :: "ended \<Rightarrow> bool" where
  "readable_test t = (case t of (s, clk, out, stat, w, term_type) \<Rightarrow>
     tp_cmd s \<noteq> None \<and> scan_name (ended_name t) \<and> CHR '','' \<notin> set (ended_name t) \<and> ended_name t \<noteq> ''_RTS'' \<and>
     length (ended_name t) + 12 < KEYSIZE \<and> scan_command (ended_cmdline t) \<and>
     out \<noteq> [] \<and> (\<forall>l \<in> set (text_lines out). l \<notin> marker_text ` set markers))"

definition block_text :: "ended \<Rightarrow> string" where
  "block_text t = (case t of (s, clk, out, stat, w, term_type) \<Rightarrow>
     print_report (Test_start (ended_name t) (tp_mystime s) (ended_cmdline t)) @
     concat (map (\<lambda>l. l @ [NL]) (text_lines out)) @
     print_report (Test_end ''ok'' (now clk - tp_mystime s) (ended_type t) w (core_flag stat) (cutime clk) (cstime clk)))"

lemma report_end_block:
  assumes "rts cf" "\<not> quiet_mode cf" "test_out_dir cf \<noteq> None" "readable_test (s, clk, out, stat, w, term_type)"
  shows "\<exists>p'. report_end cf clk (Some out) stat s w term_type p = Some p' \<and>
    concat (map print_report (report p')) = concat (map print_report (report p)) @ block_text (s, clk, out, stat, w, term_type)"
proof -
  obtain e where "tp_cmd s = Some e" using assms(4) by (auto simp: readable_test_def)
  moreover have "out \<noteq> []" using assms(4) by (simp add: readable_test_def)
  ultimately show ?thesis using assms(1-3) text_lines_join [of out]
    by (auto simp: report_end_def write_test_start_def write_test_end_def copy_buffered_output_def block_text_def
        ended_name_def ended_cmdline_def ended_type_def simp del: print_report.simps(1,3))
qed

lemma report_tests_text:
  assumes "rts cf" "\<not> quiet_mode cf" "test_out_dir cf \<noteq> None" "\<forall>t \<in> set ts. readable_test t"
  shows "\<exists>p'. report_tests cf ts p = Some p' \<and>
    concat (map print_report (report p')) = concat (map print_report (report p)) @ concat (map block_text ts)"
  using assms(4)
proof (induction ts arbitrary: p)
  case (Cons t ts)
  obtain s clk out stat w term_type where t: "t = (s, clk, out, stat, w, term_type)" by (cases t)
  obtain p1 where p1: "report_end cf clk (Some out) stat s w term_type p = Some p1"
    "concat (map print_report (report p1)) = concat (map print_report (report p)) @ block_text t"
    using report_end_block [OF assms(1-3)] Cons.prems t by (metis list.set_intros(1))
  with Cons.IH [of p1] Cons.prems t show ?case by auto
qed simp

definition is_entry :: "ended \<Rightarrow> string \<times> string sdata \<Rightarrow> bool" where
  "is_entry t en = (case t of (s, clk, out, stat, w, term_type) \<Rightarrow>
     \<exists>l1 l2. en = (ended_name t, Table [(''_keys'', Table (block_keys (ended_name t) (tp_mystime s) (ended_cmdline t) ''ok''
       (now clk - tp_mystime s) (ended_type t) w (core_flag stat) (cutime clk) (cstime clk) l1 l2))]))"

lemma block_keys_ok:
  assumes "plain_key name"
  shows "keys_ok (block_keys name m c ''ok'' d tt ti core cu cs l1 l2)" "tag_of (block_keys name m c ''ok'' d tt ti core cu cs l1 l2) = name"
  using assms by (simp_all add: keys_ok_def tag_of_def get_str_key keyword_plain keyword_names) (simp_all add: block_keys_def)

lemma scan_block:
  assumes "sc_mode st = SCAN_OUTSIDE" "\<not> sc_iscan st" "readable_test t" "ended_name t \<notin> fst ` set (sc_tags st)"
  shows "\<exists>st' en. scan_text (block_text t @ rest) True st = scan_text rest True st' \<and> is_entry t en \<and> sc_tags st' = sc_tags st @ [en] \<and>
    sc_mode st' = SCAN_OUTSIDE \<and> \<not> sc_iscan st' \<and> sc_out st' = sc_out st \<and> sc_err st' = sc_err st"
proof -
  obtain s clk out stat w tt where t: "t = (s, clk, out, stat, w, tt)" by (cases t)
  define name where "name = ended_name t"
  define cmd where "cmd = ended_cmdline t"
  have n: "scan_name name" "scan_command cmd" "\<forall>l \<in> set (text_lines out). plain_line l" "plain_key name"
    using assms(3) text_lines_NL [of _ out] by (auto simp: readable_test_def t name_def cmd_def plain_line_def plain_key_def scan_name_def)
  define keys where "keys = (\<lambda>l2. block_keys name (tp_mystime s) cmd ''ok'' (now clk - tp_mystime s) (ended_type t) w (core_flag stat) (cutime clk) (cstime clk) (sc_lineno st) l2)"
  define e where "e = Test_end ''ok'' (now clk - tp_mystime s) (ended_type t) w (core_flag stat) (cutime clk) (cstime clk)"
  define st1 where "st1 = st\<lparr>sc_ctag := Some newsym, sc_keys := Some (take 6 (keys 0)), sc_mode := SCAN_OUTPUT, sc_start := OUT, sc_lineno := 6 + sc_lineno st\<rparr>"
  define st2 where "st2 = st1\<lparr>sc_lineno := sc_lineno st1 + int (length (text_lines out))\<rparr>"
  define l2 where "l2 = 4 + sc_lineno st2"
  have free: "find_key1 (sc_tags st) name = None" using assms(4) by (simp add: find_None_iff name_def)
  have te: "scanner_test_end (sc_tags st) (Some newsym) (Some (keys l2)) (sc_notag st) =
      Some (0, sc_tags st @ [(name, Table [(''_keys'', Table (keys l2))])], sc_notag st, [])"
    using scanner_test_end_eq [of "keys l2" newsym "sc_tags st" "sc_notag st"] free block_keys_ok [OF n(4)]
    by (simp add: keys_def with_keys_def newsym_def add_key_def)
  have bt: "block_text t = print_report (Test_start name (tp_mystime s) cmd) @ concat (map (\<lambda>l. l @ [NL]) (text_lines out)) @ print_report e"
    by (simp add: block_text_def t name_def cmd_def e_def del: print_report.simps)
  have "scan_text (block_text t @ rest) True st = scan_text (concat (map (\<lambda>l. l @ [NL]) (text_lines out)) @ print_report e @ rest) True st1"
    using scan_start [OF assms(1) n(1,2)] by (simp add: bt st1_def keys_def del: print_report.simps)
  also have "\<dots> = scan_text (print_report e @ rest) True st2"
    using scan_output [OF n(3), of st1] by (simp add: st1_def st2_def)
  also have "\<dots> = do { st \<leftarrow> test_end (st2\<lparr>sc_lineno := l2, sc_start := INITIAL, sc_mode := SCAN_OUTSIDE, sc_keys := Some (keys l2)\<rparr>);
         scan_text (NL # rest) False (st\<lparr>sc_ctag := None, sc_keys := None\<rparr>) }"
    unfolding e_def keys_def l2_def
    by (rule scan_end) (simp_all add: st1_def st2_def scan_command_def keys_def block_keys_def)
  also have "test_end (st2\<lparr>sc_lineno := l2, sc_start := INITIAL, sc_mode := SCAN_OUTSIDE, sc_keys := Some (keys l2)\<rparr>) =
      Some (st2\<lparr>sc_lineno := l2, sc_start := INITIAL, sc_mode := SCAN_OUTSIDE, sc_keys := Some (keys l2),
        sc_tags := sc_tags st @ [(name, Table [(''_keys'', Table (keys l2))])], sc_notag := sc_notag st, sc_err := sc_err st\<rparr>)"
    using assms(2) te by (simp add: test_end_def st1_def st2_def)
  finally have "\<exists>st'. scan_text (block_text t @ rest) True st = scan_text rest True st' \<and>
      sc_tags st' = sc_tags st @ [(name, Table [(''_keys'', Table (keys l2))])] \<and>
      sc_mode st' = SCAN_OUTSIDE \<and> \<not> sc_iscan st' \<and> sc_out st' = sc_out st \<and> sc_err st' = sc_err st"
    using assms(2) by (simp add: scan_newline st1_def st2_def) (rule exI, rule conjI, rule refl, simp)
  moreover have "is_entry t (name, Table [(''_keys'', Table (keys l2))])"
    by (auto simp: is_entry_def t name_def cmd_def keys_def)
  ultimately show ?thesis by blast
qed

lemma scan_blocks:
  assumes "sc_mode st = SCAN_OUTSIDE" "\<not> sc_iscan st" "\<forall>t \<in> set ts. readable_test t" "distinct (map fst (sc_tags st) @ map ended_name ts)"
  shows "\<exists>st' ens. scan_text (concat (map block_text ts)) True st = Some st' \<and> list_all2 is_entry ts ens \<and> sc_tags st' = sc_tags st @ ens \<and>
    sc_out st' = sc_out st \<and> sc_err st' = sc_err st"
  using assms
proof (induction ts arbitrary: st)
  case Nil
  show ?case by (simp add: scan_simps)
next
  case (Cons t ts)
  obtain st1 en where 1: "scan_text (concat (map block_text (t # ts))) True st = scan_text (concat (map block_text ts)) True st1" "is_entry t en"
    "sc_tags st1 = sc_tags st @ [en]" "sc_mode st1 = SCAN_OUTSIDE" "\<not> sc_iscan st1" "sc_out st1 = sc_out st" "sc_err st1 = sc_err st"
    using scan_block [OF Cons.prems(1,2), of t "concat (map block_text ts)"] Cons.prems(3,4) by auto
  have "fst en = ended_name t" using 1(2) by (auto simp: is_entry_def split: prod.splits)
  with Cons.IH [of st1] Cons.prems 1 show ?case by fastforce
qed

lemma tag_names_eq:
  assumes "cursor h = Some ([], i)" "i < length (sym_tab h)"
  shows "tag_names h (fst (sym_tab h ! i)) = Some (map fst (drop i (sym_tab h)))"
  using assms
proof (induction "length (sym_tab h) - i" arbitrary: h i)
  case (Suc d)
  have next_i: "sym_seq h [] R_NEXT = Some (if Suc i < length (sym_tab h) then (0, Some (sym_tab h ! Suc i), h\<lparr>cursor := Some ([], Suc i)\<rparr>)
      else (1, None, h\<lparr>cursor := None\<rparr>))"
    using Suc.prems by (intro seq_next) (simp_all add: table_at_def)
  note drop_i = Cons_nth_drop_Suc [OF Suc.prems(2), symmetric]
  show ?case
  proof (cases "Suc i < length (sym_tab h)")
    case True
    then have "tag_names (h\<lparr>cursor := Some ([], Suc i)\<rparr>) (fst (sym_tab h ! Suc i)) = Some (map fst (drop (Suc i) (sym_tab h)))"
      using Suc.hyps(1) [of "h\<lparr>cursor := Some ([], Suc i)\<rparr>" "Suc i"] Suc.hyps(2) by simp
    then show ?thesis using True by (subst tag_names.simps) (simp add: next_i drop_i split_beta)
  next
    case False
    then have "drop (Suc i) (sym_tab h) = []" by simp
    with False show ?thesis by (subst tag_names.simps) (simp add: next_i drop_i)
  qed
qed simp

lemma split_key2: "plain_key a \<Longrightarrow> plain_key b \<Longrightarrow> split_key (a @ CHR '','' # b) = Some [a, b]"
  using split_key_join [of "[a, b]"] by (simp add: plain_key_def)

lemma split_key3: "plain_key a \<Longrightarrow> plain_key b \<Longrightarrow> plain_key c \<Longrightarrow> split_key (a @ CHR '','' # b @ CHR '','' # c) = Some [a, b, c]"
  using split_key_join [of "[a, b, c]"] by (simp add: plain_key_def)

definition ended_verdict :: "ended \<Rightarrow> string list" where
  "ended_verdict t = (case t of (s, clk, out, stat, w, term_type) \<Rightarrow>
     verdict_lines (ended_name t) (ended_type t) w (core_flag stat))"

definition ended_start :: "ended \<Rightarrow> int" where
  "ended_start t = tp_mystime (fst t)"

lemma entry_facts:
  assumes "is_entry t (n, d)" "readable_test t"
  shows "n = ended_name t" "plain_key n" "n \<noteq> ''_RTS''" "length n + 12 < KEYSIZE"
    "\<exists>k. d = Table [(''_keys'', Table k)] \<and> tag_report False [(''_keys'', Table k)] k = Some (0, ended_verdict t) \<and>
       find_key1 k ''stime'' = Some (Datum (show_int (ended_start t)))"
  using assms
  by (auto simp: is_entry_def readable_test_def ended_verdict_def ended_start_def plain_key_def scan_name_def tag_report_block split: prod.splits)
    (simp add: block_keys_def)

lemma report_tags_entries:
  assumes "list_all2 is_entry ts ens" "\<forall>t \<in> set ts. readable_test t" "distinct (map fst tags)" "set ens \<subseteq> set tags"
  shows "report_tags False tags (map fst ens) = Some (concat (map ended_verdict ts))"
  using assms(1,2,4)
proof (induction rule: list_all2_induct)
  case (Cons t ts en ens)
  obtain n d where en: "en = (n, d)" by (cases en)
  note f = entry_facts [of t n d]
  obtain k where k: "d = Table [(''_keys'', Table k)]" "tag_report False [(''_keys'', Table k)] k = Some (0, ended_verdict t)"
    using f(5) Cons en by auto
  have n: "plain_key n" "n \<noteq> ''_RTS''" "length n + 12 < KEYSIZE" using f(2-4) Cons en by auto
  have find: "find_key1 tags n = Some d" using find_key1_in [OF assms(3), of n d] Cons.prems en by auto
  then have "sym_get (Some tags) (n @ CHR '','' # ''_keys'') = Some (Table k)" "sym_get (Some tags) n = Some d"
    using split_key2 [OF n(1) plain_keys(1)] n(1) k(1) by (simp_all add: sym_get_def plain_split)
  then show ?case using Cons k n en by simp
qed simp

lemma print_header_date:
  assumes "find_key1 tags ''_RTS'' = Some (Table [(''date'', Datum x)])"
  shows "print_header tags = Some [''System Configuration:'', field_left 20 ''date'' @ '' '' @ x, [],
    test_line ''tag'' ''tcid'' ''testcase'' ''status'' ''contact'', replicate 79 (CHR ''-'')]"
proof -
  have at: "table_at tags [''_RTS''] = Some [(''date'', Datum x)]" using assms by (simp add: table_at_def)
  have "sym_seq \<lparr>sym_tab = tags, cursor = None\<rparr> ''_RTS'' R_CURSOR = Some (0, Some (''date'', Datum x), \<lparr>sym_tab = tags, cursor = Some ([''_RTS''], 0)\<rparr>)"
    using assms at by (simp add: sym_seq_def sym_get_plain plain_keys plain_split seq_to_def)
  moreover have "header_keys \<lparr>sym_tab = tags, cursor = Some ([''_RTS''], 0)\<rparr> (''date'', Datum x) = Some [field_left 20 ''date'' @ '' '' @ x]"
    using seq_next [of "\<lparr>sym_tab = tags, cursor = Some ([''_RTS''], 0)\<rparr>" "[''_RTS'']" "[(''date'', Datum x)]" 0] at
    by (subst header_keys.simps) simp
  ultimately show ?thesis by (simp add: print_header_def)
qed


definition demo_ended :: "ended list" where
  "demo_ended =
     [(empty_slot\<lparr>tp_cmd := Some \<lparr>ce_name = ''fork01'', ce_cmdline = ''fork01 -i 2'', ce_pcnt_f = False\<rparr>, tp_mystime := 7\<rparr>,
       \<lparr>now = 9, cutime = 0, cstime = 0\<rparr>, ''ok'', 0, 0, Exited),
      (empty_slot\<lparr>tp_cmd := Some \<lparr>ce_name = ''mem02'', ce_cmdline = ''mem02'', ce_pcnt_f = False\<rparr>, tp_mystime := 8\<rparr>,
       \<lparr>now = 9, cutime = 0, cstime = 0\<rparr>, ''bad'', 139, 11, Signaled)]"


section \<open>Output without a last newline\<close>



end
