(* ===== verification/Scanner_Type.thy ===== *)
theory Scanner_Type
  imports Scanner_Props
begin

text \<open>
  The type of the scanner's state, in the style of progress and preservation: what every token finds in the tables that its action reads, so that
  no action is undefined, and that it leaves them in this form.
\<close>

section \<open>The type\<close>

definition datum_table :: "sym \<Rightarrow> bool" where
  "datum_table k \<longleftrightarrow> distinct (map fst k) \<and> (\<forall>(n, d) \<in> set k. \<exists>s. d = Datum s)"

definition tag_ok :: "string \<Rightarrow> bool" where
  "tag_ok t \<longleftrightarrow> plain_key t \<and> t \<noteq> ''_RTS'' \<and> length t + 12 < KEYSIZE"

definition keys_typed :: "sym \<Rightarrow> bool" where
  "keys_typed k \<longleftrightarrow> datum_table k \<and> (\<forall>s. find_key1 k ''tag'' = Some (Datum s) \<longrightarrow> tag_ok s)"

definition tag_typed :: "sym \<Rightarrow> bool" where
  "tag_typed c \<longleftrightarrow> cuts_typed c \<and> (\<exists>k. find_key1 c ''_keys'' = Some (Table k) \<and> datum_table k)"

definition entry_typed :: "string \<Rightarrow> string sdata \<Rightarrow> bool" where
  "entry_typed t d \<longleftrightarrow>
     (if t = ''_RTS'' then d = Nul \<or> (\<exists>k. d = Table k \<and> datum_table k) else tag_ok t \<and> (\<exists>c. d = Table c \<and> tag_typed c))"

definition tags_typed :: "sym \<Rightarrow> bool" where
  "tags_typed tags \<longleftrightarrow> distinct (map fst tags) \<and> (\<forall>(t, d) \<in> set tags. entry_typed t d)"

definition scan_typed :: "scan \<Rightarrow> bool" where
  "scan_typed st \<longleftrightarrow> \<not> sc_iscan st \<and> pred_option keys_typed (sc_keys st) \<and> pred_option results_typed (sc_ctag st) \<and>
     tags_typed (sc_tags st) \<and> 0 \<le> sc_notag st"

text \<open>What the input has to be like: lines that fit the arrays, and after \<open>tag=\<close> no comma and no \<open>_RTS\<close> in the line.\<close>

definition short_lines :: "string \<Rightarrow> bool" where
  "short_lines s \<longleftrightarrow> (\<forall>pre l post. s = pre @ l @ post \<and> NL \<notin> set l \<longrightarrow> length l < 240)"

definition tags_readable :: "string \<Rightarrow> bool" where
  "tags_readable s \<longleftrightarrow> (\<forall>pre l post x. s = pre @ ''tag='' @ l @ x @ post \<and> x \<in> {'','', ''_RTS''} \<longrightarrow> NL \<in> set l)"

definition readable_text :: "string \<Rightarrow> bool" where
  "readable_text s \<longleftrightarrow> short_lines s \<and> tags_readable s"

lemma readable_suffix: "readable_text (y @ rest) \<Longrightarrow> readable_text rest"
  unfolding readable_text_def short_lines_def tags_readable_def by (metis append.assoc)

section \<open>The actions keep the type\<close>

lemma datum_table_add: "datum_table k \<Longrightarrow> find_key1 k n = None \<Longrightarrow> datum_table (add_key k n (Datum s))"
  by (auto simp: datum_table_def add_key_def find_None_iff)

lemma datum_get: "datum_table k \<Longrightarrow> plain_key n \<Longrightarrow> \<exists>s. get_str (Some k) n = Some s"
proof -
  assume k: "datum_table k" "plain_key n"
  show ?thesis
  proof (cases "find_key1 k n")
    case (Some d)
    with k(1) find_key1_mem [OF Some] have "\<exists>s. d = Datum s" by (auto simp: datum_table_def)
    with Some k(2) show ?thesis by (auto simp: get_str_key)
  qed (simp add: get_str_key k(2))
qed

lemma put_keyword_typed:
  assumes "scan_typed st" "plain_key n" "n = ''tag'' \<longrightarrow> tag_ok v"
  shows "\<exists>st'. put_keyword n v st = Some st' \<and> scan_typed st' \<and> sc_notag st' = sc_notag st"
proof (cases "sc_keys st")
  case None
  with assms(1) show ?thesis by (auto simp: put_keyword_def sym_put_def scan_typed_def)
next
  case (Some k)
  with assms(1) have k: "keys_typed k" by (simp add: scan_typed_def)
  show ?thesis
  proof (cases "find_key1 k n")
    case None
    with k assms(3) have "keys_typed (add_key k n (Datum v))"
      by (auto simp: keys_typed_def datum_table_add find_add_if)
    with None Some assms(1,2) show ?thesis by (auto simp: put_keyword_def sym_put_plain scan_typed_def)
  next
    case (Some d)
    with \<open>sc_keys st = Some k\<close> k assms(1,2) show ?thesis
      by (auto simp: put_keyword_def sym_put_plain scan_typed_def PUT_REPLACE_def)
  qed
qed

lemma tags_typed_put:
  assumes "tags_typed tags" "entry_typed t d"
  shows "tags_typed (if find_key1 tags t = None then add_key tags t d else set_key1 tags t d)"
  using assms by (auto simp: tags_typed_def find_None_iff add_key_def dest!: in_set_key1)

lemma results_with_keys:
  assumes "results_typed c" "datum_table k"
  shows "\<exists>c' r. sym_put (Some c) ''_keys'' (Table k) 0 = Some (r, Some c') \<and> tag_typed c'"
proof (cases "find_key1 c ''_keys''")
  case None
  then have "cuts_typed (add_key c ''_keys'' (Table k))" "find_key1 (add_key c ''_keys'' (Table k)) ''_keys'' = Some (Table k)"
    using results_cuts_typed [OF assms(1)] by (auto simp: cuts_typed_def add_key_def find_None_iff find_add_if [unfolded add_key_def])
  with None assms(2) show ?thesis by (simp add: sym_put_plain plain_keys tag_typed_def)
next
  case (Some d)
  with assms(1) obtain t where "d = Table t" "status_table t" using results_typed_find by metis
  then have "datum_table t" by (auto simp: datum_table_def status_table_def)
  with Some \<open>d = Table t\<close> results_cuts_typed [OF assms(1)] show ?thesis
    by (auto simp: sym_put_plain plain_keys tag_typed_def PUT_REPLACE_def)
qed

lemma no_tag_ok:
  assumes "0 \<le> n" "n < 2 ^ 31"
  shows "tag_ok (''no_tag_'' @ show_int n)"
proof -
  have "length (show_int n) \<le> 11" using assms by (intro show_pid_length) (simp add: int_fits_def)
  then show ?thesis using show_int_avoids(1) [of n] by (simp add: tag_ok_def plain_key_def KEYSIZE_def)
qed

lemma scanner_test_end_typed:
  assumes "tags_typed tags" "results_typed c" "keys_typed k" "0 \<le> n" "n < 2 ^ 31"
  shows "\<exists>r tags' n' err. scanner_test_end tags (Some c) (Some k) n = Some (r, tags', n', err) \<and> tags_typed tags' \<and> n \<le> n' \<and> n' \<le> n + 1"
proof -
  have dk: "datum_table k" using assms(3) by (simp add: keys_typed_def)
  note plain = keyword_plain [OF keyword_names(1)] keyword_plain [OF keyword_names(6)]
  define tag where "tag = (case find_key1 k ''tag'' of Some (Datum s) \<Rightarrow> s | _ \<Rightarrow> ''no_tag_'' @ show_int n)"
  define k' where "k' = (if find_key1 k ''tag'' = None then add_key k ''tag'' (Datum tag) else k)"
  define n' where "n' = (if find_key1 k ''tag'' = None then n + 1 else n)"
  have d: "find_key1 k ''tag'' = Some d \<Longrightarrow> d = Datum tag" for d
    using dk find_key1_mem [of k "''tag''" d] by (auto simp: datum_table_def tag_def)
  have tag: "tag_ok tag"
  proof (cases "find_key1 k ''tag''")
    case None
    then show ?thesis using no_tag_ok [OF assms(4,5)] by (simp add: tag_def)
  next
    case (Some x)
    with d [OF Some] assms(3) show ?thesis by (simp add: keys_typed_def)
  qed
  have k': "datum_table k'" using dk datum_table_add by (simp add: k'_def)
  obtain c' r where c': "sym_put (Some c) ''_keys'' (Table k') 0 = Some (r, Some c')" "tag_typed c'"
    using results_with_keys [OF assms(2) k'] by blast
  obtain s where s: "get_str (Some k') ''initiation_status'' = Some s" using datum_get [OF k' plain(2)] by blast
  have "entry_typed tag (Table c')" using tag c'(2) by (simp add: entry_typed_def tag_ok_def)
  note put = tags_typed_put [OF assms(1) this]
  have pt: "plain_key tag" using tag by (simp add: tag_ok_def)
  have start: "\<exists>err. (case find_key1 k ''tag'' of None \<Rightarrow> Some None | Some d \<Rightarrow> str_of d) \<bind> (\<lambda>old. (case old of
         Some tag \<Rightarrow> Some (tag, Some k, n, [])
       | None \<Rightarrow> (let tagname = ''no_tag_'' @ show_int n
                  in do {
                    (_, k') \<leftarrow> sym_put (Some k) ''tag'' (Datum tagname) 0;
                    Some (tagname, k', n + 1, [''No TAG key!  Using '' @ tagname]) }))) = Some (tag, Some k', n', err)"
  proof (cases "find_key1 k ''tag''")
    case None
    then show ?thesis by (simp add: tag_def k'_def n'_def sym_put_plain plain(1) Let_def)
  next
    case (Some x)
    then have "find_key1 k ''tag'' = Some (Datum tag)" using d by simp
    then show ?thesis by (simp add: k'_def n'_def)
  qed
  then obtain err where start: "get_str (Some k) ''tag'' \<bind> (\<lambda>old. (case old of
         Some tag \<Rightarrow> Some (tag, Some k, n, [])
       | None \<Rightarrow> (let tagname = ''no_tag_'' @ show_int n
                  in do {
                    (_, k') \<leftarrow> sym_put (Some k) ''tag'' (Datum tagname) 0;
                    Some (tagname, k', n + 1, [''No TAG key!  Using '' @ tagname]) }))) = Some (tag, Some k', n', err)"
    by (auto simp: get_str_key plain(1))
  have "scanner_test_end tags (Some c) (Some k) n = (if (case find_key1 tags tag of None \<Rightarrow> Nul | Some d \<Rightarrow> d) \<noteq> Nul \<and> s \<noteq> Some ''ok''
      then Some (1, tags, n', err)
      else Some (0, if find_key1 tags tag = None then add_key tags tag (Table c') else set_key1 tags tag (Table c'), n', err))"
    unfolding scanner_test_end_def option.case prod.case bind_assoc [symmetric] start
    by (simp add: c'(1) s sym_get_plain pt sym_put_plain put_replace1 del: put_path.simps)
  then show ?thesis using put assms(1) by (auto simp: n'_def)
qed

lemma check_mode_simps [simp]:
  "sc_keys (check_mode y ms st) = sc_keys st" "sc_ctag (check_mode y ms st) = sc_ctag st" "sc_tags (check_mode y ms st) = sc_tags st"
  "sc_notag (check_mode y ms st) = sc_notag st" "sc_iscan (check_mode y ms st) = sc_iscan st"
  by (simp_all add: check_mode_def Let_def)

lemma scan_typed_newsym: "keys_typed newsym" "results_typed newsym"
  by (simp_all add: keys_typed_def datum_table_def results_typed_def newsym_def)

lemma end_action_typed:
  assumes "scan_typed st" "sc_notag st < 2 ^ 31"
  shows "\<exists>st'. end_action y st = Some st' \<and> scan_typed st' \<and> sc_notag st' \<le> sc_notag st + 1"
proof -
  let ?st = "check_mode y [SCAN_TSTKEY] (st\<lparr>sc_start := INITIAL\<rparr>)"
  have "scan_typed (?st\<lparr>sc_mode := SCAN_OUTSIDE\<rparr>)" using assms(1) by (simp add: scan_typed_def)
  from put_keyword_typed [OF this keyword_plain [OF keyword_names(14)], of "show_int (sc_lineno ?st)"]
  obtain st1 where st1: "put_keyword ''_End_line'' (show_int (sc_lineno ?st)) (?st\<lparr>sc_mode := SCAN_OUTSIDE\<rparr>) = Some st1"
    "scan_typed st1" "sc_notag st1 = sc_notag st" by auto
  have "\<exists>r tags' n' err. scanner_test_end (sc_tags st1) (sc_ctag st1) (sc_keys st1) (sc_notag st1) = Some (r, tags', n', err) \<and>
      tags_typed tags' \<and> sc_notag st1 \<le> n' \<and> n' \<le> sc_notag st1 + 1"
  proof (cases "sc_ctag st1 = None \<or> sc_keys st1 = None")
    case True
    with st1(2) show ?thesis by (auto simp: scanner_test_end_def scan_typed_def split: option.split)
  next
    case False
    with st1(2,3) assms(2) show ?thesis
      using scanner_test_end_typed [of "sc_tags st1" _ _ "sc_notag st1"] by (auto simp: scan_typed_def)
  qed
  then show ?thesis using st1
    by (auto simp: end_action_def Let_def test_end_def scan_typed_def)
qed

text \<open>What an action needs of its text.\<close>

definition token_ok :: "lex_rule \<Rightarrow> string \<Rightarrow> bool" where
  "token_ok r y \<longleftrightarrow>
     (case r of
        Quoted \<Rightarrow> plain_key (key_part y) \<and> (key_part y = ''tag'' \<longrightarrow> tag_ok (unquote (cont_part y)))
      | Keyword \<Rightarrow> plain_key (key_part y) \<and> (key_part y = ''tag'' \<longrightarrow> tag_ok (cont_part y))
      | Cuts_result \<Rightarrow> \<exists>rec. is_record y rec
      | Cuts_range \<Rightarrow> \<exists>rec. is_record y rec
      | _ \<Rightarrow> True)"

lemma cuts_action_typed:
  assumes "pred_option results_typed c" "is_record y rec"
  shows "\<exists>c'. cuts_testcase y c = Some c' \<and> pred_option results_typed c'"
proof (cases c)
  case None
  obtain tcid tc s where r: "rec = (tcid, tc, s)" by (cases rec)
  define xs where "xs = take 6 (strtok_all [CHR 0x09, CHR '' ''] y)"
  have "take 3 xs = [tcid, tc, s]" and len: "length tcid + length tc + 1 < KEYSIZE"
    using assms(2) r by (simp_all add: is_record_def xs_def)
  then have "xs = tcid # tc # s # drop 3 xs" using append_take_drop_id [of 3 xs] by simp
  then obtain more where "take 6 (strtok_all [CHR 0x09, CHR '' ''] y) = tcid # tc # s # more" by (metis xs_def)
  with None len show ?thesis
    by (simp add: cuts_testcase_def get_str_def sym_get_def sym_put_def)
next
  case (Some t)
  with assms cuts_testcase_step [of t y rec] show ?thesis by fastforce
qed

lemma lex_action_typed:
  assumes "scan_typed st" "token_ok r y" "sc_notag st < 2 ^ 31"
  shows "\<exists>st'. lex_action r y st = Some st' \<and> scan_typed st' \<and> sc_notag st' \<le> sc_notag st + 1"
proof (cases r)
  case Rts_start
  then show ?thesis using assms(1) scan_typed_newsym by (simp add: rts_start_action_def Let_def scan_typed_def)
next
  case Rts_end
  define d where "d = (case sc_keys st of None \<Rightarrow> Nul | Some k \<Rightarrow> Table k)"
  define tags' where "tags' = (if find_key1 (sc_tags st) ''_RTS'' = None then add_key (sc_tags st) ''_RTS'' d else set_key1 (sc_tags st) ''_RTS'' d)"
  have "entry_typed ''_RTS'' d"
    using assms(1) by (cases "sc_keys st") (auto simp: entry_typed_def scan_typed_def keys_typed_def d_def)
  then have "tags_typed tags'" unfolding tags'_def using tags_typed_put assms(1) by (auto simp: scan_typed_def)
  moreover have "sym_put (Some (sc_tags st)) ''_RTS'' d PUT_REPLACE = Some (0, Some tags')"
    unfolding sym_put_plain [OF plain_keys(2)] put_replace1 by (simp add: tags'_def)
  ultimately show ?thesis using Rts_end assms(1)
    by (simp add: rts_end_action_def Let_def scan_typed_def flip: d_def)
next
  case Start
  let ?st = "check_mode y [SCAN_OUTSIDE] (st\<lparr>sc_start := KEY\<rparr>)"
  have "scan_typed (?st\<lparr>sc_mode := SCAN_TSTKEY, sc_keys := Some newsym\<rparr>)"
    using assms(1) scan_typed_newsym by (simp add: scan_typed_def)
  from put_keyword_typed [OF this keyword_plain [OF keyword_names(13)], of "show_int (sc_lineno ?st)"] show ?thesis
    using Start scan_typed_newsym by (auto simp: start_action_def Let_def scan_typed_def)
next
  case Output
  have "\<exists>a. get_str (sc_keys st) ''analysis'' = Some a"
  proof (cases "sc_keys st")
    case None
    then show ?thesis by (simp add: get_str_def sym_get_def)
  next
    case (Some k)
    with assms(1) show ?thesis
      using datum_get [of k "''analysis''"] keyword_plain [OF keyword_names(5)] by (simp add: scan_typed_def keys_typed_def)
  qed
  with Output assms(1) show ?thesis by (auto simp: output_action_def test_output_def Let_def scan_typed_def)
next
  case Status
  with assms(1) show ?thesis by (simp add: status_action_def Let_def scan_typed_def)
next
  case End
  with end_action_typed [OF assms(1,3)] show ?thesis by simp
next
  case Quoted
  with put_keyword_typed [OF assms(1), of "key_part y" "unquote (cont_part y)"] assms(2) show ?thesis
    by (auto simp: token_ok_def)
next
  case Keyword
  with put_keyword_typed [OF assms(1), of "key_part y" "cont_part y"] assms(2) show ?thesis
    by (auto simp: token_ok_def)
next
  case Cuts_result
  then obtain rec where rec: "is_record y rec" using assms(2) unfolding token_ok_def by auto
  obtain c' where "cuts_testcase y (sc_ctag st) = Some c'" "pred_option results_typed c'"
    using assms(1) cuts_action_typed [OF _ rec, of "sc_ctag st"] by (auto simp: scan_typed_def)
  with Cuts_result assms(1) show ?thesis by (simp add: scan_typed_def)
next
  case Cuts_range
  then obtain rec where rec: "is_record y rec" using assms(2) unfolding token_ok_def by auto
  obtain c' where "cuts_testcase y (sc_ctag st) = Some c'" "pred_option results_typed c'"
    using assms(1) cuts_action_typed [OF _ rec, of "sc_ctag st"] by (auto simp: scan_typed_def)
  with Cuts_range assms(1) show ?thesis by (simp add: scan_typed_def)
qed (use assms(1) in simp_all)

section \<open>Every token of a readable text\<close>

lemma strtok_all_gap:
  assumes "t \<noteq> []" "set t \<inter> set sep = {}" "g \<noteq> []" "set g \<subseteq> set sep"
  shows "strtok_all sep (t @ g @ r) = t # strtok_all sep r"
proof -
  have skip: "strtok sep (g' @ r) = strtok sep r" if "set g' \<subseteq> set sep" for g'
    using that by (simp add: strtok_def dropWhile_append2 subset_iff)
  obtain c g' where g: "g = c # g'" using assms(3) by (cases g) auto
  have "strtok_all sep (g' @ r) = strtok_all sep r"
    using skip [of g'] assms(4) g by (simp add: strtok_all.simps [of sep])
  then show ?thesis
    using strtok_append [OF assms(1,2), of c "g' @ r"] assms(4) g by (simp add: strtok_all.simps [of sep "t @ _"])
qed

lemma some_then:
  assumes "some_of P s \<bind> f = Some r"
  obtains w s' where "s = w @ s'" "w \<noteq> []" "\<forall>c \<in> set w. P c" "f s' = Some r"
proof -
  obtain s' where s': "some_of P s = Some s'" "f s' = Some r" using assms by (auto simp: bind_eq_Some_conv)
  show thesis by (rule some_ofE [OF s'(1)]) (use s'(2) that in blast)
qed

lemma lit_then_eq: "lit t s \<bind> f = Some r \<Longrightarrow> \<exists>s'. s = t @ s' \<and> f s' = Some r"
  by (auto simp: bind_eq_Some_conv dest: litE)

lemma match_rule_rest:
  assumes "match_rule bol s r = Some (n, k)"
  obtains rst where "match_rest r s = Some rst" "k = length s - length rst"
  using assms by (auto simp: match_rule_def Let_def bind_eq_Some_conv split: if_splits)

lemma lex_rest:
  assumes "lex_next c bol s = Some (r, y, rest)"
  obtains rst where "match_rest r s = Some rst" "y = take (length s - length rst) s"
proof -
  obtain n k where "longest (match_rule bol s) (lex_active c) = Some (r, n, k)" "y = take k s"
    using assms by (auto simp: lex_next_def)
  with longest_in [of "match_rule bol s" "lex_active c" r n k] that show thesis by (auto elim: match_rule_rest)
qed

lemma readable_part:
  assumes "readable_text s" "s = pre @ l @ post" "NL \<notin> set l"
  shows "length l < 240" "pre = p @ ''tag='' \<Longrightarrow> CHR '','' \<notin> set l" "pre = p @ ''tag='' \<Longrightarrow> l = m @ ''_RTS'' \<Longrightarrow> False"
proof -
  show "length l < 240" using assms by (auto simp: readable_text_def short_lines_def)
  show "CHR '','' \<notin> set l" if "pre = p @ ''tag=''"
  proof
    assume "CHR '','' \<in> set l"
    then obtain a b where l: "l = a @ '','' @ b" by (auto dest: split_list)
    with that assms(2) have "s = p @ ''tag='' @ a @ '','' @ (b @ post)" by simp
    with assms(1) have "NL \<in> set a" unfolding readable_text_def tags_readable_def by blast
    with assms(3) l show False by simp
  qed
  show False if "pre = p @ ''tag=''" "l = m @ ''_RTS''"
  proof -
    from that assms(2) have "s = p @ ''tag='' @ m @ ''_RTS'' @ post" by simp
    with assms(1) have "NL \<in> set m" unfolding readable_text_def tags_readable_def by blast
    with assms(3) that(2) show False by simp
  qed
qed

lemma keyword_token:
  assumes "readable_text s" "lex_next c bol s = Some (Keyword, y, rest)"
  shows "token_ok Keyword y"
proof -
  obtain rst where rst: "match_rest Keyword s = Some rst" "y = take (length s - length rst) s" by (rule lex_rest [OF assms(2)])
  obtain w s1 where w: "s = w @ s1" "w \<noteq> []" "\<forall>c \<in> set w. is_key_char c"
    "lit ''='' s1 \<bind> some_of (\<lambda>c. \<not> lex_space c \<and> c \<noteq> NL) = Some rst"
    using rst(1) unfolding match_rest.simps by (rule some_then)
  obtain s2 where s2: "s1 = ''='' @ s2" "some_of (\<lambda>c. \<not> lex_space c \<and> c \<noteq> NL) s2 = Some rst" using lit_then_eq [OF w(4)] by blast
  obtain v where v: "s2 = v @ rst" "v \<noteq> []" "\<forall>c \<in> set v. \<not> lex_space c \<and> c \<noteq> NL" by (rule some_ofE [OF s2(2)])
  have y: "y = w @ CHR ''='' # v" using rst(2) w(1) s2(1) v(1) by simp
  have "tag_ok v" if "w = ''tag''"
  proof -
    have s: "s = ''tag='' @ v @ rst" "NL \<notin> set v" using v(1,3) w(1) s2(1) that by auto
    note part = readable_part [OF assms(1) s]
    have "v \<noteq> ''_RTS''" using part(3) [of "[]" "[]"] by auto
    with part(1,2) v(2) show ?thesis by (auto simp: tag_ok_def plain_key_def KEYSIZE_def)
  qed
  moreover have "key_part y = w" "cont_part y = v" by (simp_all add: y key_cont [OF w(3)])
  ultimately show ?thesis using w(2,3) keyword_plain [of w] by (simp add: token_ok_def keyword_name_def)
qed

lemma quoted_token:
  assumes "readable_text s" "lex_next c bol s = Some (Quoted, y, rest)"
  shows "token_ok Quoted y"
proof -
  obtain rst where rst: "match_rest Quoted s = Some rst" "y = take (length s - length rst) s" by (rule lex_rest [OF assms(2)])
  obtain w s1 where w: "s = w @ s1" "w \<noteq> []" "\<forall>c \<in> set w. is_key_char c"
    "lit [CHR ''='', QUOTE] s1 \<bind> (\<lambda>s. some_of (\<lambda>c. c \<noteq> QUOTE \<and> c \<noteq> NL) s \<bind> lit [QUOTE]) = Some rst"
    using rst(1) unfolding match_rest.simps by (rule some_then)
  obtain s2 where s2: "s1 = [CHR ''='', QUOTE] @ s2" "some_of (\<lambda>c. c \<noteq> QUOTE \<and> c \<noteq> NL) s2 \<bind> lit [QUOTE] = Some rst"
    using lit_then_eq [OF w(4)] by blast
  obtain v s3 where v: "s2 = v @ s3" "v \<noteq> []" "\<forall>c \<in> set v. c \<noteq> QUOTE \<and> c \<noteq> NL" "lit [QUOTE] s3 = Some rst" by (rule some_then [OF s2(2)])
  have y: "y = w @ CHR ''='' # QUOTE # v @ [QUOTE]" using rst(2) w(1) s2(1) v(1) litE [OF v(4)] by (simp add: numeral_3_eq_3)
  have "unquote (QUOTE # v @ [QUOTE]) = v" by (simp add: unquote_def)
  moreover have "tag_ok v" if "w = ''tag''"
  proof -
    have s: "s = ''tag='' @ (QUOTE # v) @ s3" "NL \<notin> set (QUOTE # v)" using v(1,3) w(1) s2(1) that by auto
    note part = readable_part [OF assms(1) s]
    have "v \<noteq> ''_RTS''" using part(3) [of "[]" "[QUOTE]"] by auto
    with part(1,2) v(2) show ?thesis by (auto simp: tag_ok_def plain_key_def KEYSIZE_def)
  qed
  moreover have "key_part y = w" "cont_part y = QUOTE # v @ [QUOTE]" by (simp_all add: y key_cont [OF w(3)])
  ultimately show ?thesis using w(2,3) keyword_plain [of w] by (simp add: token_ok_def keyword_name_def)
qed

lemma char_classes:
  "is_word_char c \<Longrightarrow> c \<noteq> TAB \<and> c \<noteq> CHR '' '' \<and> c \<noteq> CHR '','' \<and> c \<noteq> NL" "is_digit c \<Longrightarrow> c \<noteq> TAB \<and> c \<noteq> CHR '' '' \<and> c \<noteq> CHR '','' \<and> c \<noteq> NL"
  "is_letter c \<Longrightarrow> c \<noteq> TAB \<and> c \<noteq> CHR '' '' \<and> c \<noteq> CHR '','' \<and> c \<noteq> NL" "lex_space c \<Longrightarrow> c \<noteq> NL"
  by (auto simp: is_word_char_def is_key_char_def is_letter_def is_digit_def lex_space_def)

lemma record_tokens:
  assumes "readable_text s" "s = y @ rst" "y = w @ b1 @ d @ b2 @ a @ b3 @ '':''"
    and "w \<noteq> []" "b1 \<noteq> []" "d \<noteq> []" "b2 \<noteq> []" "a \<noteq> []" "b3 \<noteq> []"
    and "\<forall>c \<in> set w. is_word_char c" "\<forall>c \<in> set b1 \<union> set b2 \<union> set b3. lex_space c" "\<forall>c \<in> set d. is_word_char c" "\<forall>c \<in> set a. is_letter c"
  shows "is_record y (w, d, a)"
proof -
  let ?sep = "[CHR 0x09, CHR '' '']"
  have sep: "set b1 \<subseteq> set ?sep" "set b2 \<subseteq> set ?sep" "set b3 \<subseteq> set ?sep" using assms(11) by (auto simp: lex_space_def)
  have no: "set w \<inter> set ?sep = {}" "set d \<inter> set ?sep = {}" "set a \<inter> set ?sep = {}" "CHR '','' \<notin> set w" "CHR '','' \<notin> set d"
    using assms(10,12,13) char_classes by fastforce+
  have "strtok_all ?sep y = [w, d, a] @ strtok_all ?sep '':''"
    using strtok_all_gap [OF assms(4) no(1) assms(5) sep(1)] strtok_all_gap [OF assms(6) no(2) assms(7) sep(2)]
      strtok_all_gap [OF assms(8) no(3) assms(9) sep(3)] assms(3) by simp
  moreover have "NL \<notin> set y" using assms(3,10-13) char_classes by fastforce
  then have "length y < 240" using readable_part(1) [OF assms(1), of "[]" y rst] assms(2) by simp
  ultimately show ?thesis using no(4,5) assms(3) by (simp add: is_record_def KEYSIZE_def)
qed

lemma cuts_result_token:
  assumes "readable_text s" "lex_next c bol s = Some (Cuts_result, y, rest)"
  shows "token_ok Cuts_result y"
proof -
  obtain rst where rst: "match_rest Cuts_result s = Some rst" "y = take (length s - length rst) s" by (rule lex_rest [OF assms(2)])
  obtain w s1 where w: "s = w @ s1" "w \<noteq> []" "\<forall>c \<in> set w. is_word_char c"
    "some_of lex_space s1 \<bind> (\<lambda>s. some_of is_digit s \<bind> (\<lambda>s. some_of lex_space s \<bind> (\<lambda>s. some_of is_letter s \<bind> (\<lambda>s. some_of lex_space s \<bind> lit '':'')))) = Some rst"
    using rst(1) unfolding match_rest.simps by (rule some_then)
  obtain b1 s2 where b1: "s1 = b1 @ s2" "b1 \<noteq> []" "\<forall>c \<in> set b1. lex_space c"
    "some_of is_digit s2 \<bind> (\<lambda>s. some_of lex_space s \<bind> (\<lambda>s. some_of is_letter s \<bind> (\<lambda>s. some_of lex_space s \<bind> lit '':''))) = Some rst"
    by (rule some_then [OF w(4)])
  obtain d s3 where d: "s2 = d @ s3" "d \<noteq> []" "\<forall>c \<in> set d. is_digit c"
    "some_of lex_space s3 \<bind> (\<lambda>s. some_of is_letter s \<bind> (\<lambda>s. some_of lex_space s \<bind> lit '':'')) = Some rst"
    by (rule some_then [OF b1(4)])
  obtain b2 s4 where b2: "s3 = b2 @ s4" "b2 \<noteq> []" "\<forall>c \<in> set b2. lex_space c"
    "some_of is_letter s4 \<bind> (\<lambda>s. some_of lex_space s \<bind> lit '':'') = Some rst" by (rule some_then [OF d(4)])
  obtain a s5 where a: "s4 = a @ s5" "a \<noteq> []" "\<forall>c \<in> set a. is_letter c" "some_of lex_space s5 \<bind> lit '':'' = Some rst" by (rule some_then [OF b2(4)])
  obtain b3 s6 where b3: "s5 = b3 @ s6" "b3 \<noteq> []" "\<forall>c \<in> set b3. lex_space c" "lit '':'' s6 = Some rst" by (rule some_then [OF a(4)])
  have s: "s = (w @ b1 @ d @ b2 @ a @ b3 @ '':'') @ rst"
    using w(1) b1(1) d(1) b2(1) a(1) b3(1) litE [OF b3(4)] by simp
  have y: "y = w @ b1 @ d @ b2 @ a @ b3 @ '':''" using rst(2) unfolding s by (simp del: append_assoc)
  have "is_record y (w, d, a)"
    using s y w(2,3) b1(2,3) d(2,3) b2(2,3) a(2,3) b3(2,3)
    by (intro record_tokens [OF assms(1), of y rst w b1 d b2 a b3]) (auto simp: is_word_char_def)
  then show ?thesis by (auto simp: token_ok_def)
qed

lemma cuts_range_token:
  assumes "readable_text s" "lex_next c bol s = Some (Cuts_range, y, rest)"
  shows "token_ok Cuts_range y"
proof -
  obtain rst where rst: "match_rest Cuts_range s = Some rst" "y = take (length s - length rst) s" by (rule lex_rest [OF assms(2)])
  let ?tail = "\<lambda>s. some_of lex_space s \<bind> (\<lambda>s. some_of is_letter s \<bind> (\<lambda>s. some_of lex_space s \<bind> lit '':''))"
  obtain w s1 where w: "s = w @ s1" "w \<noteq> []" "\<forall>c \<in> set w. is_word_char c"
    "some_of lex_space s1 \<bind> (\<lambda>s. some_of is_digit s \<bind> (\<lambda>s. lit ''-'' s \<bind> (\<lambda>s. some_of is_digit s \<bind> ?tail))) = Some rst"
    using rst(1) unfolding match_rest.simps by (rule some_then)
  obtain b1 s2 where b1: "s1 = b1 @ s2" "b1 \<noteq> []" "\<forall>c \<in> set b1. lex_space c"
    "some_of is_digit s2 \<bind> (\<lambda>s. lit ''-'' s \<bind> (\<lambda>s. some_of is_digit s \<bind> ?tail)) = Some rst" by (rule some_then [OF w(4)])
  obtain d1 s3 where d1: "s2 = d1 @ s3" "d1 \<noteq> []" "\<forall>c \<in> set d1. is_digit c"
    "lit ''-'' s3 \<bind> (\<lambda>s. some_of is_digit s \<bind> ?tail) = Some rst" by (rule some_then [OF b1(4)])
  obtain s3' where s3: "s3 = ''-'' @ s3'" "some_of is_digit s3' \<bind> ?tail = Some rst" using lit_then_eq [OF d1(4)] by blast
  obtain d2 s3'' where d2: "s3' = d2 @ s3''" "d2 \<noteq> []" "\<forall>c \<in> set d2. is_digit c" "?tail s3'' = Some rst" by (rule some_then [OF s3(2)])
  obtain b2 s4 where b2: "s3'' = b2 @ s4" "b2 \<noteq> []" "\<forall>c \<in> set b2. lex_space c"
    "some_of is_letter s4 \<bind> (\<lambda>s. some_of lex_space s \<bind> lit '':'') = Some rst" by (rule some_then [OF d2(4)])
  obtain a s5 where a: "s4 = a @ s5" "a \<noteq> []" "\<forall>c \<in> set a. is_letter c" "some_of lex_space s5 \<bind> lit '':'' = Some rst" by (rule some_then [OF b2(4)])
  obtain b3 s6 where b3: "s5 = b3 @ s6" "b3 \<noteq> []" "\<forall>c \<in> set b3. lex_space c" "lit '':'' s6 = Some rst" by (rule some_then [OF a(4)])
  let ?d = "d1 @ ''-'' @ d2"
  have s: "s = (w @ b1 @ ?d @ b2 @ a @ b3 @ '':'') @ rst"
    using w(1) b1(1) d1(1) s3(1) d2(1) b2(1) a(1) b3(1) litE [OF b3(4)] by simp
  have y: "y = w @ b1 @ ?d @ b2 @ a @ b3 @ '':''" using rst(2) unfolding s by (simp del: append_assoc)
  have "\<forall>c \<in> set ?d. is_word_char c" using d1(3) d2(3) by (auto simp: is_word_char_def is_key_char_def)
  then have "is_record y (w, ?d, a)"
    using s y w(2,3) b1(2,3) d1(2) b2(2,3) a(2,3) b3(2,3)
    by (intro record_tokens [OF assms(1), of y rst w b1 ?d b2 a b3]) auto
  then show ?thesis by (auto simp: token_ok_def)
qed

lemma lex_token_ok:
  assumes "readable_text s" "lex_next c bol s = Some (r, y, rest)"
  shows "token_ok r y"
proof (cases "r \<in> {Keyword, Quoted, Cuts_result, Cuts_range}")
  case True
  with assms show ?thesis by (auto dest: keyword_token quoted_token cuts_result_token cuts_range_token)
next
  case False
  then show ?thesis by (cases r) (simp_all add: token_ok_def)
qed

section \<open>The property\<close>

lemma scan_text_typed:
  assumes "scan_typed st" "readable_text s" "sc_notag st + int (length s) \<le> 2 ^ 31"
  shows "\<exists>st'. scan_text s bol st = Some st' \<and> scan_typed st'"
  using assms
proof (induction s bol st rule: scan_text.induct)
  case (1 s bol st)
  show ?case
  proof (cases "s = []")
    case True
    with "1.prems"(1) show ?thesis by (simp add: scan_simps)
  next
    case False
    obtain r y rest where l: "lex_next (sc_start st) bol s = Some (r, y, rest)" "s = y @ rest" "y \<noteq> []" by (rule lex_some [OF False])
    let ?st = "st\<lparr>sc_lineno := sc_lineno st + int (count_list y NL)\<rparr>"
    have len: "sc_notag st + 1 + int (length rest) \<le> 2 ^ 31" using "1.prems"(3) l(2,3) by (cases y) auto
    have "scan_typed ?st" using "1.prems"(1) by (simp add: scan_typed_def)
    moreover have "sc_notag ?st < 2 ^ 31" using len by simp
    ultimately obtain st1 where st1: "lex_token r y st = Some st1" "scan_typed st1" "sc_notag st1 \<le> sc_notag st + 1"
      using lex_action_typed [of ?st r y] lex_token_ok [OF "1.prems"(2) l(1)] by (auto simp: lex_token_def)
    have "\<exists>st'. scan_text rest (last y = NL) st1 = Some st' \<and> scan_typed st'"
      using "1.prems"(2) st1 len l by (intro "1.IH" [OF False l(1) refl refl st1(1)]) (auto dest: readable_suffix)
    then show ?thesis using scan_step [OF l(1) False] st1(1) by simp
  qed
qed

text \<open>What the report reads first is defined for every table of this type.\<close>

lemma header_keys_defined:
  assumes "table_at (sym_tab h) path = Some t" "cursor h = Some (path, i)" "i < length t" "datum_table t"
  shows "\<exists>ls. header_keys h (t ! i) = Some ls"
  using assms
proof (induction "length t - i" arbitrary: h i)
  case (Suc d)
  obtain k s where e: "t ! i = (k, Datum s)"
    using Suc.prems(3,4) nth_mem [of i t] by (cases "t ! i") (auto simp: datum_table_def)
  note next_i = seq_next [OF Suc.prems(1,2)]
  show ?case
  proof (cases "Suc i < length t")
    case True
    have "d = length t - Suc i" using Suc.hyps(2) by simp
    then obtain ls where "header_keys (h\<lparr>cursor := Some (path, Suc i)\<rparr>) (t ! Suc i) = Some ls"
      using Suc.hyps(1) [of "Suc i" "h\<lparr>cursor := Some (path, Suc i)\<rparr>"] True Suc.prems by auto
    then show ?thesis using True by (subst header_keys.simps) (simp add: next_i e)
  next
    case False
    then show ?thesis by (subst header_keys.simps) (simp add: next_i e)
  qed
qed simp

lemma print_header_defined:
  assumes "tags_typed tags"
  shows "\<exists>ls. print_header tags = Some ls"
proof -
  let ?h = "\<lparr>sym_tab = tags, cursor = None\<rparr>"
  have "\<exists>r e h. sym_seq ?h ''_RTS'' R_CURSOR = Some (r, e, h) \<and> (\<forall>en. e = Some en \<longrightarrow> (\<exists>ls. header_keys h en = Some ls))"
  proof (cases "find_key1 tags ''_RTS''")
    case None
    then show ?thesis by (simp add: sym_seq_def sym_get_plain plain_keys)
  next
    case (Some d)
    then have "entry_typed ''_RTS'' d" using assms find_key1_mem [OF Some] by (auto simp: tags_typed_def)
    then consider "d = Nul" | k where "d = Table k" "datum_table k" by (auto simp: entry_typed_def)
    then show ?thesis
    proof cases
      case 1
      with Some show ?thesis by (simp add: sym_seq_def sym_get_plain plain_keys)
    next
      case 2
      then have at: "table_at tags [''_RTS''] = Some k" using Some by (simp add: table_at_def)
      show ?thesis using Some 2 at header_keys_defined [of "?h\<lparr>cursor := Some ([''_RTS''], 0)\<rparr>" "[''_RTS'']" k 0]
        by (cases "k = []") (auto simp: sym_seq_def sym_get_plain plain_keys plain_split seq_to_def)
    qed
  qed
  then obtain r e h where "sym_seq ?h ''_RTS'' R_CURSOR = Some (r, e, h)" "\<forall>en. e = Some en \<longrightarrow> (\<exists>ls. header_keys h en = Some ls)" by blast
  then show ?thesis by (cases e) (auto simp: print_header_def)
qed

text \<open>C10: the scanner keeps the type of its tables, and no text with lines that fit its arrays, and no comma and no \<open>_RTS\<close> after
  \<open>tag=\<close> in a line, makes it undefined, whatever is between its markers and in whatever order they come: markers without a
  test, records outside of one, repeated keywords. Afterwards every tag has a table of results of the type that the report of a CUTS
  test expects and, beside them, a table of keywords that are all strings; the tags are distinct, and the header can be printed.\<close>

theorem scanner_typed:
  assumes "readable_text s" and "length s \<le> 2 ^ 31"
  shows "\<exists>st. scan_text s True (scan_init extended False) = Some st \<and> scan_typed st \<and> (\<exists>ls. print_header (sc_tags st) = Some ls)"
proof -
  have "scan_typed (scan_init extended False)"
    by (simp add: scan_typed_def scan_init_def tags_typed_def newsym_def)
  moreover have "sc_notag (scan_init extended False) + int (length s) \<le> 2 ^ 31"
    using assms(2) by (simp add: scan_init_def)
  ultimately obtain st where "scan_text s True (scan_init extended False) = Some st" "scan_typed st"
    using scan_text_typed [OF _ assms(1)] by blast
  with print_header_defined show ?thesis by (auto simp: scan_typed_def)
qed

definition demo_text :: string where
  "demo_text = ''<<<test_end>>>'' @ [NL] @ ''<<<test_start>>>'' @ [NL] @ ''tag=a'' @ [NL] @ ''<<<test_end>>>''"

lemma short_text: "length s < 240 \<Longrightarrow> short_lines s"
  by (auto simp: short_lines_def)

lemma no_comma_text:
  assumes "CHR '','' \<notin> set s" "CHR ''R'' \<notin> set s"
  shows "tags_readable s"
  using assms by (auto simp: tags_readable_def)

theorem scanner_typed_witness:
  "\<exists>st. scan_text demo_text True (scan_init False False) = Some st \<and> scan_typed st \<and> (\<exists>ls. print_header (sc_tags st) = Some ls)"
proof -
  have "readable_text demo_text"
    unfolding readable_text_def by (intro conjI short_text no_comma_text) (simp_all add: demo_text_def)
  moreover have "length demo_text \<le> 2 ^ 31" by (simp add: demo_text_def)
  ultimately show ?thesis by (rule scanner_typed)
qed

end
