(* ===== verification/Open_Flags.thy ===== *)
theory Open_Flags
  imports Prelude
begin

text \<open>
  \<^verbatim>\<open>lib/open_flags.c\<close>: names of the flags of \<open>open\<close> parsed into a mask and a mask printed as names. The table is
  that of Linux with the default feature macros of the C library (\<open>O_DIRECT\<close> and \<open>O_LARGEFILE\<close> are not defined
  then). The static result buffer has 512 bytes; a \<open>strcat\<close> that does not fit is \<open>None\<close>.
\<close>

section \<open>The table, parsing and printing\<close>

definition Open_flags :: "(string \<times> 32 word) list" where
  "Open_flags =
     [(''O_RDONLY'', 0), (''O_WRONLY'', 0x1), (''O_RDWR'', 0x2), (''O_SYNC'', 0x101000), (''O_CREAT'', 0x40),
      (''O_TRUNC'', 0x200), (''O_EXCL'', 0x80), (''O_APPEND'', 0x400), (''O_NONBLOCK'', 0x800), (''O_NOCTTY'', 0x100),
      (''O_DSYNC'', 0x1000), (''O_RSYNC'', 0x101000), (''O_ASYNC'', 0x2000), (''O_NDELAY'', 0x800)]"

text \<open>The mask, or \<open>-1\<close> with what \<open>*badname\<close> points to.\<close>

definition parse_open_flags :: "string \<Rightarrow> 32 word \<times> string option" where
  "parse_open_flags s = (case comma_loop (map_of Open_flags) s 0 of Inl bad \<Rightarrow> (-1, Some bad) | Inr bits \<Rightarrow> (bits, None))"

definition str_cat :: "nat \<Rightarrow> string \<Rightarrow> string \<Rightarrow> string option" where
  "str_cat n s u = (if length s + length u < n then Some (s @ u) else None)"

fun symbols_loop :: "string \<Rightarrow> (string \<times> 32 word) list \<Rightarrow> string \<Rightarrow> 32 word \<Rightarrow> bool \<Rightarrow> (string \<times> 32 word \<times> bool) option" where
  "symbols_loop sep [] s bits havesome = Some (s, bits, havesome)"
| "symbols_loop sep ((symbol, flag) # tab) s bits havesome =
     (if bits AND flag = flag
      then do {
        s \<leftarrow> (if havesome then str_cat 512 s sep else Some s);
        s \<leftarrow> str_cat 512 s symbol;
        symbols_loop sep tab s (bits AND NOT flag) True }
      else symbols_loop sep tab s bits havesome)"

definition openflags2symbols :: "32 word \<Rightarrow> string \<Rightarrow> int \<Rightarrow> string option" where
  "openflags2symbols openflags sep mode =
     (let (s, havesome) = (if openflags AND (0x1 OR 0x2) = 0 then (''O_RDONLY'', True) else ([], False))
      in do {
        (s, bits, havesome) \<leftarrow> symbols_loop sep (tl Open_flags) s openflags havesome;
        if bits \<noteq> 0 \<and> mode = 1
        then do { s \<leftarrow> (if havesome then str_cat 512 s sep else Some s); str_cat 512 s ''UNKNOWN'' }
        else Some s })"

section \<open>Printing and parsing again\<close>

text \<open>The union of the flags of a table that a mask contains.\<close>

definition contained :: "32 word \<Rightarrow> (string \<times> 32 word) list \<Rightarrow> 32 word" where
  "contained f tab = foldr (\<lambda>(symbol, flag) m. if f AND flag = flag then flag OR m else m) tab 0"

text \<open>Of two flags the later one is part of the earlier one, or they have no bit in common.\<close>

definition nested :: "32 word \<Rightarrow> 32 word \<Rightarrow> bool" where
  "nested g flag \<longleftrightarrow> flag AND g = 0 \<or> flag AND g = flag"

lemma nested_or: "nested R flag \<Longrightarrow> nested g flag \<Longrightarrow> nested (R OR g) flag"
  by (auto simp: nested_def bit.conj_disj_distrib)

lemma bits_of_append: "bits_of known (t1 @ t2) = bits_of known t1 OR bits_of known t2"
  by (induction t1) (auto simp: bits_of_def or.assoc)

lemma join_snoc: "ts \<noteq> [] \<Longrightarrow> join_with c (ts @ [x]) = join_with c ts @ c # x"
  by (induction c ts rule: join_with.induct) auto

lemma join_snoc_if: "join_with c (ts @ [x]) = join_with c ts @ (if ts = [] then [] else [c]) @ x"
  by (simp add: join_snoc)

lemma not_part:
  assumes "f AND flag = flag \<longrightarrow> nested R flag" "flag \<noteq> 0"
  shows "(f AND NOT R) AND flag = flag \<longleftrightarrow> f AND flag = flag \<and> flag AND R = 0"
proof -
  have l: "bit flag n \<Longrightarrow> n < 32" for n using bit_imp_le_length [of flag n] by simp
  have "(f AND NOT R) AND flag = flag \<longleftrightarrow> (\<forall>n. bit flag n \<longrightarrow> bit f n \<and> \<not> bit R n)"
    by (auto simp: bit_eq_iff bit_and_iff bit_not_iff dest: l)
  moreover have "f AND flag = flag \<and> flag AND R = 0 \<longleftrightarrow> (\<forall>n. bit flag n \<longrightarrow> bit f n \<and> \<not> bit R n)"
    by (auto simp: bit_eq_iff bit_and_iff dest: l)
  ultimately show ?thesis by blast
qed

lemma or_part: "flag AND R = flag \<Longrightarrow> R OR flag = (R :: 32 word)"
  by (auto simp: bit_eq_iff bit_and_iff bit_or_iff)

text \<open>The loop prints the names of flags whose union is that of all flags of the table that the mask contains.\<close>

lemma symbols_loop_value:
  assumes "\<forall>(symbol, flag) \<in> set tab. flag \<noteq> 0 \<and> (f AND flag = flag \<longrightarrow> nested R flag) \<and> known symbol = Some flag"
    and "sorted_wrt (\<lambda>(_, g) (_, flag). nested g flag) tab"
    and "length (join_with (CHR '','') ts) + (\<Sum>(symbol, flag) \<leftarrow> tab. length symbol + 1) < 512"
  shows "\<exists>us. symbols_loop '','' tab (join_with (CHR '','') ts) (f AND NOT R) (ts \<noteq> []) =
      Some (join_with (CHR '','') (ts @ us), f AND NOT (R OR contained f tab), ts @ us \<noteq> []) \<and>
    set us \<subseteq> fst ` set tab \<and> R OR bits_of known us = R OR contained f tab \<and>
    length (join_with (CHR '','') (ts @ us)) \<le> length (join_with (CHR '','') ts) + (\<Sum>(symbol, flag) \<leftarrow> tab. length symbol + 1)"
  using assms
proof (induction tab arbitrary: R ts)
  case Nil
  then show ?case by (intro exI [of _ "[]"]) (simp add: contained_def bits_of_def)
next
  case (Cons p tab)
  obtain symbol flag where p: "p = (symbol, flag)" by fastforce
  have h: "flag \<noteq> 0" "f AND flag = flag \<longrightarrow> nested R flag" "known symbol = Some flag" using Cons.prems(1) p by auto
  have prems: "\<forall>(n, b) \<in> set tab. b \<noteq> 0 \<and> (f AND b = b \<longrightarrow> nested (R OR flag) b) \<and> known n = Some b"
      "sorted_wrt (\<lambda>(_, g) (_, flag). nested g flag) tab"
    using Cons.prems(1,2) p by (auto intro: nested_or)
  show ?case
  proof (cases "f AND flag = flag \<and> flag AND R = 0")
    case True
    define s where "s = join_with (CHR '','') ts"
    have len: "length (join_with (CHR '','') (ts @ [symbol])) \<le> length s + length symbol + 1"
      by (simp add: join_snoc_if s_def)
    obtain us where us: "symbols_loop '','' tab (join_with (CHR '','') (ts @ [symbol])) (f AND NOT (R OR flag)) True =
        Some (join_with (CHR '','') ((ts @ [symbol]) @ us), f AND NOT ((R OR flag) OR contained f tab), True)"
      "set us \<subseteq> fst ` set tab" "(R OR flag) OR bits_of known us = (R OR flag) OR contained f tab"
      "length (join_with (CHR '','') ((ts @ [symbol]) @ us)) \<le>
         length (join_with (CHR '','') (ts @ [symbol])) + (\<Sum>(symbol, flag) \<leftarrow> tab. length symbol + 1)"
      using Cons.IH [OF prems, of "ts @ [symbol]"] len Cons.prems(3) p by (auto simp: s_def)
    have fit: "symbols_loop '','' (p # tab) s (f AND NOT R) (ts \<noteq> []) =
        symbols_loop '','' tab (join_with (CHR '','') (ts @ [symbol])) ((f AND NOT R) AND NOT flag) True"
      using Cons.prems(3) p not_part [OF h(2,1)] True by (auto simp: str_cat_def join_snoc_if s_def)
    have "(f AND NOT R) AND NOT flag = f AND NOT (R OR flag)" by (simp add: bit.de_Morgan_disj and.assoc)
    with fit us h(3) True len p show ?thesis
      by (intro exI [of _ "symbol # us"])
        (auto simp: s_def contained_def bits_of_def or.assoc and.commute)
  next
    case False
    then have skip: "symbols_loop '','' (p # tab) s (f AND NOT R) b = symbols_loop '','' tab s (f AND NOT R) b" for s b
      using p not_part [OF h(2,1)] by auto
    have "R OR contained f (p # tab) = R OR contained f tab"
      using False h(2) p or_part [of flag R] by (auto simp: contained_def nested_def simp flip: or.assoc)
    moreover have "\<forall>(n, b) \<in> set tab. b \<noteq> 0 \<and> (f AND b = b \<longrightarrow> nested R b) \<and> known n = Some b" using Cons.prems(1) by auto
    ultimately show ?thesis
      using Cons.IH [OF _ prems(2), of R ts] Cons.prems(3) p unfolding skip by fastforce
  qed
qed

section \<open>The property\<close>

lemma symbols_loop_append:
  "symbols_loop sep (t1 @ t2) s bits h = do { (s, bits, h) \<leftarrow> symbols_loop sep t1 s bits h; symbols_loop sep t2 s bits h }"
  by (induction sep t1 s bits h rule: symbols_loop.induct) (auto split: bind_split)

lemma contained_append: "contained f (t1 @ t2) = contained f t1 OR contained f t2"
  by (induction t1) (auto simp: contained_def or.assoc)

lemma contained_sub: "\<forall>(symbol, flag) \<in> set tab. flag AND w = 0 \<Longrightarrow> contained f tab AND w = 0"
  by (induction tab) (auto simp: contained_def bit.conj_disj_distrib2)

lemma contained_member: "(symbol, flag) \<in> set tab \<Longrightarrow> f AND flag = flag \<Longrightarrow> contained f tab AND flag = flag"
  by (induction tab) (auto simp: contained_def bit.conj_disj_distrib2 split: if_splits intro: or_part)

lemma and_power: "f AND 2 ^ k \<noteq> 0 \<Longrightarrow> f AND 2 ^ k = (2 ^ k :: 32 word)"
  by (rule bit_eqI) (auto simp: bit_simps and_exp_eq_0_iff_not_bit)

lemma access_mode: "f AND (0x1 OR 0x2) \<noteq> 0 \<Longrightarrow> contained f Open_flags \<noteq> 0"
proof -
  assume "f AND (0x1 OR 0x2) \<noteq> 0"
  moreover have "f AND (0x1 OR 0x2) = (f AND 0x1) OR (f AND 0x2)" by (rule bit.conj_disj_distrib)
  ultimately have "f AND 0x1 \<noteq> 0 \<or> f AND 0x2 \<noteq> 0" by auto
  then have "f AND 0x1 = 0x1 \<or> f AND 0x2 = 0x2" using and_power [of f 0] and_power [of f 1] by auto
  then have "contained f Open_flags AND 0x1 = 0x1 \<or> contained f Open_flags AND 0x2 = 0x2"
    using contained_member [of "''O_WRONLY''" "0x1" Open_flags f] contained_member [of "''O_RDWR''" "0x2" Open_flags f]
    by (auto simp: Open_flags_def)
  then show ?thesis by auto
qed

text \<open>The last three entries repeat flags, or parts of flags, of the ones before.\<close>

definition first_flags :: "(string \<times> 32 word) list" where "first_flags = take 10 (tl Open_flags)"
definition last_flags :: "(string \<times> 32 word) list" where "last_flags = drop 10 (tl Open_flags)"

lemma tables: "tl Open_flags = first_flags @ last_flags" "contained f Open_flags = contained f first_flags OR contained f last_flags"
  by (simp_all add: first_flags_def last_flags_def flip: contained_append) (simp add: Open_flags_def contained_def)

lemma first_flags_ok:
  "\<forall>(symbol, flag) \<in> set first_flags. flag \<noteq> 0 \<and> nested 0 flag \<and> map_of Open_flags symbol = Some flag"
  "sorted_wrt (\<lambda>(_, g) (_, flag). nested g flag) first_flags"
  "(\<Sum>(symbol, flag) \<leftarrow> first_flags. length symbol + 1) = 83"
  by (simp_all add: first_flags_def Open_flags_def nested_def)

lemma last_flags_ok:
  "\<forall>(symbol, flag) \<in> set last_flags. flag \<noteq> 0 \<and>
     (f AND flag = flag \<longrightarrow> nested (contained f first_flags) flag) \<and> map_of Open_flags symbol = Some flag"
  "sorted_wrt (\<lambda>(_, g) (_, flag). nested g flag) last_flags"
  "(\<Sum>(symbol, flag) \<leftarrow> last_flags. length symbol + 1) = 25"
proof -
  have m: "f AND 0x101000 = 0x101000 \<longrightarrow> contained f first_flags AND 0x101000 = 0x101000"
      "f AND 0x800 = 0x800 \<longrightarrow> contained f first_flags AND 0x800 = 0x800"
    using contained_member [of "''O_SYNC''" "0x101000" first_flags f] contained_member [of "''O_NONBLOCK''" "0x800" first_flags f]
    by (auto simp: first_flags_def Open_flags_def)
  have "contained f first_flags AND 0x2000 = 0"
    by (rule contained_sub) (simp add: first_flags_def Open_flags_def)
  with m show "\<forall>(symbol, flag) \<in> set last_flags. flag \<noteq> 0 \<and>
     (f AND flag = flag \<longrightarrow> nested (contained f first_flags) flag) \<and> map_of Open_flags symbol = Some flag"
    by (simp add: last_flags_def Open_flags_def nested_def and.commute)
qed (simp_all add: last_flags_def Open_flags_def nested_def)

text \<open>What is printed, without the part for unknown bits.\<close>

lemma loop_prints:
  defines "m f \<equiv> f AND (0x1 OR 0x2) = 0"
  shows "\<exists>ts. ts \<noteq> [] \<and> symbols_loop '','' (tl Open_flags) (if m f then ''O_RDONLY'' else []) f (m f) =
      Some (join_with (CHR '','') ts, f AND NOT (contained f Open_flags), True) \<and>
    set ts \<subseteq> fst ` set Open_flags \<and> bits_of (map_of Open_flags) ts = contained f Open_flags \<and>
    length (join_with (CHR '','') ts) < 256"
proof -
  define ts where "ts = (if m f then [''O_RDONLY''] else [])"
  have ts: "join_with (CHR '','') ts = (if m f then ''O_RDONLY'' else [])" "ts \<noteq> [] \<longleftrightarrow> m f" by (auto simp: ts_def)
  have len: "length (join_with (CHR '','') ts) \<le> 8" using ts by simp
  have "\<forall>(symbol, flag) \<in> set first_flags. flag \<noteq> 0 \<and> (f AND flag = flag \<longrightarrow> nested 0 flag) \<and> map_of Open_flags symbol = Some flag"
    using first_flags_ok(1) by auto
  note first = symbols_loop_value [OF this first_flags_ok(2), of ts]
  obtain us1 where us1: "symbols_loop '','' first_flags (join_with (CHR '','') ts) f (ts \<noteq> []) =
        Some (join_with (CHR '','') (ts @ us1), f AND NOT (contained f first_flags), ts @ us1 \<noteq> [])"
      "set us1 \<subseteq> fst ` set first_flags" "bits_of (map_of Open_flags) us1 = contained f first_flags"
      "length (join_with (CHR '','') (ts @ us1)) \<le> 91"
    using first len first_flags_ok(3) by auto
  obtain us2 where us2: "symbols_loop '','' last_flags (join_with (CHR '','') (ts @ us1)) (f AND NOT (contained f first_flags)) (ts @ us1 \<noteq> []) =
        Some (join_with (CHR '','') ((ts @ us1) @ us2), f AND NOT (contained f first_flags OR contained f last_flags), (ts @ us1) @ us2 \<noteq> [])"
      "set us2 \<subseteq> fst ` set last_flags"
      "contained f first_flags OR bits_of (map_of Open_flags) us2 = contained f first_flags OR contained f last_flags"
      "length (join_with (CHR '','') ((ts @ us1) @ us2)) < 256"
    using symbols_loop_value [OF last_flags_ok(1,2), of "ts @ us1" f] last_flags_ok(3) us1(4) by auto
  define us where "us = us1 @ us2"
  have us: "symbols_loop '','' (tl Open_flags) (join_with (CHR '','') ts) f (ts \<noteq> []) =
        Some (join_with (CHR '','') (ts @ us), f AND NOT (contained f Open_flags), ts @ us \<noteq> [])"
      "set us \<subseteq> fst ` set (tl Open_flags)" "bits_of (map_of Open_flags) us = contained f Open_flags"
      "length (join_with (CHR '','') (ts @ us)) < 256"
    using us1(1-3) us2 by (auto simp: us_def tables symbols_loop_append bits_of_append)
  have "map_of Open_flags ''O_RDONLY'' = Some 0" by (simp add: Open_flags_def)
  then have "bits_of (map_of Open_flags) (ts @ us) = bits_of (map_of Open_flags) us" by (simp add: ts_def bits_of_def)
  moreover have "set (tl Open_flags) \<subseteq> set Open_flags" "''O_RDONLY'' \<in> fst ` set Open_flags" by (simp_all add: Open_flags_def)
  then have "set us \<subseteq> fst ` set Open_flags" "set ts \<subseteq> fst ` set Open_flags" using us(2) by (blast, auto simp: ts_def)
  then have "set (ts @ us) \<subseteq> fst ` set Open_flags" by simp
  moreover have "ts @ us \<noteq> []"
    using us(3) ts(2) access_mode [of f] by (cases "us = []") (auto simp: m_def bits_of_def)
  ultimately show ?thesis using us unfolding ts by (intro exI [of _ "ts @ us"]) simp
qed

lemma symbols_known: "set ts \<subseteq> fst ` set Open_flags \<Longrightarrow>
  (\<forall>tok \<in> set ts. CHR '','' \<notin> set tok) \<and> (\<forall>tok \<in> set ts. map_of Open_flags tok \<noteq> None)"
proof -
  have "\<forall>tok \<in> fst ` set Open_flags. CHR '','' \<notin> set tok \<and> map_of Open_flags tok \<noteq> None"
    by (simp add: Open_flags_def)
  then show "set ts \<subseteq> fst ` set Open_flags \<Longrightarrow> ?thesis" by blast
qed

text \<open>C36: Printing any mask with commas fits the static buffer, and parsing the result gives the union of the flags
  of the table that the mask contains, which is the mask itself when it has no other bits. When unknown bits are
  to be shown (\<open>mode\<close> 1) and there are some, the result cannot be parsed: it ends in \<open>UNKNOWN\<close>, which is reported
  as the bad name.\<close>

theorem open_flags_roundtrip:
  "\<exists>s. openflags2symbols f '','' mode = Some s \<and>
    parse_open_flags s =
      (if f AND NOT (contained f Open_flags) \<noteq> 0 \<and> mode = 1 then (-1, Some ''UNKNOWN'')
       else (contained f Open_flags, None))"
proof -
  define m where "m \<longleftrightarrow> f AND (0x1 OR 0x2) = 0"
  obtain ts where ts: "ts \<noteq> []" "symbols_loop '','' (tl Open_flags) (if m then ''O_RDONLY'' else []) f m =
      Some (join_with (CHR '','') ts, f AND NOT (contained f Open_flags), True)"
    "set ts \<subseteq> fst ` set Open_flags" "bits_of (map_of Open_flags) ts = contained f Open_flags"
    "length (join_with (CHR '','') ts) < 256"
    using loop_prints [of f] unfolding m_def by blast
  let ?s = "if f AND NOT (contained f Open_flags) \<noteq> 0 \<and> mode = 1 then join_with (CHR '','') (ts @ [''UNKNOWN'']) else join_with (CHR '','') ts"
  have "openflags2symbols f '','' mode = Some ?s"
    using ts(1,2,5) unfolding openflags2symbols_def m_def [symmetric]
    by (cases m) (auto simp: str_cat_def join_snoc)
  moreover have "map_of Open_flags ''UNKNOWN'' = None" by (simp add: Open_flags_def)
  then have "parse_open_flags ?s = (if f AND NOT (contained f Open_flags) \<noteq> 0 \<and> mode = 1 then (-1, Some ''UNKNOWN'')
       else (contained f Open_flags, None))"
    using symbols_known [OF ts(3)] ts(1,4) comma_loop_join [of ts "map_of Open_flags" 0]
      comma_loop_join [of "ts @ [''UNKNOWN'']" "map_of Open_flags" 0]
    by (auto simp: parse_open_flags_def dropWhile_append2)
  ultimately show ?thesis by blast
qed

end
