(* ===== verification/Lib_Numbers.thy ===== *)
theory Lib_Numbers
  imports Complex_Main Prelude
begin

text \<open>
  Two small parts of the library that compute with numbers read from strings. \<^verbatim>\<open>lib/tst_kvercmp.c\<close>: the kernel
  release compared with a version. \<^verbatim>\<open>lib/bytes_by_prefix.c\<close>: sizes with a multiplier. The conversion \<open>%f\<close> of \<open>sscanf\<close>
  is a parameter \<open>scan\<close>: the value read (\<open>None\<close> when it is not finite) and the rest, or \<open>None\<close> when nothing matches; its
  law for whole numbers (\<open>scans_nats\<close>) says that the value is rounded to the bits of the format. The products with
  powers of two that follow are exact.
\<close>

section \<open>Kernel versions\<close>

fun strsep :: "char \<Rightarrow> string option \<Rightarrow> string option \<times> string option" where
  "strsep c None = (None, None)"
| "strsep c (Some s) = (let (token, rest) = cut_at c s in (Some token, rest))"

text \<open>\<open>atoi\<close> of a null pointer is undefined.\<close>

definition get_kver :: "string \<Rightarrow> (int \<times> int \<times> int) option" where
  "get_kver release =
     (let (r1, kver) = strsep (CHR ''.'') (Some release);
          (r2, kver) = strsep (CHR ''.'') kver;
          (r3, kver) = strsep (CHR ''.'') kver
      in do { r1 \<leftarrow> r1; r2 \<leftarrow> r2; r3 \<leftarrow> r3; Some (atoi r1, atoi r2, atoi r3) })"

text \<open>A left shift of a negative number, or past the range of \<open>int\<close>, is undefined.\<close>

definition shift_left :: "int \<Rightarrow> nat \<Rightarrow> int option" where
  "shift_left a k = (if a < 0 then None else checked 32 (a * 2 ^ k))"

definition kver_number :: "int \<Rightarrow> int \<Rightarrow> int \<Rightarrow> int option" where
  "kver_number r1 r2 r3 = do {
     a \<leftarrow> shift_left r1 16;
     b \<leftarrow> shift_left r2 8;
     ab \<leftarrow> checked 32 (a + b);
     checked 32 (ab + r3) }"

definition tst_kvercmp :: "string \<Rightarrow> int \<Rightarrow> int \<Rightarrow> int \<Rightarrow> int option" where
  "tst_kvercmp release r1 r2 r3 = do {
     (a1, a2, a3) \<leftarrow> get_kver release;
     testver \<leftarrow> kver_number r1 r2 r3;
     currver \<leftarrow> kver_number a1 a2 a3;
     checked 32 (currver - testver) }"

definition version_less :: "nat \<times> nat \<times> nat \<Rightarrow> nat \<times> nat \<times> nat \<Rightarrow> bool" where
  "version_less v w =
     (case (v, w) of ((a, b, c), (x, y, z)) \<Rightarrow> a < x \<or> a = x \<and> (b < y \<or> b = y \<and> c < z))"

definition small_version :: "nat \<times> nat \<times> nat \<Rightarrow> bool" where
  "small_version v = (case v of (a, b, c) \<Rightarrow> a < 2 ^ 14 \<and> b < 256 \<and> c < 256)"

lemma kver_number_value:
  "small_version (a, b, c) \<Longrightarrow> kver_number (int a) (int b) (int c) = Some (int a * 65536 + int b * 256 + int c)"
  by (simp add: kver_number_def shift_left_def small_version_def int_fits_def)

lemma digit_not_dot: "d < 10 \<Longrightarrow> digit_char d \<noteq> CHR ''.''"
  by (simp add: digit_char_def of_char_eq_iff [symmetric, where 'a = nat] del: of_char_eq_iff)

lemma get_kver_dots:
  assumes "\<not> starts_digit 10 rest" "CHR ''.'' \<notin> set rest"
  shows "get_kver (show_nat a @ ''.'' @ show_nat b @ ''.'' @ show_nat c @ rest) = Some (int a, int b, int c)"
proof -
  have dot: "CHR ''.'' \<notin> set (show_nat n)" for n
    using digit_not_dot by (auto dest!: show_nat_digits) metis
  have "atoi (show_nat n) = int n" "atoi (show_nat n @ rest) = int n" for n
    using atoi_show_int [of "[]" "int n"] atoi_show_int [of rest "int n"] assms(1)
    by (simp_all add: show_int_def starts_digit_def)
  with assms(2) dot show ?thesis by (simp add: get_kver_def cut_at_append cut_at_none)
qed

text \<open>The comparison with a release of three numbers below 256 (the first below \<open>2^14\<close>), whatever follows them,
  is defined, and its sign orders the versions lexicographically: positive when the running kernel is newer.\<close>

lemma tst_kvercmp_order:
  assumes "small_version (a, b, c)" "small_version (x, y, z)" "\<not> starts_digit 10 rest" "CHR ''.'' \<notin> set rest"
  shows "\<exists>d. tst_kvercmp (show_nat a @ ''.'' @ show_nat b @ ''.'' @ show_nat c @ rest) (int x) (int y) (int z) = Some d \<and>
    (0 < d \<longleftrightarrow> version_less (x, y, z) (a, b, c)) \<and> (d < 0 \<longleftrightarrow> version_less (a, b, c) (x, y, z)) \<and>
    (d = 0 \<longleftrightarrow> (a, b, c) = (x, y, z))"
proof -
  let ?d = "int a * 65536 + int b * 256 + int c - (int x * 65536 + int y * 256 + int z)"
  have small: "a < 2 ^ 14" "b < 256" "c < 256" "x < 2 ^ 14" "y < 256" "z < 256"
    using assms(1,2) by (auto simp: small_version_def)
  have "tst_kvercmp (show_nat a @ ''.'' @ show_nat b @ ''.'' @ show_nat c @ rest) (int x) (int y) (int z) = Some ?d"
    using small by (simp add: tst_kvercmp_def get_kver_dots [OF assms(3,4), simplified] kver_number_value [OF assms(1)]
        kver_number_value [OF assms(2)] int_fits_def)
  moreover have sgn: "0 < ?d \<longleftrightarrow> version_less (x, y, z) (a, b, c)" "?d < 0 \<longleftrightarrow> version_less (a, b, c) (x, y, z)"
    using small by (auto simp: version_less_def)
  moreover have "?d = 0 \<longleftrightarrow> \<not> 0 < ?d \<and> \<not> ?d < 0" by linarith
  then have "?d = 0 \<longleftrightarrow> (a, b, c) = (x, y, z)" unfolding sgn by (auto simp: version_less_def)
  ultimately show ?thesis by blast
qed

lemma tst_kvercmp_order_witness:
  "\<exists>d. tst_kvercmp ''3.10.5-rc1'' 3 2 200 = Some d \<and> 0 < d"
proof -
  have "show_nat 3 = ''3''" "show_nat 10 = ''10''" "show_nat 5 = ''5''" by code_simp+
  then show ?thesis
    using tst_kvercmp_order [of 3 10 5 3 2 200 "''-rc1''"]
    by (force simp: small_version_def version_less_def starts_digit_def digit_val_def)
qed

text \<open>A release with fewer than three numbers cannot be compared, and a third number above 255 spoils the order.\<close>

lemma tst_kvercmp_two_numbers:
  "CHR ''.'' \<notin> set s \<Longrightarrow> CHR ''.'' \<notin> set t \<Longrightarrow> tst_kvercmp (s @ ''.'' @ t) x y z = None"
  by (simp add: tst_kvercmp_def get_kver_def cut_at_append cut_at_none)

lemma tst_kvercmp_carry: "tst_kvercmp ''2.6.300'' 2 7 0 = Some 44"
  by code_simp

section \<open>Sizes with a multiplier\<close>

text \<open>What \<open>%f%c%c\<close> converts: the number of conversions (\<open>-1\<close> at the end of the string), the number and the
  first character.\<close>

definition scan_fcc :: "(string \<Rightarrow> (rat option \<times> string) option) \<Rightarrow> string \<Rightarrow> int \<times> rat option \<times> char" where
  "scan_fcc scan s =
     (case scan s of
        None \<Rightarrow> (if dropWhile is_space s = [] then -1 else 0, None, CHR 0x00)
      | Some (num, []) \<Rightarrow> (1, num, CHR 0x00)
      | Some (num, [mult]) \<Rightarrow> (2, num, mult)
      | Some (num, mult # junk # _) \<Rightarrow> (3, num, mult))"

definition B_MULT :: nat where "B_MULT = 512"
definition K_MULT :: nat where "K_MULT = 1024"
definition M_MULT :: nat where "M_MULT = 1048576"
definition G_MULT :: nat where "G_MULT = 1073741824"

text \<open>The conversion of a number that is not finite, or out of the range of the integer type, is undefined.\<close>

definition int_of_float :: "nat \<Rightarrow> rat option \<Rightarrow> int option" where
  "int_of_float w num = (case num of None \<Rightarrow> None | Some x \<Rightarrow> checked w (if 0 \<le> x then \<lfloor>x\<rfloor> else - \<lfloor>- x\<rfloor>))"

definition not_negative :: "int \<Rightarrow> int" where
  "not_negative result = (if result < 0 then -1 else result)"

definition scaled :: "nat \<Rightarrow> rat option \<Rightarrow> nat \<Rightarrow> int option" where
  "scaled w num m = map_option not_negative (int_of_float w (map_option (\<lambda>x. x * of_nat m) num))"

text \<open>The three functions: \<open>w\<close> is the width of the result, \<open>sz\<close> the size of the \<open>long\<close> type that is named in them. At the
  end of the string \<open>mult\<close> and \<open>num\<close> have no value.\<close>

definition by_prefix :: "nat \<Rightarrow> nat \<Rightarrow> (string \<Rightarrow> (rat option \<times> string) option) \<Rightarrow> string \<Rightarrow> int option" where
  "by_prefix w sz scan s =
     (let (nconv, num, mult) = scan_fcc scan s
      in if nconv = 0 \<or> nconv = 3 then Some (-1)
         else if nconv = 1 then map_option not_negative (int_of_float w num)
         else if nconv = -1 then None
         else if mult = CHR ''b'' then scaled w num B_MULT
         else if mult = CHR ''k'' then scaled w num K_MULT
         else if mult = CHR ''K'' then scaled w num (K_MULT * sz)
         else if mult = CHR ''m'' then scaled w num M_MULT
         else if mult = CHR ''M'' then scaled w num (M_MULT * sz)
         else if mult = CHR ''g'' then scaled w num G_MULT
         else if mult = CHR ''G'' then scaled w num (G_MULT * sz)
         else Some (-1))"

definition bytes_by_prefix :: "nat \<Rightarrow> (string \<Rightarrow> (rat option \<times> string) option) \<Rightarrow> string \<Rightarrow> int option" where
  "bytes_by_prefix sz scan s = by_prefix 32 sz scan s"

definition lbytes_by_prefix :: "nat \<Rightarrow> (string \<Rightarrow> (rat option \<times> string) option) \<Rightarrow> string \<Rightarrow> int option" where
  "lbytes_by_prefix sz scan s = by_prefix (8 * sz) sz scan s"

definition llbytes_by_prefix :: "(string \<Rightarrow> (rat option \<times> string) option) \<Rightarrow> string \<Rightarrow> int option" where
  "llbytes_by_prefix scan s = by_prefix 64 8 scan s"

text \<open>Rounding of a whole number to \<open>p\<close> bits, to even.\<close>

fun bit_len :: "nat \<Rightarrow> nat" where
  "bit_len n = (if n = 0 then 0 else Suc (bit_len (n div 2)))"

declare bit_len.simps [simp del]

definition float_nat :: "nat \<Rightarrow> nat \<Rightarrow> nat" where
  "float_nat p n =
     (let e = bit_len n - p; q = n div 2 ^ e; r = n mod 2 ^ e
      in (if 2 ^ e < 2 * r \<or> 2 ^ e = 2 * r \<and> odd q then q + 1 else q) * 2 ^ e)"

definition scans_nats :: "nat \<Rightarrow> (string \<Rightarrow> (rat option \<times> string) option) \<Rightarrow> bool" where
  "scans_nats p scan \<longleftrightarrow> (\<forall>n rest. n < 2 ^ 64 \<longrightarrow> (rest = [] \<or> hd rest \<in> set ''bkKmMgG'') \<longrightarrow>
     scan (show_nat n @ rest) = Some (Some (of_nat (float_nat p n)), rest))"

definition multipliers :: "nat \<Rightarrow> (string \<times> nat) list" where
  "multipliers sz = [([], 1), (''b'', 512), (''k'', 2 ^ 10), (''K'', 2 ^ 10 * sz), (''m'', 2 ^ 20), (''M'', 2 ^ 20 * sz),
     (''g'', 2 ^ 30), (''G'', 2 ^ 30 * sz)]"

lemma bit_len_le: "n < 2 ^ p \<Longrightarrow> bit_len n \<le> p"
proof (induction n arbitrary: p rule: bit_len.induct)
  case (1 n)
  show ?case
  proof (cases "n = 0")
    case False
    then obtain q where "p = Suc q" using "1.prems" by (cases p) auto
    then show ?thesis using "1.IH" [OF False, of q] "1.prems" False by (simp add: bit_len.simps [of n] less_mult_imp_div_less)
  qed (simp add: bit_len.simps)
qed

lemma float_nat_exact: "n < 2 ^ p \<Longrightarrow> float_nat p n = n"
  using bit_len_le [of n p] by (simp add: float_nat_def)

lemma by_prefix_value:
  assumes "scans_nats p scan" "n < 2 ^ 64" "(suffix, m) \<in> set (multipliers sz)"
  shows "by_prefix w sz scan (show_nat n @ suffix) = checked w (int (float_nat p n * m))"
proof -
  have "suffix = [] \<or> hd suffix \<in> set ''bkKmMgG''" using assms(3) by (auto simp: multipliers_def)
  then have s: "scan (show_nat n @ suffix) = Some (Some (of_nat (float_nat p n)), suffix)"
    using assms(1,2) unfolding scans_nats_def by blast
  have f: "map_option not_negative (int_of_float w (Some (rat_of_nat k))) = checked w (int k)" for k
    by (simp add: int_of_float_def not_negative_def checked_def)
  have g: "scaled w (Some (rat_of_nat (float_nat p n))) k = checked w (int (float_nat p n * k))" for k
    using f [of "float_nat p n * k"] by (simp add: scaled_def)
  show ?thesis
    using assms(3) by (auto simp: multipliers_def by_prefix_def scan_fcc_def s f g B_MULT_def K_MULT_def M_MULT_def G_MULT_def)
qed

text \<open>For a whole number below \<open>2^24\<close> with a known multiplier the result is the product when the type holds it, and
  the conversion is undefined otherwise (the program has no check). \<open>bytes_by_prefix\<close> and \<open>lbytes_by_prefix\<close> read a
  \<open>float\<close>, so that larger numbers are rounded to 24 bits first; \<open>llbytes_by_prefix\<close> is exact below \<open>2^53\<close>.\<close>

lemma bytes_by_prefix_value:
  assumes "scans_nats 24 scan" "scans_nats 53 lscan" "n < 2 ^ 64" "(suffix, m) \<in> set (multipliers sz)"
  shows "bytes_by_prefix sz scan (show_nat n @ suffix) = checked 32 (int (float_nat 24 n * m)) \<and>
    lbytes_by_prefix sz scan (show_nat n @ suffix) = checked (8 * sz) (int (float_nat 24 n * m)) \<and>
    (sz = 8 \<longrightarrow> llbytes_by_prefix lscan (show_nat n @ suffix) = checked 64 (int (float_nat 53 n * m))) \<and>
    (n < 2 ^ 24 \<longrightarrow> float_nat 24 n = n) \<and> (n < 2 ^ 53 \<longrightarrow> float_nat 53 n = n) \<and> float_nat 24 16777217 = 16777216"
proof -
  have "float_nat 24 16777217 = 16777216" by (simp add: float_nat_def bit_len.simps)
  then show ?thesis
    using by_prefix_value [OF assms(1,3,4)] by_prefix_value [OF assms(2,3), of suffix m 8] assms(4) float_nat_exact
    by (auto simp: bytes_by_prefix_def lbytes_by_prefix_def llbytes_by_prefix_def)
qed

definition demo_scan :: "nat \<Rightarrow> string \<Rightarrow> (rat option \<times> string) option" where
  "demo_scan p s = (if starts_digit 10 s then (let (n, rest) = scan_digits 10 0 s in Some (Some (of_nat (float_nat p n)), rest)) else None)"

lemma demo_scan_ok: "scans_nats p (demo_scan p)"
proof -
  have "\<not> starts_digit 10 rest" if "rest = [] \<or> hd rest \<in> set ''bkKmMgG''" for rest
    using that by (cases rest) (auto simp: starts_digit_def digit_val_def)
  moreover have "starts_digit 10 (show_nat n @ rest)" for n rest
    using show_nat_hd [of n] by (auto simp: starts_digit_def)
  ultimately show ?thesis by (simp add: scans_nats_def demo_scan_def scan_digits_show0)
qed

lemma bytes_by_prefix_value_witness:
  "bytes_by_prefix 8 (demo_scan 24) ''3k'' = Some 3072 \<and> bytes_by_prefix 8 (demo_scan 24) ''2g'' = None \<and>
   lbytes_by_prefix 8 (demo_scan 24) ''2g'' = Some 2147483648"
proof -
  have "show_nat 3 = ''3''" "show_nat 2 = ''2''" by code_simp+
  then show ?thesis
    using bytes_by_prefix_value [OF demo_scan_ok demo_scan_ok, of 3 "''k''" 1024 8]
      bytes_by_prefix_value [OF demo_scan_ok demo_scan_ok, of 2 "''g''" "2 ^ 30" 8]
    by (simp add: multipliers_def float_nat_exact checked_def int_fits_def)
qed

text \<open>The empty string is not reported as an error.\<close>

lemma bytes_by_prefix_empty: "bytes_by_prefix 8 (demo_scan 24) [] = None"
  by (simp add: bytes_by_prefix_def by_prefix_def scan_fcc_def demo_scan_def starts_digit_def)

end
