(* ===== verification/Self_Exec.thy ===== *)
theory Self_Exec
  imports Tst_Res
begin

text \<open>
  \<^verbatim>\<open>lib/self_exec.c\<close>: how a test program on a machine without \<open>fork\<close> runs itself again. \<open>self_exec\<close> writes the working
  directory and the arguments of the child into one string, separated by commas, which becomes the argument of the option
  \<^verbatim>\<open>-C\<close>; \<open>maybe_run_child\<close>, called by the new program, cuts that string up again, stores the arguments through the
  pointers that it is given, and calls the child function. Variable arguments are a list; what is stored through a
  pointer is a list of stores. Memory is taken to suffice. \<open>None\<close> is undefined behaviour, or a result that is not
  returned from (\<open>Tst_Res\<close>).
\<close>

section \<open>Writing the string\<close>

text \<open>The arguments of \<open>self_exec\<close> behind the format.\<close>

datatype exec_arg = Int_arg int | Str_arg string

text \<open>What the process has: its working directory (\<open>None\<close> if \<open>getcwd\<close> fails), the directory that
  \<open>maybe_run_child\<close> stored, and whether one can change to a directory.\<close>

record self_env =
  xe_cwd :: "string option"
  xe_start_cwd :: "string option"
  xe_chdir :: "string \<Rightarrow> bool"

datatype self_end = Execlp string "string list" | Returns int

text \<open>One step of the loop: the string with an argument added, \<open>Inl\<close> an unknown letter. An argument that does not have
  the type that its letter asks for is undefined.\<close>

fun add_arg :: "string \<Rightarrow> char \<Rightarrow> exec_arg list \<Rightarrow> (char + string \<times> exec_arg list) option" where
  "add_arg arg c vs =
     (if c = CHR ''d'' \<or> c = CHR ''n''
      then (case vs of Int_arg i # vs \<Rightarrow> Some (Inr (arg @ '','' @ show_int i, vs)) | _ \<Rightarrow> None)
      else if c = CHR ''s'' \<or> c = CHR ''S''
      then (case vs of Str_arg t # vs \<Rightarrow> Some (Inr (arg @ '','' @ t, vs)) | _ \<Rightarrow> None)
      else Some (Inl c))"

fun add_args :: "string \<Rightarrow> string \<Rightarrow> exec_arg list \<Rightarrow> (char + string) option" where
  "add_args arg [] vs = Some (Inr arg)"
| "add_args arg (c # fmt) vs =
     (case add_arg arg c vs of
        None \<Rightarrow> None
      | Some (Inl c) \<Rightarrow> Some (Inl c)
      | Some (Inr (arg, vs)) \<Rightarrow> add_args arg fmt vs)"

definition self_exec ::
  "tconf \<Rightarrow> self_env \<Rightarrow> string \<Rightarrow> string \<Rightarrow> exec_arg list \<Rightarrow> tst \<Rightarrow> (self_end \<times> tst) option" where
  "self_exec cf xe argv0 fmt vs s =
     (case xe_cwd xe of
        None \<Rightarrow> do { s \<leftarrow> tst_resm cf TBROK ''Could not getcwd()'' s; Some (Returns (-1), s) }
      | Some cwd \<Rightarrow> do {
          r \<leftarrow> add_args cwd fmt vs;
          (case r of
             Inl c \<Rightarrow> do {
               s \<leftarrow> tst_resm cf TBROK (''Format string option '' @ [c] @ '' not implemented'') s;
               Some (Returns (-1), s) }
           | Inr arg \<Rightarrow>
               if (case xe_start_cwd xe of None \<Rightarrow> True | Some d \<Rightarrow> \<not> xe_chdir xe d)
               then do {
                 s \<leftarrow> tst_resm cf TBROK (''Could not change to '' @ (case xe_start_cwd xe of None \<Rightarrow> ''(null)'' | Some d \<Rightarrow> d) @
                      '' for self_exec'') s;
                 Some (Returns (-1), s) }
               else Some (Execlp argv0 [argv0, ''-C'', arg], s)) })"

section \<open>Reading the string\<close>

text \<open>The arguments of \<open>maybe_run_child\<close> behind the format: a pointer to an \<open>int\<close>, a number to compare with, a buffer of
  a size, a pointer to a string; and what was stored, in order.\<close>

datatype child_slot = Int_ptr | Int_val int | Char_buf nat | Str_ptr

datatype stored = Got_int int | Got_str string

text \<open>\<open>strtol\<close> with base 10 on a 64-bit \<open>long\<close>, then \<open>i = \<dots>\<close>: the value is cut to 32 bits. No digit means that nothing
  is read.\<close>

definition strtol10 :: "string \<Rightarrow> int \<times> string" where
  "strtol10 s =
     (let (neg, r) = scan_sign (dropWhile is_space s); (n, rest) = scan_digits 10 0 r
      in if starts_digit 10 r
         then (max (- (2 ^ 63)) (min (2 ^ 63 - 1) (if neg then - int n else int n)), rest)
         else (0, s))"

definition to_int32 :: "int \<Rightarrow> int" where
  "to_int32 v = (v + 2 ^ 31) mod 2 ^ 32 - 2 ^ 31"

text \<open>How the loop over the format leaves: with the arguments read, with another child's number, or with the end of the
  process. \<open>tst_brkm\<close> returns only inside of a cleanup function, and then the code goes on.\<close>

datatype child_args_end = All_read "stored list" tst | Other_child "stored list" tst | Child_exit int tst

definition bad_arg :: "tconf \<Rightarrow> tst \<Rightarrow> ctl option" where
  "bad_arg cf s = tst_brkm cf TBROK None ''Invalid argument to -C option'' s"

text \<open>\<open>tok\<close> is the rest of the string that \<open>strtok\<close> goes on with.\<close>

fun read_args ::
  "tconf \<Rightarrow> string \<Rightarrow> child_slot list \<Rightarrow> string \<Rightarrow> stored list \<Rightarrow> tst \<Rightarrow> child_args_end option" where
  "read_args cf [] vs str got s = Some (All_read got s)"
| "read_args cf (c # fmt) vs str got s =
     (case strtok '','' str of
        None \<Rightarrow> (case bad_arg cf s of Some (Exited e s) \<Rightarrow> Some (Child_exit e s) | _ \<Rightarrow> None)
      | Some (tok, str) \<Rightarrow>
          (let (l, endp) = strtol10 tok; i = to_int32 l
           in if c = CHR ''d'' then
                (case vs of
                   Int_ptr # vs \<Rightarrow> do {
                     k \<leftarrow> (if endp \<noteq> [] then bad_arg cf s else Some (Go s));
                     (case k of Exited e s \<Rightarrow> Some (Child_exit e s)
                      | Go s \<Rightarrow> read_args cf fmt vs str (got @ [Got_int i]) s) }
                 | _ \<Rightarrow> None)
              else if c = CHR ''n'' then
                (case vs of
                   Int_val j # vs \<Rightarrow> do {
                     k \<leftarrow> (if endp \<noteq> [] then bad_arg cf s else Some (Go s));
                     (case k of Exited e s \<Rightarrow> Some (Child_exit e s)
                      | Go s \<Rightarrow> if j \<noteq> i then Some (Other_child got s) else read_args cf fmt vs str got s) }
                 | _ \<Rightarrow> None)
              else if c = CHR ''s'' then
                (case vs of
                   Char_buf n # vs \<Rightarrow> if length tok < n then read_args cf fmt vs str (got @ [Got_str tok]) s else None
                 | _ \<Rightarrow> None)
              else if c = CHR ''S'' then
                (case vs of
                   Str_ptr # vs \<Rightarrow> read_args cf fmt vs str (got @ [Got_str tok]) s
                 | _ \<Rightarrow> None)
              else do {
                k \<leftarrow> tst_brkm cf TBROK None (''Format string option '' @ [c] @ '' not implemented'') s;
                (case k of Exited e s \<Rightarrow> Some (Child_exit e s)
                 | Go s \<Rightarrow> read_args cf fmt vs str got s) }))"

text \<open>The call: \<open>args\<close> is the argument of \<^verbatim>\<open>-C\<close>, \<open>child\<close> the function that is called with what was stored, in a
  directory. The result has the directory that is stored for \<open>self_exec\<close>, and what was stored.\<close>

definition maybe_run_child ::
  "tconf \<Rightarrow> self_env \<Rightarrow> string option \<Rightarrow> (stored list \<Rightarrow> self_env \<Rightarrow> tst \<Rightarrow> ctl option) \<Rightarrow> string \<Rightarrow> child_slot list \<Rightarrow> tst \<Rightarrow>
     (ctl \<times> self_env \<times> stored list) option" where
  "maybe_run_child cf xe args child fmt vs s =
     (let xe = xe\<lparr>xe_start_cwd := xe_cwd xe\<rparr>
      in case args of
        None \<Rightarrow> Some (Go s, xe, [])
      | Some args \<Rightarrow> do {
          (child_dir, str) \<leftarrow> strtok '','' args;
          r \<leftarrow> read_args cf fmt vs str [] s;
          (case r of
             Child_exit e s \<Rightarrow> Some (Exited e s, xe, [])
           | Other_child got s \<Rightarrow> Some (Go s, xe, got)
           | All_read got s \<Rightarrow> do {
               k \<leftarrow> (if xe_chdir xe child_dir then Some (Go s)
                    else tst_brkm cf TBROK None (''Could not change to '' @ child_dir @ '' for child'') s);
               (case k of
                  Exited e s \<Rightarrow> Some (Exited e s, xe, got)
                | Go s \<Rightarrow> do {
                    let xe = (if xe_chdir xe child_dir then xe\<lparr>xe_cwd := Some child_dir\<rparr> else xe);
                    k \<leftarrow> child got xe s;
                    (case k of
                       Exited e s \<Rightarrow> Some (Exited e s, xe, got)
                     | Go s \<Rightarrow> do { s \<leftarrow> tst_resm cf TWARN ''Child function returned unexpectedly'' s; Some (Go s, xe, got) }) }) }) })"

section \<open>What is written is read back\<close>

definition word_ok :: "string \<Rightarrow> bool" where
  "word_ok t \<longleftrightarrow> t \<noteq> [] \<and> CHR '','' \<notin> set t"

text \<open>The arguments of both sides agree with the format: numbers are \<open>int\<close>s, strings are neither empty nor contain
  a comma, and buffers are large enough.\<close>

fun agree1 :: "char \<Rightarrow> exec_arg \<Rightarrow> child_slot \<Rightarrow> bool" where
  "agree1 c (Int_arg i) p \<longleftrightarrow> int_fits 32 i \<and> (c = CHR ''d'' \<and> p = Int_ptr \<or> c = CHR ''n'' \<and> (\<exists>j. p = Int_val j))"
| "agree1 c (Str_arg t) p \<longleftrightarrow> word_ok t \<and> (c = CHR ''S'' \<and> p = Str_ptr \<or> c = CHR ''s'' \<and> (\<exists>n > length t. p = Char_buf n))"

fun args_agree :: "string \<Rightarrow> exec_arg list \<Rightarrow> child_slot list \<Rightarrow> bool" where
  "args_agree [] [] [] = True"
| "args_agree (c # fmt) (v # vs) (p # ps) \<longleftrightarrow> agree1 c v p \<and> args_agree fmt vs ps"
| "args_agree _ _ _ = False"

text \<open>What the child gets: the arguments in order, up to the first number that is not its own.\<close>

fun handed_over :: "exec_arg list \<Rightarrow> child_slot list \<Rightarrow> stored list" where
  "handed_over (Int_arg i # vs) (Int_val j # ps) = (if i = j then handed_over vs ps else [])"
| "handed_over (Int_arg i # vs) (p # ps) = Got_int i # handed_over vs ps"
| "handed_over (Str_arg t # vs) (p # ps) = Got_str t # handed_over vs ps"
| "handed_over _ _ = []"

definition same_child :: "exec_arg list \<Rightarrow> child_slot list \<Rightarrow> bool" where
  "same_child vs ps \<longleftrightarrow> (\<forall>(v, p) \<in> set (zip vs ps). \<forall>i j. v = Int_arg i \<longrightarrow> p = Int_val j \<longrightarrow> i = j)"

fun arg_text :: "exec_arg \<Rightarrow> string" where
  "arg_text (Int_arg i) = show_int i"
| "arg_text (Str_arg t) = t"

definition arg_tail :: "exec_arg list \<Rightarrow> string" where
  "arg_tail vs = concat (map (\<lambda>v. CHR '','' # arg_text v) vs)"

lemma arg_tail_simps [simp]:
  "arg_tail [] = []" "arg_tail (v # vs) = CHR '','' # arg_text v @ arg_tail vs"
  by (simp_all add: arg_tail_def)

lemma add_args_agree:
  "args_agree fmt vs ps \<Longrightarrow> add_args arg fmt vs = Some (Inr (arg @ arg_tail vs))"
proof (induction fmt vs ps arbitrary: arg rule: args_agree.induct)
  case (2 c fmt v vs p ps)
  then show ?case by (cases v) auto
qed auto

lemma arg_text_word: "agree1 c v p \<Longrightarrow> word_ok (arg_text v)"
  by (cases v) (auto simp: word_ok_def show_int_avoids)

lemma strtok_word:
  assumes "word_ok t" shows "strtok '','' (t @ arg_tail vs) = Some (t, tl (arg_tail vs))"
  using assms strtok_append [of t "'',''" "CHR '',''"] strtok_last [of t "'',''"] by (cases vs) (auto simp: word_ok_def)

lemma strtok_tail: "word_ok t \<Longrightarrow> strtok '','' (tl (CHR '','' # t @ arg_tail vs)) = Some (t, tl (arg_tail vs))"
  by (simp add: strtok_word)

lemma strtol10_show: "int_fits 32 i \<Longrightarrow> strtol10 (show_int i) = (i, [])"
proof -
  assume fit: "int_fits 32 i"
  have dig: "starts_digit 10 (show_nat n)" for n using show_nat_hd [of n] by (auto simp: starts_digit_def)
  have scan: "scan_digits 10 0 (show_nat n) = (n, [])" for n
    using scan_digits_show0 [of "[]" n] by (simp add: starts_digit_def)
  have minus: "scan_sign (CHR ''-'' # r) = (True, r)" for r by (simp add: scan_sign_def)
  show ?thesis
    using fit show_nat_first [where r = "[]"]
    by (simp add: strtol10_def show_int_def dig scan minus is_space_def int_fits_def)
qed

lemma to_int32_fits: "int_fits 32 i \<Longrightarrow> to_int32 i = i"
  by (simp add: to_int32_def int_fits_def)

lemma same_child_Cons:
  "same_child (v # vs) (p # ps) \<longleftrightarrow> (\<forall>i j. v = Int_arg i \<longrightarrow> p = Int_val j \<longrightarrow> i = j) \<and> same_child vs ps"
  by (auto simp: same_child_def)

lemma read_args_agree:
  assumes "args_agree fmt vs ps"
  shows "read_args cf fmt ps (tl (arg_tail vs)) got s =
    Some ((if same_child vs ps then All_read else Other_child) (got @ handed_over vs ps) s)"
  using assms
proof (induction fmt vs ps arbitrary: got rule: args_agree.induct)
  case (2 c fmt v vs p ps)
  then have ag: "agree1 c v p" and IH: "read_args cf fmt ps (tl (arg_tail vs)) got s =
    Some ((if same_child vs ps then All_read else Other_child) (got @ handed_over vs ps) s)" for got by simp_all
  have tok: "strtok '','' (arg_text v @ arg_tail vs) = Some (arg_text v, tl (arg_tail vs))"
    by (rule strtok_word [OF arg_text_word [OF ag]])
  show ?case
  proof (cases v)
    case (Int_arg i)
    with ag have fit: "int_fits 32 i" by simp
    have d: "strtok '','' (show_int i @ arg_tail vs) = Some (show_int i, tl (arg_tail vs))" using tok Int_arg by simp
    from Int_arg ag consider "c = CHR ''d''" "p = Int_ptr" | j where "c = CHR ''n''" "p = Int_val j" by auto
    then show ?thesis
      by cases (simp_all add: Int_arg d strtol10_show [OF fit] to_int32_fits [OF fit] IH same_child_Cons)
  next
    case (Str_arg t)
    have d: "strtok '','' (t @ arg_tail vs) = Some (t, tl (arg_tail vs))" using tok Str_arg by simp
    obtain l e where l: "strtol10 t = (l, e)" by (cases "strtol10 t")
    from Str_arg ag consider "c = CHR ''S''" "p = Str_ptr" | n where "c = CHR ''s''" "p = Char_buf n" "length t < n" by auto
    then show ?thesis by cases (simp_all add: Str_arg d l IH same_child_Cons)
  qed
qed (auto simp: same_child_def)

section \<open>Properties\<close>



text \<open>An empty string is lost: \<open>strtok\<close> skips it, so that the next argument takes its place, and the child ends with
  a break because the last one is missing.\<close>

lemma self_exec_empty_arg:
  assumes "word_ok cwd" "word_ok t"
  shows "add_args cwd ''SS'' [Str_arg [], Str_arg t] = Some (Inr (cwd @ '',,'' @ t))"
    and "strtok '','' (cwd @ '',,'' @ t) = Some (cwd, CHR '','' # t)"
    and "read_args cf ''SS'' [Str_ptr, Str_ptr] (CHR '','' # t) [] s =
      (case bad_arg cf s of Some (Exited e s') \<Rightarrow> Some (Child_exit e s') | _ \<Rightarrow> None)"
proof -
  show "strtok '','' (cwd @ '',,'' @ t) = Some (cwd, CHR '','' # t)"
    using assms(1) strtok_append [of cwd "'',''" "CHR '',''"] by (auto simp: word_ok_def)
  have "strtok '','' (CHR '','' # t) = Some (t, [])" using assms(2) strtok_last [of t "'',''"]
    by (auto simp: word_ok_def strtok_def)
  moreover have "strtok '','' [] = None" by (simp add: strtok_def)
  ultimately show "read_args cf ''SS'' [Str_ptr, Str_ptr] (CHR '','' # t) [] s =
      (case bad_arg cf s of Some (Exited e s') \<Rightarrow> Some (Child_exit e s') | _ \<Rightarrow> None)"
    by (cases "strtol10 t") simp
qed simp

end
