(* ===== verification/File_Lock.thy ===== *)
theory File_Lock
  imports Prelude
begin

text \<open>
  \<^verbatim>\<open>lib/file_lock.c\<close>: locks on a whole file and on a record. The kernel is the function \<open>ans\<close> of the number of the call
  of \<open>fcntl\<close>: \<open>Inl\<close> an \<open>errno\<close>, \<open>Inr\<close> the value returned. \<open>None\<close> is a loop that never ends, or a text that does not fit
  in its buffer. The constants are those of Linux, where \<open>EFILESH\<close> is not defined.
\<close>

section \<open>Flags and texts\<close>

definition LOCK_SH :: int where "LOCK_SH = 1"
definition LOCK_EX :: int where "LOCK_EX = 2"
definition LOCK_NB :: int where "LOCK_NB = 4"
definition LOCK_UN :: int where "LOCK_UN = 8"
definition F_SETLK :: int where "F_SETLK = 6"
definition F_SETLKW :: int where "F_SETLKW = 7"
definition EACCES :: int where "EACCES = 13"
definition EFSEXCLWR :: int where "EFSEXCLWR = 503"

lemmas lock_consts = LOCK_SH_def LOCK_EX_def LOCK_NB_def LOCK_UN_def F_SETLK_def F_SETLKW_def EACCES_def EFSEXCLWR_def EINTR_def

definition lock_cmd :: "int \<Rightarrow> int" where
  "lock_cmd flags = (if flags AND LOCK_NB \<noteq> 0 then F_SETLK else F_SETLKW)"

definition lock_type :: "int \<Rightarrow> int option" where
  "lock_type flags =
     (if flags AND LOCK_UN \<noteq> 0 then Some 2
      else if flags AND LOCK_EX \<noteq> 0 then Some 1
      else if flags AND LOCK_SH \<noteq> 0 then Some 0 else None)"

text \<open>\<open>sprintf\<close> into a buffer.\<close>

definition sprintf_buf :: "nat \<Rightarrow> string \<Rightarrow> string option" where
  "sprintf_buf n s = (if length s < n then Some s else None)"

definition syscall_text :: "int \<Rightarrow> int \<Rightarrow> int \<Rightarrow> int \<Rightarrow> int \<Rightarrow> string" where
  "syscall_text fd cmd typ start len =
     ''fcntl('' @ show_int fd @ '', '' @ show_int cmd @ '', &flocks): type:'' @ show_int typ @ '' whence:0, start:'' @
     show_int start @ '' len:'' @ show_int len @ [CHR 0x0A]"

definition fcntl_text :: "(int \<Rightarrow> string) \<Rightarrow> int \<Rightarrow> int \<Rightarrow> int \<Rightarrow> string" where
  "fcntl_text strerr fd cmd e =
     ''fcntl('' @ show_int fd @ '', '' @ show_int cmd @ '', &flocks): errno:'' @ show_int e @ '' '' @ strerr e @ [CHR 0x0A]"

section \<open>The calls\<close>

definition retried :: "int \<Rightarrow> int + int \<Rightarrow> bool" where
  "retried cmd a \<longleftrightarrow> cmd = F_SETLK \<and> (case a of Inl e \<Rightarrow> e = EACCES \<or> e = EINTR \<or> e = EFSEXCLWR | Inr r \<Rightarrow> False)"

partial_function (option) lock_loop :: "(nat \<Rightarrow> int + int) \<Rightarrow> int \<Rightarrow> nat \<Rightarrow> ((int + int) \<times> nat) option" where
  "lock_loop ans cmd n = (if retried cmd (ans n) then lock_loop ans cmd (n + 1) else Some (ans n, n + 1))"

declare lock_loop.simps [code]

text \<open>What a call leaves behind: \<open>Fl_syscall_str\<close>, and the message when one was asked for.\<close>

record lock_out =
  lo_ret :: int
  lo_errno :: int
  lo_syscall :: string
  lo_msg :: "string option"
  lo_calls :: nat

definition lock_with ::
  "string \<Rightarrow> (int \<Rightarrow> string) \<Rightarrow> (nat \<Rightarrow> int + int) \<Rightarrow> bool \<Rightarrow> int \<Rightarrow> int \<Rightarrow> int \<Rightarrow> int \<Rightarrow> string \<Rightarrow> lock_out option" where
  "lock_with name strerr ans want fd flags start len prev =
     (case lock_type flags of
        None \<Rightarrow> Some \<lparr>lo_ret = -1, lo_errno = 22, lo_syscall = prev,
          lo_msg = (if want then Some (''Programmer error, called '' @ name @ '' with in valid flags'' @ [CHR 0x0A]) else None),
          lo_calls = 0\<rparr>
      | Some typ \<Rightarrow> do {
          txt \<leftarrow> sprintf_buf 128 (syscall_text fd (lock_cmd flags) typ start len);
          (a, n) \<leftarrow> lock_loop ans (lock_cmd flags) 0;
          (case a of
             Inr r \<Rightarrow> Some \<lparr>lo_ret = r, lo_errno = 0, lo_syscall = txt, lo_msg = None, lo_calls = n\<rparr>
           | Inl e \<Rightarrow> do {
               m \<leftarrow> (if want then map_option Some (sprintf_buf 256 (fcntl_text strerr fd (lock_cmd flags) e)) else Some None);
               Some \<lparr>lo_ret = -1, lo_errno = e, lo_syscall = txt, lo_msg = m, lo_calls = n\<rparr> }) })"

definition file_lock ::
  "(int \<Rightarrow> string) \<Rightarrow> (nat \<Rightarrow> int + int) \<Rightarrow> bool \<Rightarrow> int \<Rightarrow> int \<Rightarrow> string \<Rightarrow> lock_out option" where
  "file_lock strerr ans want fd flags prev = lock_with ''file_lock'' strerr ans want fd flags 0 0 prev"

definition record_lock ::
  "(int \<Rightarrow> string) \<Rightarrow> (nat \<Rightarrow> int + int) \<Rightarrow> bool \<Rightarrow> int \<Rightarrow> int \<Rightarrow> int \<Rightarrow> int \<Rightarrow> string \<Rightarrow> lock_out option" where
  "record_lock strerr ans want fd flags start len prev = lock_with ''record_lock'' strerr ans want fd flags start len prev"

section \<open>Lemmas\<close>

lemma lock_loop_first:
  assumes "\<forall>k < n. retried cmd (ans (i + k))" "\<not> retried cmd (ans (i + n))"
  shows "lock_loop ans cmd i = Some (ans (i + n), i + n + 1)"
  using assms
proof (induction n arbitrary: i)
  case 0
  then show ?case by (simp add: lock_loop.simps [of ans cmd i])
next
  case (Suc n)
  have "retried cmd (ans i)" using Suc.prems(1) by force
  moreover have "\<forall>k < n. retried cmd (ans (i + 1 + k))" using Suc.prems(1) by force
  ultimately show ?case using Suc.IH [of "i + 1"] Suc.prems(2) by (simp add: lock_loop.simps [of ans cmd i])
qed

lemma lock_loop_final:
  assumes "lock_loop ans cmd i = Some r" shows "\<exists>k. \<not> retried cmd (ans k)"
proof (rule lock_loop.raw_induct [OF _ assms, of "\<lambda>ans cmd i r. \<exists>k. \<not> retried cmd (ans k)"])
  fix loop :: "(nat \<Rightarrow> int + int) \<Rightarrow> int \<Rightarrow> nat \<Rightarrow> ((int + int) \<times> nat) option" and ans cmd n y
  assume "\<And>ans cmd n y. loop ans cmd n = Some y \<Longrightarrow> \<exists>k. \<not> retried cmd (ans k)"
    "(if retried cmd (ans n) then loop ans cmd (n + 1) else Some (ans n, n + 1)) = Some y"
  then show "\<exists>k. \<not> retried cmd (ans k)" by (auto split: if_splits)
qed

lemma lock_texts_fit:
  assumes "int_fits 32 fd" "int_fits 32 start" "int_fits 32 len" "lock_type flags = Some typ"
  shows "sprintf_buf 128 (syscall_text fd (lock_cmd flags) typ start len) = Some (syscall_text fd (lock_cmd flags) typ start len)"
    and "int_fits 32 e \<Longrightarrow> length (strerr e) \<le> 180 \<Longrightarrow>
      sprintf_buf 256 (fcntl_text strerr fd (lock_cmd flags) e) = Some (fcntl_text strerr fd (lock_cmd flags) e)"
proof -
  have "length (show_int (lock_cmd flags)) = 1" "length (show_int typ) = 1"
    using assms(4) by (auto simp: lock_cmd_def lock_type_def lock_consts show_int_def show_nat.simps split: if_splits)
  then show "sprintf_buf 128 (syscall_text fd (lock_cmd flags) typ start len) = Some (syscall_text fd (lock_cmd flags) typ start len)"
    "int_fits 32 e \<Longrightarrow> length (strerr e) \<le> 180 \<Longrightarrow>
      sprintf_buf 256 (fcntl_text strerr fd (lock_cmd flags) e) = Some (fcntl_text strerr fd (lock_cmd flags) e)"
    using show_pid_length [OF assms(1)] show_pid_length [OF assms(2)] show_pid_length [OF assms(3)] show_pid_length [of e]
    by (auto simp: sprintf_buf_def syscall_text_def fcntl_text_def)
qed

section \<open>Properties\<close>



end
