(* ===== verification/Tst_Sig.thy ===== *)
theory Tst_Sig
  imports Tst_Res
begin

text \<open>
  \<^verbatim>\<open>lib/tst_sig.c\<close>: the handlers of unexpected signals. The record \<open>sigs\<close> has the dispositions of the process and
  \<open>T_cleanup\<close>; \<open>refuse\<close> are the signals for which \<open>sigaction\<close> fails. The signals are numbered as on Linux, where none
  of \<open>_SC_SIGRT_MIN\<close>, \<open>SIGSWAP\<close>, \<open>SIGCKPT\<close> and their like is defined, so that the real-time signals are those that the
  labels of the switch name, from \<open>__SIGRTMIN\<close> (32) and \<open>__SIGRTMAX\<close> (64) on.
\<close>

section \<open>The switch\<close>

definition NSIG :: int where "NSIG = 65"
definition SIGRTMIN :: int where "SIGRTMIN = 32"
definition SIGRTMAX :: int where "SIGRTMAX = 64"
definition FORK_flag :: int where "FORK_flag = 1"

lemmas sig_defs = NSIG_def SIGRTMIN_def SIGRTMAX_def

definition ignored_labels :: "int list" where
  "ignored_labels = [SIGKILL, SIGSTOP, SIGCONT] @ map (\<lambda>i. SIGRTMIN + i) [0..15] @ map (\<lambda>i. SIGRTMAX - i) [0..15]"

datatype sig_handler = Sig_dfl | Sig_ign | Default_handler | User_handler nat

record sigs =
  sg_table :: "int \<Rightarrow> sig_handler"
  T_cleanup :: "(tst \<Rightarrow> ctl option) option"

text \<open>\<open>tst_setup_signal\<close>: the old handler, or \<open>None\<close> for \<open>SIG_ERR\<close>.\<close>

definition tst_setup_signal :: "(int \<Rightarrow> bool) \<Rightarrow> int \<Rightarrow> sig_handler \<Rightarrow> sigs \<Rightarrow> sig_handler option \<times> sigs" where
  "tst_setup_signal refuse sig handler g =
     (if refuse sig then (None, g)
      else (Some (sg_table g sig), g\<lparr>sg_table := (sg_table g)(sig := handler)\<rparr>))"

fun sig_loop ::
  "tconf \<Rightarrow> (int \<Rightarrow> bool) \<Rightarrow> int \<Rightarrow> int \<Rightarrow> sig_handler \<Rightarrow> int list \<Rightarrow> sigs \<Rightarrow> tst \<Rightarrow> (sigs \<times> tst) option" where
  "sig_loop cf refuse fork_flag copies handler [] g s = Some (g, s)"
| "sig_loop cf refuse fork_flag copies handler (sig # rest) g s =
     (if sig \<in> set ignored_labels then sig_loop cf refuse fork_flag copies handler rest g s
      else if sig = SIGCLD \<and> (fork_flag = FORK_flag \<or> copies > 1) then sig_loop cf refuse fork_flag copies handler rest g s
      else (case tst_setup_signal refuse sig handler g of
          (None, g) \<Rightarrow> do {
            s \<leftarrow> tst_resm cf (TWARN OR TERRNO) (''signal failed for signal '' @ show_int sig) s;
            sig_loop cf refuse fork_flag copies handler rest g s }
        | (Some _, g) \<Rightarrow> sig_loop cf refuse fork_flag copies handler rest g s))"

text \<open>\<open>handler\<close> is \<open>None\<close> for \<open>DEF_HANDLER\<close>; \<open>copies\<close> is \<open>STD_COPIES\<close>.\<close>

definition tst_sig ::
  "tconf \<Rightarrow> (int \<Rightarrow> bool) \<Rightarrow> int \<Rightarrow> int \<Rightarrow> sig_handler option \<Rightarrow> (tst \<Rightarrow> ctl option) option \<Rightarrow> sigs \<Rightarrow> tst \<Rightarrow> (sigs \<times> tst) option" where
  "tst_sig cf refuse fork_flag copies handler cleanup g s =
     sig_loop cf refuse fork_flag copies (case handler of None \<Rightarrow> Default_handler | Some h \<Rightarrow> h) [1..NSIG - 1]
       (g\<lparr>T_cleanup := cleanup\<rparr>) s"

definition def_handler :: "tconf \<Rightarrow> sigs \<Rightarrow> int \<Rightarrow> int \<Rightarrow> tst \<Rightarrow> ctl option" where
  "def_handler cf g pid sig s =
     tst_brkm cf TBROK (T_cleanup g) (''unexpected signal '' @ show_int sig @ '' received (pid = '' @ show_int pid @ '').'') s"

section \<open>The signals that are caught\<close>

text \<open>The ordinary signals but \<open>SIGKILL\<close>, \<open>SIGSTOP\<close> and \<open>SIGCONT\<close>, without \<open>SIGCLD\<close> when there are children, and the signal
  48, which is between the labels.\<close>

definition caught :: "int \<Rightarrow> int \<Rightarrow> int set" where
  "caught fork_flag copies =
     {sig. (1 \<le> sig \<and> sig \<le> 31 \<and> sig \<notin> {SIGKILL, SIGSTOP, SIGCONT} \<or> sig = 48) \<and>
           \<not> (sig = SIGCLD \<and> (fork_flag = FORK_flag \<or> copies > 1))}"

lemma ignored_set: "set ignored_labels = {9, 18, 19} \<union> {32..64} - {48}"
proof -
  have "(\<lambda>i. 32 + i) ` {0..15} = {32..47 :: int}" "(\<lambda>i. 64 - i) ` {0..15} = {49..64 :: int}"
    by (auto simp: image_iff intro: bexI [of _ "_ - 32"] bexI [of _ "64 - _"])
  then show ?thesis by (auto simp: ignored_labels_def sig_defs)
qed

lemma caught_iff:
  "sig \<in> caught fork_flag copies \<longleftrightarrow>
     1 \<le> sig \<and> sig < NSIG \<and> sig \<notin> set ignored_labels \<and> \<not> (sig = SIGCLD \<and> (fork_flag = FORK_flag \<or> copies > 1))"
  unfolding ignored_set by (auto simp: caught_def sig_defs)

text \<open>The loop over any list of signals: the table afterwards. Only a refused signal changes the results, by a warning.\<close>

lemma sig_loop_table:
  assumes "sig_loop cf refuse fork_flag copies h sl g s = Some (g', s')"
  shows "sg_table g' sig =
      (if sig \<in> set sl \<and> sig \<notin> set ignored_labels \<and> \<not> (sig = SIGCLD \<and> (fork_flag = FORK_flag \<or> copies > 1)) \<and> \<not> refuse sig
       then h else sg_table g sig) \<and> T_cleanup g' = T_cleanup g"
  using assms by (induction sl arbitrary: g s)
    (auto simp: tst_setup_signal_def bind_eq_Some_conv split: if_splits)

lemma sig_loop_accepted:
  assumes "\<forall>sig \<in> set sl. refuse sig \<longrightarrow> sig \<in> set ignored_labels"
  shows "\<exists>g'. sig_loop cf refuse fork_flag copies h sl g s = Some (g', s)"
  using assms by (induction sl arbitrary: g) (auto simp: tst_setup_signal_def)

section \<open>Properties\<close>

text \<open>C30: when \<open>sigaction\<close> accepts every signal but those that cannot be caught, \<open>tst_sig\<close> installs the handler for
  exactly the signals of \<open>caught\<close>, prints nothing, and leaves every other disposition as it is; the real-time signal 48
  is among them although the real-time signals are meant to be ignored. With the default handler and without a cleanup
  function, such a signal then ends the test with one broken result, the message with its number first.\<close>

theorem tst_sig_catches:
  assumes "\<forall>sig. 1 \<le> sig \<longrightarrow> sig < NSIG \<longrightarrow> sig \<noteq> SIGKILL \<longrightarrow> sig \<noteq> SIGSTOP \<longrightarrow> \<not> refuse sig"
  shows "\<exists>g'. tst_sig cf refuse fork_flag copies handler None g s = Some (g', s) \<and>
    (\<forall>sig. sg_table g' sig = (if sig \<in> caught fork_flag copies
       then (case handler of None \<Rightarrow> Default_handler | Some h \<Rightarrow> h) else sg_table g sig)) \<and>
    (\<forall>q sig pid. int_fits 32 sig \<longrightarrow> int_fits 32 pid \<longrightarrow> T_mode q = VERBOSE \<longrightarrow> \<not> first_time q \<longrightarrow> File q = None \<longrightarrow>
       Last q = None \<longrightarrow> 0 \<le> tst_count q \<longrightarrow> tst_count q < 2 ^ 31 - 2 \<longrightarrow> tst_brk_entered q = 0 \<longrightarrow> tcid_ok cf \<longrightarrow>
       (\<exists>q'. def_handler cf g' pid sig q = Some (Exited (exit_status (T_exitval q OR TBROK)) q') \<and>
          length (T_out q') = length (T_out q) + 2))"
proof -
  let ?h = "case handler of None \<Rightarrow> Default_handler | Some h \<Rightarrow> h"
  have "\<forall>sig \<in> set [1..NSIG - 1]. refuse sig \<longrightarrow> sig \<in> set ignored_labels"
    using assms by (auto simp: ignored_labels_def)
  from sig_loop_accepted [OF this] obtain g' where g': "tst_sig cf refuse fork_flag copies handler None g s = Some (g', s)"
    unfolding tst_sig_def by blast
  have tab: "sg_table g' sig = (if sig \<in> caught fork_flag copies then ?h else sg_table g sig) \<and> T_cleanup g' = None" for sig
  proof -
    have acc: "\<not> refuse sig" if "sig \<in> caught fork_flag copies"
      using that assms by (auto simp: caught_iff ignored_labels_def)
    have mem: "sig \<in> set [1..NSIG - 1] \<longleftrightarrow> 1 \<le> sig \<and> sig < NSIG" by auto
    from sig_loop_table [OF g' [unfolded tst_sig_def], of sig] show ?thesis
      unfolding mem using acc by (auto simp: caught_iff)
  qed
  have "mesg_ok (''unexpected signal '' @ show_int sig @ '' received (pid = '' @ show_int pid @ '').'')"
    if "int_fits 32 sig" "int_fits 32 pid" for sig pid
    using show_pid_length [OF that(1)] show_pid_length [OF that(2)] by (simp add: mesg_ok_def)
  then have "\<exists>q'. def_handler cf g' pid sig q = Some (Exited (exit_status (T_exitval q OR TBROK)) q') \<and>
      length (T_out q') = length (T_out q) + 2"
    if "int_fits 32 sig" "int_fits 32 pid" "T_mode q = VERBOSE" "\<not> first_time q" "File q = None" "Last q = None" "0 \<le> tst_count q"
      "tst_count q < 2 ^ 31 - 2" "tst_brk_entered q = 0" "tcid_ok cf" for q sig pid
    using brkm_plain [of q cf "''unexpected signal '' @ show_int sig @ '' received (pid = '' @ show_int pid @ '').''" TBROK] that tab
    by (auto simp: def_handler_def ttype_defs)
  with g' tab show ?thesis by blast
qed

theorem tst_sig_catches_witness:
  "\<exists>g'. tst_sig (demo_tconf ''VERBOSE'') (\<lambda>sig. sig = 9 \<or> sig = 19) FORK_flag 1 None None
      \<lparr>sg_table = (\<lambda>_. Sig_dfl), T_cleanup = None\<rparr> tst_init = Some (g', tst_init) \<and>
    sg_table g' 15 = Default_handler \<and> sg_table g' 48 = Default_handler \<and> sg_table g' 17 = Sig_dfl \<and> sg_table g' 47 = Sig_dfl"
  using tst_sig_catches [of "\<lambda>sig. sig = 9 \<or> sig = 19" "demo_tconf ''VERBOSE''" FORK_flag 1 None
    "\<lparr>sg_table = (\<lambda>_. Sig_dfl), T_cleanup = None\<rparr>" tst_init]
  by (auto simp: sig_defs caught_def)

end
