(* ===== verification/Rmobj.thy ===== *)
theory Rmobj
  imports Prelude "HOL-Library.Sublist"
begin

text \<open>
  \<^verbatim>\<open>lib/rmobj.c\<close>: the removal of a file or of a directory with all it contains. The file system is the list of its absolute
  paths, in the order in which \<open>readdir\<close> reports the entries of a directory; a directory is read when it is opened.
  There are no symbolic links on the way to a directory. What the system refuses is part of the record: \<open>fs_stuck\<close> is the
  \<open>errno\<close> of removing a path (0 for success), \<open>fs_closed\<close> says that \<open>opendir\<close> fails. \<open>None\<close> is a write past the end of
  a buffer.
\<close>

section \<open>The file system\<close>

type_synonym path = "string list"

datatype kind = Is_dir | Is_other

record fs =
  fs_nodes :: "(path \<times> kind) list"
  fs_cwd :: path
  fs_stuck :: "path \<Rightarrow> int"
  fs_closed :: "path \<Rightarrow> bool"

text \<open>The words of a path, and the path it means in a directory.\<close>

fun path_words :: "string \<Rightarrow> string \<Rightarrow> path" where
  "path_words w [] = (if w = [] then [] else [w])"
| "path_words w (c # cs) =
     (if c = CHR ''/'' then (if w = [] then [] else [w]) @ path_words [] cs else path_words (w @ [c]) cs)"

definition go_down :: "path \<Rightarrow> string \<Rightarrow> path" where
  "go_down p w = (if w = ''.'' then p else if w = ''..'' then butlast p else p @ [w])"

definition resolve :: "fs \<Rightarrow> string \<Rightarrow> path" where
  "resolve fs s = foldl go_down (if take 1 s = ''/'' then [] else fs_cwd fs) (path_words [] s)"

definition lookup :: "fs \<Rightarrow> path \<Rightarrow> kind option" where
  "lookup fs p = (if p = [] then Some Is_dir else map_of (fs_nodes fs) p)"

definition dir_entries :: "fs \<Rightarrow> path \<Rightarrow> string list" where
  "dir_entries fs p = map (last \<circ> fst) (filter (\<lambda>(q, k). q \<noteq> [] \<and> butlast q = p) (fs_nodes fs))"

definition subdirs :: "fs \<Rightarrow> path \<Rightarrow> nat" where
  "subdirs fs p = length (filter (\<lambda>(q, k). q \<noteq> [] \<and> butlast q = p \<and> k = Is_dir) (fs_nodes fs))"

text \<open>The system calls: \<open>Inl\<close> or a number other than 0 is an \<open>errno\<close>.\<close>

definition find_path :: "fs \<Rightarrow> string \<Rightarrow> int + path \<times> kind" where
  "find_path fs s =
     (if s = [] then Inl 2 else if 4096 \<le> length s then Inl 36
      else (case lookup fs (resolve fs s) of None \<Rightarrow> Inl 2 | Some k \<Rightarrow> Inr (resolve fs s, k)))"

definition lstat :: "fs \<Rightarrow> string \<Rightarrow> int + kind \<times> nat" where
  "lstat fs s = (case find_path fs s of Inl e \<Rightarrow> Inl e
     | Inr (p, k) \<Rightarrow> Inr (k, if k = Is_dir then 2 + subdirs fs p else 1))"

definition opendir :: "fs \<Rightarrow> string \<Rightarrow> string list option" where
  "opendir fs s = (case find_path fs s of
       Inr (p, Is_dir) \<Rightarrow> if fs_closed fs p then None else Some ([''.'', ''..''] @ dir_entries fs p)
     | _ \<Rightarrow> None)"

definition drop_path :: "path \<Rightarrow> fs \<Rightarrow> int \<times> fs" where
  "drop_path p fs =
     (if fs_stuck fs p \<noteq> 0 then (fs_stuck fs p, fs)
      else (0, fs\<lparr>fs_nodes := filter (\<lambda>(q, k). q \<noteq> p) (fs_nodes fs)\<rparr>))"

definition unlink :: "string \<Rightarrow> fs \<Rightarrow> int \<times> fs" where
  "unlink s fs = (case find_path fs s of
       Inl e \<Rightarrow> (e, fs)
     | Inr (p, k) \<Rightarrow> if k = Is_dir then (21, fs) else drop_path p fs)"

definition rmdir :: "string \<Rightarrow> fs \<Rightarrow> int \<times> fs" where
  "rmdir s fs = (case find_path fs s of
       Inl e \<Rightarrow> (e, fs)
     | Inr (p, k) \<Rightarrow> if k \<noteq> Is_dir then (20, fs) else if p = [] then (16, fs)
         else if dir_entries fs p \<noteq> [] then (39, fs) else drop_path p fs)"

definition remove_file :: "string \<Rightarrow> fs \<Rightarrow> int \<times> fs" where
  "remove_file s fs = (case find_path fs s of
       Inr (p, Is_dir) \<Rightarrow> rmdir s fs
     | _ \<Rightarrow> unlink s fs)"

section \<open>The function\<close>

text \<open>\<open>*errmsg\<close>, when the caller wants one: \<open>err_msg\<close> has 1024 characters.\<close>

definition put_msg :: "bool \<Rightarrow> string \<Rightarrow> string option \<Rightarrow> string option option" where
  "put_msg want txt m = (if \<not> want then Some m else if length txt < 1024 then Some (Some txt) else None)"

definition call_failed :: "(int \<Rightarrow> string) \<Rightarrow> string \<Rightarrow> string \<Rightarrow> int \<Rightarrow> string" where
  "call_failed strerr call obj e = call @ ''('' @ obj @ '') failed; errno='' @ show_int e @ '': '' @ strerr e"

definition rm_failed :: "bool \<Rightarrow> string \<Rightarrow> string option \<Rightarrow> fs \<Rightarrow> (int \<times> string option \<times> fs) option" where
  "rm_failed want txt m fs = do { m \<leftarrow> put_msg want txt m; Some (-1, m, fs) }"

text \<open>A last step: the call with its result, and the message when it fails.\<close>

definition rm_last ::
  "(int \<Rightarrow> string) \<Rightarrow> bool \<Rightarrow> string \<Rightarrow> string \<Rightarrow> int \<times> fs \<Rightarrow> string option \<Rightarrow> (int \<times> string option \<times> fs) option" where
  "rm_last strerr want call obj r m =
     (case r of (e, fs) \<Rightarrow> if e \<noteq> 0 then rm_failed want (call_failed strerr call obj e) m fs else Some (0, m, fs))"

function rmobj :: "(int \<Rightarrow> string) \<Rightarrow> bool \<Rightarrow> string \<Rightarrow> string option \<Rightarrow> fs \<Rightarrow> (int \<times> string option \<times> fs) option"
  and rm_entries :: "(int \<Rightarrow> string) \<Rightarrow> bool \<Rightarrow> string \<Rightarrow> string list \<Rightarrow> int \<Rightarrow> string option \<Rightarrow> fs \<Rightarrow> (int \<times> string option \<times> fs) option" where
  "rmobj strerr want obj m fs =
     (case lstat fs obj of
        Inl e \<Rightarrow> rm_failed want (call_failed strerr ''lstat'' obj e) m fs
      | Inr (Is_other, n) \<Rightarrow> rm_last strerr want ''unlink'' obj (unlink obj fs) m
      | Inr (Is_dir, n) \<Rightarrow>
          if obj = ''/'' then rm_failed want ''Cannot remove /'' m fs
          else (case opendir fs obj of
             None \<Rightarrow> rm_last strerr want ''rmdir'' obj (rmdir obj fs) m
           | Some names \<Rightarrow> do {
               (r, m, fs) \<leftarrow> rm_entries strerr want obj names 0 m fs;
               if r = -1 then Some (-1, m, fs)
               else (case lstat fs obj of
                  Inl e \<Rightarrow> rm_failed want (call_failed strerr ''lstat'' obj e) m fs
                | Inr (k, n) \<Rightarrow>
                    if 3 \<le> n then rm_last strerr want ''unlink'' obj (unlink obj fs) m
                    else rm_last strerr want ''remove'' obj (remove_file obj fs) m) }))"
| "rm_entries strerr want obj [] r m fs = Some (r, m, fs)"
| "rm_entries strerr want obj (name # names) r m fs =
     (if name = ''.'' \<or> name = ''..'' then rm_entries strerr want obj names r m fs
      else if 4096 \<le> length (obj @ ''/'' @ name) then None
      else do {
        (r', m, fs) \<leftarrow> rmobj strerr want (obj @ ''/'' @ name) m fs;
        rm_entries strerr want obj names (if r' \<noteq> 0 then -1 else r) m fs })"
  by pat_completeness auto
termination
  by (relation "measures [
      \<lambda>x. case x of Inl (_, _, obj, _, _) \<Rightarrow> 2 * (4097 - length obj) + 1 | Inr (_, _, obj, names, _, _, _) \<Rightarrow> 2 * (4097 - length obj),
      \<lambda>x. case x of Inl _ \<Rightarrow> 0 | Inr (_, _, _, names, _, _, _) \<Rightarrow> length names]") auto

declare rmobj.simps [simp del]

section \<open>Well-formed trees\<close>

definition good_name :: "string \<Rightarrow> bool" where
  "good_name n \<longleftrightarrow> n \<noteq> [] \<and> CHR ''/'' \<notin> set n \<and> n \<noteq> ''.'' \<and> n \<noteq> ''..''"

text \<open>Every path occurs once, has proper names, and is in a directory.\<close>

definition fs_wf :: "fs \<Rightarrow> bool" where
  "fs_wf fs \<longleftrightarrow> distinct (map fst (fs_nodes fs)) \<and>
     (\<forall>(q, k) \<in> set (fs_nodes fs). q \<noteq> [] \<and> list_all good_name q \<and> lookup fs (butlast q) = Some Is_dir)"

definition keep_paths :: "(path \<Rightarrow> bool) \<Rightarrow> fs \<Rightarrow> fs" where
  "keep_paths P fs = fs\<lparr>fs_nodes := filter (\<lambda>(q, k). P q) (fs_nodes fs)\<rparr>"

definition cut_tree :: "path \<Rightarrow> fs \<Rightarrow> fs" where
  "cut_tree p fs = keep_paths (\<lambda>q. \<not> prefix p q) fs"

text \<open>The system refuses nothing at \<open>p\<close> and below, and the paths below are short enough when \<open>p\<close> is written with \<open>n\<close>
  characters.\<close>

definition removable :: "fs \<Rightarrow> path \<Rightarrow> nat \<Rightarrow> bool" where
  "removable fs p n \<longleftrightarrow> (\<forall>(q, k) \<in> set (fs_nodes fs). prefix p q \<longrightarrow>
     fs_stuck fs q = 0 \<and> \<not> fs_closed fs q \<and> n + length (concat (map (Cons (CHR ''/'')) (drop (length p) q))) < 4096)"

lemma keep_paths_fields [simp]:
  "fs_cwd (keep_paths P fs) = fs_cwd fs" "fs_stuck (keep_paths P fs) = fs_stuck fs" "fs_closed (keep_paths P fs) = fs_closed fs"
  "set (fs_nodes (keep_paths P fs)) = {(q, k) \<in> set (fs_nodes fs). P q}" "resolve (keep_paths P fs) s = resolve fs s"
  "keep_paths P (keep_paths Q fs) = keep_paths (\<lambda>q. Q q \<and> P q) fs"
  by (auto simp: keep_paths_def resolve_def case_prod_unfold)

lemma keep_paths_cong: "(\<And>q k. (q, k) \<in> set (fs_nodes fs) \<Longrightarrow> P q \<longleftrightarrow> Q q) \<Longrightarrow> keep_paths P fs = keep_paths Q fs"
proof -
  assume "\<And>q k. (q, k) \<in> set (fs_nodes fs) \<Longrightarrow> P q \<longleftrightarrow> Q q"
  then have "filter (\<lambda>(q, k). P q) (fs_nodes fs) = filter (\<lambda>(q, k). Q q) (fs_nodes fs)" by (auto intro!: filter_cong)
  then show ?thesis by (simp add: keep_paths_def)
qed

lemma map_of_keep: "map_of (filter (\<lambda>(q, k). P q) xs) q = (if P q then map_of xs q else None)"
  by (induction xs) auto

lemma lookup_keep: "lookup (keep_paths P fs) q = (if q = [] \<or> P q then lookup fs q else None)"
  by (simp add: lookup_def keep_paths_def map_of_keep)

lemma lookup_Some: "fs_wf fs \<Longrightarrow> (q, k) \<in> set (fs_nodes fs) \<Longrightarrow> lookup fs q = Some k"
  by (auto simp: fs_wf_def lookup_def)

lemma lookup_node: "lookup fs q = Some k \<Longrightarrow> q \<noteq> [] \<Longrightarrow> (q, k) \<in> set (fs_nodes fs)"
  by (auto simp: lookup_def dest: map_of_SomeD)

lemma wf_node:
  assumes "fs_wf fs" "(q, k) \<in> set (fs_nodes fs)"
  shows "q \<noteq> []" "list_all good_name q" "lookup fs (butlast q) = Some Is_dir"
  using assms by (auto simp: fs_wf_def)

lemma wf_ancestor:
  assumes "fs_wf fs" "(p @ n # r, k) \<in> set (fs_nodes fs)"
  shows "\<exists>k. (p @ [n], k) \<in> set (fs_nodes fs)"
  using assms(2)
proof (induction r arbitrary: k rule: rev_induct)
  case (snoc x r)
  from wf_node(3) [OF assms(1) snoc.prems] have "lookup fs (p @ n # r) = Some Is_dir" by (simp add: butlast_append)
  from lookup_node [OF this] snoc.IH show ?case by blast
qed auto

lemma wf_parent_dir:
  assumes "fs_wf fs" "(p @ n # r, k) \<in> set (fs_nodes fs)"
  shows "lookup fs p = Some Is_dir" "good_name n" "n \<in> set (dir_entries fs p)"
proof -
  obtain k' where k': "(p @ [n], k') \<in> set (fs_nodes fs)" using wf_ancestor [OF assms] by blast
  from wf_node [OF assms(1) k'] show "lookup fs p = Some Is_dir" "good_name n" by simp_all
  from k' show "n \<in> set (dir_entries fs p)" by (force simp: dir_entries_def image_iff)
qed

lemma in_entries: "n \<in> set (dir_entries fs p) \<longleftrightarrow> (\<exists>k. (p @ [n], k) \<in> set (fs_nodes fs))"
proof
  assume "n \<in> set (dir_entries fs p)"
  then obtain q k where "(q, k) \<in> set (fs_nodes fs)" "q \<noteq> []" "butlast q = p" "n = last q" by (auto simp: dir_entries_def)
  then show "\<exists>k. (p @ [n], k) \<in> set (fs_nodes fs)" by (metis append_butlast_last_id)
qed (force simp: dir_entries_def image_iff)

lemma distinct_entries: "fs_wf fs \<Longrightarrow> distinct (dir_entries fs p)"
proof -
  assume "fs_wf fs"
  then have "distinct (map fst (filter (\<lambda>(q, k). q \<noteq> [] \<and> butlast q = p) (fs_nodes fs)))"
    by (simp add: fs_wf_def distinct_map_filter)
  moreover have "inj_on last (fst ` set (filter (\<lambda>(q, k). q \<noteq> [] \<and> butlast q = p) (fs_nodes fs)))"
    by (auto simp: inj_on_def) (metis append_butlast_last_id)
  ultimately show ?thesis by (simp add: dir_entries_def distinct_map flip: map_map)
qed

lemma cut_tree_wf:
  assumes "fs_wf fs" shows "fs_wf (cut_tree p fs)"
proof -
  have pre: "prefix p q" if "prefix p (butlast q)" for q using that by (metis prefixeq_butlast prefix_order.trans)
  have "distinct (map fst (fs_nodes (cut_tree p fs)))"
    using assms by (simp add: fs_wf_def cut_tree_def keep_paths_def distinct_map_filter)
  moreover have "lookup (cut_tree p fs) (butlast q) = Some Is_dir" if "(q, k) \<in> set (fs_nodes (cut_tree p fs))" for q k
    using that wf_node(3) [OF assms, of q k] pre [of q] by (auto simp: cut_tree_def lookup_keep)
  ultimately show ?thesis using wf_node(1,2) [OF assms] unfolding fs_wf_def by (auto simp: cut_tree_def)
qed

text \<open>The path of an entry.\<close>

lemma path_words_child: "CHR ''/'' \<notin> set n \<Longrightarrow> n \<noteq> [] \<Longrightarrow> path_words w (s @ CHR ''/'' # n) = path_words w s @ [n]"
proof (induction w s rule: path_words.induct)
  case (1 w)
  have "path_words v n = (if v @ n = [] then [] else [v @ n])" if "CHR ''/'' \<notin> set n" for v n
    using that by (induction v n rule: path_words.induct) auto
  with 1 show ?case by simp
qed auto

lemma resolve_child: "s \<noteq> [] \<Longrightarrow> good_name n \<Longrightarrow> resolve fs (s @ ''/'' @ n) = resolve fs s @ [n]"
  by (cases s) (simp_all add: resolve_def good_name_def path_words_child [of n _ "_ # _", simplified] go_down_def)

section \<open>The removal\<close>

lemma find_path_at:
  "resolve fs obj = p \<Longrightarrow> lookup fs p = Some k \<Longrightarrow> obj \<noteq> [] \<Longrightarrow> length obj < 4096 \<Longrightarrow> find_path fs obj = Inr (p, k)"
  by (simp add: find_path_def)

lemma removable_keep: "removable fs p n \<Longrightarrow> removable (keep_paths P fs) p n"
  by (auto simp: removable_def)

lemma removable_child:
  assumes "removable fs p (length obj)" shows "removable fs (p @ [n]) (length (obj @ ''/'' @ n))"
proof -
  have "drop (length p) q = n # drop (length (p @ [n])) q" if "prefix (p @ [n]) q" for q using that by (auto simp: prefix_def)
  moreover have "prefix p q" if "prefix (p @ [n]) q" for q using that by (auto simp: prefix_def)
  ultimately show ?thesis using assms by (fastforce simp: removable_def)
qed

lemma rm_entries_removes:
  assumes step: "\<And>n m fs. good_name n \<Longrightarrow> fs_wf fs \<Longrightarrow> lookup fs (p @ [n]) \<noteq> None \<Longrightarrow> resolve fs obj = p \<Longrightarrow>
      removable fs p (length obj) \<Longrightarrow> rmobj strerr want (obj @ ''/'' @ n) m fs = Some (0, m, cut_tree (p @ [n]) fs)"
    and "fs_wf fs" "resolve fs obj = p" "removable fs p (length obj)" "distinct names"
    and "\<forall>n \<in> set names - {''.'', ''..''}. good_name n \<and> lookup fs (p @ [n]) \<noteq> None"
  shows "rm_entries strerr want obj names 0 m fs =
    Some (0, m, keep_paths (\<lambda>q. \<forall>n \<in> set names - {''.'', ''..''}. \<not> prefix (p @ [n]) q) fs)"
  using assms(2-)
proof (induction names arbitrary: m fs)
  case Nil
  then show ?case by (simp add: keep_paths_def case_prod_unfold)
next
  case (Cons n names)
  show ?case
  proof (cases "n = ''.'' \<or> n = ''..''")
    case True
    have "set (n # names) - {''.'', ''..''} = set names - {''.'', ''..''}" using True by auto
    with True Cons show ?thesis by simp
  next
    case False
    then have n: "good_name n" "lookup fs (p @ [n]) \<noteq> None" using Cons.prems(5) by auto
    then obtain k where "(p @ [n], k) \<in> set (fs_nodes fs)" using lookup_node by fastforce
    with Cons.prems(3) have len: "length (obj @ ''/'' @ n) < 4096" by (fastforce simp: removable_def)
    have rest: "\<forall>x \<in> set names - {''.'', ''..''}. good_name x \<and> lookup (cut_tree (p @ [n]) fs) (p @ [x]) \<noteq> None"
      using Cons.prems(4,5) by (auto simp: cut_tree_def lookup_keep)
    have "removable (cut_tree (p @ [n]) fs) p (length obj)" "resolve (cut_tree (p @ [n]) fs) obj = p"
      using Cons.prems removable_keep by (simp_all add: cut_tree_def)
    from Cons.IH [OF cut_tree_wf [OF Cons.prems(1)] this(2,1) _ rest] Cons.prems(4)
    have "rm_entries strerr want obj names 0 m (cut_tree (p @ [n]) fs) =
      Some (0, m, keep_paths (\<lambda>q. \<forall>n \<in> set names - {''.'', ''..''}. \<not> prefix (p @ [n]) q) (cut_tree (p @ [n]) fs))" by simp
    moreover have "set (n # names) - {''.'', ''..''} = insert n (set names - {''.'', ''..''})" using False by auto
    ultimately show ?thesis
      using False len step [OF n(1) Cons.prems(1) n(2) Cons.prems(2,3)] by (simp add: cut_tree_def)
  qed
qed

text \<open>A directory whose entries are gone, and an object that is no directory.\<close>

lemma empty_dir_removed:
  assumes "fs_wf fs" "lookup fs p = Some Is_dir" "p \<noteq> []" "resolve fs obj = p" "obj \<noteq> []" "length obj < 4096" "fs_stuck fs p = 0"
    and fs': "fs' = keep_paths (\<lambda>q. \<not> strict_prefix p q) fs"
  shows "lstat fs' obj = Inr (Is_dir, 2)" "remove_file obj fs' = (0, cut_tree p fs)"
proof -
  have none: "\<not> (q \<noteq> [] \<and> butlast q = p)" if "(q, k) \<in> set (fs_nodes fs')" for q k
  proof
    assume "q \<noteq> [] \<and> butlast q = p"
    then have "q = p @ last q # []" by auto
    then have "strict_prefix p q" by (rule strict_prefixI')
    with that show False by (simp add: fs')
  qed
  then have "subdirs fs' p = 0" "dir_entries fs' p = []" by (auto simp: subdirs_def dir_entries_def filter_empty_conv)
  moreover have "find_path fs' obj = Inr (p, Is_dir)" using assms by (simp add: find_path_at lookup_keep)
  moreover have "drop_path p fs' = (0, cut_tree p fs)"
  proof -
    have "drop_path p fs' = (0, keep_paths (\<lambda>q. q \<noteq> p) fs')" using assms(7) by (simp add: drop_path_def keep_paths_def fs')
    also have "keep_paths (\<lambda>q. q \<noteq> p) fs' = cut_tree p fs"
      unfolding fs' cut_tree_def keep_paths_fields by (rule keep_paths_cong) (auto simp: strict_prefix_def)
    finally show ?thesis .
  qed
  ultimately show "lstat fs' obj = Inr (Is_dir, 2)" "remove_file obj fs' = (0, cut_tree p fs)"
    using assms(3) by (simp_all add: lstat_def remove_file_def rmdir_def)
qed

lemma other_removed:
  assumes "fs_wf fs" "lookup fs p = Some Is_other" "find_path fs obj = Inr (p, Is_other)" "fs_stuck fs p = 0"
  shows "unlink obj fs = (0, cut_tree p fs)"
proof -
  have "q = p" if "(q, k) \<in> set (fs_nodes fs)" "prefix p q" for q k
  proof (rule ccontr)
    assume "q \<noteq> p"
    with that(2) have "strict_prefix p q" by (simp add: strict_prefix_def)
    then obtain n r where q: "q = p @ n # r" by (rule strict_prefixE')
    from wf_parent_dir(1) [OF assms(1) \<open>(q, k) \<in> set (fs_nodes fs)\<close> [unfolded q]] assms(2) show False by simp
  qed
  then have "keep_paths (\<lambda>q. q \<noteq> p) fs = cut_tree p fs" unfolding cut_tree_def by (intro keep_paths_cong) auto
  with assms show ?thesis by (simp add: unlink_def drop_path_def keep_paths_def)
qed

lemma entries_cover:
  assumes "fs_wf fs" "(q, k) \<in> set (fs_nodes fs)"
  shows "(\<forall>n \<in> set ([''.'', ''..''] @ dir_entries fs p) - {''.'', ''..''}. \<not> prefix (p @ [n]) q) \<longleftrightarrow> \<not> strict_prefix p q"
proof
  assume none: "\<forall>n \<in> set ([''.'', ''..''] @ dir_entries fs p) - {''.'', ''..''}. \<not> prefix (p @ [n]) q"
  show "\<not> strict_prefix p q"
  proof
    assume "strict_prefix p q"
    then obtain n r where q: "q = p @ n # r" by (rule strict_prefixE')
    note wf_parent_dir(2,3) [OF assms(1) assms(2) [unfolded q]]
    with none q show False by (auto simp: good_name_def)
  qed
qed (auto simp: strict_prefix_def prefix_def)

lemma rmobj_cuts:
  assumes "fs_wf fs" "resolve fs obj = p" "p \<noteq> []" "lookup fs p \<noteq> None" "obj \<noteq> []" "removable fs p (length obj)"
  shows "rmobj strerr want obj m fs = Some (0, m, cut_tree p fs)"
  using assms
proof (induction "4096 - length obj" arbitrary: obj p m fs rule: less_induct)
  case less
  obtain k where k: "lookup fs p = Some k" using less.prems(4) by blast
  from lookup_node [OF k less.prems(3)] less.prems(6) have len: "length obj < 4096" and free: "fs_stuck fs p = 0" "\<not> fs_closed fs p"
    by (fastforce simp: removable_def)+
  have find: "find_path fs obj = Inr (p, k)" using find_path_at [OF less.prems(2) k less.prems(5) len] .
  show ?case
  proof (cases k)
    case Is_other
    with k find other_removed [OF less.prems(1), of p obj] free show ?thesis
      by (simp add: rmobj.simps [of strerr want obj] lstat_def rm_last_def)
  next
    case Is_dir
    let ?names = "[''.'', ''..''] @ dir_entries fs p"
    have root: "obj \<noteq> ''/''" using less.prems(2,3) by (auto simp: resolve_def)
    have step: "rmobj strerr want (obj @ ''/'' @ n) m f = Some (0, m, cut_tree (p @ [n]) f)"
      if n: "good_name n" and f: "fs_wf f" "lookup f (p @ [n]) \<noteq> None" "resolve f obj = p" "removable f p (length obj)" for n m f
      using less.hyps [of "obj @ ''/'' @ n" f "p @ [n]" m] n f removable_child [OF f(4), of n] len less.prems(5)
        resolve_child [OF less.prems(5) n, of f] by simp
    have "n \<notin> {''.'', ''..''}" "good_name n" "lookup fs (p @ [n]) \<noteq> None" if ne: "n \<in> set (dir_entries fs p)" for n
    proof -
      obtain k' where "(p @ [n], k') \<in> set (fs_nodes fs)" using ne by (auto simp: in_entries)
      with wf_parent_dir(2) [OF less.prems(1), of p n "[]"] lookup_Some [OF less.prems(1)]
      show "good_name n" "lookup fs (p @ [n]) \<noteq> None" by auto
      then show "n \<notin> {''.'', ''..''}" by (auto simp: good_name_def)
    qed
    then have names: "distinct ?names" "\<forall>n \<in> set ?names - {''.'', ''..''}. good_name n \<and> lookup fs (p @ [n]) \<noteq> None"
      using distinct_entries [OF less.prems(1)] by fastforce+
    have ent: "rm_entries strerr want obj ?names 0 m fs =
        Some (0, m, keep_paths (\<lambda>q. \<forall>n \<in> set ?names - {''.'', ''..''}. \<not> prefix (p @ [n]) q) fs)"
      by (rule rm_entries_removes [OF _ less.prems(1,2,6) names]) (rule step)
    have "keep_paths (\<lambda>q. \<forall>n \<in> set ?names - {''.'', ''..''}. \<not> prefix (p @ [n]) q) fs = keep_paths (\<lambda>q. \<not> strict_prefix p q) fs"
      by (rule keep_paths_cong) (rule entries_cover [OF less.prems(1)])
    note ent = ent [unfolded this]
    have open_dir: "opendir fs obj = Some ?names" using find Is_dir free by (simp add: opendir_def)
    have first: "lstat fs obj = Inr (Is_dir, 2 + subdirs fs p)" using find Is_dir by (simp add: lstat_def)
    note last = empty_dir_removed [OF less.prems(1) k [unfolded Is_dir] less.prems(3,2,5) len free(1) refl]
    show ?thesis
      unfolding rmobj.simps [of strerr want obj] first open_dir
      using root ent last by (simp add: rm_last_def)
  qed
qed

section \<open>Properties\<close>

text \<open>C20: \<open>rmobj\<close> removes an object with everything below it, to any depth and in whatever order the directories are
  read, and nothing else: it returns 0 without a message, the paths that remain are those that are not the object's or
  below, in the same order, and they are still a tree. The name of the object may be absolute or relative.\<close>

theorem rmobj_removes:
  assumes "fs_wf fs" "resolve fs obj = p" "p \<noteq> []" "lookup fs p \<noteq> None" "obj \<noteq> []" "removable fs p (length obj)"
  shows "\<exists>fs'. rmobj strerr want obj m fs = Some (0, m, fs') \<and> fs_wf fs' \<and> lookup fs' p = None \<and> fs_cwd fs' = fs_cwd fs \<and>
    fs_nodes fs' = filter (\<lambda>(q, k). \<not> prefix p q) (fs_nodes fs)"
  using rmobj_cuts [OF assms] cut_tree_wf [OF assms(1)] assms(3)
  by (auto simp: cut_tree_def lookup_keep) (simp add: keep_paths_def)

theorem rmobj_removes_witness:
  "\<exists>fs'. rmobj (\<lambda>e. []) True ''d/'' None
     \<lparr>fs_nodes = [([''d''], Is_dir), ([''d'', ''s''], Is_dir), ([''k''], Is_other), ([''d'', ''s'', ''f''], Is_other), ([''d'', ''g''], Is_other)],
      fs_cwd = [], fs_stuck = (\<lambda>_. 0), fs_closed = (\<lambda>_. False)\<rparr> = Some (0, None, fs') \<and> fs_nodes fs' = [([''k''], Is_other)]"
proof -
  let ?fs = "\<lparr>fs_nodes = [([''d''], Is_dir), ([''d'', ''s''], Is_dir), ([''k''], Is_other), ([''d'', ''s'', ''f''], Is_other),
    ([''d'', ''g''], Is_other)], fs_cwd = [], fs_stuck = (\<lambda>_. 0), fs_closed = (\<lambda>_. False)\<rparr>"
  have "fs_wf ?fs" by (auto simp: fs_wf_def lookup_def good_name_def)
  moreover have "resolve ?fs ''d/'' = [''d'']" "lookup ?fs [''d''] \<noteq> None" by (simp_all add: resolve_def go_down_def lookup_def)
  moreover have "removable ?fs [''d''] (length ''d/'')" by (simp add: removable_def)
  ultimately show ?thesis using rmobj_removes [of ?fs "''d/''" "[''d'']" "\<lambda>e. []" True None] by fastforce
qed

text \<open>The message of a failed call does not fit in \<open>err_msg\<close> when the name is long, although names up to \<open>PATH_MAX\<close> are
  meant to be supported.\<close>

lemma rmobj_message_overflow:
  assumes "find_path fs obj = Inl e" "1000 \<le> length obj"
  shows "rmobj strerr True obj m fs = None"
  using assms by (simp add: rmobj.simps [of strerr True obj] lstat_def rm_failed_def put_msg_def call_failed_def)

text \<open>An entry that the system refuses to remove keeps its directory: the others are removed and the result is \<open>-1\<close>.\<close>

lemma rm_entries_failure:
  assumes "rm_entries strerr want obj names (-1) m fs = Some (r, m', fs')"
  shows "r = -1"
  using assms by (induction names arbitrary: m fs) (auto simp: bind_eq_Some_conv split: if_splits)

end
