(* ===== verification/Tst_Tmpdir.thy ===== *)
theory Tst_Tmpdir
  imports Rmobj Tst_Res
begin

text \<open>
  \<^verbatim>\<open>lib/tst_tmpdir.c\<close>: the temporary directory of a test, over the file system of \<open>Rmobj\<close> and the results of \<open>Tst_Res\<close>.
  The record \<open>tmpd\<close> has the static variables, \<open>tmp_env\<close> what the environment and the system answer. Memory is taken to
  suffice. \<open>None\<close> is undefined behaviour, or a result that is not returned from.
\<close>

section \<open>The system\<close>

record tmpd =
  TESTDIR :: "string option"
  test_start_work_dir :: string

text \<open>\<open>$TMPDIR\<close>, the six characters that \<open>mkdtemp\<close> chooses, the group, and the \<open>errno\<close> (0 for
  success) with which a directory cannot be made, given away, opened to all, or entered.\<close>

definition TEMPDIR :: string where "TEMPDIR = ''/tmp''"

record tmp_env =
  te_TMPDIR :: "string option"
  te_suffix :: string
  te_gid :: int
  te_mkdir :: int
  te_chown :: int
  te_chmod :: int
  te_chdir :: int

definition mkdtemp :: "tmp_env \<Rightarrow> string \<Rightarrow> fs \<Rightarrow> int + string \<times> fs" where
  "mkdtemp te tmpl fs =
     (let stem = take (length tmpl - 6) tmpl; name = stem @ te_suffix te; p = resolve fs name
      in if drop (length tmpl - 6) tmpl \<noteq> ''XXXXXX'' then Inl 22
         else if te_mkdir te \<noteq> 0 then Inl (te_mkdir te)
         else if lookup fs (butlast p) \<noteq> Some Is_dir then Inl 2
         else if lookup fs p \<noteq> None then Inl 17
         else Inr (name, fs\<lparr>fs_nodes := fs_nodes fs @ [(p, Is_dir)]\<rparr>))"

definition cwd_string :: "path \<Rightarrow> string" where
  "cwd_string p = (if p = [] then ''/'' else concat (map (Cons (CHR ''/'')) p))"

text \<open>\<open>getcwd\<close> with a buffer of \<open>PATH_MAX\<close>.\<close>

definition getcwd :: "fs \<Rightarrow> string option" where
  "getcwd fs =
     (if lookup fs (fs_cwd fs) = Some Is_dir \<and> length (cwd_string (fs_cwd fs)) < 4096 then Some (cwd_string (fs_cwd fs)) else None)"

definition chdir :: "string \<Rightarrow> fs \<Rightarrow> int \<times> fs" where
  "chdir s fs = (case find_path fs s of
       Inl e \<Rightarrow> (e, fs)
     | Inr (p, k) \<Rightarrow> if k \<noteq> Is_dir then (20, fs) else (0, fs\<lparr>fs_cwd := p\<rparr>))"

definition strip_slashes :: "string \<Rightarrow> string" where
  "strip_slashes s = rev (dropWhile (\<lambda>c. c = CHR ''/'') (rev s))"

definition dirname :: "string \<Rightarrow> string" where
  "dirname s =
     (let t = strip_slashes s; u = strip_slashes (rev (dropWhile (\<lambda>c. c \<noteq> CHR ''/'') (rev t)))
      in if t = [] then (if s = [] then ''.'' else ''/'')
         else if CHR ''/'' \<notin> set t then ''.''
         else if u = [] then ''/'' else u)"

section \<open>The functions\<close>

definition tst_tmpdir_created :: "tmpd \<Rightarrow> bool" where
  "tst_tmpdir_created td \<longleftrightarrow> TESTDIR td \<noteq> None"

definition get_tst_tmpdir :: "tconf \<Rightarrow> tmpd \<Rightarrow> tst \<Rightarrow> (ctl \<times> string) option" where
  "get_tst_tmpdir cf td s =
     (case TESTDIR td of
        None \<Rightarrow> on_break (tst_brkm cf TBROK None ''you must call tst_tmpdir() first'' s) [] (\<lambda>s. None)
      | Some dir \<Rightarrow> Some (Go s, dir))"

definition tst_get_startwd :: "tmpd \<Rightarrow> string" where
  "tst_get_startwd td = test_start_work_dir td"

definition tmpdir_cleanup :: "tconf \<Rightarrow> tst \<Rightarrow> ctl option" where
  "tmpdir_cleanup cf s = tst_brkm cf TWARN None ''tmpdir_cleanup: no user cleanup function called before exiting'' s"

text \<open>A break after a system call that failed with the \<open>errno\<close> \<open>e\<close>, and one that happens only if it failed.\<close>

definition brk_errno :: "tconf \<Rightarrow> int \<Rightarrow> (tst \<Rightarrow> ctl option) option \<Rightarrow> string \<Rightarrow> tst \<Rightarrow> ctl option" where
  "brk_errno cf e func m s = tst_brkm (cf\<lparr>cur_errno := e\<rparr>) (TBROK OR TERRNO) func m s"

definition brk_if :: "tconf \<Rightarrow> int \<Rightarrow> (tst \<Rightarrow> ctl option) option \<Rightarrow> string \<Rightarrow> tst \<Rightarrow> ctl option" where
  "brk_if cf e func m s =
     (if e \<noteq> 0 then brk_errno cf e func m s else Some (Go s))"

definition tmp_template :: "tconf \<Rightarrow> tmp_env \<Rightarrow> string" where
  "tmp_template cf te =
     take 4095 ((case te_TMPDIR te of Some d \<Rightarrow> d | None \<Rightarrow> TEMPDIR) @ ''/'' @ take 3 (TCID cf) @ ''XXXXXX'')"

text \<open>The end of \<open>tst_tmpdir\<close>: recording the directory that the test started in, and changing to the new one.\<close>

definition enter_tmpdir :: "tconf \<Rightarrow> tmp_env \<Rightarrow> string \<Rightarrow> tmpd \<Rightarrow> fs \<Rightarrow> tst \<Rightarrow> (ctl \<times> tmpd \<times> fs) option" where
  "enter_tmpdir cf te name td fs s = do {
     (td, s) \<leftarrow> (case getcwd fs of
        Some c \<Rightarrow> Some (td\<lparr>test_start_work_dir := c\<rparr>, s)
      | None \<Rightarrow> do {
          s \<leftarrow> tst_resm cf TINFO ''Failed to record test working dir'' s;
          Some (td\<lparr>test_start_work_dir := []\<rparr>, s) });
     let (e, fs) = (if te_chdir te \<noteq> 0 then (te_chdir te, fs) else chdir name fs);
     if e = 0 then Some (Go s, td, fs)
     else on_break (brk_if cf e None (''tst_tmpdir: chdir('' @ name @ '') failed'') s) (td, fs) (\<lambda>s. do {
       (r, m, fs) \<leftarrow> rmobj (strerror cf) True name None fs;
       s \<leftarrow> (if r = -1 then do { m \<leftarrow> m; tst_resm cf TWARN (''tst_tmpdir: rmobj('' @ name @ '') failed: '' @ m) s } else Some s);
       k \<leftarrow> tmpdir_cleanup cf s;
       Some (k, td, fs) }) }"

definition tst_tmpdir :: "tconf \<Rightarrow> tmp_env \<Rightarrow> tmpd \<Rightarrow> fs \<Rightarrow> tst \<Rightarrow> (ctl \<times> tmpd \<times> fs) option" where
  "tst_tmpdir cf te td fs s =
     (let template = tmp_template cf te; clean = Some (tmpdir_cleanup cf);
          (e, name, fs) = (case mkdtemp te template fs of Inl e \<Rightarrow> (e, template, fs) | Inr (name, fs) \<Rightarrow> (0, name, fs))
      in on_break (brk_if cf e clean (''tst_tmpdir: mkdtemp('' @ name @ '') failed'') s) (td, fs) (\<lambda>s.
         let td = td\<lparr>TESTDIR := Some name\<rparr>
         in on_break (brk_if cf (te_chown te) clean (''chown('' @ name @ '', -1, '' @ show_int (te_gid te) @ '') failed'') s) (td, fs) (\<lambda>s.
            on_break (brk_if cf (te_chmod te) clean (''chmod('' @ name @ '', 0777) failed'') s) (td, fs) (\<lambda>s.
              enter_tmpdir cf te name td fs s))))"

text \<open>The text that \<open>dirname\<close> is called with. \<open>sizeof (parent_dir)\<close> is the size of a pointer: eight characters are copied, and
  a name that is not shorter is left without its end.\<close>

definition parent_text :: "string \<Rightarrow> fs \<Rightarrow> string option" where
  "parent_text dir fs =
     (if take 1 dir = ''/'' then (if length dir < 4096 then Some dir else None)
      else (case getcwd fs of
          None \<Rightarrow> if length dir < 8 then Some dir else None
        | Some c \<Rightarrow> if length (c @ ''/'' @ dir) < 4096 then Some (c @ ''/'' @ dir) else None))"

definition tst_rmdir :: "tconf \<Rightarrow> tmpd \<Rightarrow> fs \<Rightarrow> tst \<Rightarrow> (tst \<times> fs) option" where
  "tst_rmdir cf td fs s =
     (case TESTDIR td of
        None \<Rightarrow> do { s \<leftarrow> tst_resm cf TWARN ''tst_rmdir: TESTDIR was NULL; no removal attempted'' s; Some (s, fs) }
      | Some dir \<Rightarrow> do {
          txt \<leftarrow> parent_text dir fs;
          let parent_dir = dirname txt;
          let (e, fs) = chdir parent_dir fs;
          s \<leftarrow> (if e \<noteq> 0
               then tst_resm (cf\<lparr>cur_errno := e\<rparr>) (TWARN OR TERRNO)
                      (''tst_rmdir: chdir('' @ parent_dir @ '') failed'' @ [CHR 0x0A] @ ''Attempting to remove temp dir anyway'') s
               else Some s);
          (r, m, fs) \<leftarrow> rmobj (strerror cf) True dir None fs;
          s \<leftarrow> (if r = -1 then do { m \<leftarrow> m; tst_resm cf TWARN (''tst_rmdir: rmobj('' @ dir @ '') failed: '' @ m) s } else Some s);
          Some (s, fs) })"

section \<open>Paths\<close>

lemma foldl_down: "list_all good_name ws \<Longrightarrow> foldl go_down p ws = p @ ws"
  by (induction ws arbitrary: p) (auto simp: go_down_def good_name_def)

lemma path_words_slash: "path_words w (s @ ''/'') = path_words w s"
  by (induction w s rule: path_words.induct) auto

lemma strip_snoc: "strip_slashes (s @ [c]) = (if c = CHR ''/'' then strip_slashes s else s @ [c])"
  by (simp add: strip_slashes_def)

lemma path_words_strip: "path_words w (strip_slashes s) = path_words w s"
proof (induction s rule: rev_induct)
  case (snoc c s)
  then show ?case using path_words_slash [of w s] by (simp add: strip_snoc)
qed (simp add: strip_slashes_def)

lemma path_words_cwd: "list_all good_name p \<Longrightarrow> path_words [] (cwd_string p) = p"
proof -
  assume "list_all good_name p"
  then have "path_words [] (concat (map (Cons (CHR ''/'')) p)) = p"
    by (induction p rule: rev_induct) (auto simp: path_words_child good_name_def)
  then show ?thesis by (simp add: cwd_string_def)
qed

lemma path_words_under: "path_words w (a @ CHR ''/'' # b) = path_words w a @ path_words [] b"
  by (induction w a rule: path_words.induct) auto

lemma take_cwd: "take 1 (cwd_string p) = ''/''"
  by (cases p) (simp_all add: cwd_string_def)

text \<open>The directory of a name: its words but the last.\<close>

lemma dirname_child:
  assumes "good_name n"
  shows "dirname (d @ CHR ''/'' # n) = (if strip_slashes d = [] then ''/'' else strip_slashes d)"
proof -
  obtain m c where n: "n = m @ [c]" using assms by (cases n rule: rev_cases) (auto simp: good_name_def)
  with assms have c: "c \<noteq> CHR ''/''" "CHR ''/'' \<notin> set m" by (auto simp: good_name_def)
  have t: "strip_slashes (d @ CHR ''/'' # n) = d @ CHR ''/'' # n"
    using strip_snoc [of "d @ CHR ''/'' # m" c] c(1) by (simp add: n)
  have "dropWhile (\<lambda>x. x \<noteq> CHR ''/'') (rev (d @ CHR ''/'' # n)) = rev (d @ ''/'')"
    using assms dropWhile_append2 [of "rev n" "\<lambda>x. x \<noteq> CHR ''/''" "CHR ''/'' # rev d"] by (auto simp: good_name_def)
  then show ?thesis by (simp add: dirname_def t strip_snoc)
qed

lemma path_words_dirname: "good_name n \<Longrightarrow> path_words [] (dirname (d @ CHR ''/'' # n)) = path_words [] d"
  using path_words_strip [of "[]" d] by (cases "strip_slashes d") (simp_all add: dirname_child)

lemma strip_prefix: "\<exists>r. d = strip_slashes d @ r"
proof (induction d rule: rev_induct)
  case (snoc c d)
  then obtain r where "d = strip_slashes d @ r" ..
  then have "d @ [c] = strip_slashes d @ (r @ [c])" by (metis append_assoc)
  then show ?case by (metis strip_snoc append_Nil2)
qed (simp add: strip_slashes_def)

lemma take_dirname: "take 1 d = ''/'' \<Longrightarrow> good_name n \<Longrightarrow> take 1 (dirname (d @ CHR ''/'' # n)) = ''/''"
proof -
  assume d: "take 1 d = ''/''" "good_name n"
  obtain r where "d = strip_slashes d @ r" using strip_prefix [of d] ..
  then have "strip_slashes d = [] \<or> take 1 (strip_slashes d) = take 1 d" by (cases "strip_slashes d") (metis append_Cons take_Suc_Cons One_nat_def take0 | simp)+
  with d show ?thesis by (auto simp: dirname_child)
qed

lemma strip_length: "length (strip_slashes s) \<le> length s"
  using length_dropWhile_le [of "\<lambda>c. c = CHR ''/''" "rev s"] by (simp add: strip_slashes_def)

lemma dirname_length: "good_name n \<Longrightarrow> length (dirname (d @ CHR ''/'' # n)) \<le> length d + 1 \<and> dirname (d @ CHR ''/'' # n) \<noteq> []"
  using strip_length [of d] by (simp add: dirname_child)

section \<open>A directory that can be made\<close>

definition tmp_dir :: "tmp_env \<Rightarrow> string" where
  "tmp_dir te = (case te_TMPDIR te of Some d \<Rightarrow> d | None \<Rightarrow> TEMPDIR)"

definition tmp_name :: "tconf \<Rightarrow> tmp_env \<Rightarrow> string" where
  "tmp_name cf te = take 3 (TCID cf) @ te_suffix te"

text \<open>The directory of temporary files exists and is not too deep, the name that \<open>mkdtemp\<close> finds is new in it, the
  working directory exists, and the system refuses nothing.\<close>

definition tmp_ready :: "tconf \<Rightarrow> tmp_env \<Rightarrow> fs \<Rightarrow> bool" where
  "tmp_ready cf te fs \<longleftrightarrow> fs_wf fs \<and> tmp_dir te \<noteq> [] \<and> length (tmp_dir te) + length (tmp_name cf te) < 4095 \<and>
     lookup fs (resolve fs (tmp_dir te)) = Some Is_dir \<and> lookup fs (resolve fs (tmp_dir te) @ [tmp_name cf te]) = None \<and>
     good_name (tmp_name cf te) \<and> length (te_suffix te) = 6 \<and> getcwd fs \<noteq> None \<and>
     te_mkdir te = 0 \<and> te_chown te = 0 \<and> te_chmod te = 0 \<and> te_chdir te = 0"

definition with_tmpdir :: "path \<Rightarrow> fs \<Rightarrow> fs" where
  "with_tmpdir p fs = fs\<lparr>fs_nodes := fs_nodes fs @ [(p, Is_dir)], fs_cwd := p\<rparr>"

lemma resolve_nodes [simp]: "resolve (fs\<lparr>fs_nodes := x\<rparr>) s = resolve fs s"
  by (simp add: resolve_def)

lemma tmpdir_made:
  assumes "tmp_ready cf te fs" and p: "p = resolve fs (tmp_dir te)"
  shows "tst_tmpdir cf te td fs s = Some (Go s,
    \<lparr>TESTDIR = Some (tmp_dir te @ CHR ''/'' # tmp_name cf te), test_start_work_dir = the (getcwd fs), \<dots> = tmpd.more td\<rparr>,
    with_tmpdir (p @ [tmp_name cf te]) fs)"
proof -
  let ?n = "tmp_name cf te" and ?d = "tmp_dir te"
  let ?name = "?d @ CHR ''/'' # ?n"
  let ?fs = "fs\<lparr>fs_nodes := fs_nodes fs @ [(p @ [?n], Is_dir)]\<rparr>"
  note r = assms(1) [unfolded tmp_ready_def]
  have res: "resolve fs ?name = p @ [?n]" using resolve_child [of ?d ?n fs] r p by simp
  define t where "t = ?d @ CHR ''/'' # take 3 (TCID cf)"
  have name: "t @ te_suffix te = ?name" by (simp add: t_def tmp_name_def)
  have tmpl: "tmp_template cf te = t @ ''XXXXXX''"
  proof -
    have "length (?d @ CHR ''/'' # take 3 (TCID cf) @ ''XXXXXX'') \<le> 4095" using r by (auto simp: tmp_name_def)
    then show ?thesis unfolding tmp_template_def tmp_dir_def t_def by simp
  qed
  have made: "mkdtemp te (tmp_template cf te) fs = Inr (?name, ?fs)"
    using r p res name by (simp add: mkdtemp_def tmpl Let_def)
  have "resolve ?fs ?name = p @ [?n]" using res by simp
  moreover have "lookup ?fs (p @ [?n]) = Some Is_dir"
    using r p by (auto simp: lookup_def map_add_def split: option.splits)
  ultimately have ch: "chdir ?name ?fs = (0, with_tmpdir (p @ [?n]) fs)"
    using r by (simp add: chdir_def find_path_def with_tmpdir_def)
  obtain c where c: "getcwd fs = Some c" using r by blast
  have "lookup fs (fs_cwd fs) = Some Is_dir" using c by (simp add: getcwd_def split: if_splits)
  then have "lookup ?fs (fs_cwd fs) = Some Is_dir"
    by (cases "fs_cwd fs = []") (auto simp: lookup_def map_add_def split: option.splits)
  then have "getcwd ?fs = Some c" using c by (simp add: getcwd_def split: if_splits)
  then show ?thesis using made ch r
    by (simp add: tst_tmpdir_def brk_if_def enter_tmpdir_def c)
qed

section \<open>Properties\<close>

text \<open>C19: a test leaves nothing behind in the file system when its temporary directory has an absolute name. Whatever
  the test did below the directory, files and directories to any depth, \<open>tst_rmdir\<close> removes it all, prints nothing, and the
  file system is the one from before \<open>tst_tmpdir\<close>, if the system refuses no removal and no path gets too long.\<close>

theorem tmpdir_roundtrip:
  assumes "tmp_ready cf te fs" "take 1 (tmp_dir te) = ''/''"
    and "p = resolve fs (tmp_dir te) @ [tmp_name cf te]"
    and "fs_wf fs2" "filter (\<lambda>(q, k). \<not> prefix p q) (fs_nodes fs2) = fs_nodes fs" "lookup fs2 p \<noteq> None"
    and "removable fs2 p (length (tmp_dir te) + 1 + length (tmp_name cf te))"
  shows "\<exists>td fs1 fs3. tst_tmpdir cf te td0 fs s = Some (Go s, td, fs1) \<and> fs_cwd fs1 = p \<and> lookup fs1 p = Some Is_dir \<and>
    tst_rmdir cf td fs2 s2 = Some (s2, fs3) \<and> fs_nodes fs3 = fs_nodes fs \<and> fs_cwd fs3 = butlast p"
proof -
  let ?n = "tmp_name cf te" and ?d = "tmp_dir te"
  let ?name = "?d @ CHR ''/'' # ?n"
  let ?fs = "fs2\<lparr>fs_cwd := butlast p\<rparr>"
  have r: "good_name ?n" "?d \<noteq> []" "length ?d + length ?n < 4095" using assms(1) by (simp_all add: tmp_ready_def)
  have abs: "resolve f x = foldl go_down [] (path_words [] x)" if "take 1 x = ''/''" for f x using that by (simp add: resolve_def)
  have t1: "take 1 ?name = ''/''" "take 1 (dirname ?name) = ''/''" using assms(2) r(2) take_dirname [OF assms(2) r(1)] by (cases ?d; simp)+
  have res: "resolve f ?name = p" "resolve f (dirname ?name) = butlast p" for f
    using abs [OF t1(1)] abs [OF t1(2)] abs [OF assms(2)] resolve_child [OF r(2,1), of fs] assms(3) path_words_dirname [OF r(1)]
    by simp_all
  obtain k where k: "(p, k) \<in> set (fs_nodes fs2)" using assms(3,6) lookup_node by fastforce
  have "lookup fs2 (butlast p) = Some Is_dir" using wf_node(3) [OF assms(4) k] .
  then have ch: "chdir (dirname ?name) fs2 = (0, ?fs)"
    using dirname_length [OF r(1), of ?d] r(3) by (simp add: chdir_def find_path_def res)
  have look: "lookup ?fs = lookup fs2" by (simp add: lookup_def fun_eq_iff)
  then have same: "lookup ?fs = lookup fs2" "fs_wf ?fs = fs_wf fs2" "removable ?fs = removable fs2"
    by (simp_all add: fs_wf_def removable_def fun_eq_iff)
  have "rmobj (strerror cf) True ?name None ?fs = Some (0, None, cut_tree p ?fs)"
    by (rule rmobj_cuts) (use assms(3,4,6,7) res same in simp_all)
  then have "tst_rmdir cf \<lparr>TESTDIR = Some ?name, test_start_work_dir = the (getcwd fs), \<dots> = tmpd.more td0\<rparr> fs2 s2 = Some (s2, cut_tree p ?fs)"
    using t1 r(3) ch by (simp add: tst_rmdir_def parent_text_def)
  moreover have "fs_nodes (cut_tree p ?fs) = fs_nodes fs" "fs_cwd (cut_tree p ?fs) = butlast p"
    using assms(5) by (simp_all add: cut_tree_def keep_paths_def)
  moreover have "lookup (with_tmpdir p fs) p = Some Is_dir"
    using assms(1,3) by (auto simp: tmp_ready_def with_tmpdir_def lookup_def map_add_def split: option.splits)
  ultimately show ?thesis
    using tmpdir_made [OF assms(1) refl, of td0 s] assms(3) by (auto simp: with_tmpdir_def)
qed

text \<open>The system of the examples: a test that makes two files and a directory in its temporary directory.\<close>

definition demo_tmp_env :: "string option \<Rightarrow> tmp_env" where
  "demo_tmp_env d = \<lparr>te_TMPDIR = d, te_suffix = ''Ab3dEf'', te_gid = 0, te_mkdir = 0, te_chown = 0, te_chmod = 0, te_chdir = 0\<rparr>"

definition demo_fs :: "path \<Rightarrow> (path \<times> kind) list \<Rightarrow> fs" where
  "demo_fs c ns = \<lparr>fs_nodes = [([''tmp''], Is_dir), ([''tmp'', ''x''], Is_other)] @ ns, fs_cwd = c,
     fs_stuck = (\<lambda>_. 0), fs_closed = (\<lambda>_. False)\<rparr>"

lemma demo_ready: "tmp_ready (demo_tconf ''VERBOSE'') (demo_tmp_env None) (demo_fs [] [])"
  "tmp_ready (demo_tconf ''VERBOSE'') (demo_tmp_env (Some ''tmp'')) (demo_fs [] [])"
  by (auto simp: tmp_ready_def tmp_dir_def tmp_name_def demo_tmp_env_def demo_tconf_def demo_fs_def fs_wf_def lookup_def
    resolve_def TEMPDIR_def go_down_def good_name_def getcwd_def cwd_string_def)

theorem tmpdir_roundtrip_witness:
  "\<exists>td fs1 fs3. tst_tmpdir (demo_tconf ''VERBOSE'') (demo_tmp_env None) \<lparr>TESTDIR = None, test_start_work_dir = []\<rparr> (demo_fs [] []) tst_init
      = Some (Go tst_init, td, fs1) \<and>
    tst_rmdir (demo_tconf ''VERBOSE'') td (demo_fs [''tmp'', ''forAb3dEf''] [([''tmp'', ''forAb3dEf''], Is_dir),
      ([''tmp'', ''forAb3dEf'', ''f''], Is_other), ([''tmp'', ''forAb3dEf'', ''sub''], Is_dir),
      ([''tmp'', ''forAb3dEf'', ''sub'', ''g''], Is_other)]) tst_init = Some (tst_init, fs3) \<and> fs_nodes fs3 = fs_nodes (demo_fs [] [])"
proof -
  let ?fs2 = "demo_fs [''tmp'', ''forAb3dEf''] [([''tmp'', ''forAb3dEf''], Is_dir),
      ([''tmp'', ''forAb3dEf'', ''f''], Is_other), ([''tmp'', ''forAb3dEf'', ''sub''], Is_dir),
      ([''tmp'', ''forAb3dEf'', ''sub'', ''g''], Is_other)]"
  have p: "[''tmp'', ''forAb3dEf''] = resolve (demo_fs [] []) (tmp_dir (demo_tmp_env None)) @
      [tmp_name (demo_tconf ''VERBOSE'') (demo_tmp_env None)]" "take 1 (tmp_dir (demo_tmp_env None)) = ''/''"
    by (simp_all add: tmp_dir_def tmp_name_def demo_tmp_env_def demo_tconf_def resolve_def TEMPDIR_def go_down_def)
  have "fs_wf ?fs2" by (auto simp: demo_fs_def fs_wf_def lookup_def good_name_def)
  moreover have "filter (\<lambda>(q, k). \<not> prefix [''tmp'', ''forAb3dEf''] q) (fs_nodes ?fs2) = fs_nodes (demo_fs [] [])"
    "lookup ?fs2 [''tmp'', ''forAb3dEf''] \<noteq> None" by (simp_all add: demo_fs_def lookup_def)
  moreover have "removable ?fs2 [''tmp'', ''forAb3dEf'']
      (length (tmp_dir (demo_tmp_env None)) + 1 + length (tmp_name (demo_tconf ''VERBOSE'') (demo_tmp_env None)))"
    by (simp add: removable_def demo_fs_def tmp_dir_def tmp_name_def demo_tmp_env_def demo_tconf_def TEMPDIR_def)
  ultimately show ?thesis using tmpdir_roundtrip [OF demo_ready(1) p(2,1)] by fastforce
qed

text \<open>The warning of a failed call.\<close>

lemma lstat_fails:
  assumes "find_path fs obj = Inl e" "obj \<noteq> []" "length (call_failed strerr ''lstat'' obj e) < 1024"
  shows "rmobj strerr True obj m fs = Some (-1, Some (call_failed strerr ''lstat'' obj e), fs)"
  using assms by (simp add: rmobj.simps [of strerr True obj] lstat_def rm_failed_def put_msg_def)

lemma fresh_below:
  assumes "fs_wf fs" "lookup fs p = None" "ws \<noteq> []" shows "lookup (with_tmpdir p fs) (p @ ws) = None"
proof (rule ccontr)
  assume "lookup (with_tmpdir p fs) (p @ ws) \<noteq> None"
  then obtain k where "(p @ ws, k) \<in> set (fs_nodes (with_tmpdir p fs))" using assms(3) lookup_node by fastforce
  then have "(p @ ws, k) \<in> set (fs_nodes fs)" using assms(3) by (auto simp: with_tmpdir_def)
  with assms(2,3) wf_parent_dir(1) [OF assms(1)] show False by (cases ws) auto
qed

lemma first_word: "w \<noteq> [] \<Longrightarrow> path_words w s \<noteq> []"
  by (induction w s rule: path_words.induct) auto

lemma first_char: "d \<noteq> [] \<Longrightarrow> take 1 d \<noteq> ''/'' \<Longrightarrow> path_words [] d \<noteq> []"
  by (cases d) (simp_all add: first_word)

text \<open>A relative name in \<open>$TMPDIR\<close> leaves the temporary directory behind: \<open>tst_rmdir\<close> runs in the directory that it is to
  remove, looks for its name from there, warns that it can neither change to the directory above nor remove the directory,
  and changes nothing.\<close>

lemma tmpdir_relative_left:
  assumes "tmp_ready cf te fs" "take 1 (tmp_dir te) \<noteq> ''/''" "list_all good_name (path_words [] (tmp_dir te))"
    and p: "p = resolve fs (tmp_dir te) @ [tmp_name cf te]"
    and "length (cwd_string p) + length (tmp_dir te) \<le> 200"
    and "calm_tst s2" "tcid_ok cf" "int_fits 32 (cur_errno cf)" "\<forall>e. length (strerror cf e) \<le> 300"
  shows "\<exists>td fs1 s3. tst_tmpdir cf te td0 fs s = Some (Go s, td, fs1) \<and> tst_rmdir cf td fs1 s2 = Some (s3, fs1) \<and>
    lookup fs1 p = Some Is_dir \<and> length (T_out s3) = length (T_out s2) + 2"
proof -
  let ?n = "tmp_name cf te" and ?d = "tmp_dir te"
  let ?ws = "path_words [] ?d" and ?name = "?d @ CHR ''/'' # ?n" and ?fs = "with_tmpdir p fs"
  let ?txt = "(cwd_string p @ CHR ''/'' # ?d) @ CHR ''/'' # ?n"
  note r = assms(1) [unfolded tmp_ready_def]
  have ws: "?ws \<noteq> []" using first_char assms(2) r by blast
  have n: "good_name ?n" "length ?n \<le> 9" using r by (auto simp: tmp_name_def)
  have pw: "p = fs_cwd fs @ ?ws @ [?n]" using assms(2) foldl_down [OF assms(3)] by (simp add: p resolve_def)
  have cwd: "list_all good_name (fs_cwd fs)"
  proof (cases "fs_cwd fs = []")
    case False
    have "lookup fs (fs_cwd fs) = Some Is_dir" using r by (auto simp: getcwd_def split: if_splits)
    from wf_node(2) [OF _ lookup_node [OF this False]] r show ?thesis by blast
  qed simp
  then have gp: "list_all good_name p" using assms(3) n(1) by (simp add: pw)
  have here: "lookup ?fs p = Some Is_dir" "fs_cwd ?fs = p" using r p
    by (auto simp: with_tmpdir_def lookup_def map_add_def split: option.splits)
  have "getcwd ?fs = Some (cwd_string p)" using here assms(5) by (simp add: getcwd_def)
  then have ptxt: "parent_text ?name ?fs = Some ?txt"
    using assms(2,5) n(2) r by (cases ?d) (auto simp: parent_text_def)
  have none: "lookup ?fs (p @ ws) = None" if "ws \<noteq> []" for ws
    by (rule fresh_below [OF _ _ that]) (use r p in simp_all)
  have c1: "take 1 (cwd_string p @ CHR ''/'' # ?d) = ''/''" using take_cwd [of p] by (cases "cwd_string p") auto
  have "resolve ?fs (dirname ?txt) = p @ ?ws"
    using take_dirname [OF c1 n(1)] path_words_dirname [OF n(1), of "cwd_string p @ CHR ''/'' # ?d"] path_words_cwd [OF gp]
      foldl_down [of "p @ ?ws" "[]"] gp assms(3) by (simp add: resolve_def path_words_under)
  then have ch: "chdir (dirname ?txt) ?fs = (2, ?fs)"
    using none [OF ws] dirname_length [OF n(1), of "cwd_string p @ CHR ''/'' # ?d"] assms(5) by (simp add: chdir_def find_path_def)
  have "resolve ?fs ?name = p @ ?ws @ [?n]"
    using resolve_child [of ?d ?n ?fs] r assms(2) foldl_down [OF assms(3)] here(2) by (simp add: resolve_def)
  then have fp: "find_path ?fs ?name = Inl 2" using none [of "?ws @ [?n]"] r assms(5) n(2) by (simp add: find_path_def)
  have two: "show_int 2 = ''2''" by code_simp
  let ?m = "call_failed (strerror cf) ''lstat'' ?name 2"
  have len: "length ?m \<le> 560" using assms(5) spec [OF assms(9), of 2] n(2) by (simp add: call_failed_def two)
  have rm: "rmobj (strerror cf) True ?name None ?fs = Some (-1, Some ?m, ?fs)"
    using lstat_fails [OF fp] len by simp
  let ?w1 = "''tst_rmdir: chdir('' @ dirname ?txt @ '') failed'' @ [CHR 0x0A] @ ''Attempting to remove temp dir anyway''"
  let ?w2 = "''tst_rmdir: rmobj('' @ ?name @ '') failed: '' @ ?m"
  have "mesg_ok ?w1" "mesg_ok ?w2"
    using dirname_length [OF n(1), of "cwd_string p @ CHR ''/'' # ?d"] assms(5) n(2) len by (auto simp: mesg_ok_def)
  obtain s4 l4 where s4: "tst_resm (cf\<lparr>cur_errno := 2\<rparr>) (TWARN OR TERRNO) ?w1 s2 = Some s4" "calm_tst s4" "T_out s4 = T_out s2 @ [Line l4]"
    using tst_resm_warn [OF assms(6) _ \<open>mesg_ok ?w1\<close>, of "cf\<lparr>cur_errno := 2\<rparr>" "TWARN OR TERRNO"] assms(7,9)
    by (auto simp: tcid_ok_def int_fits_def)
  obtain s3 l3 where s3: "tst_resm cf TWARN ?w2 s4 = Some s3" "T_out s3 = T_out s4 @ [Line l3]"
    using tst_resm_warn [OF s4(2) assms(7) \<open>mesg_ok ?w2\<close>, of TWARN] assms(8,9) by auto
  have "tst_rmdir cf \<lparr>TESTDIR = Some ?name, test_start_work_dir = the (getcwd fs), \<dots> = tmpd.more td0\<rparr> ?fs s2 = Some (s3, ?fs)"
    unfolding tst_rmdir_def using ptxt ch rm s3(1) s4(1) by simp
  with tmpdir_made [OF assms(1) refl, of td0 s] here(1) s3(2) s4(3) show ?thesis by (auto simp: p)
qed

lemma tmpdir_relative_left_witness:
  "\<exists>td fs1 s3. tst_tmpdir (demo_tconf ''VERBOSE'') (demo_tmp_env (Some ''tmp'')) \<lparr>TESTDIR = None, test_start_work_dir = []\<rparr> (demo_fs [] []) tst_init
      = Some (Go tst_init, td, fs1) \<and>
    tst_rmdir (demo_tconf ''VERBOSE'') td fs1 (tst_init\<lparr>first_time := False\<rparr>) = Some (s3, fs1) \<and> lookup fs1 [''tmp'', ''forAb3dEf''] = Some Is_dir"
proof -
  let ?cf = "demo_tconf ''VERBOSE''" and ?te = "demo_tmp_env (Some ''tmp'')"
  have p: "[''tmp'', ''forAb3dEf''] = resolve (demo_fs [] []) (tmp_dir ?te) @ [tmp_name ?cf ?te]" "take 1 (tmp_dir ?te) \<noteq> ''/''"
    "list_all good_name (path_words [] (tmp_dir ?te))" "length (cwd_string [''tmp'', ''forAb3dEf'']) + length (tmp_dir ?te) \<le> 200"
    by (simp_all add: tmp_dir_def tmp_name_def demo_tmp_env_def demo_tconf_def resolve_def go_down_def good_name_def demo_fs_def cwd_string_def)
  have "calm_tst (tst_init\<lparr>first_time := False\<rparr>)" by (simp add: calm_tst_def tst_init_def)
  moreover have "int_fits 32 (cur_errno ?cf)" "\<forall>e. length (strerror ?cf e) \<le> 300" by (simp_all add: demo_tconf_def int_fits_def)
  ultimately show ?thesis using tmpdir_relative_left [OF demo_ready(2) p(2,3,1,4) _ demo_modes(3)] by blast
qed

end
