(* ===== verification/Tst_Checkpoint.thy ===== *)
theory Tst_Checkpoint
  imports Tst_Tmpdir
begin

text \<open>
  \<^verbatim>\<open>lib/tst_checkpoint.c\<close>: parent and child meet at a named pipe. Each function takes what the system answers to its calls,
  in the record \<open>fifo_io\<close>, and gives its result with the descriptors that it closed, in order. A child ends with its own
  exit status and a message on \<open>stderr\<close>. \<open>None\<close> is undefined behaviour (the character that was read is looked at although
  none was), or a result that is not returned from. At the end the two sides are run against each other over one pipe,
  with the rules of the kernel for pipes as a step relation.
\<close>

section \<open>The functions\<close>

record ckpt =
  ck_retval :: int
  ck_timeout :: int

text \<open>\<open>tst_checkpoint_init\<close> removes an old pipe before it makes a new one; only whether the new one can be made matters here.
  \<open>open\<close>: an \<open>errno\<close> or a descriptor; \<open>poll\<close>, \<open>read\<close> and \<open>write\<close>: the value returned, with the character that is read,
  and the \<open>errno\<close> of a failing one.\<close>

record fifo_io =
  io_open :: "int + int"
  io_poll :: int
  io_read :: "int \<times> char"
  io_write :: int
  io_errno :: int

definition at_line :: "string \<Rightarrow> int \<Rightarrow> string" where
  "at_line file lineno = '' at '' @ file @ '':'' @ show_int lineno"

definition FIFO :: string where "FIFO = ''tst_checkpoint_fifo''"

definition quoted :: "string \<Rightarrow> string" where
  "quoted s = [CHR 0x27] @ s @ [CHR 0x27]"

definition tst_checkpoint_init ::
  "tconf \<Rightarrow> string \<Rightarrow> int \<Rightarrow> tmpd \<Rightarrow> int \<Rightarrow> ckpt \<Rightarrow> tst \<Rightarrow> (ctl \<times> ckpt) option" where
  "tst_checkpoint_init cf file lineno td mkfifo self s =
     on_break (if tst_tmpdir_created td then Some (Go s)
               else tst_brkm cf TBROK None (''Checkpoint could be used only in test temporary directory'' @ at_line file lineno) s) self
       (\<lambda>s. let self = self\<lparr>ck_retval := 1, ck_timeout := 5000\<rparr>
            in on_break (brk_if cf mkfifo None (''Failed to create fifo '' @ quoted FIFO @ at_line file lineno) s) self
                 (\<lambda>s. Some (Go s, self)))"

text \<open>The parent waits: the pipe is opened without blocking, waited for with a timeout, and read.\<close>

definition parent_read ::
  "tconf \<Rightarrow> string \<Rightarrow> int \<Rightarrow> (tst \<Rightarrow> ctl option) option \<Rightarrow> fifo_io \<Rightarrow> int \<Rightarrow> int list \<Rightarrow> tst \<Rightarrow> (ctl \<times> int list) option" where
  "parent_read cf file lineno cleanup io fd closed s =
     (case io_read io of (ret, ch) \<Rightarrow>
        if ret = 0 then on_break (tst_brkm cf TBROK cleanup (''The other end of the pipe was closed unexpectedly'' @ at_line file lineno) s)
             (closed @ [fd]) (\<lambda>s. None)
        else if ret = -1 then on_break (brk_errno cf (io_errno io) cleanup (''Failed to read from pipe'' @ at_line file lineno @ [CHR 0x0A]) s)
             (closed @ [fd]) (\<lambda>s. None)
        else if ch \<noteq> CHR ''c'' then on_break (tst_brkm cf TBROK cleanup (''Wrong data read from the pipe'' @ at_line file lineno @ [CHR 0x0A]) s)
             (closed @ [fd]) (\<lambda>s. Some (Go s, closed @ [fd, fd]))
        else Some (Go s, closed @ [fd]))"

definition tst_checkpoint_parent_wait ::
  "tconf \<Rightarrow> string \<Rightarrow> int \<Rightarrow> (tst \<Rightarrow> ctl option) option \<Rightarrow> fifo_io \<Rightarrow> ckpt \<Rightarrow> tst \<Rightarrow> (ctl \<times> int list) option" where
  "tst_checkpoint_parent_wait cf file lineno cleanup io self s =
     (let (e, fd) = (case io_open io of Inl e \<Rightarrow> (e, -1) | Inr fd \<Rightarrow> (0, fd))
      in on_break (brk_if cf e cleanup (''Failed to open fifo '' @ quoted FIFO @ at_line file lineno) s) [] (\<lambda>s.
           if io_poll io = 0 then
             on_break (tst_brkm cf TBROK cleanup (''Checkpoint timeouted after '' @ show_int (ck_timeout self) @ '' msecs'' @ at_line file lineno) s)
               [fd] (\<lambda>s. parent_read cf file lineno cleanup io fd [fd] s)
           else if io_poll io = 1 then parent_read cf file lineno cleanup io fd [] s
           else on_break (brk_errno cf (io_errno io) cleanup (''Poll failed for fifo '' @ quoted FIFO @ at_line file lineno) s)
               [] (\<lambda>s. parent_read cf file lineno cleanup io fd [] s)))"

text \<open>The other three: the child waits, the child signals, the parent signals.\<close>

datatype signaller_end = Child_goes_on | Child_exits int

definition tst_checkpoint_child_wait ::
  "(int \<Rightarrow> string) \<Rightarrow> string \<Rightarrow> int \<Rightarrow> fifo_io \<Rightarrow> ckpt \<Rightarrow> (signaller_end \<times> string list \<times> int list) option" where
  "tst_checkpoint_child_wait strerr file lineno io self =
     (case io_open io of
        Inl e \<Rightarrow> Some (Child_exits (ck_retval self),
          [''CHILD: Failed to open fifo '' @ quoted FIFO @ '': '' @ strerr e @ at_line file lineno @ [CHR 0x0A]], [])
      | Inr fd \<Rightarrow> (case io_read io of (ret, ch) \<Rightarrow>
          if ret = -1 then Some (Child_exits (ck_retval self),
            [''CHILD: Failed to read from fifo '' @ quoted FIFO @ '': '' @ strerr (io_errno io) @ at_line file lineno @ [CHR 0x0A]], [fd])
          else if ret = 0 then None
          else if ch \<noteq> CHR ''p'' then Some (Child_exits (ck_retval self),
            [''CHILD: Wrong data read from the pipe'' @ at_line file lineno @ [CHR 0x0A]], [fd])
          else Some (Child_goes_on, [], [fd])))"

definition tst_checkpoint_signal_parent ::
  "(int \<Rightarrow> string) \<Rightarrow> string \<Rightarrow> int \<Rightarrow> fifo_io \<Rightarrow> ckpt \<Rightarrow> signaller_end \<times> string list \<times> int list" where
  "tst_checkpoint_signal_parent strerr file lineno io self =
     (case io_open io of
        Inl e \<Rightarrow> (Child_exits (ck_retval self), [''CHILD: Failed to open fifo '' @ quoted FIFO @ '': '' @ strerr e @ at_line file lineno], [])
      | Inr fd \<Rightarrow>
          if io_write io = 0 then (Child_exits (ck_retval self),
            [''No data written, something is really screewed;'' @ at_line file lineno @ [CHR 0x0A]], [fd])
          else if io_write io = -1 then (Child_exits (ck_retval self),
            [''Failed to write to pipe: '' @ strerr (io_errno io) @ at_line file lineno @ [CHR 0x0A]], [fd])
          else (Child_goes_on, [], [fd]))"

definition tst_checkpoint_signal_child ::
  "tconf \<Rightarrow> string \<Rightarrow> int \<Rightarrow> (tst \<Rightarrow> ctl option) option \<Rightarrow> fifo_io \<Rightarrow> tst \<Rightarrow> (ctl \<times> int list) option" where
  "tst_checkpoint_signal_child cf file lineno cleanup io s =
     (let (e, fd) = (case io_open io of Inl e \<Rightarrow> (e, -1) | Inr fd \<Rightarrow> (0, fd))
      in on_break (brk_if cf e cleanup (''Failed to open fifo '' @ quoted FIFO @ at_line file lineno) s) [] (\<lambda>s.
           if io_write io = 0 then
             on_break (tst_brkm cf TBROK cleanup (''No data written, something is really screewed;'' @ at_line file lineno @ [CHR 0x0A]) s)
               [fd] (\<lambda>s. Some (Go s, [fd, fd]))
           else if io_write io = -1 then
             on_break (brk_errno cf (io_errno io) cleanup (''Failed to write to pipe'' @ at_line file lineno @ [CHR 0x0A]) s)
               [fd] (\<lambda>s. Some (Go s, [fd, fd]))
           else Some (Go s, [fd])))"

section \<open>Both sides over one pipe\<close>

text \<open>The parent is before its \<open>open\<close>, \<open>poll\<close>, \<open>read\<close> or \<open>close\<close>, or is through; the child is before its \<open>open\<close>, \<open>write\<close> or
  \<open>close\<close>, through, or killed by \<open>SIGPIPE\<close>. What the kernel answers is collected in the records of the two calls.\<close>

datatype parent_pc = P_open | P_poll | P_read | P_close | P_end

datatype child_pc = C_open | C_write | C_close | C_end | C_killed

record meeting =
  m_readers :: nat
  m_writers :: nat
  m_buf :: string
  m_parent :: parent_pc
  m_pio :: fifo_io
  m_child :: child_pc
  m_cio :: fifo_io

text \<open>The pipe reports a hang-up once a writer has come and gone.\<close>

definition poll_ready :: "meeting \<Rightarrow> bool" where
  "poll_ready m \<longleftrightarrow> m_buf m \<noteq> [] \<or> m_writers m = 0 \<and> m_child m \<in> {C_end, C_killed}"

inductive parent_step :: "meeting \<Rightarrow> meeting \<Rightarrow> bool" where
  opens: "m_parent m = P_open \<Longrightarrow>
    parent_step m (m\<lparr>m_parent := P_poll, m_readers := m_readers m + 1, m_pio := (m_pio m)\<lparr>io_open := Inr fd\<rparr>\<rparr>)"
| polls: "m_parent m = P_poll \<Longrightarrow> poll_ready m \<Longrightarrow>
    parent_step m (m\<lparr>m_parent := P_read, m_pio := (m_pio m)\<lparr>io_poll := 1\<rparr>\<rparr>)"
| times_out: "m_parent m = P_poll \<Longrightarrow> \<not> poll_ready m \<Longrightarrow>
    parent_step m (m\<lparr>m_parent := P_close, m_pio := (m_pio m)\<lparr>io_poll := 0\<rparr>\<rparr>)"
| reads: "m_parent m = P_read \<Longrightarrow> m_buf m = c # r \<Longrightarrow>
    parent_step m (m\<lparr>m_parent := P_close, m_buf := r, m_pio := (m_pio m)\<lparr>io_read := (1, c)\<rparr>\<rparr>)"
| reads_end: "m_parent m = P_read \<Longrightarrow> m_buf m = [] \<Longrightarrow> m_writers m = 0 \<Longrightarrow>
    parent_step m (m\<lparr>m_parent := P_close, m_pio := (m_pio m)\<lparr>io_read := (0, c)\<rparr>\<rparr>)"
| reads_nothing: "m_parent m = P_read \<Longrightarrow> m_buf m = [] \<Longrightarrow> m_writers m \<noteq> 0 \<Longrightarrow>
    parent_step m (m\<lparr>m_parent := P_close, m_pio := (m_pio m)\<lparr>io_read := (-1, c), io_errno := 11\<rparr>\<rparr>)"
| closes: "m_parent m = P_close \<Longrightarrow> parent_step m (m\<lparr>m_parent := P_end, m_readers := m_readers m - 1\<rparr>)"

inductive child_step :: "meeting \<Rightarrow> meeting \<Rightarrow> bool" where
  c_opens: "m_child m = C_open \<Longrightarrow> m_readers m \<noteq> 0 \<Longrightarrow>
    child_step m (m\<lparr>m_child := C_write, m_writers := m_writers m + 1, m_cio := (m_cio m)\<lparr>io_open := Inr fd\<rparr>\<rparr>)"
| c_writes: "m_child m = C_write \<Longrightarrow> m_readers m \<noteq> 0 \<Longrightarrow>
    child_step m (m\<lparr>m_child := C_close, m_buf := m_buf m @ ''c'', m_cio := (m_cio m)\<lparr>io_write := 1\<rparr>\<rparr>)"
| c_dies: "m_child m = C_write \<Longrightarrow> m_readers m = 0 \<Longrightarrow>
    child_step m (m\<lparr>m_child := C_killed, m_writers := m_writers m - 1\<rparr>)"
| c_closes: "m_child m = C_close \<Longrightarrow> child_step m (m\<lparr>m_child := C_end, m_writers := m_writers m - 1\<rparr>)"

inductive_cases parent_stepE: "parent_step m m'"
inductive_cases child_stepE: "child_step m m'"

inductive meets :: "meeting \<Rightarrow> meeting \<Rightarrow> bool" for m0 where
  start: "meets m0 m0"
| parent: "meets m0 m \<Longrightarrow> parent_step m m' \<Longrightarrow> meets m0 m'"
| child: "meets m0 m \<Longrightarrow> child_step m m' \<Longrightarrow> meets m0 m'"

definition before_meeting :: "meeting \<Rightarrow> bool" where
  "before_meeting m \<longleftrightarrow> m_readers m = 0 \<and> m_writers m = 0 \<and> m_buf m = [] \<and> m_parent m = P_open \<and> m_child m = C_open"

text \<open>What holds at every moment: who has the pipe open, where the character is, and what the parent was told.\<close>

definition meeting_inv :: "meeting \<Rightarrow> bool" where
  "meeting_inv m \<longleftrightarrow>
     m_readers m = (if m_parent m \<in> {P_poll, P_read, P_close} then 1 else 0) \<and>
     m_writers m = (if m_child m \<in> {C_write, C_close} then 1 else 0) \<and>
     (m_parent m = P_open \<longrightarrow> m_child m = C_open \<and> m_buf m = []) \<and>
     (m_parent m = P_poll \<longrightarrow> m_child m \<noteq> C_killed \<and> m_buf m = (if m_child m \<in> {C_close, C_end} then ''c'' else [])) \<and>
     (m_parent m \<noteq> P_open \<longrightarrow> (\<exists>fd. io_open (m_pio m) = Inr fd)) \<and>
     (m_parent m = P_read \<longrightarrow> io_poll (m_pio m) = 1 \<and> m_buf m = ''c'' \<and> m_child m \<in> {C_close, C_end}) \<and>
     (m_parent m \<in> {P_close, P_end} \<longrightarrow> io_poll (m_pio m) = 0 \<or>
        io_poll (m_pio m) = 1 \<and> io_read (m_pio m) = (1, CHR ''c'') \<and> m_child m \<in> {C_close, C_end}) \<and>
     (m_child m \<in> {C_close, C_end} \<longrightarrow> io_write (m_cio m) = 1) \<and>
     (m_child m \<noteq> C_open \<longrightarrow> (\<exists>fd. io_open (m_cio m) = Inr fd))"

lemma inv_start: "before_meeting m \<Longrightarrow> meeting_inv m"
  by (simp add: before_meeting_def meeting_inv_def)

lemma inv_parent: "meeting_inv m \<Longrightarrow> parent_step m m' \<Longrightarrow> meeting_inv m'"
  by (erule parent_stepE; cases "m_child m"; simp add: meeting_inv_def poll_ready_def)

lemma inv_child: "meeting_inv m \<Longrightarrow> child_step m m' \<Longrightarrow> meeting_inv m'"
  by (erule child_stepE; cases "m_parent m"; simp add: meeting_inv_def)

lemma meets_inv: "meets m0 m \<Longrightarrow> before_meeting m0 \<Longrightarrow> meeting_inv m"
  by (induction rule: meets.induct) (auto intro: inv_start inv_parent inv_child)

text \<open>The parent is never stuck; the child waits only in \<open>open\<close>, for a reader.\<close>

lemma parent_moves: "m_parent m \<noteq> P_end \<Longrightarrow> \<exists>m'. parent_step m m'"
proof (cases "m_parent m")
  case P_read
  then show ?thesis
    by (cases "m_buf m"; cases "m_writers m = 0") (blast intro: parent_step.intros)+
qed (blast intro: parent_step.intros)+

lemma child_moves: "m_child m \<notin> {C_end, C_killed} \<Longrightarrow> m_child m = C_open \<longrightarrow> m_readers m \<noteq> 0 \<Longrightarrow> \<exists>m'. child_step m m'"
  by (cases "m_child m"; cases "m_readers m = 0") (blast intro: child_step.intros | simp)+

section \<open>Properties\<close>

text \<open>C16: in every interleaving of \<open>tst_checkpoint_parent_wait\<close> with the call of \<open>tst_checkpoint_signal_parent\<close> in the
  child, the parent gets through. Neither an early end of the pipe nor an empty read nor a wrong character can happen;
  when the parent is through it was either told in time, and then it goes on, the child has written and goes on as well,
  or it timed out, and then the test ends broken. The parent's descriptor is closed once. A child is killed by the pipe only
  when the parent timed out.\<close>

theorem checkpoint_meets:
  assumes "before_meeting m0" "meets m0 m" "m_parent m = P_end"
    and "calm_tst s" "tst_brk_entered s = 0" "tcid_ok cf" "length file \<le> 400" "int_fits 32 lineno" "int_fits 32 (ck_timeout self)"
  shows "\<exists>fd. io_open (m_pio m) = Inr fd \<and>
    (if io_poll (m_pio m) = 0
     then \<exists>s'. tst_checkpoint_parent_wait cf file lineno None (m_pio m) self s = Some (Exited (exit_status (T_exitval s OR TBROK)) s', [fd])
     else tst_checkpoint_parent_wait cf file lineno None (m_pio m) self s = Some (Go s, [fd]) \<and>
       m_child m \<in> {C_close, C_end} \<and> (\<exists>cfd. tst_checkpoint_signal_parent strerr file lineno (m_cio m) self = (Child_goes_on, [], [cfd])))"
proof -
  have inv: "meeting_inv m" by (rule meets_inv [OF assms(2,1)])
  then obtain fd where fd: "io_open (m_pio m) = Inr fd" using assms(3) by (auto simp: meeting_inv_def)
  show ?thesis
  proof (cases "io_poll (m_pio m) = 0")
    case True
    let ?msg = "''Checkpoint timeouted after '' @ show_int (ck_timeout self) @ '' msecs'' @ at_line file lineno"
    have "mesg_ok ?msg" using assms(7) show_pid_length [OF assms(8)] show_pid_length [OF assms(9)]
      by (simp add: mesg_ok_def at_line_def)
    then obtain s' where "tst_brkm cf TBROK None ?msg s = Some (Exited (exit_status (T_exitval s OR TBROK)) s')"
      using brkm_plain [of s cf ?msg TBROK] assms(4-6) by (auto simp: calm_tst_def)
    with True fd show ?thesis by (simp add: tst_checkpoint_parent_wait_def brk_if_def)
  next
    case False
    with inv assms(3) have p: "io_poll (m_pio m) = 1" "io_read (m_pio m) = (1, CHR ''c'')" "m_child m \<in> {C_close, C_end}"
      by (auto simp: meeting_inv_def)
    with inv obtain cfd where "io_open (m_cio m) = Inr cfd" "io_write (m_cio m) = 1" by (auto simp: meeting_inv_def)
    with p fd show ?thesis
      by (simp add: tst_checkpoint_parent_wait_def brk_if_def parent_read_def tst_checkpoint_signal_parent_def)
  qed
qed

text \<open>The two sides of the example, before they meet.\<close>

definition demo_io :: fifo_io where
  "demo_io = \<lparr>io_open = Inl 2, io_poll = 0, io_read = (0, CHR 0x00), io_write = 0, io_errno = 0\<rparr>"

definition demo_meeting :: meeting where
  "demo_meeting = \<lparr>m_readers = 0, m_writers = 0, m_buf = [], m_parent = P_open, m_pio = demo_io, m_child = C_open, m_cio = demo_io\<rparr>"

theorem checkpoint_meets_witness:
  "\<exists>m s'. meets demo_meeting m \<and> m_parent m = P_end \<and>
    tst_checkpoint_parent_wait (demo_tconf ''VERBOSE'') ''t.c'' 7 None (m_pio m) \<lparr>ck_retval = 1, ck_timeout = 5000\<rparr>
      (tst_init\<lparr>first_time := False\<rparr>) = Some (Exited (exit_status (0 OR TBROK)) s', [3])"
proof -
  let ?m1 = "demo_meeting\<lparr>m_parent := P_poll, m_readers := 1, m_pio := demo_io\<lparr>io_open := Inr 3\<rparr>\<rparr>"
  let ?m2 = "?m1\<lparr>m_parent := P_close, m_pio := demo_io\<lparr>io_open := Inr 3, io_poll := 0\<rparr>\<rparr>"
  let ?m3 = "?m2\<lparr>m_parent := P_end, m_readers := 0\<rparr>"
  have s1: "parent_step demo_meeting ?m1" using opens [of demo_meeting 3] by (simp add: demo_meeting_def)
  have s2: "parent_step ?m1 ?m2" using times_out [of ?m1] by (simp add: demo_meeting_def poll_ready_def)
  have s3: "parent_step ?m2 ?m3" using closes [of ?m2] by (simp add: demo_meeting_def)
  note mt = meets.parent [OF meets.parent [OF meets.parent [OF meets.start s1] s2] s3]
  have bm: "before_meeting demo_meeting" by (simp add: before_meeting_def demo_meeting_def)
  have init: "calm_tst (tst_init\<lparr>first_time := False\<rparr>)" "tst_brk_entered (tst_init\<lparr>first_time := False\<rparr>) = 0"
    "T_exitval (tst_init\<lparr>first_time := False\<rparr>) = 0" by (simp_all add: calm_tst_def tst_init_def)
  have pio: "m_parent ?m3 = P_end" "io_open (m_pio ?m3) = Inr 3" "io_poll (m_pio ?m3) = 0" by simp_all
  have args: "length ''t.c'' \<le> 400" "int_fits 32 7" "int_fits 32 (ck_timeout \<lparr>ck_retval = 1, ck_timeout = 5000\<rparr>)"
    by (simp_all add: int_fits_def)
  from checkpoint_meets [OF bm mt pio(1) init(1,2) demo_modes(3) args]
  have "\<exists>s'. tst_checkpoint_parent_wait (demo_tconf ''VERBOSE'') ''t.c'' 7 None (m_pio ?m3) \<lparr>ck_retval = 1, ck_timeout = 5000\<rparr>
      (tst_init\<lparr>first_time := False\<rparr>) = Some (Exited (exit_status (0 OR TBROK)) s', [3])"
    unfolding pio(2,3) init(3) by simp
  with mt pio(1) show ?thesis by blast
qed

text \<open>The other direction lacks a case: when the parent ends without signalling, the read of the child returns 0, and a
  character that was never stored is compared.\<close>

lemma child_wait_eof: "io_open io = Inr fd \<Longrightarrow> io_read io = (0, c) \<Longrightarrow> tst_checkpoint_child_wait strerr file lineno io self = None"
  by (simp add: tst_checkpoint_child_wait_def)

text \<open>The parent signals, the child waits: with the descriptors that the kernel gives, both go on.\<close>

lemma child_wait_signalled:
  assumes "io_open pio = Inr pfd" "io_write pio = 1" "io_open cio = Inr cfd" "io_read cio = (1, CHR ''p'')"
  shows "tst_checkpoint_signal_child cf file lineno cleanup pio s = Some (Go s, [pfd])"
    "tst_checkpoint_child_wait strerr file lineno cio self = Some (Child_goes_on, [], [cfd])"
  using assms by (simp_all add: tst_checkpoint_signal_child_def tst_checkpoint_child_wait_def brk_if_def)

text \<open>Inside of a cleanup function the break returns and the function goes on with the closed descriptor, so that it is
  closed twice.\<close>

lemma cleanup_closes_twice:
  assumes "calm_tst s" "tst_brk_entered s \<noteq> 0" "tcid_ok cf" "length file \<le> 400" "int_fits 32 lineno"
    and "io_open io = Inr fd" "io_poll io = 1" "io_read io = (1, CHR ''x'')"
  shows "\<exists>s'. tst_checkpoint_parent_wait cf file lineno None io self s = Some (Go s', [fd, fd])"
proof -
  let ?msg = "''Wrong data read from the pipe'' @ at_line file lineno @ [CHR 0x0A]"
  have "mesg_ok ?msg" using assms(4) show_pid_length [OF assms(5)] by (simp add: mesg_ok_def at_line_def)
  then obtain s' where "tst_brkm cf TBROK None ?msg s = Some (Go s')"
    using brkm_plain [of s cf ?msg TBROK] assms(1-3) by (auto simp: calm_tst_def)
  with assms(6-8) show ?thesis by (simp add: tst_checkpoint_parent_wait_def brk_if_def parent_read_def)
qed

end
