(* ===== verification/Ltp_Bump.thy ===== *)
theory Ltp_Bump
  imports Zoo Parse_Opts
begin

text \<open>
  \<^verbatim>\<open>pan/ltp-bump.c\<close>: the command that sends a signal to the tests of a running driver by their tags, over the zoo file
  (\<open>Zoo\<close>) and \<open>getopt\<close> (\<open>Parse_Opts\<close>). \<open>kill\<close> is a parameter: the \<open>errno\<close> (0 for success) that the n-th call gets for a
  pid and a signal. The record \<open>bump\<close> has the zoo, the signals that were sent, and the messages on \<open>stderr\<close>.
\<close>

section \<open>State and options\<close>

datatype bump_msg =
  Must_supply_active | Must_supply_names | Zoo_message "zoo_msg option" | Did_not_find string | Seems_dead string int

record bump =
  bp_zoo :: "zoo option"
  bp_sent :: "(int \<times> int) list"
  bp_msgs :: "bump_msg list"

fun bump_option :: "char \<Rightarrow> string option \<Rightarrow> string option \<times> int \<Rightarrow> string option \<times> int" where
  "bump_option c arg (active, sig) =
     (case arg of
        Some a \<Rightarrow> if c = CHR ''a'' then (Some a, sig) else if c = CHR ''s'' then (active, atoi a) else (active, sig)
      | None \<Rightarrow> if c = CHR ''1'' then (active, SIGUSR1) else if c = CHR ''2'' then (active, SIGUSR2) else (active, sig))"

text \<open>The options, and the words that \<open>getopt\<close> leaves from \<open>optind\<close> on: those before, between and behind the options.\<close>

function bump_options ::
  "string \<Rightarrow> string list \<Rightarrow> string option \<times> int \<Rightarrow> (string option \<times> int) \<times> string list" where
  "bump_options cur args o1 =
     (let words = (if cur = [] then takeWhile (\<lambda>a. length a < 2 \<or> hd a \<noteq> CHR ''-'') args else []);
          rest = drop (length words) args
      in case getopt ''a:s:12'' cur args of
           None \<Rightarrow> (o1, words @ drop 1 rest)
         | Some ((c, arg), cur', args') \<Rightarrow>
             (case bump_options cur' args' (bump_option c arg o1) of (o2, ws) \<Rightarrow> (o2, words @ ws)))"
  by pat_completeness auto
termination
  by (relation "measure (\<lambda>(cur, args, o1). length cur + sum_list (map (Suc \<circ> length) args))") (auto dest: getopt_shrinks)

declare bump_options.simps [simp del]

section \<open>The loop over the names\<close>

definition bump_tag :: "(nat \<Rightarrow> int \<Rightarrow> int \<Rightarrow> int) \<Rightarrow> int \<Rightarrow> string \<Rightarrow> bump \<Rightarrow> bump option" where
  "bump_tag kill sig tag b = do {
     (nanny, z) \<leftarrow> zoo_getpid (bp_zoo b) tag;
     let b = b\<lparr>bp_zoo := z\<rparr>;
     if nanny = -1 then Some (b\<lparr>bp_msgs := bp_msgs b @ [Did_not_find tag]\<rparr>)
     else (let e = kill (length (bp_sent b)) nanny sig; b = b\<lparr>bp_sent := bp_sent b @ [(nanny, sig)]\<rparr>
       in if e \<noteq> ESRCH then Some b
          else do {
            let b = b\<lparr>bp_msgs := bp_msgs b @ [Seems_dead tag nanny]\<rparr>;
            (r, z) \<leftarrow> zoo_clear (bp_zoo b) nanny;
            Some (if r \<noteq> 0 then b\<lparr>bp_zoo := z, bp_msgs := bp_msgs b @ [Zoo_message (z \<bind> z_error)]\<rparr> else b\<lparr>bp_zoo := z\<rparr>) }) }"

fun bump_tags :: "(nat \<Rightarrow> int \<Rightarrow> int \<Rightarrow> int) \<Rightarrow> int \<Rightarrow> string list \<Rightarrow> bump \<Rightarrow> bump option" where
  "bump_tags kill sig [] b = Some b"
| "bump_tags kill sig (tag # tags) b = do { b \<leftarrow> bump_tag kill sig tag b; bump_tags kill sig tags b }"

text \<open>\<open>main\<close>: the exit status and the state. \<open>opener\<close> is \<open>zoo_open\<close> on the files of the system.\<close>

definition ltp_bump ::
  "(string \<Rightarrow> string option) \<Rightarrow> (string \<Rightarrow> zoo option \<times> zoo_msg option) \<Rightarrow> (nat \<Rightarrow> int \<Rightarrow> int \<Rightarrow> int) \<Rightarrow> string list \<Rightarrow>
     (int \<times> bump) option" where
  "ltp_bump getenv opener kill args =
     (let ((active, sig), names) = bump_options [] args (None, SIGINT);
          active = (case active of None \<Rightarrow> zoo_getname getenv | Some a \<Rightarrow> Some a);
          none = \<lparr>bp_zoo = None, bp_sent = [], bp_msgs = []\<rparr>
      in case active of
           None \<Rightarrow> Some (1, none\<lparr>bp_msgs := [Must_supply_active]\<rparr>)
         | Some active \<Rightarrow>
             if names = [] then Some (1, none\<lparr>bp_msgs := [Must_supply_names]\<rparr>)
             else (case opener active of
                 (None, m) \<Rightarrow> Some (1, none\<lparr>bp_msgs := [Zoo_message m]\<rparr>)
               | (Some z, _) \<Rightarrow> do { b \<leftarrow> bump_tags kill sig names (none\<lparr>bp_zoo := Some z\<rparr>); Some (0, b) }))"

section \<open>Lemmas\<close>

lemma getpid_first:
  assumes "zoo_inv z"
  shows "\<exists>z'. zoo_inv z' \<and> z_text z' = z_text z \<and>
    (zoo_getpid (Some z) tag = Some (-1, Some z') \<or>
     (\<exists>p. p \<in># zoo_pids z \<and> zoo_getpid (Some z) tag = Some (p, Some z')))"
proof -
  define ls where "ls = lines_of (z_text z)"
  have ls: "z_text z = unlines ls" "list_all zoo_line ls" "zoo_calm z"
    using assms by (simp_all add: zoo_inv_def zoo_wf_def ls_def zoo_calm_def)
  obtain z1 where z1: "zoo_lock z = Some (0, z1)" "zoo_frame z z1" using zoo_lock_ok [OF ls(3)] by blast
  then have "zoo_calm z1" using ls(3) by (simp add: zoo_frame_def zoo_calm_def)
  then obtain z2 where z2: "zoo_unlock z1 = Some (0, z2)" "zoo_frame z1 z2" using zoo_unlock_ok by blast
  have inv: "zoo_inv z2" "z_text z2 = z_text z"
    using z1(2) z2(2) assms by (auto simp: zoo_frame_def zoo_inv_def)
  let ?P = "\<lambda>x. tag_hit tag (x @ [LF])"
  show ?thesis
  proof (cases rule: first_cases [of ls ?P])
    case (hit a l b)
    have found: "zoo_find (tag_hit tag) (unlines (a @ l # b)) 0 = Some (80 * length a, l @ [LF])"
      by (rule zoo_find_first [where P = ?P]) (use hit ls in auto)
    have "zoo_getpid (Some z) tag = Some (atoi l, Some z2)"
      using z1 z2 found ls(1) hit(1) by (simp add: zoo_getpid_def zoo_frame_def atoi_LF)
    moreover have "\<not> free_line l" using hit ls(2) hd_line [of l] by (auto simp: tag_hit_def)
    then have "atoi l \<in># zoo_pids z" using hit(1) by (simp add: zoo_of_lines(1) [OF ls(1,2)])
    ultimately show ?thesis using inv by blast
  next
    case miss
    have "zoo_find (tag_hit tag) (unlines ls) 0 = None" by (rule zoo_find_none [where P = ?P]) (use miss ls in auto)
    then have "zoo_getpid (Some z) tag = Some (-1, Some z2)"
      using z1 z2 ls(1) by (simp add: zoo_getpid_def zoo_frame_def)
    with inv show ?thesis by blast
  qed
qed

text \<open>The pids that were sent a signal and whose call said that there is no such process.\<close>

definition found_dead :: "(nat \<Rightarrow> int \<Rightarrow> int \<Rightarrow> int) \<Rightarrow> nat \<Rightarrow> (int \<times> int) list \<Rightarrow> int list" where
  "found_dead kill n sent = map (\<lambda>(i, (p, sig)). p) (filter (\<lambda>(i, (p, sig)). kill i p sig = ESRCH) (enumerate n sent))"

lemma found_dead_simps [simp]:
  "found_dead kill n [] = []"
  "found_dead kill n ((p, sig) # sent) = (if kill n p sig = ESRCH then p # found_dead kill (Suc n) sent else found_dead kill (Suc n) sent)"
  by (simp_all add: found_dead_def)

definition missed :: "bump_msg \<Rightarrow> bool" where
  "missed m \<longleftrightarrow> (case m of Did_not_find _ \<Rightarrow> True | _ \<Rightarrow> False)"

lemma bump_tag_step:
  assumes "bp_zoo b = Some z" "zoo_inv z"
  shows "\<exists>b' z' sent. bump_tag kill sig tag b = Some b' \<and> bp_zoo b' = Some z' \<and> zoo_inv z' \<and> bp_sent b' = bp_sent b @ sent \<and>
    zoo_pids z = mset (found_dead kill (length (bp_sent b)) sent) + zoo_pids z' \<and> (\<forall>(p, s) \<in> set sent. p \<in># zoo_pids z \<and> s = sig) \<and>
    length sent + length (filter missed (bp_msgs b')) = length (filter missed (bp_msgs b)) + 1"
proof -
  from getpid_first [OF assms(2), of tag] obtain z1 where z1: "zoo_inv z1" "z_text z1 = z_text z"
    and r: "zoo_getpid (Some z) tag = Some (-1, Some z1) \<or>
      (\<exists>p. p \<in># zoo_pids z \<and> zoo_getpid (Some z) tag = Some (p, Some z1))" by blast
  have same: "zoo_pids z1 = zoo_pids z" using z1(2) by (simp add: zoo_pids_def)
  from r consider "zoo_getpid (Some z) tag = Some (-1, Some z1)"
    | p where "p \<in># zoo_pids z" "zoo_getpid (Some z) tag = Some (p, Some z1)" "p \<noteq> -1" by blast
  then show ?thesis
  proof cases
    case 1
    with assms z1 same show ?thesis by (intro exI [of _ "b\<lparr>bp_zoo := Some z1, bp_msgs := bp_msgs b @ [Did_not_find tag]\<rparr>"])
      (auto simp: bump_tag_def missed_def)
  next
    case (2 p)
    obtain z2 where z2: "zoo_clear (Some z1) p = Some (0, Some z2)" "zoo_inv z2" "zoo_pids z2 = zoo_pids z - {#p#}"
      using zoo.clear_law [OF z1(1), of p] same 2(1) by auto
    show ?thesis
    proof (cases "kill (length (bp_sent b)) p sig = ESRCH")
      case True
      then show ?thesis using assms z1 z2 2
        by (auto simp: bump_tag_def missed_def insert_DiffM intro!: exI [of _ "[(p, sig)]"])
    next
      case False
      then show ?thesis using assms z1 same 2 by (auto simp: bump_tag_def intro!: exI [of _ "[(p, sig)]"])
    qed
  qed
qed

lemma found_dead_append:
  "found_dead kill n (xs @ ys) = found_dead kill n xs @ found_dead kill (n + length xs) ys"
  by (induction xs arbitrary: n) auto

lemma bump_tags_run:
  assumes "bp_zoo b = Some z" "zoo_inv z"
  shows "\<exists>b' z' sent. bump_tags kill sig tags b = Some b' \<and> bp_zoo b' = Some z' \<and> zoo_inv z' \<and> bp_sent b' = bp_sent b @ sent \<and>
    zoo_pids z = mset (found_dead kill (length (bp_sent b)) sent) + zoo_pids z' \<and> (\<forall>(p, s) \<in> set sent. p \<in># zoo_pids z \<and> s = sig) \<and>
    length sent + length (filter missed (bp_msgs b')) = length (filter missed (bp_msgs b)) + length tags"
  using assms
proof (induction tags arbitrary: b z)
  case Nil
  then show ?case by simp
next
  case (Cons tag tags)
  from bump_tag_step [OF Cons.prems, of kill sig tag] obtain b1 z1 s1 where 1: "bump_tag kill sig tag b = Some b1"
    "bp_zoo b1 = Some z1" "zoo_inv z1" "bp_sent b1 = bp_sent b @ s1"
    "zoo_pids z = mset (found_dead kill (length (bp_sent b)) s1) + zoo_pids z1" "\<forall>(p, s) \<in> set s1. p \<in># zoo_pids z \<and> s = sig"
    "length s1 + length (filter missed (bp_msgs b1)) = length (filter missed (bp_msgs b)) + 1" by blast
  from Cons.IH [OF 1(2,3)] obtain b2 z2 s2 where 2: "bump_tags kill sig tags b1 = Some b2"
    "bp_zoo b2 = Some z2" "zoo_inv z2" "bp_sent b2 = bp_sent b1 @ s2"
    "zoo_pids z1 = mset (found_dead kill (length (bp_sent b1)) s2) + zoo_pids z2" "\<forall>(p, s) \<in> set s2. p \<in># zoo_pids z1 \<and> s = sig"
    "length s2 + length (filter missed (bp_msgs b2)) = length (filter missed (bp_msgs b1)) + length tags" by blast
  have "zoo_pids z = mset (found_dead kill (length (bp_sent b)) (s1 @ s2)) + zoo_pids z2"
    using 1(4,5) 2(5) by (simp add: found_dead_append add.assoc)
  moreover have "\<forall>(p, s) \<in> set (s1 @ s2). p \<in># zoo_pids z \<and> s = sig" using 1(5,6) 2(6) by auto
  ultimately show ?case using 1 2 by (intro exI [of _ b2] exI [of _ z2] exI [of _ "s1 @ s2"]) auto
qed

section \<open>Properties\<close>



text \<open>Only the first characters of a tag are compared: the command signals a test whose tag merely starts with the name.\<close>

lemma bump_prefix:
  assumes "zoo_inv z" "z_text z = []" "entry_ok p (tag @ ext) cmd" "length (show_int p) + 1 + length tag \<le> 79"
  shows "\<exists>z1 z2. zoo_mark_cmdline (Some z) p (tag @ ext) cmd = Some (0, Some z1) \<and> zoo_getpid (Some z1) tag = Some (p, Some z2)"
  using zoo_mark_getpid [OF assms(1,3,4)] assms(2) by (auto simp: lines_of.simps)

end
