(* ===== verification/Mount_Utils.thy ===== *)
theory Mount_Utils
  imports Prelude "HOL-Library.Sublist"
begin

text \<open>
  \<^verbatim>\<open>lib/mount_utils.c\<close>: the device and the directory of the file system that holds a path, by the table of mounted file
  systems. \<open>realpath\<close>, the entries that \<open>getmntent\<close> reads (device and directory), and whether a device exists (an \<open>errno\<close>) are
  parameters. A string on the heap is its block's size and its text. Memory is taken to suffice. The result is the string
  returned (\<open>None\<close> for the null pointer) and the \<open>errno\<close> that the function itself sets; no result is a write past the end of
  a block.
\<close>

section \<open>The loops over the table\<close>

type_synonym block = "nat \<times> string"

definition ENODEV :: int where "ENODEV = 19"
definition ENOENT :: int where "ENOENT = 2"
definition EINVAL :: int where "EINVAL = 22"

text \<open>\<open>strcpy\<close> into a block of a size, and \<open>strncmp (a, b, strlen (a)) == 0\<close>.\<close>

definition strcpy_block :: "nat \<Rightarrow> string \<Rightarrow> block option" where
  "strcpy_block n s = (if length s < n then Some (n, s) else None)"

definition starts_with :: "string \<Rightarrow> string \<Rightarrow> bool" where
  "starts_with a b \<longleftrightarrow> take (length a) b = a"

text \<open>One entry in \<open>get_block_device\<close>: the first match gets new blocks, a later one is stored in place of the directory that
  it is the start of. The blocks are made as long as the strings, without the final NUL, in the second case.\<close>

fun device_entry :: "string \<Rightarrow> string \<times> string \<Rightarrow> (block \<times> block) option \<Rightarrow> (block \<times> block) option option" where
  "device_entry path (fsname, dir) cur =
     (if \<not> starts_with dir path then Some cur
      else (case cur of
          None \<Rightarrow> do {
            d \<leftarrow> strcpy_block (length dir + 1) dir;
            f \<leftarrow> strcpy_block (length fsname + 1) fsname;
            Some (Some (d, f)) }
        | Some (d, f) \<Rightarrow>
            if starts_with dir (snd d) then do {
              d \<leftarrow> strcpy_block (length dir) dir;
              f \<leftarrow> strcpy_block (length fsname) fsname;
              Some (Some (d, f)) }
            else Some cur))"

fun device_loop :: "string \<Rightarrow> (string \<times> string) list \<Rightarrow> (block \<times> block) option \<Rightarrow> (block \<times> block) option option" where
  "device_loop path [] cur = Some cur"
| "device_loop path (e # es) cur = do { cur \<leftarrow> device_entry path e cur; device_loop path es cur }"

fun mount_entry :: "string \<Rightarrow> string \<Rightarrow> block option \<Rightarrow> block option option" where
  "mount_entry path dir cur =
     (if \<not> starts_with dir path then Some cur
      else (case cur of
          None \<Rightarrow> map_option Some (strcpy_block (length dir + 1) dir)
        | Some d \<Rightarrow> if starts_with dir (snd d) then map_option Some (strcpy_block (length dir) dir) else Some cur))"

fun mount_loop :: "string \<Rightarrow> (string \<times> string) list \<Rightarrow> block option \<Rightarrow> block option option" where
  "mount_loop path [] cur = Some cur"
| "mount_loop path ((fsname, dir) # es) cur = do { cur \<leftarrow> mount_entry path dir cur; mount_loop path es cur }"

section \<open>The functions\<close>

record mount_env =
  me_realpath :: "string \<Rightarrow> string option"
  me_mtab :: "(string \<times> string) list option"
  me_stat :: "string \<Rightarrow> int"

definition get_block_device :: "mount_env \<Rightarrow> string option \<Rightarrow> (string option \<times> int option) option" where
  "get_block_device me path =
     (case path of
        None \<Rightarrow> Some (None, Some EINVAL)
      | Some p \<Rightarrow> do {
          cur \<leftarrow> (case (me_realpath me p, me_mtab me) of (Some r, Some es) \<Rightarrow> device_loop r es None | _ \<Rightarrow> Some None);
          Some (case cur of
              None \<Rightarrow> (None, None)
            | Some (d, f) \<Rightarrow> if me_stat me (snd f) = ENOENT then (None, Some ENODEV) else (Some (snd f), None)) })"

definition get_mountpoint :: "mount_env \<Rightarrow> string option \<Rightarrow> (string option \<times> int option) option" where
  "get_mountpoint me path =
     (case path of
        None \<Rightarrow> Some (None, Some EINVAL)
      | Some p \<Rightarrow> do {
          cur \<leftarrow> (case (me_realpath me p, me_mtab me) of (Some r, Some es) \<Rightarrow> mount_loop r es None | _ \<Rightarrow> Some None);
          Some (map_option snd cur, None) })"

section \<open>Lemmas\<close>

lemma starts_with_prefix: "starts_with a b \<longleftrightarrow> prefix a b"
  by (auto simp: starts_with_def prefix_def) (metis append_take_drop_id)

text \<open>What both loops amount to: the first match stays, and a later match that is the start of it is fatal.\<close>

definition first_match :: "string \<Rightarrow> (string \<times> string) list \<Rightarrow> (string \<times> string) option option" where
  "first_match path es =
     (case filter (\<lambda>e. prefix (snd e) path) es of
        [] \<Rightarrow> Some None
      | e # ms \<Rightarrow> if \<exists>e' \<in> set ms. prefix (snd e') (snd e) then None else Some (Some e))"

lemma device_entry_steps:
  "device_entry path e None = Some (if prefix (snd e) path then Some ((length (snd e) + 1, snd e), (length (fst e) + 1, fst e)) else None)"
  "device_entry path e (Some (d, f)) = (if prefix (snd e) path \<and> prefix (snd e) (snd d) then None else Some (Some (d, f)))"
  by (cases e; simp add: starts_with_prefix strcpy_block_def)+

lemma mount_entry_steps:
  "mount_entry path dir None = Some (if prefix dir path then Some (length dir + 1, dir) else None)"
  "mount_entry path dir (Some d) = (if prefix dir path \<and> prefix dir (snd d) then None else Some (Some d))"
  by (simp_all add: starts_with_prefix strcpy_block_def)

lemma device_loop_later:
  "device_loop path es (Some (d, f)) =
     (if \<exists>e \<in> set es. prefix (snd e) path \<and> prefix (snd e) (snd d) then None else Some (Some (d, f)))"
proof (induction es)
  case (Cons e es)
  show ?case
    by (cases "prefix (snd e) path \<and> prefix (snd e) (snd d)")
      (use Cons in \<open>simp_all add: device_entry_steps del: device_entry.simps\<close>, auto)
qed simp

lemma mount_loop_later:
  "mount_loop path es (Some d) =
     (if \<exists>e \<in> set es. prefix (snd e) path \<and> prefix (snd e) (snd d) then None else Some (Some d))"
proof (induction es)
  case (Cons e es)
  obtain f dir where e: "e = (f, dir)" by (cases e)
  show ?case
    by (cases "prefix dir path \<and> prefix dir (snd d)")
      (use Cons e in \<open>simp_all add: mount_entry_steps del: mount_entry.simps\<close>, auto)
qed simp

lemma device_loop_first:
  "device_loop path es None = map_option (map_option (\<lambda>(f, d). ((length d + 1, d), (length f + 1, f)))) (first_match path es)"
proof (induction es)
  case (Cons e es)
  have "(\<exists>x \<in> set es. prefix (snd x) path \<and> prefix (snd x) (snd e)) \<longleftrightarrow>
      (\<exists>x \<in> set (filter (\<lambda>e. prefix (snd e) path) es). prefix (snd x) (snd e))"
    unfolding set_filter by blast
  with Cons show ?case
    by ((cases e; cases "prefix (snd e) path"),
      simp_all add: first_match_def device_entry_steps device_loop_later del: device_entry.simps, blast?)
qed (simp add: first_match_def)

lemma mount_loop_first:
  "mount_loop path es None = map_option (map_option (\<lambda>(f, d). (length d + 1, d))) (first_match path es)"
proof (induction es)
  case (Cons e es)
  have "(\<exists>x \<in> set es. prefix (snd x) path \<and> prefix (snd x) (snd e)) \<longleftrightarrow>
      (\<exists>x \<in> set (filter (\<lambda>e. prefix (snd e) path) es). prefix (snd x) (snd e))"
    unfolding set_filter by blast
  with Cons show ?case
    by ((cases e; cases "prefix (snd e) path"),
      simp_all add: first_match_def mount_entry_steps mount_loop_later del: mount_entry.simps, blast?)
qed (simp add: first_match_def)

section \<open>Properties\<close>

text \<open>C35: \<open>get_mountpoint\<close> does not find the file system of a path: it returns the directory of the first entry of the table
  that the path starts with, which is the root directory when that is mounted first, and it writes past the end of its block
  as soon as a later entry that the path starts with is also the start of that directory. \<open>get_block_device\<close> chooses the
  same entry, and returns its device, or the null pointer and \<open>ENODEV\<close> when there is no such device.\<close>

theorem mount_first_match:
  "get_mountpoint me (Some p) =
     (case (me_realpath me p, me_mtab me) of
        (Some r, Some es) \<Rightarrow> map_option (\<lambda>e. (map_option snd e, None)) (first_match r es)
      | _ \<Rightarrow> Some (None, None)) \<and>
   get_block_device me (Some p) =
     (case (me_realpath me p, me_mtab me) of
        (Some r, Some es) \<Rightarrow> map_option (\<lambda>e. case e of None \<Rightarrow> (None, None)
          | Some (f, d) \<Rightarrow> if me_stat me f = ENOENT then (None, Some ENODEV) else (Some f, None)) (first_match r es)
      | _ \<Rightarrow> Some (None, None))"
proof (cases "me_realpath me p")
  case (Some r)
  show ?thesis
  proof (cases "me_mtab me")
    case es: (Some es)
    show ?thesis
      by (cases "first_match r es") (auto simp: Some es get_mountpoint_def get_block_device_def device_loop_first mount_loop_first
        split: option.splits)
  qed (simp add: Some get_mountpoint_def get_block_device_def)
qed (simp add: get_mountpoint_def get_block_device_def)

text \<open>For the table of most systems, with the root directory first, the answer is the root directory for every path, and when
  the root directory comes behind the right entry the block is overrun.\<close>

lemma mount_root_first:
  assumes "me_realpath me p = Some r" "prefix ''/'' r" "me_mtab me = Some ((f, ''/'') # es)"
    "\<forall>(f', d) \<in> set es. d \<noteq> [] \<and> d \<noteq> ''/''"
  shows "get_mountpoint me (Some p) = Some (Some ''/'', None)"
proof -
  have "\<not> prefix d ''/''" if "(f', d) \<in> set es" for f' d using assms(4) that by (auto simp: prefix_Cons)
  with assms show ?thesis by (auto simp: get_mountpoint_def mount_loop_first first_match_def)
qed

lemma mount_root_later:
  assumes "me_realpath me p = Some r" "prefix d r" "prefix ''/'' d" "me_mtab me = Some [(f, d), (f', ''/'')]"
  shows "get_mountpoint me (Some p) = None"
proof -
  have "prefix ''/'' r" using assms(2,3) prefix_order.trans by blast
  with assms show ?thesis by (simp add: get_mountpoint_def mount_loop_first first_match_def)
qed

end
