(* ===== verification/Safe_Macros.thy ===== *)
theory Safe_Macros
  imports Self_Exec Tst_Checkpoint
begin

text \<open>
  \<^verbatim>\<open>lib/safe_macros.c\<close>: the wrappers around system calls that end the test when the call fails. The answer of the system is an
  argument, the value returned and \<open>errno\<close>; a pointer is a number, 0 for the null pointer and -1 for \<open>MAP_FAILED\<close>. What
  a wrapper returns is its value, when the break does not end the process.
\<close>

section \<open>The plain wrappers\<close>

type_synonym wrapper = "tconf \<Rightarrow> string \<Rightarrow> int \<Rightarrow> (tst \<Rightarrow> ctl option) option \<Rightarrow> int \<times> int \<Rightarrow> tst \<Rightarrow> (ctl \<times> int) option"

text \<open>The value that stands for a failure, and the name in the message, which is not always that of the call.\<close>

definition safe_call :: "int \<Rightarrow> string \<Rightarrow> wrapper" where
  "safe_call bad name cf file lineno cleanup ans s =
     (case ans of (rval, e) \<Rightarrow>
        on_break (if rval = bad then brk_errno cf e cleanup (name @ '' failed'' @ at_line file lineno) s else Some (Go s)) rval
          (\<lambda>s. Some (Go s, rval)))"

definition safe_basename :: wrapper where "safe_basename = safe_call (0) ''basename''"
definition safe_chdir :: wrapper where "safe_chdir = safe_call (-1) ''chdir''"
definition safe_close :: wrapper where "safe_close = safe_call (-1) ''close''"
definition safe_creat :: wrapper where "safe_creat = safe_call (-1) ''pipe''"
definition safe_dirname :: wrapper where "safe_dirname = safe_call (0) ''dirname''"
definition safe_getcwd :: wrapper where "safe_getcwd = safe_call (0) ''getcwd''"
definition safe_getpwnam :: wrapper where "safe_getpwnam = safe_call (0) ''getpwnam''"
definition safe_getrusage :: wrapper where "safe_getrusage = safe_call (-1) ''getrusage''"
definition safe_malloc :: wrapper where "safe_malloc = safe_call (0) ''malloc''"
definition safe_mkdir :: wrapper where "safe_mkdir = safe_call (-1) ''mkdir''"
definition safe_mmap :: wrapper where "safe_mmap = safe_call (-1) ''mmap''"
definition safe_munmap :: wrapper where "safe_munmap = safe_call (-1) ''munmap''"
definition safe_open :: wrapper where "safe_open = safe_call (-1) ''open''"
definition safe_pipe :: wrapper where "safe_pipe = safe_call (-1) ''pipe''"
definition safe_setegid :: wrapper where "safe_setegid = safe_call (-1) ''setegid''"
definition safe_seteuid :: wrapper where "safe_seteuid = safe_call (-1) ''seteuid''"
definition safe_setgid :: wrapper where "safe_setgid = safe_call (-1) ''setgid''"
definition safe_setuid :: wrapper where "safe_setuid = safe_call (-1) ''setuid''"
definition safe_unlink :: wrapper where "safe_unlink = safe_call (-1) ''unlink''"
definition safe_ftruncate :: wrapper where "safe_ftruncate = safe_call (-1) ''ftruncate''"
definition safe_truncate :: wrapper where "safe_truncate = safe_call (-1) ''truncate''"

lemmas safe_wrappers = safe_basename_def safe_chdir_def safe_close_def safe_creat_def safe_dirname_def safe_getcwd_def safe_getpwnam_def safe_getrusage_def safe_malloc_def safe_mkdir_def safe_mmap_def safe_munmap_def safe_open_def safe_pipe_def safe_setegid_def safe_seteuid_def safe_setgid_def safe_setuid_def safe_unlink_def safe_ftruncate_def safe_truncate_def

definition safe_link :: "string \<Rightarrow> string \<Rightarrow> wrapper" where
  "safe_link oldpath newpath cf file lineno cleanup ans s =
     (case ans of (rval, e) \<Rightarrow>
        on_break (if rval = -1 then brk_errno cf e cleanup (''link('' @ oldpath @ '', '' @ newpath @ '') failed'' @ at_line file lineno) s
                  else Some (Go s)) rval (\<lambda>s. Some (Go s, rval)))"

definition safe_symlink :: "string \<Rightarrow> string \<Rightarrow> wrapper" where
  "safe_symlink oldpath newpath cf file lineno cleanup ans s =
     (case ans of (rval, e) \<Rightarrow>
        on_break (if rval = -1 then brk_errno cf e cleanup (''link('' @ oldpath @ '', '' @ newpath @ '') failed'' @ at_line file lineno) s
                  else Some (Go s)) rval (\<lambda>s. Some (Go s, rval)))"

text \<open>Reading and writing: \<open>rval\<close> is compared with the unsigned \<open>nbyte\<close>, so that -1 differs from it.\<close>

definition safe_read :: "int \<Rightarrow> int \<Rightarrow> wrapper" where
  "safe_read len_strict nbyte cf file lineno cleanup ans s =
     (case ans of (rval, e) \<Rightarrow>
        on_break (if rval = -1 \<or> len_strict \<noteq> 0 \<and> rval \<noteq> nbyte then brk_errno cf e cleanup (''read failed'' @ at_line file lineno) s
                  else Some (Go s)) rval (\<lambda>s. Some (Go s, rval)))"

definition safe_write :: "int \<Rightarrow> int \<Rightarrow> wrapper" where
  "safe_write len_strict nbyte cf file lineno cleanup ans s =
     (case ans of (rval, e) \<Rightarrow>
        on_break (if len_strict = 0 \<and> rval = -1 \<or> rval \<noteq> nbyte then brk_errno cf e cleanup (''write failed'' @ at_line file lineno) s
                  else Some (Go s)) rval (\<lambda>s. Some (Go s, rval)))"

definition safe_sysconf :: wrapper where
  "safe_sysconf cf file lineno cleanup ans s =
     (case ans of (rval, e) \<Rightarrow>
        if rval = -1
        then if e = 22 then on_break (brk_errno cf e cleanup (''sysconf failed'' @ at_line file lineno) s) rval (\<lambda>s. Some (Go s, rval))
             else do {
               s \<leftarrow> tst_resm cf TINFO (''queried option is not available or thers is no definite limit'' @ at_line file lineno) s;
               Some (Go s, rval) }
        else Some (Go s, rval))"

section \<open>Numbers\<close>

text \<open>The \<open>errno\<close> of \<open>strtol\<close> with base 10 on a 64-bit \<open>long\<close>; and \<open>strtoul\<close>: the value, the rest, and the \<open>errno\<close>. A negative
  number is wrapped around.\<close>

definition strtol_errno :: "string \<Rightarrow> int" where
  "strtol_errno s =
     (let (neg, r) = scan_sign (dropWhile is_space s); n = fst (scan_digits 10 0 r); v = (if neg then - int n else int n)
      in if starts_digit 10 r \<and> \<not> int_fits 64 v then 34 else 0)"

definition strtoul10 :: "string \<Rightarrow> int \<times> string \<times> int" where
  "strtoul10 s =
     (let (neg, r) = scan_sign (dropWhile is_space s); (n, rest) = scan_digits 10 0 r
      in if \<not> starts_digit 10 r then (0, s, 0)
         else if 2 ^ 64 \<le> n then (2 ^ 64 - 1, rest, 34)
         else ((if neg then - int n else int n) mod 2 ^ 64, rest, 0))"

text \<open>The checks that both functions make on the value, the rest and the \<open>errno\<close>. \<open>ends\<close> are the values that an overflow
  gives.\<close>

definition safe_number ::
  "int list \<Rightarrow> string \<Rightarrow> string \<Rightarrow> int \<times> string \<times> int \<Rightarrow> tconf \<Rightarrow> string \<Rightarrow> int \<Rightarrow> (tst \<Rightarrow> ctl option) option \<Rightarrow> int \<Rightarrow> int \<Rightarrow> tst \<Rightarrow>
     (ctl \<times> int) option" where
  "safe_number ends str close ans cf file lineno cleanup mn mx s =
     (case ans of (rval, rest, e) \<Rightarrow>
        on_break (if e = 34 \<and> rval \<in> set ends \<or> e \<noteq> 0 \<and> rval = 0
                  then brk_errno cf e cleanup (''strtol failed'' @ at_line file lineno) s else Some (Go s)) rval (\<lambda>s.
        on_break (if mx < rval \<or> rval < mn
                  then tst_brkm cf TBROK cleanup (''converted value out of range ('' @ show_int mn @ '' - '' @ show_int mx @ close @
                         at_line file lineno) s else Some (Go s)) rval (\<lambda>s.
        on_break (if rest = str \<or> rest \<noteq> [] \<and> hd rest \<noteq> CHR 0x0A
                  then tst_brkm cf TBROK cleanup (''Invalid value: '' @ quoted str @ at_line file lineno) s else Some (Go s)) rval
          (\<lambda>s. Some (Go s, rval)))))"

definition safe_strtol ::
  "tconf \<Rightarrow> string \<Rightarrow> int \<Rightarrow> (tst \<Rightarrow> ctl option) option \<Rightarrow> string \<Rightarrow> int \<Rightarrow> int \<Rightarrow> tst \<Rightarrow> (ctl \<times> int) option" where
  "safe_strtol cf file lineno cleanup str mn mx s =
     (case strtol10 str of (rval, rest) \<Rightarrow>
        safe_number [2 ^ 63 - 1, - (2 ^ 63)] str '')'' (rval, rest, strtol_errno str) cf file lineno cleanup mn mx s)"

definition safe_strtoul ::
  "tconf \<Rightarrow> string \<Rightarrow> int \<Rightarrow> (tst \<Rightarrow> ctl option) option \<Rightarrow> string \<Rightarrow> int \<Rightarrow> int \<Rightarrow> tst \<Rightarrow> (ctl \<times> int) option" where
  "safe_strtoul cf file lineno cleanup str mn mx s =
     safe_number [2 ^ 64 - 1] str [] (strtoul10 str) cf file lineno cleanup mn mx s"

section \<open>Breaks that end the test\<close>

lemma res_line:
  assumes "calm_tst s \<or> calm_tst (s\<lparr>tst_count := tst_count s - 1\<rparr>)" "0 \<le> tst_count s" "tcid_ok cf" "mesg_ok m"
    "t = TBROK \<or> t = TBROK OR TERRNO" "int_fits 32 (cur_errno cf)" "length (strerror cf (cur_errno cf)) \<le> 300"
  shows "\<exists>l. tst_res cf t None m s =
    Some (s\<lparr>T_exitval := T_exitval s OR TBROK, T_out := T_out s @ [Line l], tst_count := tst_count s + 1\<rparr>)"
proof -
  have s: "T_mode s = VERBOSE" "\<not> first_time s" "File s = None" "tst_count s < 2 ^ 31 - 1" using assms(1) by (auto simp: calm_tst_def)
  have r: "TTYPE_RESULT t = TBROK" "t AND TTERRNO = 0" "length (strttype t) = 5"
    using assms(5) by (auto simp: TTYPE_RESULT_def ttype_defs strttype_def pair_lookup_def)
  have n: "length (pad_left 4 (show_int (tst_count s + 1))) \<le> 11"
    using show_pid_length [of "tst_count s + 1"] s(4) assms(2) by (simp add: pad_left_def int_fits_def)
  have p: "length (pad_right 8 (TCID cf)) \<le> 508" using assms(3) by (simp add: pad_right_def tcid_ok_def)
  have "\<exists>l. result_line cf VERBOSE (TCID cf) (tst_count s + 1) t m = Some l"
    using r n p assms(4,7) strerrnodef_length [of "cur_errno cf"] show_pid_length [OF assms(6)]
    by (auto simp: result_line_def Let_def mesg_ok_def)
  then obtain l where "result_line cf VERBOSE (TCID cf) (tst_count s + 1) t m = Some l" ..
  then show ?thesis using s r(1) assms(2,4)
    by (simp add: tst_res_def expand_args_def mesg_ok_def check_env_def Let_def tst_print_nofile print_line_def or.assoc)
      (auto simp: ttype_defs)
qed

text \<open>What a break at the top level needs to be printed.\<close>

definition ready_tst :: "tconf \<Rightarrow> tst \<Rightarrow> bool" where
  "ready_tst cf s \<longleftrightarrow> calm_tst s \<and> tst_brk_entered s = 0 \<and> tcid_ok cf \<and> int_fits 32 (cur_errno cf) \<and> (\<forall>e. length (strerror cf e) \<le> 300)"

lemma brk_errno_ends:
  assumes "ready_tst cf s" "mesg_ok m" "int_fits 32 e"
  shows "\<exists>s'. brk_errno cf e None m s = Some (Exited (exit_status (T_exitval s OR TBROK)) s')"
proof -
  let ?cf = "cf\<lparr>cur_errno := e\<rparr>"
  have cf: "tcid_ok ?cf" "int_fits 32 (cur_errno ?cf)" "length (strerror ?cf (cur_errno ?cf)) \<le> 300" and calm: "calm_tst s"
    and top: "tst_brk_entered s = 0" using assms by (auto simp: ready_tst_def tcid_ok_def)
  have pos: "0 \<le> tst_count s" using calm by (simp add: calm_tst_def)
  obtain l where l: "tst_res ?cf (TBROK OR TERRNO) None m s =
      Some (s\<lparr>T_exitval := T_exitval s OR TBROK, T_out := T_out s @ [Line l], tst_count := tst_count s + 1\<rparr>)" (is "_ = Some ?s")
    using res_line [OF disjI1 [OF calm] pos cf(1) assms(2) disjI2 [OF refl] cf(2,3)] by blast
  have "calm_tst (?s\<lparr>tst_count := tst_count ?s - 1\<rparr>)" "0 \<le> tst_count ?s" using calm by (simp_all add: calm_tst_def)
  moreover have "mesg_ok ''Remaining cases broken''" by (simp add: mesg_ok_def)
  ultimately obtain k where k: "tst_res ?cf TBROK None ''Remaining cases broken'' ?s =
      Some (?s\<lparr>T_exitval := T_exitval ?s OR TBROK, T_out := T_out ?s @ [Line k], tst_count := tst_count ?s + 1\<rparr>)"
    using res_line [OF disjI2 _ cf(1) _ disjI1 [OF refl] cf(2,3)] by blast
  have r: "TTYPE_RESULT (TBROK OR TERRNO) = TBROK" "TBROK \<noteq> TCONF" "TBROK \<noteq> TRETR" by (simp_all add: TTYPE_RESULT_def ttype_defs)
  have "Last s = None" using calm by (simp add: calm_tst_def)
  with l k r top assms(2) show ?thesis
    by (simp add: brk_errno_def tst_brkm_def tst_brk_def expand_args_def mesg_ok_def Let_def tst_exit_def tst_flush_def exit_status_def or.assoc)
qed

lemma brk_ends:
  assumes "ready_tst cf s" "mesg_ok m"
  shows "\<exists>s'. tst_brkm cf TBROK None m s = Some (Exited (exit_status (T_exitval s OR TBROK)) s')"
  using brkm_plain [of s cf m TBROK] assms by (auto simp: ready_tst_def calm_tst_def)

text \<open>A check that breaks: what follows it is reached exactly when it does not.\<close>

lemma checked_step:
  assumes "\<exists>s'. c = Some (Exited e s')"
  shows "\<exists>s'. on_break (if b then c else Some (Go s)) w k = (if b then Some (Exited e s', w) else k s)"
  using assms by auto

section \<open>Properties\<close>

lemma show_long_length: "int_fits 64 p \<Longrightarrow> length (show_int p) \<le> 20"
proof -
  assume "int_fits 64 p"
  then have "nat p < 10 ^ Suc 18" "nat (- p) < 10 ^ Suc 18" by (auto simp: int_fits_def)
  then have "length (show_nat (nat p)) \<le> 19" "length (show_nat (nat (- p))) \<le> 19"
    using show_nat_length [of _ 18] by fastforce+
  then show ?thesis by (simp add: show_int_def)
qed

lemma strtol_of_text:
  assumes "list_all is_space w" "int_fits 64 v" "rest = [] \<or> hd rest = CHR 0x0A"
  shows "strtol10 (w @ show_int v @ rest) = (v, rest)" "strtol_errno (w @ show_int v @ rest) = 0"
proof -
  have stop: "\<not> starts_digit 10 rest" using assms(3) by (cases rest) (auto simp: starts_digit_def digit_val_def)
  have dig: "starts_digit 10 (show_nat n @ rest)" for n using show_nat_hd [of n] by (auto simp: starts_digit_def)
  have scan: "scan_digits 10 0 (show_nat n @ rest) = (n, rest)" for n by (rule scan_digits_show0 [OF stop])
  have minus: "scan_sign (CHR ''-'' # r) = (True, r)" for r by (simp add: scan_sign_def)
  have drop: "dropWhile is_space (w @ x) = dropWhile is_space x" for x using assms(1) by (induction w) auto
  show "strtol10 (w @ show_int v @ rest) = (v, rest)" "strtol_errno (w @ show_int v @ rest) = 0"
    using assms(2) by (auto simp: strtol10_def strtol_errno_def show_int_def drop dig scan minus is_space_def show_nat_first int_fits_def Let_def)
qed

lemma strtol_errno_ends:
  assumes "strtol10 str = (v, rest)"
  shows "strtol_errno str = 34 \<and> v \<in> {2 ^ 63 - 1, - (2 ^ 63)} \<or> strtol_errno str = 0"
proof -
  obtain neg r where r: "scan_sign (dropWhile is_space str) = (neg, r)" by force
  obtain n rest' where n: "scan_digits 10 0 r = (n, rest')" by force
  show ?thesis
  proof (cases "starts_digit 10 r \<and> \<not> int_fits 64 (if neg then - int n else int n)")
    case True
    then have "v = max (- (2 ^ 63)) (min (2 ^ 63 - 1) (if neg then - int n else int n))"
      using assms by (simp add: strtol10_def r n)
    moreover have "(if neg then - int n else int n) < - (2 ^ 63) \<or> 2 ^ 63 - 1 < (if neg then - int n else int n)"
      using True by (auto simp: int_fits_def)
    ultimately have "v \<in> {2 ^ 63 - 1, - (2 ^ 63)}" by auto
    with True show ?thesis by (simp add: strtol_errno_def r n)
  next
    case False
    then show ?thesis by (cases neg) (auto simp: strtol_errno_def r n)
  qed
qed

text \<open>C22: \<open>safe_strtol\<close> returns exactly the numbers that are written in decimal after white space, fit in a \<open>long\<close>, lie in the
  range that is asked for, and are followed by the end of the string or a line feed; the number is then that which is
  written. Every other string ends the test broken. What follows a line feed is not looked at.\<close>

theorem safe_strtol_exact:
  assumes "ready_tst cf s" "length file \<le> 300" "int_fits 32 lineno" "length str \<le> 300" "int_fits 64 mn" "int_fits 64 mx"
    and ans: "strtol10 str = (v, rest)"
  shows "(if strtol_errno str = 0 \<and> mn \<le> v \<and> v \<le> mx \<and> rest \<noteq> str \<and> (rest = [] \<or> hd rest = CHR 0x0A)
     then safe_strtol cf file lineno None str mn mx s = Some (Go s, v)
     else \<exists>s'. safe_strtol cf file lineno None str mn mx s = Some (Exited (exit_status (T_exitval s OR TBROK)) s', v)) \<and>
    (\<forall>w i r. list_all is_space w \<longrightarrow> int_fits 64 i \<longrightarrow> mn \<le> i \<longrightarrow> i \<le> mx \<longrightarrow> r = [] \<or> hd r = CHR 0x0A \<longrightarrow> str = w @ show_int i @ r \<longrightarrow>
       safe_strtol cf file lineno None str mn mx s = Some (Go s, i))"
proof -
  let ?E = "Exited (exit_status (T_exitval s OR TBROK))"
  have msgs: "mesg_ok (''strtol failed'' @ at_line file lineno)"
    "mesg_ok (''converted value out of range ('' @ show_int mn @ '' - '' @ show_int mx @ '')'' @ at_line file lineno)"
    "mesg_ok (''Invalid value: '' @ quoted str @ at_line file lineno)"
    using assms(2,4) show_pid_length [OF assms(3)] show_long_length [OF assms(5)] show_long_length [OF assms(6)]
    by (simp_all add: mesg_ok_def at_line_def quoted_def)
  obtain s1 where s1: "brk_errno cf 34 None (''strtol failed'' @ at_line file lineno) s = Some (?E s1)"
    using brk_errno_ends [OF assms(1) msgs(1), of 34] by (auto simp: int_fits_def)
  obtain s2 where s2: "tst_brkm cf TBROK None (''converted value out of range ('' @ show_int mn @ '' - '' @ show_int mx @ '')'' @
      at_line file lineno) s = Some (?E s2)" using brk_ends [OF assms(1) msgs(2)] ..
  obtain s3 where s3: "tst_brkm cf TBROK None (''Invalid value: '' @ quoted str @ at_line file lineno) s = Some (?E s3)"
    using brk_ends [OF assms(1) msgs(3)] ..
  have main: "if strtol_errno str = 0 \<and> mn \<le> v \<and> v \<le> mx \<and> rest \<noteq> str \<and> (rest = [] \<or> hd rest = CHR 0x0A)
     then safe_strtol cf file lineno None str mn mx s = Some (Go s, v)
     else \<exists>s'. safe_strtol cf file lineno None str mn mx s = Some (?E s', v)"
  proof (cases "strtol_errno str = 0")
    case False
    with strtol_errno_ends [OF ans] s1 show ?thesis by (auto simp: safe_strtol_def ans safe_number_def)
  next
    case True
    then have start: "safe_strtol cf file lineno None str mn mx s = on_break (if mx < v \<or> v < mn
        then tst_brkm cf TBROK None (''converted value out of range ('' @ show_int mn @ '' - '' @ show_int mx @ '')'' @ at_line file lineno) s
        else Some (Go s)) v (\<lambda>s. on_break (if rest = str \<or> rest \<noteq> [] \<and> hd rest \<noteq> CHR 0x0A
        then tst_brkm cf TBROK None (''Invalid value: '' @ quoted str @ at_line file lineno) s else Some (Go s)) v (\<lambda>s. Some (Go s, v)))"
      by (simp add: safe_strtol_def ans safe_number_def)
    show ?thesis unfolding start s2 using True s3 by auto
  qed
  moreover have "safe_strtol cf file lineno None str mn mx s = Some (Go s, i)"
    if "list_all is_space w" "int_fits 64 i" "mn \<le> i" "i \<le> mx" "r = [] \<or> hd r = CHR 0x0A" "str = w @ show_int i @ r" for w i r
  proof -
    have "strtol10 str = (i, r)" "strtol_errno str = 0" using strtol_of_text [OF that(1,2,5)] that(6) by simp_all
    moreover have "r \<noteq> str" using that(6) by simp
    ultimately show ?thesis using main that(3-5) ans by auto
  qed
  ultimately show ?thesis by blast
qed

theorem safe_strtol_exact_witness:
  "safe_strtol (demo_tconf ''VERBOSE'') ''t.c'' 7 None (''  -12'' @ [CHR 0x0A] @ ''junk'') (-20) 20 (tst_init\<lparr>first_time := False\<rparr>) =
    Some (Go (tst_init\<lparr>first_time := False\<rparr>), -12)"
proof -
  let ?s = "tst_init\<lparr>first_time := False\<rparr>" and ?str = "''  -12'' @ [CHR 0x0A] @ ''junk''"
  have s: "ready_tst (demo_tconf ''VERBOSE'') ?s"
    using demo_modes(3) by (simp add: ready_tst_def calm_tst_def tst_init_def demo_tconf_def int_fits_def tcid_ok_def)
  have fits: "int_fits 32 7" "int_fits 64 (-20)" "int_fits 64 20" "length ''t.c'' \<le> 300" "length ?str \<le> 300" by (simp_all add: int_fits_def)
  have "show_int (-12) = ''-12''" by code_simp
  then have str: "?str = ''  '' @ show_int (-12) @ ([CHR 0x0A] @ ''junk'')" by simp
  have ans: "strtol10 ?str = (-12, [CHR 0x0A] @ ''junk'')" "strtol_errno ?str = 0"
    unfolding str by (rule strtol_of_text; simp add: is_space_def int_fits_def)+
  from conjunct1 [OF safe_strtol_exact [OF s fits(4,1,5,2,3) ans(1)]] ans(2) show ?thesis by simp
qed

text \<open>\<open>safe_write\<close> does not look at \<open>len_strict\<close>: a short write breaks in any case.\<close>

lemma safe_write_strict: "0 \<le> nbyte \<Longrightarrow> safe_write len_strict nbyte = safe_write 1 nbyte"
proof -
  assume n: "0 \<le> nbyte"
  have "l = 0 \<and> r = -1 \<or> r \<noteq> nbyte \<longleftrightarrow> r \<noteq> nbyte" for l r :: int using n by auto
  then show ?thesis by (simp add: safe_write_def fun_eq_iff)
qed

text \<open>A negative number is accepted by \<open>safe_strtoul\<close>, as a large one.\<close>

lemma strtoul_negative: "strtoul10 ''-1'' = (2 ^ 64 - 1, [], 0)"
  by (simp add: strtoul10_def scan_sign_def is_space_def starts_digit_def digit_val_def)

end
