(* ===== verification/Safe_Files.thy ===== *)
theory Safe_Files
  imports Safe_Macros
begin

text \<open>
  \<^verbatim>\<open>lib/safe_file_ops.c\<close>, \<^verbatim>\<open>lib/tst_process_state.c\<close> and \<^verbatim>\<open>lib/tst_resource.c\<close>: reading and writing small files, waiting for the
  state of a process, and copying a resource of a test. What the system answers (\<open>fopen\<close>, \<open>vfscanf\<close>, \<open>vfprintf\<close>, \<open>fclose\<close>,
  \<open>access\<close>, \<open>system\<close>) is an argument; an \<open>errno\<close> of 0 is a success. A result says how many streams the function leaves open.
  \<open>None\<close> is undefined behaviour (a null stream is used, or a character that was never read), or a result that is not
  returned from.
\<close>

section \<open>Files\<close>

fun count_loop :: "bool \<Rightarrow> 32 word \<Rightarrow> string \<Rightarrow> 32 word" where
  "count_loop flag cnt [] = cnt"
| "count_loop flag cnt (c # fmt) =
     (if c = CHR ''%'' then if flag then count_loop False (cnt - 1) fmt else count_loop True (cnt + 1) fmt
      else if c = CHR ''*'' then if flag then count_loop False (cnt - 1) fmt else count_loop flag cnt fmt
      else count_loop False cnt fmt)"

definition count_scanf_conversions :: "string \<Rightarrow> int" where
  "count_scanf_conversions fmt = sint (count_loop False 0 fmt)"

definition safe_file_scanf ::
  "tconf \<Rightarrow> string \<Rightarrow> int \<Rightarrow> (tst \<Rightarrow> ctl option) option \<Rightarrow> string \<Rightarrow> string \<Rightarrow> int \<Rightarrow> int \<Rightarrow> tst \<Rightarrow> (ctl \<times> nat) option" where
  "safe_file_scanf cf file lineno cleanup path fmt fopen ret s =
     on_break (brk_if cf fopen cleanup (''Failed to open FILE '' @ quoted path @ '' for reading'' @ at_line file lineno) s) 0 (\<lambda>s.
       if fopen \<noteq> 0 then None
       else (let exp_convs = count_scanf_conversions fmt
         in on_break (if ret = -1 then tst_brkm cf TBROK cleanup (''The FILE '' @ quoted path @ '' ended prematurely'' @ at_line file lineno) s
                      else Some (Go s)) 1 (\<lambda>s.
            on_break (if ret \<noteq> exp_convs
                      then tst_brkm cf TBROK cleanup (''Expected '' @ show_int exp_convs @ '' conversions got '' @ show_int ret @
                             '' FILE '' @ quoted path @ at_line file lineno) s
                      else Some (Go s)) 1 (\<lambda>s. Some (Go s, 1)))))"

definition safe_file_printf ::
  "tconf \<Rightarrow> string \<Rightarrow> int \<Rightarrow> (tst \<Rightarrow> ctl option) option \<Rightarrow> string \<Rightarrow> int \<Rightarrow> int \<Rightarrow> int \<Rightarrow> tst \<Rightarrow> (ctl \<times> nat) option" where
  "safe_file_printf cf file lineno cleanup path fopen ret fclose s =
     on_break (brk_if cf fopen cleanup (''Failed to open FILE '' @ quoted path @ '' for writing'' @ at_line file lineno) s) 0 (\<lambda>s.
       if fopen \<noteq> 0 then None
       else on_break (if ret < 0 then tst_brkm cf TBROK cleanup (''Failed to print to FILE '' @ quoted path @ at_line file lineno) s
                      else Some (Go s)) 1 (\<lambda>s.
            on_break (brk_if cf fclose cleanup (''Failed to close FILE '' @ quoted path @ at_line file lineno) s) 0 (\<lambda>s. Some (Go s, 0))))"

text \<open>The command that \<open>system\<close> gets; the buffer is large enough for it.\<close>

definition cp_command :: "string \<Rightarrow> string \<Rightarrow> string" where
  "cp_command src dst =
     take (length src + length dst + 15) (''cp '' @ [CHR 0x22] @ src @ [CHR 0x22] @ '' '' @ [CHR 0x22] @ dst @ [CHR 0x22])"

definition safe_cp ::
  "tconf \<Rightarrow> string \<Rightarrow> int \<Rightarrow> (tst \<Rightarrow> ctl option) option \<Rightarrow> (string \<Rightarrow> int) \<Rightarrow> string \<Rightarrow> string \<Rightarrow> tst \<Rightarrow> (ctl \<times> string list) option" where
  "safe_cp cf file lineno cleanup system src dst s =
     (let buf = cp_command src dst
      in on_break (if system buf \<noteq> 0 then tst_brkm cf TBROK cleanup (''Failed to copy '' @ quoted src @ '' to '' @ quoted dst @
                     at_line file lineno) s else Some (Go s)) [buf] (\<lambda>s. Some (Go s, [buf])))"

section \<open>The state of a process\<close>

text \<open>\<open>poll i\<close> is the value of \<open>vfscanf\<close> in the i-th round, and the character that it stores. A process can have \<open>limit\<close> streams
  open, of which \<open>k\<close> are; \<open>cur\<close> is \<open>cur_state\<close>, \<open>None\<close> before it is stored.\<close>

lemma scanf_opens:
  assumes "safe_file_scanf cf file lineno cleanup path fmt e ret s = Some (Go s', n)"
  shows "e = 0 \<and> n = 1"
  using assms by (auto simp: safe_file_scanf_def on_break_def Let_def split: if_splits option.splits ctl.splits)

definition proc_path :: "int \<Rightarrow> string" where
  "proc_path pid = take 127 (''/proc/'' @ show_int pid @ ''/stat'')"

function state_loop ::
  "tconf \<Rightarrow> string \<Rightarrow> int \<Rightarrow> (tst \<Rightarrow> ctl option) option \<Rightarrow> int \<Rightarrow> char \<Rightarrow> (nat \<Rightarrow> int \<times> char) \<Rightarrow> nat \<Rightarrow> nat \<Rightarrow> nat \<Rightarrow> char option \<Rightarrow> tst \<Rightarrow>
     (ctl \<times> nat) option" where
  "state_loop cf file lineno cleanup pid state poll limit k i cur s =
     (case poll i of (ret, ch) \<Rightarrow>
        (case safe_file_scanf cf file lineno cleanup (proc_path pid) ''%*i %*s %c'' (if k < limit then 0 else 24) ret s of
           None \<Rightarrow> None
         | Some (Exited e s, n) \<Rightarrow> Some (Exited e s, k + n)
         | Some (Go s, n) \<Rightarrow>
             (case (if ret = 1 then Some ch else cur) of
                None \<Rightarrow> None
              | Some c \<Rightarrow> if state = c then Some (Go s, k + n)
                          else state_loop cf file lineno cleanup pid state poll limit (k + n) (i + 1) (Some c) s)))"
  by pat_completeness auto
termination
  by (relation "measure (\<lambda>(cf, file, lineno, cleanup, pid, state, poll, limit, k, i, cur, s). limit - k)")
    (auto dest: scanf_opens split: if_splits)

declare state_loop.simps [simp del]

definition tst_process_state_wait ::
  "tconf \<Rightarrow> string \<Rightarrow> int \<Rightarrow> (tst \<Rightarrow> ctl option) option \<Rightarrow> int \<Rightarrow> char \<Rightarrow> (nat \<Rightarrow> int \<times> char) \<Rightarrow> nat \<Rightarrow> nat \<Rightarrow> tst \<Rightarrow> (ctl \<times> nat) option" where
  "tst_process_state_wait cf file lineno cleanup pid state poll limit k s =
     state_loop cf file lineno cleanup pid state poll limit k 0 None s"

section \<open>Resources\<close>

text \<open>\<open>Inl\<close> is a file that cannot be read; otherwise the end of \<open>safe_cp\<close>.\<close>

definition file_copy ::
  "tconf \<Rightarrow> string \<Rightarrow> int \<Rightarrow> (tst \<Rightarrow> ctl option) option \<Rightarrow> (string \<Rightarrow> bool) \<Rightarrow> (string \<Rightarrow> int) \<Rightarrow> string \<Rightarrow> string \<Rightarrow> string \<Rightarrow> tst \<Rightarrow>
     (unit + ctl \<times> string list) option" where
  "file_copy cf file lineno cleanup readable system path filename dest s =
     (let buf = take (length path + length filename + 1) (path @ ''/'' @ filename)
      in if \<not> readable buf then Some (Inl ())
         else map_option Inr (safe_cp cf file lineno cleanup system buf dest s))"

text \<open>The calls of \<open>file_copy\<close> in order; the first that finds its file ends the search.\<close>

fun copy_from ::
  "(string \<Rightarrow> tst \<Rightarrow> (unit + ctl \<times> string list) option) \<Rightarrow> string list \<Rightarrow> (tst \<Rightarrow> (ctl \<times> string list) option) \<Rightarrow> tst \<Rightarrow> (ctl \<times> string list) option" where
  "copy_from copy [] last_resort s = last_resort s"
| "copy_from copy (d # ds) last_resort s =
     (case copy d s of None \<Rightarrow> None | Some (Inr r) \<Rightarrow> Some r | Some (Inl _) \<Rightarrow> copy_from copy ds last_resort s)"

definition resource_dirs :: "string option \<Rightarrow> string \<Rightarrow> string list" where
  "resource_dirs ltproot startwd =
     (case ltproot of
        None \<Rightarrow> []
      | Some root \<Rightarrow> [take (length root + 63) (root @ ''/testcases/data''), take (length root + 63) (root @ ''/testcases/bin'')]) @ [startwd]"

definition tst_resource_copy ::
  "tconf \<Rightarrow> string \<Rightarrow> int \<Rightarrow> (tst \<Rightarrow> ctl option) option \<Rightarrow> tmpd \<Rightarrow> (string \<Rightarrow> string option) \<Rightarrow> (string \<Rightarrow> bool) \<Rightarrow> (string \<Rightarrow> int) \<Rightarrow>
     string \<Rightarrow> string option \<Rightarrow> tst \<Rightarrow> (ctl \<times> string list) option" where
  "tst_resource_copy cf file lineno cleanup td getenv readable system filename dest s =
     on_break (if \<not> tst_tmpdir_created td then tst_brkm cf TBROK cleanup (''Temporary directory doesn'' @ [CHR 0x27] @ ''t exist'' @ at_line file lineno) s
               else Some (Go s)) [] (\<lambda>s.
       let dest = (case dest of None \<Rightarrow> ''.'' | Some d \<Rightarrow> d)
       in copy_from (\<lambda>d. file_copy cf file lineno cleanup readable system d filename dest)
            (resource_dirs (getenv ''LTPROOT'') (tst_get_startwd td))
            (\<lambda>s. on_break (tst_brkm cf TBROK cleanup (''Failed to copy resource '' @ quoted filename @ at_line file lineno) s) []
                   (\<lambda>s. Some (Go s, []))) s)"

section \<open>Counting conversions\<close>

text \<open>A format as a list of its parts: a character that stands for itself, the two characters of a percent sign, a conversion
  that assigns, and one with its assignment suppressed. The words behind the percent sign have none in them, so that sets of
  characters that contain one are left out.\<close>

datatype fmt_part = Plain_char char | Percent_sign | Assigns string | Suppressed string

fun part_text :: "fmt_part \<Rightarrow> string" where
  "part_text (Plain_char c) = [c]"
| "part_text Percent_sign = ''%%''"
| "part_text (Assigns w) = CHR ''%'' # w"
| "part_text (Suppressed w) = CHR ''%'' # CHR ''*'' # w"

fun part_ok :: "fmt_part \<Rightarrow> bool" where
  "part_ok (Plain_char c) \<longleftrightarrow> c \<noteq> CHR ''%''"
| "part_ok Percent_sign \<longleftrightarrow> True"
| "part_ok (Assigns w) \<longleftrightarrow> w \<noteq> [] \<and> hd w \<noteq> CHR ''*'' \<and> CHR ''%'' \<notin> set w"
| "part_ok (Suppressed w) \<longleftrightarrow> CHR ''%'' \<notin> set w"

definition assigning :: "fmt_part list \<Rightarrow> nat" where
  "assigning ps = length (filter (\<lambda>p. case p of Assigns w \<Rightarrow> True | _ \<Rightarrow> False) ps)"

lemma count_loop_plain: "CHR ''%'' \<notin> set w \<Longrightarrow> count_loop False cnt (w @ fmt) = count_loop False cnt fmt"
  by (induction w) auto

lemma count_loop_part:
  assumes "part_ok p"
  shows "count_loop False cnt (part_text p @ fmt) = count_loop False (cnt + of_nat (assigning [p])) fmt"
proof (cases p)
  case (Assigns w)
  with assms obtain c v where "w = c # v" "c \<noteq> CHR ''*''" "c \<noteq> CHR ''%''" "CHR ''%'' \<notin> set v" by (cases w) auto
  with Assigns show ?thesis by (simp add: assigning_def count_loop_plain)
qed (use assms in \<open>simp_all add: assigning_def count_loop_plain\<close>)

lemma count_loop_parts:
  "\<forall>p \<in> set ps. part_ok p \<Longrightarrow> count_loop False cnt (concat (map part_text ps)) = cnt + of_nat (assigning ps)"
proof (induction ps arbitrary: cnt)
  case (Cons p ps)
  have asg: "assigning (p # ps) = assigning [p] + assigning ps" by (simp add: assigning_def)
  show ?case using Cons count_loop_part [of p cnt "concat (map part_text ps)"]
    by (simp add: asg del: part_text.simps part_ok.simps count_loop.simps)
qed (simp add: assigning_def)

section \<open>Properties\<close>

text \<open>The automaton that counts the conversions of a format gives the number of conversions that assign, for every format
  made of plain characters, percent signs, conversions and suppressed conversions, with any widths and modifiers.\<close>

lemma count_conversions_exact:
  assumes "\<forall>p \<in> set ps. part_ok p" "assigning ps < 2 ^ 31"
  shows "count_scanf_conversions (concat (map part_text ps)) = int (assigning ps)"
proof -
  have "sint (of_nat (assigning ps) :: 32 word) = int (assigning ps)"
    using assms(2) by (simp add: signed_of_nat signed_take_bit_int_eq_self)
  then show ?thesis using count_loop_parts [OF assms(1), of 0] by (simp add: count_scanf_conversions_def)
qed

lemma count_conversions_exact_witness: "count_scanf_conversions ''%*i %*s %c 100%% %5d'' = 2"
  using count_conversions_exact [of "[Suppressed ''i'', Plain_char (CHR '' ''), Suppressed ''s'', Plain_char (CHR '' ''), Assigns ''c'',
    Plain_char (CHR '' ''), Plain_char (CHR ''1''), Plain_char (CHR ''0''), Plain_char (CHR ''0''), Percent_sign, Plain_char (CHR '' ''),
    Assigns ''5d'']"]
  by (simp add: assigning_def)

text \<open>The two outcomes of a round of waiting.\<close>

lemma stat_format: "count_scanf_conversions ''%*i %*s %c'' = 1"
  by (simp add: count_scanf_conversions_def)

lemma scanf_reads: "safe_file_scanf cf file lineno cleanup path ''%*i %*s %c'' 0 1 s = Some (Go s, 1)"
  by (simp add: safe_file_scanf_def brk_if_def stat_format)

lemma scanf_no_stream:
  assumes "ready_tst cf s" "length file \<le> 300" "int_fits 32 lineno" "length path \<le> 300"
  shows "\<exists>s'. safe_file_scanf cf file lineno None path fmt 24 ret s = Some (Exited (exit_status (T_exitval s OR TBROK)) s', 0)"
proof -
  have "mesg_ok (''Failed to open FILE '' @ quoted path @ '' for reading'' @ at_line file lineno)"
    using assms(2,4) show_pid_length [OF assms(3)] by (simp add: mesg_ok_def at_line_def quoted_def)
  from brk_errno_ends [OF assms(1) this, of 24] show ?thesis by (auto simp: safe_file_scanf_def brk_if_def int_fits_def)
qed

lemma state_loop_runs:
  assumes "ready_tst cf s" "length file \<le> 300" "int_fits 32 lineno" "\<forall>i. fst (poll i) = 1" "k \<le> limit"
  shows "if \<exists>n < limit - k. snd (poll (i + n)) = state
    then state_loop cf file lineno None pid state poll limit k i cur s = Some (Go s, k + (LEAST n. snd (poll (i + n)) = state) + 1)
    else \<exists>s'. state_loop cf file lineno None pid state poll limit k i cur s = Some (Exited (exit_status (T_exitval s OR TBROK)) s', limit)"
  using assms(5)
proof (induction "limit - k" arbitrary: k i cur)
  case 0
  then have k: "k = limit" by simp
  obtain s' where "safe_file_scanf cf file lineno None (proc_path pid) ''%*i %*s %c'' 24 (fst (poll i)) s =
      Some (Exited (exit_status (T_exitval s OR TBROK)) s', 0)"
    using scanf_no_stream [OF assms(1-3), of "proc_path pid"] by (fastforce simp: proc_path_def)
  then have "state_loop cf file lineno None pid state poll limit k i cur s = Some (Exited (exit_status (T_exitval s OR TBROK)) s', limit)"
    using k by (subst state_loop.simps) (simp add: split_beta)
  with k show ?case by simp
next
  case (Suc m)
  then have k: "k < limit" and m: "m = limit - (k + 1)" by simp_all
  obtain ch where ch: "poll i = (1, ch)" using assms(4) by (cases "poll i") (metis fst_conv)
  have step: "state_loop cf file lineno None pid state poll limit k i cur s =
      (if state = ch then Some (Go s, k + 1) else state_loop cf file lineno None pid state poll limit (k + 1) (i + 1) (Some ch) s)"
    using k by (subst state_loop.simps) (simp add: ch scanf_reads)
  show ?case
  proof (cases "state = ch")
    case True
    then have "(LEAST n. snd (poll (i + n)) = state) = 0" by (intro Least_eq_0) (simp add: ch)
    moreover have "\<exists>n < limit - k. snd (poll (i + n)) = state" using k True ch by (intro exI [of _ 0]) simp
    ultimately show ?thesis using True step by simp
  next
    case False
    have shift: "(\<exists>n < limit - k. snd (poll (i + n)) = state) \<longleftrightarrow> (\<exists>n < limit - (k + 1). snd (poll (i + 1 + n)) = state)"
    proof
      assume "\<exists>n < limit - k. snd (poll (i + n)) = state"
      then obtain n where n: "n < limit - k" "snd (poll (i + n)) = state" by blast
      with False ch obtain n' where "n = Suc n'" by (cases n) auto
      with n show "\<exists>n < limit - (k + 1). snd (poll (i + 1 + n)) = state" by (intro exI [of _ n']) auto
    next
      assume "\<exists>n < limit - (k + 1). snd (poll (i + 1 + n)) = state"
      then obtain n where n: "n < limit - (k + 1)" "snd (poll (i + 1 + n)) = state" by blast
      then show "\<exists>n < limit - k. snd (poll (i + n)) = state" by (intro exI [of _ "Suc n"]) auto
    qed
    have least: "(LEAST n. snd (poll (i + n)) = state) = Suc (LEAST n. snd (poll (i + 1 + n)) = state)"
      if ex: "\<exists>n < limit - k. snd (poll (i + n)) = state"
    proof -
      obtain n where "snd (poll (i + n)) = state" using ex by blast
      from Least_Suc [of "\<lambda>n. snd (poll (i + n)) = state", OF this] False ch show ?thesis by simp
    qed
    from Suc.hyps(1) [OF m, of "i + 1" "Some ch"] k show ?thesis
      unfolding step shift [symmetric] using False least by (auto split: if_splits)
  qed
qed

text \<open>C21: a wait for the state of a process leaves one more stream open in every round, because \<open>safe_file_scanf\<close> never closes
  its file. It returns when the process gets into the state within as many rounds as there are descriptors left, having used up
  one for each round; otherwise it does not wait any longer but ends the test broken, with every descriptor in use.\<close>

theorem process_state_descriptors:
  assumes "ready_tst cf s" "length file \<le> 300" "int_fits 32 lineno" "\<forall>i. fst (poll i) = 1" "k \<le> limit"
  shows "if \<exists>n < limit - k. snd (poll n) = state
    then tst_process_state_wait cf file lineno None pid state poll limit k s = Some (Go s, k + (LEAST n. snd (poll n) = state) + 1)
    else \<exists>s'. tst_process_state_wait cf file lineno None pid state poll limit k s =
      Some (Exited (exit_status (T_exitval s OR TBROK)) s', limit)"
  using state_loop_runs [OF assms, of 0 state pid None] by (simp add: tst_process_state_wait_def)

theorem process_state_descriptors_witness:
  "\<exists>s'. tst_process_state_wait (demo_tconf ''VERBOSE'') ''t.c'' 7 None 42 (CHR ''Z'')
      (\<lambda>i. (1, if i < 1021 then CHR ''S'' else CHR ''Z'')) 1024 3 (tst_init\<lparr>first_time := False\<rparr>) =
    Some (Exited (exit_status (0 OR TBROK)) s', 1024)"
proof -
  let ?s = "tst_init\<lparr>first_time := False\<rparr>"
  have s: "ready_tst (demo_tconf ''VERBOSE'') ?s"
    using demo_modes(3) by (simp add: ready_tst_def calm_tst_def tst_init_def demo_tconf_def int_fits_def tcid_ok_def)
  have z: "T_exitval ?s = 0" by (simp add: tst_init_def)
  have "length ''t.c'' \<le> 300" "int_fits 32 7" by (simp_all add: int_fits_def)
  note runs = process_state_descriptors [OF s this, of "\<lambda>i. (1, if i < 1021 then CHR ''S'' else CHR ''Z'')" 3 1024 "CHR ''Z''" 42]
  have "\<not> (\<exists>n < 1024 - 3. snd ((\<lambda>i. (1 :: int, if i < 1021 then CHR ''S'' else CHR ''Z'')) (n :: nat)) = CHR ''Z'')" by simp
  with runs show ?thesis unfolding z by (simp only: if_False) simp
qed

text \<open>A resource is copied by one command, from the first directory that has it.\<close>

lemma cp_command_whole:
  "cp_command src dst = ''cp '' @ [CHR 0x22] @ src @ [CHR 0x22] @ '' '' @ [CHR 0x22] @ dst @ [CHR 0x22]"
  by (simp add: cp_command_def)

lemma resource_copied:
  assumes "tst_tmpdir_created td" "\<And>c. system c = 0"
    and "find (\<lambda>d. readable (d @ ''/'' @ filename)) (resource_dirs (getenv ''LTPROOT'') (tst_get_startwd td)) = Some d"
  shows "tst_resource_copy cf file lineno cleanup td getenv readable system filename (Some dest) s =
    Some (Go s, [cp_command (d @ ''/'' @ filename) dest])"
proof -
  have "copy_from (\<lambda>d. file_copy cf file lineno cleanup readable system d filename dest) ds k s =
      Some (Go s, [cp_command (d @ ''/'' @ filename) dest])"
    if "find (\<lambda>d. readable (d @ ''/'' @ filename)) ds = Some d" for ds k
    using that by (induction ds) (auto simp: file_copy_def safe_cp_def assms(2) Let_def split: if_splits)
  with assms(1,3) show ?thesis by (simp add: tst_resource_copy_def)
qed

end
