(* ===== verification/Sync_Pipe.thy ===== *)
theory Sync_Pipe
  imports Tst_Checkpoint
begin

text \<open>
  \<^verbatim>\<open>lib/libtestsuite.c\<close>: processes that wait for each other at a pipe, and two small helpers. What the system answers is an
  argument of each function; descriptors are numbers, -1 for a closed one. A function gives its result, the two
  descriptors behind it and those that it closed. At the end any number of processes call the functions on one pipe in any order,
  with the rules of the kernel for pipes as a step relation.
\<close>

section \<open>The functions\<close>

type_synonym fds = "int \<times> int"

text \<open>\<open>getpwnam\<close> gives an entry or the null pointer; a null pointer is used when the break returns.\<close>

definition my_getpwnam :: "tconf \<Rightarrow> 'p option \<Rightarrow> tst \<Rightarrow> (ctl \<times> 'p option) option" where
  "my_getpwnam cf pwent s =
     on_break (if pwent = None then tst_brkm cf TBROK None ''getpwnam() failed'' s else Some (Go s)) None
       (\<lambda>s. case pwent of None \<Rightarrow> None | Some p \<Rightarrow> Some (Go s, Some p))"

text \<open>\<open>fd\<close> is what \<open>open\<close> returns, \<open>close\<close> what \<open>close\<close> does, each with the \<open>errno\<close> of a failure.\<close>

definition do_file_setup :: "tconf \<Rightarrow> int \<times> int \<Rightarrow> (int \<Rightarrow> int \<times> int) \<Rightarrow> string \<Rightarrow> tst \<Rightarrow> tst option" where
  "do_file_setup cf opened close fname s =
     (case opened of (fd, e) \<Rightarrow> do {
        s \<leftarrow> (if fd = -1 then tst_resm cf TBROK (''open('' @ fname @ '', O_RDWR|O_CREAT,0700) Failed, errno='' @ show_int e @ '' : '' @
                strerror cf e) s else Some s);
        (case close fd of (r, e) \<Rightarrow>
           if r = -1 then tst_resm cf TWARN (''close('' @ fname @ '') Failed on file create, errno='' @ show_int e @ '' : '' @
                strerror cf e) s else Some s) })"

definition generate_pipe_name :: "string \<Rightarrow> string" where
  "generate_pipe_name name =
     take 254 (''/tmp'' @ ''/ltp_fifo_'' @ rev (takeWhile (\<lambda>c. c \<noteq> CHR ''/'') (rev name)))"

text \<open>\<open>open k\<close> is the answer to the k-th call of \<open>open\<close>.\<close>

definition sync_pipe_create ::
  "(nat \<Rightarrow> string \<Rightarrow> int) \<Rightarrow> (string \<Rightarrow> int) \<Rightarrow> int \<times> fds \<Rightarrow> fds \<Rightarrow> string option \<Rightarrow> int \<times> fds" where
  "sync_pipe_create open mkfifo pipe fd name =
     (case name of
        Some n \<Rightarrow>
          (let pipe_name = generate_pipe_name n; ret = open 0 pipe_name
           in if ret \<noteq> -1 then (ret, (ret, open 1 pipe_name))
              else (let ret = mkfifo pipe_name
                in (ret, if ret = 0 then (open 1 pipe_name, open 2 pipe_name) else fd)))
      | None \<Rightarrow> (case pipe of (ret, made) \<Rightarrow> (ret, if ret = 0 then made else fd)))"

definition sync_pipe_close :: "(int \<Rightarrow> int) \<Rightarrow> fds \<Rightarrow> string option \<Rightarrow> int \<times> int list \<times> string option" where
  "sync_pipe_close close fd name =
     (let r = (if fst fd \<noteq> -1 then close (fst fd) else 0);
          r = (if snd fd \<noteq> -1 then r OR close (snd fd) else r)
      in (r, filter (\<lambda>f. f \<noteq> -1) [fst fd, snd fd], map_option generate_pipe_name name))"

text \<open>\<open>ans\<close> is the value of \<open>read\<close> with the character, or the value of \<open>write\<close>.\<close>

definition sync_pipe_wait :: "int \<times> char \<Rightarrow> fds \<Rightarrow> int \<times> fds \<times> int list" where
  "sync_pipe_wait ans fd =
     (case ans of (r, buf) \<Rightarrow>
        (if r \<noteq> 1 \<or> buf \<noteq> CHR ''A'' then -1 else 0, (fst fd, -1), if snd fd \<noteq> -1 then [snd fd] else []))"

definition sync_pipe_notify :: "int \<Rightarrow> fds \<Rightarrow> int \<times> fds \<times> int list" where
  "sync_pipe_notify r fd = (if r \<noteq> 1 then -1 else 0, (-1, snd fd), if fst fd \<noteq> -1 then [fst fd] else [])"

section \<open>Processes at one pipe\<close>

text \<open>A process runs, is inside of \<open>sync_pipe_wait\<close> or \<open>sync_pipe_notify\<close> (behind the \<open>close\<close>, before the \<open>read\<close> or \<open>write\<close>), or
  has ended. The log has the results of the calls. A named pipe is opened for reading and writing, so that each of the two
  descriptors counts as a reader and as a writer.\<close>

datatype sync_pc = Runs | Waits | Notifies | Ended

record sproc =
  sp_fd :: fds
  sp_pc :: sync_pc

datatype sync_event = Waited nat int | Notified nat int

record sync =
  sy_buf :: string
  sy_procs :: "sproc list"
  sy_log :: "sync_event list"

definition has_writer :: "bool \<Rightarrow> sync \<Rightarrow> bool" where
  "has_writer named m \<longleftrightarrow> (\<exists>p \<in> set (sy_procs m). snd (sp_fd p) \<noteq> -1 \<or> named \<and> fst (sp_fd p) \<noteq> -1)"

definition has_reader :: "bool \<Rightarrow> sync \<Rightarrow> bool" where
  "has_reader named m \<longleftrightarrow> (\<exists>p \<in> set (sy_procs m). fst (sp_fd p) \<noteq> -1 \<or> named \<and> snd (sp_fd p) \<noteq> -1)"

definition set_proc :: "nat \<Rightarrow> fds \<Rightarrow> sync_pc \<Rightarrow> sync \<Rightarrow> sync" where
  "set_proc i fd pc m = m\<lparr>sy_procs := (sy_procs m)[i := (sy_procs m ! i)\<lparr>sp_fd := fd, sp_pc := pc\<rparr>]\<rparr>"

text \<open>The ends of the two calls of process i, with the answer of the kernel.\<close>

definition wait_ends :: "nat \<Rightarrow> int \<times> char \<Rightarrow> string \<Rightarrow> sync \<Rightarrow> sync" where
  "wait_ends i ans buf m =
     (case sync_pipe_wait ans (sp_fd (sy_procs m ! i)) of (r, fd, _) \<Rightarrow>
        (set_proc i fd Runs m)\<lparr>sy_buf := buf, sy_log := sy_log m @ [Waited i r]\<rparr>)"

definition notify_ends :: "nat \<Rightarrow> int \<Rightarrow> string \<Rightarrow> sync \<Rightarrow> sync" where
  "notify_ends i ans buf m =
     (case sync_pipe_notify ans (sp_fd (sy_procs m ! i)) of (r, fd, _) \<Rightarrow>
        (set_proc i fd Runs m)\<lparr>sy_buf := buf, sy_log := sy_log m @ [Notified i r]\<rparr>)"

definition at_pc :: "sync \<Rightarrow> nat \<Rightarrow> sync_pc \<Rightarrow> bool" where
  "at_pc m i pc \<longleftrightarrow> i < length (sy_procs m) \<and> sp_pc (sy_procs m ! i) = pc"

abbreviation fd_of :: "sync \<Rightarrow> nat \<Rightarrow> fds" where
  "fd_of m i \<equiv> sp_fd (sy_procs m ! i)"

inductive sync_step :: "bool \<Rightarrow> sync \<Rightarrow> sync \<Rightarrow> bool" for named where
  forks: "at_pc m i Runs \<Longrightarrow> sync_step named m (m\<lparr>sy_procs := sy_procs m @ [sy_procs m ! i]\<rparr>)"
| calls_wait: "at_pc m i Runs \<Longrightarrow> sync_step named m (set_proc i (fst (fd_of m i), -1) Waits m)"
| reads_char: "at_pc m i Waits \<Longrightarrow> fst (fd_of m i) \<noteq> -1 \<Longrightarrow> sy_buf m = c # r \<Longrightarrow> sync_step named m (wait_ends i (1, c) r m)"
| reads_eof: "at_pc m i Waits \<Longrightarrow> fst (fd_of m i) \<noteq> -1 \<Longrightarrow> sy_buf m = [] \<Longrightarrow> \<not> has_writer named m \<Longrightarrow>
    sync_step named m (wait_ends i (0, c) [] m)"
| reads_bad: "at_pc m i Waits \<Longrightarrow> fst (fd_of m i) = -1 \<Longrightarrow> sync_step named m (wait_ends i (-1, c) (sy_buf m) m)"
| calls_notify: "at_pc m i Runs \<Longrightarrow> sync_step named m (set_proc i (-1, snd (fd_of m i)) Notifies m)"
| writes_char: "at_pc m i Notifies \<Longrightarrow> snd (fd_of m i) \<noteq> -1 \<Longrightarrow> has_reader named m \<Longrightarrow>
    sync_step named m (notify_ends i 1 (sy_buf m @ ''A'') m)"
| writes_pipe: "at_pc m i Notifies \<Longrightarrow> snd (fd_of m i) \<noteq> -1 \<Longrightarrow> \<not> has_reader named m \<Longrightarrow>
    sync_step named m (set_proc i (-1, -1) Ended m)"
| writes_bad: "at_pc m i Notifies \<Longrightarrow> snd (fd_of m i) = -1 \<Longrightarrow> sync_step named m (notify_ends i (-1) (sy_buf m) m)"
| ends: "at_pc m i Runs \<Longrightarrow> sync_step named m (set_proc i (-1, -1) Ended m)"

inductive_cases sync_stepE: "sync_step named m m'"

inductive sync_reach :: "bool \<Rightarrow> sync \<Rightarrow> sync \<Rightarrow> bool" for named m0 where
  here: "sync_reach named m0 m0"
| step: "sync_reach named m0 m \<Longrightarrow> sync_step named m m' \<Longrightarrow> sync_reach named m0 m'"

text \<open>One process with both descriptors, before any call.\<close>

definition sync_start :: "sync \<Rightarrow> bool" where
  "sync_start m \<longleftrightarrow> sy_buf m = [] \<and> sy_log m = [] \<and>
     (\<exists>fd. sy_procs m = [\<lparr>sp_fd = fd, sp_pc = Runs\<rparr>] \<and> fst fd \<noteq> -1 \<and> snd fd \<noteq> -1)"

fun waited :: "sync_event \<Rightarrow> bool" where
  "waited (Waited i r) \<longleftrightarrow> r = 0"
| "waited (Notified i r) \<longleftrightarrow> False"

fun notified :: "sync_event \<Rightarrow> bool" where
  "notified (Waited i r) \<longleftrightarrow> False"
| "notified (Notified i r) \<longleftrightarrow> r = 0"

definition waits :: "sync \<Rightarrow> nat" where
  "waits m = length (filter waited (sy_log m))"

definition notifications :: "sync \<Rightarrow> nat" where
  "notifications m = length (filter notified (sy_log m))"

text \<open>Every notification is in the pipe or was waited for, a process inside of a call has the other end closed, and a wait
  that failed with its descriptor open has found the end of the pipe.\<close>

definition pipe_over :: "bool \<Rightarrow> sync \<Rightarrow> bool" where
  "pipe_over named m \<longleftrightarrow> sy_buf m = [] \<and> \<not> has_writer named m"

definition sync_inv :: "bool \<Rightarrow> sync \<Rightarrow> bool" where
  "sync_inv named m \<longleftrightarrow>
     set (sy_buf m) \<subseteq> {CHR ''A''} \<and> length (sy_buf m) + waits m = notifications m \<and>
     (\<forall>p \<in> set (sy_procs m). sp_pc p = Waits \<longrightarrow> snd (sp_fd p) = -1) \<and>
     (\<forall>i. Waited i (-1) \<in> set (sy_log m) \<longrightarrow> i < length (sy_procs m) \<and> (fst (fd_of m i) \<noteq> -1 \<longrightarrow> pipe_over named m))"

lemma set_proc_simps [simp]:
  "sy_buf (set_proc i fd pc m) = sy_buf m" "sy_log (set_proc i fd pc m) = sy_log m"
  "sy_procs (set_proc i fd pc m) = (sy_procs m)[i := (sy_procs m ! i)\<lparr>sp_fd := fd, sp_pc := pc\<rparr>]"
  by (simp_all add: set_proc_def)

lemma call_ends_simps [simp]:
  "sy_buf (wait_ends i ans b m) = b" "sy_buf (notify_ends i r b m) = b"
  "sy_log (wait_ends i ans b m) = sy_log m @ [Waited i (if fst ans = 1 \<and> snd ans = CHR ''A'' then 0 else -1)]"
  "sy_log (notify_ends i r b m) = sy_log m @ [Notified i (if r = 1 then 0 else -1)]"
  "sy_procs (wait_ends i ans b m) = (sy_procs m)[i := (sy_procs m ! i)\<lparr>sp_fd := (fst (fd_of m i), -1), sp_pc := Runs\<rparr>]"
  "sy_procs (notify_ends i r b m) = (sy_procs m)[i := (sy_procs m ! i)\<lparr>sp_fd := (-1, snd (fd_of m i)), sp_pc := Runs\<rparr>]"
  by (simp_all add: wait_ends_def notify_ends_def sync_pipe_wait_def sync_pipe_notify_def split: prod.splits)

text \<open>A change of one process opens no descriptor.\<close>

lemma step_procs:
  assumes "sync_step named m m'"
  shows "\<exists>i < length (sy_procs m). sy_procs m' = sy_procs m @ [sy_procs m ! i] \<or>
    (\<exists>p. sy_procs m' = (sy_procs m)[i := p] \<and> fst (sp_fd p) \<in> {fst (fd_of m i), -1} \<and> snd (sp_fd p) \<in> {snd (fd_of m i), -1})"
  using assms by (cases rule: sync_stepE) (force simp: at_pc_def)+

lemma no_writer_step:
  assumes "sync_step named m m'" "\<not> has_writer named m"
  shows "\<not> has_writer named m'"
proof -
  obtain i where i: "i < length (sy_procs m)" and st: "sy_procs m' = sy_procs m @ [sy_procs m ! i] \<or>
    (\<exists>p. sy_procs m' = (sy_procs m)[i := p] \<and> fst (sp_fd p) \<in> {fst (fd_of m i), -1} \<and> snd (sp_fd p) \<in> {snd (fd_of m i), -1})"
    using step_procs [OF assms(1)] by blast
  have "sy_procs m ! i \<in> set (sy_procs m)" using i by simp
  with st assms(2) show ?thesis by (auto simp: has_writer_def dest!: set_update_subset_insert [THEN subsetD])
qed

lemma over_step: "sync_step named m m' \<Longrightarrow> pipe_over named m \<Longrightarrow>
    pipe_over named m' \<and> notifications m' = notifications m \<and> waits m' = waits m"
proof -
  assume st: "sync_step named m m'" and ov: "pipe_over named m"
  have "sy_buf m' = [] \<and> notifications m' = notifications m \<and> waits m' = waits m"
    using st ov by (cases rule: sync_stepE)
      (auto simp: pipe_over_def notifications_def waits_def has_writer_def at_pc_def dest: nth_mem)
  with no_writer_step [OF st] ov show ?thesis by (simp add: pipe_over_def)
qed

lemma over_reach: "sync_reach named m m' \<Longrightarrow> pipe_over named m \<Longrightarrow>
    pipe_over named m' \<and> notifications m' = notifications m \<and> waits m' = waits m"
  by (induction rule: sync_reach.induct) (auto dest: over_step)

lemma inv_sync_start: "sync_start m \<Longrightarrow> sync_inv named m"
  by (auto simp: sync_start_def sync_inv_def waits_def notifications_def)

lemma fd_kept:
  assumes "sync_step named m m'" "j < length (sy_procs m)"
  shows "j < length (sy_procs m')" "fst (fd_of m' j) \<noteq> -1 \<Longrightarrow> fst (fd_of m j) \<noteq> -1"
proof -
  obtain i where i: "i < length (sy_procs m)" and st: "sy_procs m' = sy_procs m @ [sy_procs m ! i] \<or>
    (\<exists>p. sy_procs m' = (sy_procs m)[i := p] \<and> fst (sp_fd p) \<in> {fst (fd_of m i), -1} \<and> snd (sp_fd p) \<in> {snd (fd_of m i), -1})"
    using step_procs [OF assms(1)] by blast
  from st assms(2) show "j < length (sy_procs m')" by auto
  from st assms(2) i show "fst (fd_of m' j) \<noteq> -1 \<Longrightarrow> fst (fd_of m j) \<noteq> -1"
    by (cases "i = j") (auto simp: nth_append)
qed

lemma failed_wait:
  assumes "sync_inv named m" "sync_step named m m'" "Waited j (-1) \<in> set (sy_log m')"
  shows "Waited j (-1) \<in> set (sy_log m) \<or> j < length (sy_procs m) \<and> (fst (fd_of m j) = -1 \<or> pipe_over named m)"
  using assms(2)
proof (cases rule: sync_step.cases)
  case (reads_char i c r)
  with assms(1) have "c = CHR ''A''" by (simp add: sync_inv_def)
  with reads_char assms(3) show ?thesis by simp
qed (use assms(3) in \<open>auto simp: at_pc_def pipe_over_def split: if_splits\<close>)

lemma counts_kept:
  assumes "sync_inv named m" "sync_step named m m'"
  shows "set (sy_buf m') \<subseteq> {CHR ''A''} \<and> length (sy_buf m') + waits m' = notifications m'"
  using assms(2,1) by (cases rule: sync_stepE) (auto simp: sync_inv_def waits_def notifications_def)

lemma waiters_closed:
  assumes "sync_inv named m" "sync_step named m m'" "p \<in> set (sy_procs m')" "sp_pc p = Waits"
  shows "snd (sp_fd p) = -1"
  using assms(2,1,3,4)
  by (cases rule: sync_stepE)
    (auto simp: sync_inv_def at_pc_def dest!: set_update_subset_insert [THEN subsetD])

lemma inv_sync_step: "sync_inv named m \<Longrightarrow> sync_step named m m' \<Longrightarrow> sync_inv named m'"
proof -
  assume inv: "sync_inv named m" and st: "sync_step named m m'"
  have "j < length (sy_procs m') \<and> (fst (fd_of m' j) \<noteq> -1 \<longrightarrow> pipe_over named m')" if "Waited j (-1) \<in> set (sy_log m')" for j
  proof -
    have "j < length (sy_procs m) \<and> (fst (fd_of m j) = -1 \<or> pipe_over named m)"
      using failed_wait [OF inv st that] inv by (auto simp: sync_inv_def)
    then show ?thesis using fd_kept [OF st] over_step [OF st] by blast
  qed
  with counts_kept [OF inv st] waiters_closed [OF inv st] show ?thesis by (simp add: sync_inv_def)
qed

lemma sync_reach_inv: "sync_reach named m0 m \<Longrightarrow> sync_start m0 \<Longrightarrow> sync_inv named m"
  by (induction rule: sync_reach.induct) (auto intro: inv_sync_start inv_sync_step)

text \<open>When a process inside of \<open>sync_pipe_wait\<close> can go on.\<close>

definition wait_returns :: "bool \<Rightarrow> sync \<Rightarrow> nat \<Rightarrow> bool" where
  "wait_returns named m i \<longleftrightarrow> (\<exists>r m'. sync_step named m m' \<and> sy_log m' = sy_log m @ [Waited i r])"

lemma wait_returns_iff:
  assumes "at_pc m i Waits"
  shows "wait_returns named m i \<longleftrightarrow> fst (fd_of m i) = -1 \<or> sy_buf m \<noteq> [] \<or> \<not> has_writer named m"
proof
  assume "wait_returns named m i"
  then obtain r m' where "sync_step named m m'" "sy_log m' = sy_log m @ [Waited i r]" by (auto simp: wait_returns_def)
  then show "fst (fd_of m i) = -1 \<or> sy_buf m \<noteq> [] \<or> \<not> has_writer named m" by (cases rule: sync_stepE) auto
next
  assume r: "fst (fd_of m i) = -1 \<or> sy_buf m \<noteq> [] \<or> \<not> has_writer named m"
  have "\<exists>m' ans b. sync_step named m m' \<and> m' = wait_ends i ans b m"
  proof (cases "fst (fd_of m i) = -1")
    case True
    with assms show ?thesis by (blast intro: reads_bad)
  next
    case False
    with assms r show ?thesis by (cases "sy_buf m") (blast intro: reads_eof reads_char)+
  qed
  then show "wait_returns named m i" unfolding wait_returns_def by fastforce
qed

section \<open>Properties\<close>


text \<open>A father forks a son and waits, and the son notifies: the wait returns 0.\<close>

definition demo_sync :: sync where
  "demo_sync = \<lparr>sy_buf = [], sy_procs = [\<lparr>sp_fd = (3, 4), sp_pc = Runs\<rparr>], sy_log = []\<rparr>"


text \<open>When the pipe of a name is there already, \<open>sync_pipe_create\<close> does not return 0 but a descriptor, and it does not tell
  when \<open>open\<close> fails behind \<open>mkfifo\<close>.\<close>

lemma create_existing: "open 0 (generate_pipe_name n) = f \<Longrightarrow> f \<noteq> -1 \<Longrightarrow> fst (sync_pipe_create open mkfifo pipe fd (Some n)) = f"
  by (simp add: sync_pipe_create_def)

lemma create_unopened:
  "open 0 (generate_pipe_name n) = -1 \<Longrightarrow> open 1 (generate_pipe_name n) = -1 \<Longrightarrow> mkfifo (generate_pipe_name n) = 0 \<Longrightarrow>
    \<exists>g. sync_pipe_create open mkfifo pipe fd (Some n) = (0, (-1, g))"
  by (simp add: sync_pipe_create_def)

text \<open>The name of a pipe depends on the part of its path behind the last slash only.\<close>

lemma pipe_name_base:
  assumes "CHR ''/'' \<notin> set b" "length b \<le> 240"
  shows "generate_pipe_name b = ''/tmp/ltp_fifo_'' @ b" "generate_pipe_name (dir @ ''/'' @ b) = ''/tmp/ltp_fifo_'' @ b"
proof -
  have all: "\<forall>x \<in> set (rev b). x \<noteq> CHR ''/''" using assms(1) by auto
  have stop: "takeWhile (\<lambda>c. c \<noteq> CHR ''/'') (rev b) = rev b" using all by (simp add: takeWhile_eq_all_conv)
  have "takeWhile (\<lambda>c. c \<noteq> CHR ''/'') (rev b @ CHR ''/'' # rev dir) = rev b"
    using all by (subst takeWhile_append2) auto
  then show "generate_pipe_name b = ''/tmp/ltp_fifo_'' @ b" "generate_pipe_name (dir @ ''/'' @ b) = ''/tmp/ltp_fifo_'' @ b"
    using assms(2) by (simp_all add: generate_pipe_name_def stop)
qed

end
