(* ===== verification/Lib_Suite.thy ===== *)
theory Lib_Suite
  imports Safe_Macros Parse_Opts
begin

text \<open>
  The small files of the library and the macros around a test: \<^verbatim>\<open>lib/cloner.c\<close>, \<^verbatim>\<open>lib/system_specific_process_info.c\<close>,
  \<^verbatim>\<open>lib/tst_cpu.c\<close>, \<^verbatim>\<open>lib/tst_cwd_has_free.c\<close>, \<^verbatim>\<open>lib/tst_is_cwd.c\<close>, \<^verbatim>\<open>lib/get_high_address.c\<close>, and from
  \<^verbatim>\<open>include/usctest.h\<close> the calls that are tested and the log of their errors. What the system answers is an argument.
\<close>

section \<open>Tested calls and the log of errors\<close>

definition USC_MAX_ERRNO :: int where "USC_MAX_ERRNO = 2000"

record usc =
  TEST_RETURN :: int
  TEST_ERRNO :: int
  STD_ERRNO_LIST :: "int list"
  TEST_VALID_ENO :: "bool list"

definition usc_init :: usc where
  "usc_init = \<lparr>TEST_RETURN = 0, TEST_ERRNO = 0, STD_ERRNO_LIST = replicate 2000 0, TEST_VALID_ENO = replicate 2000 False\<rparr>"

text \<open>\<open>scall\<close> gets \<open>errno\<close> and gives the value returned and the new \<open>errno\<close>.\<close>

definition TEST_call :: "(int \<Rightarrow> int \<times> int) \<Rightarrow> usc \<Rightarrow> usc" where
  "TEST_call scall u = (case scall 0 of (r, e) \<Rightarrow> u\<lparr>TEST_RETURN := r, TEST_ERRNO := e\<rparr>)"

definition TEST_VOID :: "(int \<Rightarrow> int) \<Rightarrow> usc \<Rightarrow> usc" where
  "TEST_VOID scall u = u\<lparr>TEST_ERRNO := scall 0\<rparr>"

definition TEST_ERROR_LOG :: "std \<Rightarrow> int \<Rightarrow> usc \<Rightarrow> usc option" where
  "TEST_ERROR_LOG st eno u =
     (if STD_ERRNO_LOG st \<noteq> 0 \<and> eno < USC_MAX_ERRNO
      then if eno < 0 then None
           else do { n \<leftarrow> checked 32 (STD_ERRNO_LIST u ! nat eno + 1); Some (u\<lparr>STD_ERRNO_LIST := (STD_ERRNO_LIST u)[nat eno := n]\<rparr>) }
      else Some u)"

text \<open>The array ends with 0.\<close>

fun TEST_EXP_ENOS :: "int list \<Rightarrow> usc \<Rightarrow> usc option" where
  "TEST_EXP_ENOS [] u = None"
| "TEST_EXP_ENOS (e # es) u =
     (if e = 0 then Some u
      else if e < USC_MAX_ERRNO
      then if e < 0 then None else TEST_EXP_ENOS es (u\<lparr>TEST_VALID_ENO := (TEST_VALID_ENO u)[nat e := True]\<rparr>)
      else TEST_EXP_ENOS es u)"

definition errno_line :: "nat \<Rightarrow> int \<Rightarrow> bool \<Rightarrow> string" where
  "errno_line i n valid =
     ''ERRNO '' @ show_int (int i) @ '':'' @ [CHR 0x09] @ ''Received '' @ show_int n @ '' Times'' @ (if valid then [] else '' ** UNEXPECTED **'')"

fun cleanup_loop :: "tconf \<Rightarrow> usc \<Rightarrow> nat list \<Rightarrow> tst \<Rightarrow> tst option" where
  "cleanup_loop cf u [] s = Some s"
| "cleanup_loop cf u (i # is) s =
     (if STD_ERRNO_LIST u ! i = 0 then cleanup_loop cf u is s
      else do { s \<leftarrow> tst_resm cf TINFO (errno_line i (STD_ERRNO_LIST u ! i) (TEST_VALID_ENO u ! i)) s; cleanup_loop cf u is s })"

definition TEST_CLEANUP :: "tconf \<Rightarrow> std \<Rightarrow> usc \<Rightarrow> tst \<Rightarrow> tst option" where
  "TEST_CLEANUP cf st u s = (if STD_ERRNO_LOG st = 0 then Some s else cleanup_loop cf u [0..<nat USC_MAX_ERRNO] s)"

section \<open>Clones\<close>

text \<open>\<open>clone\<close> gets the stack, as an address with 0 for the null pointer, and gives its value and \<open>errno\<close>. The allocation gives
  an address and the \<open>errno\<close> of a failure. \<open>free\<close> may leave any \<open>errno\<close>. The result is the value, \<open>errno\<close> and what was freed.\<close>

definition ltp_clone :: "(64 word \<Rightarrow> int \<times> int) \<Rightarrow> 64 word \<Rightarrow> 64 word \<Rightarrow> int \<times> int" where
  "ltp_clone clone stack_size stack = clone (if stack \<noteq> 0 then stack + stack_size else 0)"

definition ltp_clone_malloc ::
  "(64 word \<Rightarrow> int \<times> int) \<Rightarrow> (64 word \<Rightarrow> 64 word \<times> int) \<Rightarrow> (64 word \<Rightarrow> int) \<Rightarrow> 64 word \<Rightarrow> int \<times> int \<times> 64 word list" where
  "ltp_clone_malloc clone malloc free_errno stack_size =
     (case malloc stack_size of (stack, e) \<Rightarrow>
        if stack = 0 then (-1, e, [])
        else (case ltp_clone clone stack_size stack of (ret, e) \<Rightarrow>
          if ret = -1 then (let saved_errno = e; e = free_errno stack; e = saved_errno in (ret, e, [stack]))
          else (ret, e, [])))"

definition ltp_clone_quick ::
  "(64 word \<Rightarrow> int \<times> int) \<Rightarrow> (64 word \<Rightarrow> 64 word \<times> int) \<Rightarrow> (64 word \<Rightarrow> int) \<Rightarrow> int \<Rightarrow> (int \<times> int \<times> 64 word list) option" where
  "ltp_clone_quick clone malloc free_errno pagesize =
     do { n \<leftarrow> checked 32 (pagesize * 6); Some (ltp_clone_malloc clone malloc free_errno (word_of_int n)) }"

section \<open>Questions to the system\<close>

text \<open>\<open>pid_max\<close> is the first line of the file: \<open>None\<close> when it cannot be opened, \<open>Some None\<close> when it cannot be read.
  \<open>ps\<close> is the result of \<open>fscanf\<close> with the number that it read, \<open>None\<close> when the program cannot be run.\<close>

definition get_max_pids :: "tconf \<Rightarrow> string option option \<Rightarrow> tst \<Rightarrow> (int \<times> tst) option" where
  "get_max_pids cf pid_max s =
     (case pid_max of
        None \<Rightarrow> map_option (Pair (-1)) (tst_resm cf TBROK ''Could not open /proc/sys/kernel/pid_max'' s)
      | Some None \<Rightarrow> map_option (Pair (-1)) (tst_resm cf TBROK ''Could not read /proc/sys/kernel/pid_max'' s)
      | Some (Some buf) \<Rightarrow> Some (atoi (take 511 buf), s))"

definition get_free_pids :: "tconf \<Rightarrow> (int \<times> int) option \<Rightarrow> string option option \<Rightarrow> tst \<Rightarrow> (int \<times> tst) option" where
  "get_free_pids cf ps pid_max s =
     (case ps of
        None \<Rightarrow> map_option (Pair (-1)) (tst_resm cf TBROK (''Could not run '' @ quoted ''ps'' @ '' to calculate used pids'') s)
      | Some (rc, used_pids) \<Rightarrow>
          if rc \<noteq> 1 \<or> used_pids < 0
          then map_option (Pair (-1)) (tst_resm cf TBROK (''Could not read output of '' @ quoted ''ps'' @ '' to calculate used pids'') s)
          else do {
            (max_pids, s) \<leftarrow> get_max_pids cf pid_max s;
            if max_pids < 0 then Some (-1, s) else Some (max_pids - used_pids, s) })"

definition tst_ncpus :: "tconf \<Rightarrow> string \<Rightarrow> int \<times> int \<Rightarrow> tst \<Rightarrow> (ctl \<times> int) option" where
  "tst_ncpus cf file ans s = safe_sysconf cf file 29 None ans s"

definition tst_ncpus_max :: "tconf \<Rightarrow> string \<Rightarrow> int \<times> int \<Rightarrow> tst \<Rightarrow> (ctl \<times> int) option" where
  "tst_ncpus_max cf file ans s = safe_sysconf cf file 40 None ans s"

text \<open>The answer of \<open>statfs\<close> is undefined when it fails, which is not checked. The free blocks and the size of a block: the quotient
  in the divisor is one of integers, and a floating-point division by 0 gives an infinity, or for 0 no number.
  \<open>rnd\<close> rounds to a \<open>float\<close>.\<close>

definition tst_cwd_has_free :: "(rat \<Rightarrow> rat) \<Rightarrow> (nat \<times> nat) option \<Rightarrow> int \<Rightarrow> int option" where
  "tst_cwd_has_free rnd sf required_kib =
     (case sf of
        None \<Rightarrow> None
      | Some (f_bfree, f_bsize) \<Rightarrow>
          if f_bsize = 0 then None
          else (let d = 1024 div f_bsize
            in if d = 0 then Some (if f_bfree \<noteq> 0 then 1 else 0)
               else Some (if rnd (of_int required_kib) \<le> rnd (rnd (of_nat f_bfree) / of_nat d) then 1 else 0)))"

definition cwd_is :: "int \<Rightarrow> int option \<Rightarrow> int option" where
  "cwd_is magic sf = map_option (\<lambda>f_type. if f_type = magic then 1 else 0) sf"

definition tst_is_cwd_tmpfs :: "int option \<Rightarrow> int option" where "tst_is_cwd_tmpfs = cwd_is 0x01021994"
definition tst_is_cwd_nfs :: "int option \<Rightarrow> int option" where "tst_is_cwd_nfs = cwd_is 0x6969"
definition tst_is_cwd_v9fs :: "int option \<Rightarrow> int option" where "tst_is_cwd_v9fs = cwd_is 0x01021997"
definition tst_is_cwd_ramfs :: "int option \<Rightarrow> int option" where "tst_is_cwd_ramfs = cwd_is 0x858458f6"

definition get_high_address :: "64 word \<Rightarrow> int \<Rightarrow> 64 word option" where
  "get_high_address sbrk pagesize = map_option (\<lambda>n. sbrk + word_of_int n) (checked 32 (4 * pagesize))"

section \<open>Properties\<close>

text \<open>A test that logs the errors of its calls prints at its end one line for each error that it has met, in the order of the
  numbers, with how often it met it and whether it was expected.\<close>

fun log_errnos :: "std \<Rightarrow> int list \<Rightarrow> usc \<Rightarrow> usc option" where
  "log_errnos st [] u = Some u"
| "log_errnos st (e # es) u = do { u \<leftarrow> TEST_ERROR_LOG st e u; log_errnos st es u }"

lemma nth_update: "i < length xs \<Longrightarrow> xs[k := x] ! i = (if i = k then x else xs ! i)"
  by (cases "i = k") auto

lemma exp_enos_result:
  assumes "\<forall>e \<in> set es. 0 < e"
  shows "\<exists>v. TEST_EXP_ENOS (es @ 0 # junk) u = Some (u\<lparr>TEST_VALID_ENO := v\<rparr>) \<and> length v = length (TEST_VALID_ENO u) \<and>
    (\<forall>i < length v. v ! i \<longleftrightarrow> TEST_VALID_ENO u ! i \<or> int i \<in> set es \<and> int i < USC_MAX_ERRNO)"
  using assms
proof (induction es arbitrary: u)
  case (Cons e es)
  let ?u = "if e < USC_MAX_ERRNO then u\<lparr>TEST_VALID_ENO := (TEST_VALID_ENO u)[nat e := True]\<rparr> else u"
  from Cons obtain v where v: "TEST_EXP_ENOS (es @ 0 # junk) ?u = Some (?u\<lparr>TEST_VALID_ENO := v\<rparr>)" "length v = length (TEST_VALID_ENO ?u)"
    "\<forall>i < length v. v ! i \<longleftrightarrow> TEST_VALID_ENO ?u ! i \<or> int i \<in> set es \<and> int i < USC_MAX_ERRNO" by (metis list.set_intros(2))
  have "0 < e" using Cons.prems by simp
  then have "TEST_VALID_ENO ?u ! i \<longleftrightarrow> TEST_VALID_ENO u ! i \<or> int i = e \<and> e < USC_MAX_ERRNO" if "i < length (TEST_VALID_ENO u)" for i
    using that by (auto simp: nth_update)
  moreover have "TEST_EXP_ENOS ((e # es) @ 0 # junk) u = TEST_EXP_ENOS (es @ 0 # junk) ?u" using \<open>0 < e\<close> by simp
  moreover have "?u\<lparr>TEST_VALID_ENO := v\<rparr> = u\<lparr>TEST_VALID_ENO := v\<rparr>" "length (TEST_VALID_ENO ?u) = length (TEST_VALID_ENO u)" by simp_all
  ultimately show ?case using v by (intro exI [of _ v]) auto
next
  case Nil
  show ?case by (intro exI [of _ "TEST_VALID_ENO u"]) simp
qed

lemma log_errnos_result:
  assumes "STD_ERRNO_LOG st \<noteq> 0" "\<forall>e \<in> set es. 0 \<le> e \<and> e < USC_MAX_ERRNO" "length (STD_ERRNO_LIST u) = 2000"
    "\<forall>i < 2000. 0 \<le> STD_ERRNO_LIST u ! i \<and> STD_ERRNO_LIST u ! i + int (length es) < 2 ^ 31"
  shows "\<exists>l. log_errnos st es u = Some (u\<lparr>STD_ERRNO_LIST := l\<rparr>) \<and> length l = 2000 \<and>
    (\<forall>i < 2000. l ! i = STD_ERRNO_LIST u ! i + int (count_list es (int i)))"
  using assms(2-)
proof (induction es arbitrary: u)
  case (Cons e es)
  have e: "0 \<le> e" "nat e < 2000" "e < USC_MAX_ERRNO" using Cons.prems(1) by (auto simp: USC_MAX_ERRNO_def)
  let ?l = "STD_ERRNO_LIST u"
  let ?u = "u\<lparr>STD_ERRNO_LIST := ?l[nat e := ?l ! nat e + 1]\<rparr>"
  have "int_fits 32 (?l ! nat e + 1)" using Cons.prems(3) e(2) by (fastforce simp: int_fits_def)
  then have st: "log_errnos st (e # es) u = log_errnos st es ?u" using assms(1) e by (simp add: TEST_ERROR_LOG_def)
  have "\<forall>i < 2000. 0 \<le> STD_ERRNO_LIST ?u ! i \<and> STD_ERRNO_LIST ?u ! i + int (length es) < 2 ^ 31"
  proof (intro allI impI)
    fix i :: nat assume i: "i < 2000"
    with Cons.prems(3) have "0 \<le> ?l ! i \<and> ?l ! i + int (length es) + 1 < 2 ^ 31" by fastforce
    then show "0 \<le> STD_ERRNO_LIST ?u ! i \<and> STD_ERRNO_LIST ?u ! i + int (length es) < 2 ^ 31"
      using i e Cons.prems(2) by (auto simp: nth_list_update)
  qed
  moreover have "\<forall>e \<in> set es. 0 \<le> e \<and> e < USC_MAX_ERRNO" "length (STD_ERRNO_LIST ?u) = 2000" using Cons.prems(1,2) by simp_all
  ultimately obtain l where l: "log_errnos st es ?u = Some (?u\<lparr>STD_ERRNO_LIST := l\<rparr>)" "length l = 2000"
    "\<forall>i < 2000. l ! i = STD_ERRNO_LIST ?u ! i + int (count_list es (int i))" using Cons.IH [of ?u] by blast
  have "STD_ERRNO_LIST ?u ! i = ?l ! i + (if int i = e then 1 else 0)" if "i < 2000" for i
    using that e(1) Cons.prems(2) by (auto simp: nth_update)
  with l show ?case unfolding st by (intro exI [of _ l]) simp
next
  case Nil
  then show ?case by (intro exI [of _ "STD_ERRNO_LIST u"]) simp
qed

lemma cleanup_loop_run:
  "cleanup_loop cf u is s =
     run_resm cf (map (\<lambda>i. (TINFO, errno_line i (STD_ERRNO_LIST u ! i) (TEST_VALID_ENO u ! i))) (filter (\<lambda>i. STD_ERRNO_LIST u ! i \<noteq> 0) is)) s"
proof (induction "is" arbitrary: s)
  case (Cons i "is")
  have "cleanup_loop cf u is = run_resm cf (map (\<lambda>i. (TINFO, errno_line i (STD_ERRNO_LIST u ! i) (TEST_VALID_ENO u ! i)))
      (filter (\<lambda>i. STD_ERRNO_LIST u ! i \<noteq> 0) is))" by (rule ext) (rule Cons.IH)
  then show ?case by simp
qed simp

text \<open>A test that names the errors that it expects, and logs the error of each of its calls, prints in its cleanup exactly
  one line for every error that it met, in ascending order, with the number of times that it met it, marked when it was not
  expected; without the option \<open>-e\<close> it prints nothing.\<close>

lemma error_log_complete:
  assumes "\<forall>e \<in> set expected. 0 < e" "\<forall>e \<in> set es. 0 \<le> e \<and> e < USC_MAX_ERRNO" "length es < 2 ^ 31"
  shows "do { u \<leftarrow> TEST_EXP_ENOS (expected @ 0 # junk) usc_init; u \<leftarrow> log_errnos st es u; TEST_CLEANUP cf st u s } =
    (if STD_ERRNO_LOG st = 0 then Some s
     else run_resm cf (map (\<lambda>e. (TINFO, errno_line (nat e) (int (count_list es e)) (e \<in> set expected))) (sorted_list_of_set (set es))) s)"
proof -
  obtain v where v: "TEST_EXP_ENOS (expected @ 0 # junk) usc_init = Some (usc_init\<lparr>TEST_VALID_ENO := v\<rparr>)" "length v = 2000"
    "\<forall>i < 2000. v ! i \<longleftrightarrow> int i \<in> set expected"
    using exp_enos_result [OF assms(1), of junk usc_init] by (fastforce simp: usc_init_def USC_MAX_ERRNO_def)
  let ?u = "usc_init\<lparr>TEST_VALID_ENO := v\<rparr>"
  show ?thesis
  proof (cases "STD_ERRNO_LOG st = 0")
    case True
    then have "log_errnos st es ?u = Some ?u" by (induction es) (simp_all add: TEST_ERROR_LOG_def)
    with True v(1) show ?thesis by (simp add: TEST_CLEANUP_def)
  next
    case False
    have "\<forall>i < 2000. 0 \<le> STD_ERRNO_LIST ?u ! i \<and> STD_ERRNO_LIST ?u ! i + int (length es) < 2 ^ 31"
      using assms(3) by (simp add: usc_init_def)
    with log_errnos_result [OF False assms(2), of ?u] obtain l where l: "log_errnos st es ?u = Some (?u\<lparr>STD_ERRNO_LIST := l\<rparr>)"
      "\<forall>i < 2000. l ! i = int (count_list es (int i))" by (auto simp: usc_init_def)
    let ?w = "?u\<lparr>STD_ERRNO_LIST := l\<rparr>"
    let ?is = "filter (\<lambda>i. STD_ERRNO_LIST ?w ! i \<noteq> 0) [0..<2000]"
    have sel: "?is = filter (\<lambda>i. int i \<in> set es) [0..<2000]" using l(2) by (intro filter_cong) (auto simp: count_list_0_iff)
    have "set (map int ?is) = set es"
    proof -
      have "e \<in> int ` {i \<in> {0..<2000}. int i \<in> set es}" if "e \<in> set es" for e
        using that assms(2) by (intro image_eqI [of _ _ "nat e"]) (auto simp: USC_MAX_ERRNO_def)
      then show ?thesis unfolding sel by auto
    qed
    moreover have "sorted (map int ?is)" "distinct (map int ?is)"
      by (auto intro!: sorted_wrt_filter simp: sorted_map sorted_wrt_upt distinct_map)
    ultimately have list: "sorted_list_of_set (set es) = map int ?is"
      by (metis sorted_list_of_set.idem_if_sorted_distinct)
    have lines: "map (\<lambda>i. (TINFO, errno_line i (STD_ERRNO_LIST ?w ! i) (TEST_VALID_ENO ?w ! i))) ?is =
        map ((\<lambda>e. (TINFO, errno_line (nat e) (int (count_list es e)) (e \<in> set expected))) \<circ> int) ?is"
      using v(3) l(2) by (intro map_cong) auto
    have n: "nat USC_MAX_ERRNO = 2000" by (simp add: USC_MAX_ERRNO_def)
    have "do { u \<leftarrow> TEST_EXP_ENOS (expected @ 0 # junk) usc_init; u \<leftarrow> log_errnos st es u; TEST_CLEANUP cf st u s } =
        cleanup_loop cf ?w [0..<2000] s" using False v(1) l(1) by (simp add: TEST_CLEANUP_def n)
    also have "\<dots> = run_resm cf (map (\<lambda>e. (TINFO, errno_line (nat e) (int (count_list es e)) (e \<in> set expected))) (map int ?is)) s"
      unfolding cleanup_loop_run lines map_map ..
    finally show ?thesis using False by (simp only: list if_False)
  qed
qed

lemma error_log_complete_witness:
  "do { u \<leftarrow> TEST_EXP_ENOS ([2] @ 0 # []) usc_init; u \<leftarrow> log_errnos ((std_init 0)\<lparr>STD_ERRNO_LOG := 1\<rparr>) [13, 2, 13] u;
      TEST_CLEANUP (demo_tconf ''VERBOSE'') ((std_init 0)\<lparr>STD_ERRNO_LOG := 1\<rparr>) u tst_init } =
    run_resm (demo_tconf ''VERBOSE'') [(TINFO, errno_line 2 1 True), (TINFO, errno_line 13 2 False)] tst_init"
proof -
  have "{13, 2, 13} = set [2, 13 :: int]" by auto
  then have "sorted_list_of_set (set [13, 2, 13 :: int]) = [2, 13]"
    using sorted_list_of_set.idem_if_sorted_distinct [of "[2, 13 :: int]"] by simp
  moreover have "length [13, 2, 13 :: int] < 2 ^ 31" by simp
  ultimately show ?thesis
    using error_log_complete [of "[2]" "[13, 2, 13]" "[]" "(std_init 0)\<lparr>STD_ERRNO_LOG := 1\<rparr>"] by (simp add: USC_MAX_ERRNO_def)
qed

text \<open>A child gets a stack of its own, from the top down; it is freed exactly when there is no child, and then \<open>errno\<close> is
  that of \<open>clone\<close>.\<close>

lemma clone_stack:
  assumes "malloc stack_size = (stack, e)" "stack \<noteq> 0" "clone (stack + stack_size) = (ret, e')"
  shows "ltp_clone_malloc clone malloc free_errno stack_size = (ret, e', if ret = -1 then [stack] else [])"
  using assms by (simp add: ltp_clone_malloc_def ltp_clone_def)

text \<open>The number of free pids; when more are in use than there are, it looks like the result of a failure.\<close>

lemma free_pids_exact:
  assumes "0 \<le> used" "line = show_nat n @ [CHR 0x0A]" "length line \<le> 511"
  shows "get_free_pids cf (Some (1, used)) (Some (Some line)) s = Some (int n - used, s)"
proof -
  have "atoi line = int n"
    using assms(2) atoi_show_int [of "[CHR 0x0A]" "int n"] by (simp add: show_int_def starts_digit_def digit_val_def)
  with assms show ?thesis by (simp add: get_free_pids_def get_max_pids_def)
qed

text \<open>The check for free space is right for blocks of up to 1024 bytes, and accepts any single free block of a larger size, as
  the quotient of the sizes is 0.\<close>

lemma has_free_small:
  assumes "f_bsize dvd 1024" "\<And>x. rnd x = x"
  shows "tst_cwd_has_free rnd (Some (f_bfree, f_bsize)) kib = Some (if kib * 1024 \<le> int (f_bfree * f_bsize) then 1 else 0)"
proof -
  obtain d where d: "1024 = f_bsize * d" using assms(1) unfolding dvd_def by blast
  then have pos: "0 < f_bsize" "0 < d" by (auto intro: Nat.gr0I)
  then have q: "1024 div f_bsize = d" unfolding d by simp
  have "of_int kib \<le> (of_nat f_bfree / of_nat d :: rat) \<longleftrightarrow> (of_int (kib * int d) :: rat) \<le> of_int (int f_bfree)"
    using pos(2) by (simp add: pos_le_divide_eq)
  also have "\<dots> \<longleftrightarrow> kib * int d \<le> int f_bfree" by (rule of_int_le_iff)
  also have "\<dots> \<longleftrightarrow> kib * int d * int f_bsize \<le> int f_bfree * int f_bsize" using pos(1) by simp
  also have "kib * int d * int f_bsize = kib * 1024" using d by (simp add: mult.commute flip: of_nat_mult)
  finally show ?thesis using pos assms(2) by (simp add: tst_cwd_has_free_def q)
qed

lemma has_free_large: "1024 < f_bsize \<Longrightarrow> 0 < f_bfree \<Longrightarrow> tst_cwd_has_free rnd (Some (f_bfree, f_bsize)) kib = Some 1"
  by (simp add: tst_cwd_has_free_def)

end
