(* ===== verification/Spec2Isabelle.thy ===== *)
theory Spec2Isabelle
  imports Data_Gen Pan_Main Tst_Res Symbol_Memory Search_Path Forker Write_Log Tlibio Scanner_Type Open_Flags Lib_Numbers Parse_Opts
    Self_Exec File_Lock Tst_Sig Rmobj Tst_Tmpdir Tst_Checkpoint Ltp_Bump
    Mount_Utils Safe_Files Sync_Pipe Lib_Suite
begin

text \<open>
  A model of the core of the VTE test suite (a derivative of the Linux Test Project): the test library
  under \<^verbatim>\<open>src/lib\<close> and the test driver under \<^verbatim>\<open>src/pan\<close>.

  \<^bold>\<open>The program.\<close> A test program is linked with the library. It reports its results by \<open>tst_resm\<close>, \<open>tst_res\<close>,
  \<open>tst_brkm\<close> and \<open>tst_exit\<close> (\<^verbatim>\<open>tst_res.c\<close>), draws parameters from ranges (\<^verbatim>\<open>random_range.c\<close>), and fills and
  checks buffers (\<^verbatim>\<open>pattern.c\<close>, \<^verbatim>\<open>dataascii.c\<close>, \<^verbatim>\<open>databin.c\<close>, \<^verbatim>\<open>datapid.c\<close>). The driver \<^verbatim>\<open>ltp-pan\<close> reads a
  command file of tags and command lines, keeps up to a number of them running as process groups, waits
  for them, propagates signals to them and logs their ends. It records the running pids in an "active
  file", the zoo, that several drivers share under a file lock (\<^verbatim>\<open>zoolib.c\<close>). \<^verbatim>\<open>ltp-scanner\<close> reads what the driver
  has printed: the lexical rules of \<^verbatim>\<open>scan.l\<close> call the functions of \<^verbatim>\<open>reporter.c\<close>, which keep what they
  read in symbol tables (\<^verbatim>\<open>symbol.c\<close>), whose keys are split by \<^verbatim>\<open>splitstr.c\<close>, and \<^verbatim>\<open>tag_report.c\<close> prints a
  report of every test from them.

  \<^bold>\<open>Theories.\<close>
  \<^item> \<open>Prelude\<close>: C integers of a width with overflow as \<open>None\<close> (\<open>checked\<close>), buffers as lists with bounds
    (\<open>buf_get\<close>, \<open>buf_set\<close>, \<open>mem_cpy\<close>), counting loops (\<open>for_find\<close>, \<open>for_set\<close>), \<open>strtok\<close>, the number formats
    of the C library, and the collections \<open>buf_simps\<close>, \<open>cstr_simps\<close> that the component proofs use.
  \<^item> \<open>Data_Gen\<close>: \<open>pattern_fill\<close>, \<open>pattern_check\<close> and the three data generators with their checkers. The
    locales \<open>fill_check\<close> (a writer and a checker of the same content) and \<open>offset_check\<close> (a checker that
    returns the offset of the first bad byte) state what the callers rely on.
  \<^item> \<open>Random_Range\<close>: the parser of range lists, the three range functions, the bit picker; the locale
    \<open>rand_source\<close> is the contract of the generator, interpreted by the model of \<open>lrand48\<close>.
  \<^item> \<open>Zoo\<close>: the active file as a text with a lock, the answers of \<open>fcntl\<close> and \<open>fseek\<close> as functions of
    the number of the call. The abstraction \<open>zoo_pids\<close> is the multiset of the pids that the file holds; the
    locale \<open>active_file\<close> is the contract of marking and clearing, on which the driver's proofs rest.
  \<^item> \<open>Pan_Collection\<close>: the command file, the driver's own arguments, \<open>%f\<close> substitution, name suffixes.
  \<^item> \<open>Pan\<close>: the driver. The record \<open>pan\<close> has the variables of \<open>main\<close> and the static ones (\<open>running\<close>,
    \<open>num_active\<close>, \<open>starts\<close>, \<open>orphans\<close>, the signal state, the logs, the zoo file); \<open>pan_conf\<close> the options;
    \<open>iter_env\<close> what the kernel answers in one iteration (signals that came in, the result of every \<open>fork\<close>
    and \<open>waitpid\<close>, the clock, output files). \<open>iterate\<close> is one iteration of the scheduling loop, composed of
    \<open>launch\<close> (with \<open>run_child\<close>), \<open>handle_stop\<close>, \<open>handle_signal\<close>, \<open>check_pids\<close> (with \<open>reap\<close>) and
    \<open>handle_err\<close>; \<open>pan_reach\<close> is the step relation of the loop, \<open>pan_end\<close> what follows it.
  \<^item> \<open>Pan_Props\<close>: the invariant \<open>pan_inv\<close> of the driver, that every operation keeps it, and its properties.
  \<^item> \<open>Pan_Main\<close>: \<open>main\<close> of the driver from its arguments on (\<open>pan_options\<close>, \<open>pan_setup_main\<close>, \<open>pan_loop\<close>, \<open>ltp_pan\<close>), the child up
    to \<open>exec\<close> (\<open>child_side\<close>); that the set-up establishes the invariant, and that a driver leaves a clean zoo.
  \<^item> \<open>Tst_Res\<close>: the record \<open>tst\<close> has the static variables of \<^verbatim>\<open>tst_res.c\<close>; a call returns the new state,
    or the exit status where the C function ends the process (\<open>ctl\<close>).
  \<^item> \<open>Splitstr\<close>: both tokenisers, with uninitialised and null cells told apart.
  \<^item> \<open>Symbol\<close>: trees of tables, put, get, sequential access, dump; the locale \<open>key_tree\<close> is the contract
    of put and get.
  \<^item> \<open>Symbol_Memory\<close>: the removal of a table on an explicit store of headers, entries and strings.
  \<^item> \<open>Tag_Report\<close>: the lines that are printed for a test from its tables, and the worst result that \<open>cuts_testcase\<close>
    keeps for a test case.
  \<^item> \<open>Scanner\<close>: the lexical rules as functions that match a prefix (\<open>match_rest\<close>), the choice of the longest match
    (\<open>lex_next\<close>), the actions, the table functions of \<^verbatim>\<open>reporter.c\<close> and the main program. The record \<open>scanner\<close> has the
    start condition, \<open>yytext\<close> and the tables.
  \<^item> \<open>Scanner_Lex\<close>: what the rules match, one lemma for each kind of input.
  \<^item> \<open>Scanner_Props\<close>: the report of \<open>Pan\<close> as a text, and that the scanner reports exactly what the driver printed.
  \<^item> \<open>Scanner_Type\<close>: the type of the tables (\<open>keys_typed\<close>, \<open>tag_typed\<close>) that every token needs and keeps.
  \<^item> \<open>Write_Log\<close>: the log of writes that the file-system exercisers keep: records packed into bit fields, appended,
    overlaid, and scanned backward in blocks; \<open>log_file\<close> relates the bytes of a file to a list of records.
  \<^item> \<open>Tlibio\<close>: the methods of reading and writing as bit masks, their parsers, the random choice, the transfer by
    a method, and strides. The record \<open>lio_env\<close> has the kernel's answers, \<open>lio\<close> the signal state.
  \<^item> \<open>Open_Flags\<close>: names of open flags parsed and printed, over the list parser \<open>comma_loop\<close> that \<open>Tlibio\<close> uses too.
  \<^item> \<open>Parse_Opts\<close>: the standard options of every test program. The record \<open>std\<close> has the \<open>STD_\<close> variables of
    \<^verbatim>\<open>parse_opts.c\<close>, \<open>loop_state\<close> the static variables of \<open>usc_test_looping\<close>; \<open>test_loop\<close> is the loop of a test program.
  \<^item> \<open>Search_Path\<close>: the two searches of \<open>$PATH\<close>; the loop of \<open>search_path\<close> works on indices and may run for ever.
  \<^item> \<open>Forker\<close>: \<open>forker\<close> as the list of the processes that return from it, each with its own globals.
  \<^item> \<open>Self_Exec\<close>: a test program that starts itself again with its arguments in one string, and the program that cuts the
    string up again.
  \<^item> \<open>File_Lock\<close>: locks on files and records over the answers of \<open>fcntl\<close>.
  \<^item> \<open>Tst_Sig\<close>: the handlers of unexpected signals, on a table of dispositions.
  \<^item> \<open>Rmobj\<close>: the removal of a tree from a file system, which is the list of its paths (\<open>fs\<close>), with what the system refuses as
    part of the record.
  \<^item> \<open>Tst_Tmpdir\<close>: the temporary directory of a test, made and removed in the file system of \<open>Rmobj\<close>.
  \<^item> \<open>Tst_Checkpoint\<close>: parent and child meeting at a pipe: the functions over the answers of the system, and the step relation
    \<open>meets\<close> in which the kernel's rules for pipes produce those answers.
  \<^item> \<open>Ltp_Bump\<close>: the command that signals tests by their tags, over \<open>Zoo\<close>; it uses the laws of \<open>active_file\<close>.
  \<^item> \<open>Safe_Macros\<close>: the wrappers that end the test when a call fails, and the numbers that they read from strings.
  \<^item> \<open>Safe_Files\<close>: small files with the streams that stay open, the wait for the state of a process, the copy of a resource.
  \<^item> \<open>Mount_Utils\<close>: the entry of the table of mounts for a path; a string on the heap is the size of its block and its text.
  \<^item> \<open>Sync_Pipe\<close>: processes that wait for each other at a pipe, as functions and, for any number of processes, as the step
    relation \<open>sync_step\<close>.
  \<^item> \<open>Lib_Suite\<close>: the log of errors of \<^verbatim>\<open>usctest.h\<close>, and the small files of the library (clones, pids, processors, file systems).
  \<^item> \<open>Lib_Numbers\<close>: \<^verbatim>\<open>tst_kvercmp.c\<close> and \<^verbatim>\<open>bytes_by_prefix.c\<close>.

  \<^bold>\<open>Conventions.\<close> \<open>None\<close> is behaviour that C leaves undefined, a store outside of an object, or a call that does not
  return; so a theorem that a call is \<open>Some _\<close> says that it returns and is free of these. Loops that may run
  for ever are partial functions into \<open>option\<close>, without fuel. What the kernel and the C library answer is
  an argument of the model; their documented laws are named hypotheses (\<open>forks_ok\<close>, \<open>waits_ok\<close>, \<open>granted\<close>),
  each with a witness that satisfies them. Allocation is taken to succeed unless it is an argument.

  \<^bold>\<open>What the lemmas show.\<close> The driver's bookkeeping is exact in all reachable states: the counter, the slots
  and the zoo file agree; iterations return; verdicts are right. The zoo file is a multiset of pids
  whatever the order of operations and the interruptions of the lock. Results are numbered, condensed and
  summed up in the exit status as documented. The generators and checkers are inverse to each other and
  the doubling algorithms agree with the plain ones. The range functions return a multiple inside of the
  range or report that there is none. A temporary directory is removed with all that the test made in it. The tables obey the laws of a tree of keys. The write log refines a
  list of records. The scanner is never undefined on tokens that find its tables typed, and reads the driver's report back. A transfer moves exactly the bytes that were asked for. Settings come from the command line, the
  environment and the defaults in this order, and a test program iterates as often as they say. Where the code
  differs from its documentation the theorem states what the code does, and when.

  \<^bold>\<open>Bounds.\<close> \<open>random_range\<close> is shown correct for bounds that are not negative and below \<open>2 ^ 31\<close> together with
  \<open>mult\<close>, \<open>random_rangell\<close> for ranges up to \<open>2 ^ 61\<close> (beyond that the division of the range in \<open>divider\<close> is not
  covered); the result counter is shown correct while it is below \<open>2 ^ 31\<close>; a log is shown correct below \<open>2 ^ 31\<close> bytes,
  a kernel version for numbers below 256, the scanner for names and lines that fit its buffers (\<open>KEYSIZE\<close>, and 240 for a line). Floating-point numbers are rationals, with rounding as a parameter. The only fuel is in \<open>next_all\<close>,
  a client of \<open>sym_seq\<close>, with one call per entry.

  \<^bold>\<open>Not modelled.\<close> Usage and help texts, debug output, the stand-alone programs in the library's files, signal handlers that only
  count. The macros of \<^verbatim>\<open>usctest.h\<close> for timing and for pausing with a handler. The test cases under \<^verbatim>\<open>testcases\<close>, the vendored libraries under \<^verbatim>\<open>openlibs\<close> and the tools are outside of
  the model.
\<close>

end
